(* ===== verification/Prelude.thy ===== *)
theory Prelude
  imports "HOL-Library.Word" "HOL-Library.Char_ord" "HOL-Library.List_Lexorder"
begin

section \<open>Shared vocabulary: exceptions, effects, bytes\<close>

text \<open>
  What every component of the DBMS model shares:
  \<^item> \<open>exn\<close>: the C++ exception classes the code throws, each with its message;
  \<^item> two ways to compose fallible code: \<open>bindE\<close> for code without state (a value of
    \<open>exn + 'a\<close>) and \<open>bindS\<close> for code that also mutates a state. A computation of type
    \<open>('s, 'a) sx\<close> returns the state it leaves behind in the error case too, because a C++
    exception does not roll back what was already written;
  \<^item> the little-endian byte images of fixed-width integers that the code produces with
    \<open>memcpy\<close> and \<open>ostream::write\<close> on its x86-64 and ARM64 Linux targets.
\<close>

subsection \<open>Exceptions\<close>

text \<open>
  Three constructors are not C++ exceptions: \<open>NoReturn\<close> is the result of a loop whose fuel ran
  out (each use says why that means that the loop of the code does not end), \<open>Undefined\<close>
  marks an operation whose behaviour C++ leaves undefined, such as indexing a vector out of range,
  and \<open>Terminated\<close> is the end of the process by \<open>std::terminate\<close>, which is what an exception
  leaving a \<open>noexcept\<close> function becomes.
\<close>

datatype exn =
    RuntimeError string
  | InvalidArgument string
  | OutOfRange string
  | LengthError string
  | LogicError string
  | ParseError string
  | NoReturn
  | Undefined
  | Terminated

subsection \<open>Fallible code without state\<close>

definition bindE :: "exn + 'a \<Rightarrow> ('a \<Rightarrow> exn + 'b) \<Rightarrow> exn + 'b" where
  "bindE m f = (case m of Inl e \<Rightarrow> Inl e | Inr x \<Rightarrow> f x)"

definition guardE :: "bool \<Rightarrow> exn \<Rightarrow> exn + unit" where
  \<comment> \<open>\<open>if (!b) throw e;\<close>\<close>
  "guardE b e = (if b then Inr () else Inl e)"

fun foldE :: "('a \<Rightarrow> 'b \<Rightarrow> exn + 'b) \<Rightarrow> 'a list \<Rightarrow> 'b \<Rightarrow> exn + 'b" where
  "foldE f [] b = Inr b"
| "foldE f (x # xs) b = bindE (f x b) (foldE f xs)"

fun repeatE :: "nat \<Rightarrow> ('b \<Rightarrow> exn + ('a \<times> 'b)) \<Rightarrow> 'b \<Rightarrow> exn + ('a list \<times> 'b)" where
  \<comment> \<open>a counted loop that reads one item per round\<close>
  "repeatE 0 f b = Inr ([], b)"
| "repeatE (Suc n) f b =
     bindE (f b) (\<lambda>(x, b1). bindE (repeatE n f b1) (\<lambda>(xs, b2). Inr (x # xs, b2)))"

lemma bindE_simps [simp]:
  "bindE (Inl e) f = Inl e"
  "bindE (Inr x) f = f x"
  by (simp_all add: bindE_def)

lemma bindE_eq_Inr: "bindE m f = Inr y \<longleftrightarrow> (\<exists>x. m = Inr x \<and> f x = Inr y)"
  by (cases m) simp_all

lemma bindE_cong [fundef_cong]:
  "m = m' \<Longrightarrow> (\<And>x. m' = Inr x \<Longrightarrow> f x = f' x) \<Longrightarrow> bindE m f = bindE m' f'"
  by (cases m') simp_all

lemma guardE_simps [simp]:
  "guardE True e = Inr ()"
  "guardE False e = Inl e"
  "guardE b e = Inr u \<longleftrightarrow> b"
  by (simp_all add: guardE_def)

lemma guardE_cases: "guardE b e = (if b then Inr () else Inl e)"
  by simp

lemma foldE_append: "foldE f (xs @ ys) b = bindE (foldE f xs b) (foldE f ys)"
proof (induction xs arbitrary: b)
  case (Cons x xs)
  then show ?case by (cases "f x b") simp_all
qed simp

subsection \<open>Fallible code that mutates a state\<close>

type_synonym ('s, 'a) sx = "'s \<Rightarrow> (exn + 'a) \<times> 's"

definition retS :: "'a \<Rightarrow> ('s, 'a) sx" where
  "retS x s = (Inr x, s)"

definition throwS :: "exn \<Rightarrow> ('s, 'a) sx" where
  "throwS e s = (Inl e, s)"

definition bindS :: "('s, 'a) sx \<Rightarrow> ('a \<Rightarrow> ('s, 'b) sx) \<Rightarrow> ('s, 'b) sx" where
  "bindS m f s = (case m s of (Inl e, s') \<Rightarrow> (Inl e, s') | (Inr x, s') \<Rightarrow> f x s')"

definition liftE :: "exn + 'a \<Rightarrow> ('s, 'a) sx" where
  "liftE m s = (m, s)"

definition guardS :: "bool \<Rightarrow> exn \<Rightarrow> ('s, unit) sx" where
  "guardS b e = (if b then retS () else throwS e)"

definition getS :: "('s \<Rightarrow> 'a) \<Rightarrow> ('s, 'a) sx" where
  "getS f s = (Inr (f s), s)"

definition askE :: "('s \<Rightarrow> exn + 'a) \<Rightarrow> ('s, 'a) sx" where
  \<comment> \<open>code that reads the state and may throw, but does not change it\<close>
  "askE f s = (f s, s)"

definition modS :: "('s \<Rightarrow> 's) \<Rightarrow> ('s, unit) sx" where
  "modS f s = (Inr (), f s)"

lemma sx_simps [simp]:
  "retS x s = (Inr x, s)"
  "throwS e s = (Inl e, s)"
  "liftE m s = (m, s)"
  "getS f s = (Inr (f s), s)"
  "askE h s = (h s, s)"
  "modS g s = (Inr (), g s)"
  by (simp_all add: retS_def throwS_def liftE_def getS_def askE_def modS_def)

lemma guardS_simps [simp]:
  "guardS True e s = (Inr (), s)"
  "guardS False e s = (Inl e, s)"
  by (simp_all add: guardS_def)

lemma bindS_Inr: "m s = (Inr x, s') \<Longrightarrow> bindS m f s = f x s'"
  by (simp add: bindS_def)

lemma bindS_Inl: "m s = (Inl e, s') \<Longrightarrow> bindS m f s = (Inl e, s')"
  by (simp add: bindS_def)

lemma bindS_retS [simp]: "bindS (retS x) f s = f x s"
  by (simp add: bindS_def)

lemma bindS_throwS [simp]: "bindS (throwS e) f s = (Inl e, s)"
  by (simp add: bindS_def)

lemma bindS_getS [simp]: "bindS (getS g) f s = f (g s) s"
  by (simp add: bindS_def)

lemma bindS_askE: "h s = Inr x \<Longrightarrow> bindS (askE h) f s = f x s"
  by (simp add: bindS_def)

lemma bindS_askE_Inl: "h s = Inl e \<Longrightarrow> bindS (askE h) f s = (Inl e, s)"
  by (simp add: bindS_def)

lemma bindS_modS [simp]: "bindS (modS h) f s = f () (h s)"
  by (simp add: bindS_def)

lemma bindS_guardS [simp]:
  "bindS (guardS True e) f s = f () s"
  "bindS (guardS False e) f s = (Inl e, s)"
  by (simp_all add: bindS_def)

lemma bindS_liftE [simp]:
  "bindS (liftE (Inr x)) f s = f x s"
  "bindS (liftE (Inl e)) f s = (Inl e, s)"
  by (simp_all add: bindS_def)

lemma bindS_guard: "bindS (guardS b e) f s = (if b then f () s else (Inl e, s))"
  by simp

lemma bindS_eq_Inr:
  "bindS m f s = (Inr y, s'') \<longleftrightarrow> (\<exists>x s'. m s = (Inr x, s') \<and> f x s' = (Inr y, s''))"
  by (auto simp: bindS_def split: prod.splits sum.splits)

lemma bindS_cong [fundef_cong]:
  assumes "m s = m' s'" and "\<And>x s''. m' s' = (Inr x, s'') \<Longrightarrow> f x s'' = f' x s''"
  shows "bindS m f s = bindS m' f' s'"
  using assms by (auto simp: bindS_def split: prod.splits sum.splits)

subsection \<open>Positions in a list\<close>

fun index_of :: "'a \<Rightarrow> 'a list \<Rightarrow> nat option" where
  \<comment> \<open>\<open>std::find\<close>\<close>
  "index_of x [] = None"
| "index_of x (y # ys) = (if x = y then Some 0 else map_option Suc (index_of x ys))"

definition insert_at :: "nat \<Rightarrow> 'a \<Rightarrow> 'a list \<Rightarrow> 'a list" where
  \<comment> \<open>\<open>v.insert(v.begin() + i, x)\<close>\<close>
  "insert_at i x xs = take i xs @ x # drop i xs"

definition erase_at :: "nat \<Rightarrow> 'a list \<Rightarrow> 'a list" where
  \<comment> \<open>\<open>v.erase(v.begin() + i)\<close>\<close>
  "erase_at i xs = take i xs @ drop (Suc i) xs"

lemma index_of_middle: "x \<notin> set ys \<Longrightarrow> index_of x (ys @ x # zs) = Some (length ys)"
  by (induction ys) auto

lemma insert_at_append [simp]:
  "insert_at (length xs) y (xs @ zs) = xs @ y # zs"
  by (simp add: insert_at_def)

lemma erase_at_append [simp]:
  "erase_at (length xs) (xs @ y # zs) = xs @ zs"
  by (simp add: erase_at_def)

lemma length_of_tl: "tl xs = y # ys \<Longrightarrow> length xs = Suc (Suc (length ys))"
  by (cases xs) simp_all

lemma length_insert_at [simp]: "i \<le> length xs \<Longrightarrow> length (insert_at i x xs) = Suc (length xs)"
  by (simp add: insert_at_def)

subsection \<open>Little-endian images of unsigned integers\<close>

fun le_bytes :: "nat \<Rightarrow> nat \<Rightarrow> char list" where
  "le_bytes 0 n = []"
| "le_bytes (Suc k) n = char_of (n mod 256) # le_bytes k (n div 256)"

fun le_nat :: "char list \<Rightarrow> nat" where
  "le_nat [] = 0"
| "le_nat (c # cs) = of_char c + 256 * le_nat cs"

lemma length_le_bytes [simp]: "length (le_bytes k n) = k"
  by (induction k arbitrary: n) simp_all

lemma le_nat_bytes [simp]: "n < 256 ^ k \<Longrightarrow> le_nat (le_bytes k n) = n"
proof (induction k arbitrary: n)
  case (Suc k)
  then have "n div 256 < 256 ^ k"
    by (simp add: div_less_iff_less_mult mult.commute)
  with Suc.IH show ?case by simp
qed simp

lemma of_char_less: "of_char (c :: char) < (256 :: nat)"
proof -
  have "of_char c mod 256 = (of_char c :: nat)" by simp
  then show ?thesis by (metis mod_less_divisor zero_less_numeral)
qed

lemma le_bytes_nat [simp]: "length cs = k \<Longrightarrow> le_bytes k (le_nat cs) = cs"
proof (induction cs arbitrary: k)
  case (Cons c cs)
  have "of_char c < (256 :: nat)" by (rule of_char_less)
  then have "(of_char c + 256 * le_nat cs) mod 256 = of_char c"
    and "(of_char c + 256 * le_nat cs) div 256 = le_nat cs" by simp_all
  with Cons show ?case by auto
qed simp

lemma le_nat_bound: "le_nat cs < 256 ^ length cs"
proof (induction cs)
  case (Cons c cs)
  have step: "a + 256 * n < 256 * m" if "a < 256" "n < m" for a n m :: nat
    using that by linarith
  show ?case using step [OF of_char_less Cons] by simp
qed simp

text \<open>The images of \<open>std::uint64_t\<close> and of the narrower unsigned types.\<close>

definition u64_bytes :: "64 word \<Rightarrow> char list" where
  "u64_bytes w = le_bytes 8 (unat w)"

definition u64_of_bytes :: "char list \<Rightarrow> 64 word" where
  "u64_of_bytes cs = of_nat (le_nat cs)"

lemma length_u64_bytes [simp]: "length (u64_bytes w) = 8"
  by (simp add: u64_bytes_def)

lemma u64_of_u64_bytes [simp]: "u64_of_bytes (u64_bytes w) = w"
proof -
  have "unat w < 256 ^ 8" using unsigned_less [of w] by simp
  then show ?thesis by (simp add: u64_bytes_def u64_of_bytes_def)
qed

lemma le_nat_u64_bytes [simp]: "le_nat (u64_bytes w) = unat w"
proof -
  have "unat w < 256 ^ 8" using unsigned_less [of w] by simp
  then show ?thesis by (simp add: u64_bytes_def)
qed

lemma word64_of_nat_unat: "of_nat (unat (w :: 64 word)) = w"
  by simp

subsection \<open>Overwriting a region of a byte sequence\<close>

definition splice :: "nat \<Rightarrow> 'a list \<Rightarrow> 'a list \<Rightarrow> 'a list" where
  "splice off d xs = take off xs @ d @ drop (off + length d) xs"

definition region :: "nat \<Rightarrow> nat \<Rightarrow> 'a list \<Rightarrow> 'a list" where
  "region off n xs = take n (drop off xs)"

lemma length_splice [simp]: "off + length d \<le> length xs \<Longrightarrow> length (splice off d xs) = length xs"
  by (simp add: splice_def)

lemma region_splice_same: "off \<le> length xs \<Longrightarrow> region off (length d) (splice off d xs) = d"
  by (simp add: region_def splice_def)

lemma region_splice_disjoint:
  assumes "off + length d \<le> length xs" and "a + n \<le> off \<or> off + length d \<le> a"
  shows "region a n (splice off d xs) = region a n xs"
proof (rule nth_equalityI)
  show "length (region a n (splice off d xs)) = length (region a n xs)"
    using assms(1) by (simp add: region_def)
next
  fix i assume "i < length (region a n (splice off d xs))"
  then show "region a n (splice off d xs) ! i = region a n xs ! i"
    using assms by (auto simp: region_def splice_def nth_append)
qed

lemma region_append_left: "off + n \<le> length xs \<Longrightarrow> region off n (xs @ ys) = region off n xs"
  by (simp add: region_def)

end
