(* ===== verification/Index_Key.thy ===== *)
theory Index_Key
  imports Prelude
begin

section \<open>Index keys\<close>

text \<open>
  The key type of the B*+-tree index (\<open>index/include/DiskManager.h\<close>, and the key functions of
  \<open>index/src/bstarplus_tree_index.cpp\<close>): \<open>std::variant<std::int64_t, std::string>\<close>, its kinds,
  its order, its validation and its size on a page.

  A string is a list of bytes. \<open>std::string\<close> compares bytes as \<open>unsigned char\<close>, which is the
  order of \<open>Char_ord\<close> lifted by \<open>List_Lexorder\<close>; an integer key compares as a signed 64-bit
  value. Both orders are joined into an instance of \<open>linorder\<close> for the key type, which puts
  every integer before every string as the variant's alternative index does; the code itself
  refuses to compare keys of different alternatives.
\<close>

datatype index_key = KInt "64 word" | KStr string

text \<open>
  \<open>IndexKeyKind\<close> is an enumeration over \<open>std::uint8_t\<close>; \<open>KindOther b\<close> is a byte read from a file
  that names no enumerator.
\<close>

datatype key_kind = KindInt64 | KindString | KindUnknown | KindOther nat

definition INDEX_STRING_KEY_SIZE :: nat where
  "INDEX_STRING_KEY_SIZE = 256"

subsection \<open>The order of keys\<close>

instantiation index_key :: linorder
begin

fun less_eq_index_key :: "index_key \<Rightarrow> index_key \<Rightarrow> bool" where
  "less_eq_index_key (KInt a) (KInt b) = (sint a \<le> sint b)"
| "less_eq_index_key (KInt a) (KStr t) = True"
| "less_eq_index_key (KStr s) (KInt b) = False"
| "less_eq_index_key (KStr s) (KStr t) = (s \<le> t)"

definition less_index_key :: "index_key \<Rightarrow> index_key \<Rightarrow> bool" where
  "less_index_key a b = (a \<le> b \<and> \<not> b \<le> a)"

instance
proof
  fix x y z :: index_key
  show "(x < y) = (x \<le> y \<and> \<not> y \<le> x)" by (simp add: less_index_key_def)
  show "x \<le> x" by (cases x) simp_all
  show "x \<le> y \<Longrightarrow> y \<le> z \<Longrightarrow> x \<le> z" by (cases x; cases y; cases z) auto
  show "x \<le> y \<Longrightarrow> y \<le> x \<Longrightarrow> x = y"
    by (cases x; cases y) (auto dest: arg_cong [where f = "\<lambda>i. of_int i :: 64 word"])
  show "x \<le> y \<or> y \<le> x" by (cases x; cases y) auto
qed

end

lemma index_key_less_simps [simp]:
  "KInt a < KInt b \<longleftrightarrow> sint a < sint b"
  "KStr s < KStr t \<longleftrightarrow> s < t"
  by (auto simp: less_index_key_def)

subsection \<open>Kinds and comparisons\<close>

fun key_matches_kind :: "index_key \<Rightarrow> key_kind \<Rightarrow> bool" where
  "key_matches_kind (KInt _) KindInt64 = True"
| "key_matches_kind (KStr _) KindString = True"
| "key_matches_kind _ _ = False"

definition validate_key_kind :: "index_key \<Rightarrow> key_kind \<Rightarrow> exn + unit" where
  "validate_key_kind k kk =
     guardE (key_matches_kind k kk)
       (InvalidArgument ''Index key type does not match index key kind'')"

fun key_less :: "index_key \<Rightarrow> index_key \<Rightarrow> exn + bool" where
  "key_less (KInt a) (KInt b) = Inr (sint a < sint b)"
| "key_less (KStr s) (KStr t) = Inr (s < t)"
| "key_less _ _ = Inl (InvalidArgument ''Cannot compare index keys of different types'')"

fun keys_equal :: "index_key \<Rightarrow> index_key \<Rightarrow> exn + bool" where
  "keys_equal (KInt a) (KInt b) = Inr (a = b)"
| "keys_equal (KStr s) (KStr t) = Inr (s = t)"
| "keys_equal _ _ = Inl (InvalidArgument ''Cannot compare index keys of different types'')"

text \<open>
  On keys of one kind the two comparisons return and agree with the order of the type, so the
  tree algorithms below compare keys with that order once the kinds have been validated.
\<close>

lemma key_compare_of_kind:
  assumes "key_matches_kind a kk" and "key_matches_kind b kk"
  shows "key_less a b = Inr (a < b)" and "keys_equal a b = Inr (a = b)"
  using assms by (cases a; cases b; cases kk; simp)+

subsection \<open>String keys and the size of a key on a page\<close>

definition validate_string_key :: "string \<Rightarrow> exn + unit" where
  "validate_string_key s =
     bindE (guardE (length s \<le> INDEX_STRING_KEY_SIZE) (LengthError ''Index string key is too long''))
     (\<lambda>_. guardE (CHR 0x00 \<notin> set s)
            (InvalidArgument ''Index string key cannot contain null bytes''))"

fun serialized_key_size :: "index_key \<Rightarrow> exn + nat" where
  "serialized_key_size (KInt _) = Inr 8"
| "serialized_key_size (KStr s) =
     bindE (validate_string_key s) (\<lambda>_. Inr INDEX_STRING_KEY_SIZE)"

fun fixed_key_size :: "key_kind \<Rightarrow> nat" where
  "fixed_key_size KindInt64 = 8"
| "fixed_key_size _ = INDEX_STRING_KEY_SIZE"

text \<open>A key that an index of kind \<open>kk\<close> can store.\<close>

fun key_ok :: "key_kind \<Rightarrow> index_key \<Rightarrow> bool" where
  "key_ok KindInt64 (KInt _) = True"
| "key_ok KindString (KStr s) = (length s \<le> INDEX_STRING_KEY_SIZE \<and> CHR 0x00 \<notin> set s)"
| "key_ok _ _ = False"

lemma key_okD [dest]: "key_ok kk k \<Longrightarrow> key_matches_kind k kk"
  by (cases k; cases kk) simp_all

lemma key_ok_validate: "key_ok kk k \<Longrightarrow> validate_key_kind k kk = Inr ()"
  by (auto simp: validate_key_kind_def)

lemma key_ok_size: "key_ok kk k \<Longrightarrow> serialized_key_size k = Inr (fixed_key_size kk)"
  by (cases k; cases kk) (simp_all add: validate_string_key_def)

lemma serialized_key_size_eq:
  "key_matches_kind k kk \<Longrightarrow> serialized_key_size k = Inr n \<longleftrightarrow> key_ok kk k \<and> n = fixed_key_size kk"
  by (cases k; cases kk) (auto simp: validate_string_key_def bindE_eq_Inr)

end
