(* ===== verification/Node_Codec.thy ===== *)
theory Node_Codec
  imports Index_Key
begin

section \<open>Index nodes and their page images\<close>

text \<open>
  \<open>struct IndexNode\<close> (\<open>index/include/bstarplus_tree_index.h\<close>) and the page codec of
  \<open>index/src/bstarplus_tree_index.cpp\<close>: \<open>write_scalar\<close>, \<open>read_scalar\<close>, \<open>write_key\<close>,
  \<open>read_key\<close>, \<open>serialize_node\<close>, \<open>deserialize_node\<close> and the capacity functions. A page is a list
  of 4096 bytes; a write cursor is the page with the offset reached, as the code passes both by
  reference. The main result is that a node within the capacity of its kind is serialised, to
  exactly one page, and that the page is read back as the same node.
\<close>

definition PAGE_SIZE :: nat where "PAGE_SIZE = 4096"
definition INVALID_PAGE_ID :: "64 word" where "INVALID_PAGE_ID = 2 ^ 64 - 1"
definition INDEX_NODE_MAGIC :: nat where "INDEX_NODE_MAGIC = 0x31495042"
definition INDEX_NODE_VERSION :: nat where "INDEX_NODE_VERSION = 1"
definition INTERNAL_NODE_TYPE :: nat where "INTERNAL_NODE_TYPE = 0"
definition LEAF_NODE_TYPE :: nat where "LEAF_NODE_TYPE = 1"
definition INDEX_NODE_HEADER_SIZE :: nat where
  "INDEX_NODE_HEADER_SIZE = 4 + 2 + 1 + 1 + 8 + 8 + 4 + 4"
definition UINT32_MAX :: nat where "UINT32_MAX = 2 ^ 32 - 1"

lemmas page_constants =
  PAGE_SIZE_def INDEX_NODE_HEADER_SIZE_def INDEX_STRING_KEY_SIZE_def UINT32_MAX_def
  INDEX_NODE_MAGIC_def INDEX_NODE_VERSION_def INTERNAL_NODE_TYPE_def LEAF_NODE_TYPE_def

record index_node =
  is_leaf :: bool
  page_id :: "64 word"
  next_leaf_page_id :: "64 word"
  keys :: "index_key list"
  children :: "64 word list"
  records :: "64 word list"

subsection \<open>Scalars and keys at a cursor\<close>

type_synonym cursor = "char list \<times> nat"

fun write_scalar :: "nat \<Rightarrow> nat \<Rightarrow> cursor \<Rightarrow> exn + cursor" where
  \<comment> \<open>\<open>k\<close> is \<open>sizeof(T)\<close>\<close>
  "write_scalar k v (page, off) =
     (if off + k > length page then Inl (LengthError ''Index node does not fit into page'')
      else Inr (splice off (le_bytes k v) page, off + k))"

definition read_scalar :: "char list \<Rightarrow> nat \<Rightarrow> nat \<Rightarrow> exn + (nat \<times> nat)" where
  "read_scalar page k off =
     (if off + k > length page then Inl (RuntimeError ''Index node page is truncated'')
      else Inr (le_nat (region off k page), off + k))"

definition nul_padded :: "nat \<Rightarrow> string \<Rightarrow> char list" where
  \<comment> \<open>the zero-initialised buffer of \<open>write_key\<close> with the string copied to its front\<close>
  "nul_padded n s = s @ replicate (n - length s) CHR 0x00"

fun write_key :: "index_key \<Rightarrow> cursor \<Rightarrow> exn + cursor" where
  "write_key (KInt w) cur = write_scalar 8 (unat w) cur"
| "write_key (KStr s) (page, off) =
     bindE (validate_string_key s) (\<lambda>_.
     if off + INDEX_STRING_KEY_SIZE > length page
     then Inl (LengthError ''Index node does not fit into page'')
     else Inr (splice off (nul_padded INDEX_STRING_KEY_SIZE s) page, off + INDEX_STRING_KEY_SIZE))"

fun read_key :: "char list \<Rightarrow> key_kind \<Rightarrow> nat \<Rightarrow> exn + (index_key \<times> nat)" where
  "read_key page KindInt64 off =
     bindE (read_scalar page 8 off) (\<lambda>(v, off'). Inr (KInt (of_nat v), off'))"
| "read_key page KindString off =
     (if off + INDEX_STRING_KEY_SIZE > length page
      then Inl (RuntimeError ''Index string key is truncated'')
      else Inr (KStr (takeWhile (\<lambda>c. c \<noteq> CHR 0x00) (region off INDEX_STRING_KEY_SIZE page)),
                off + INDEX_STRING_KEY_SIZE))"
| "read_key page _ off = Inl (InvalidArgument ''Unsupported index key kind'')"

subsection \<open>Shape, kind and size of a node\<close>

definition validate_node_shape :: "index_node \<Rightarrow> exn + unit" where
  "validate_node_shape n =
     bindE (guardE (length (keys n) \<le> UINT32_MAX) (LengthError ''Index node has too many keys'')) (\<lambda>_.
     if is_leaf n then
       bindE (guardE (children n = [])
                (InvalidArgument ''Leaf index node cannot have child pages'')) (\<lambda>_.
       guardE (length (records n) = length (keys n))
         (InvalidArgument ''Leaf index node must have one record per key''))
     else
       bindE (guardE (records n = [])
                (InvalidArgument ''Internal index node cannot have records'')) (\<lambda>_.
       guardE (length (children n) = length (keys n) + 1)
         (InvalidArgument ''Internal index node must have keys.size() + 1 children'')))"

definition validate_node_keys :: "index_node \<Rightarrow> key_kind \<Rightarrow> exn + unit" where
  "validate_node_keys n kk = foldE (\<lambda>k _. validate_key_kind k kk) (keys n) ()"

definition serialized_node_size :: "index_node \<Rightarrow> key_kind \<Rightarrow> exn + nat" where
  "serialized_node_size n kk =
     (let payload_count = (if is_leaf n then length (records n) else length (children n)) in
      bindE (guardE (payload_count \<le> UINT32_MAX) (LengthError ''Index node payload is too large'')) (\<lambda>_.
      bindE (foldE (\<lambda>k size. bindE (validate_key_kind k kk) (\<lambda>_.
                     bindE (serialized_key_size k) (\<lambda>m. Inr (size + m))))
               (keys n) INDEX_NODE_HEADER_SIZE) (\<lambda>size.
      Inr (size + (if is_leaf n then length (records n) * (8 + 2) else length (children n) * 8)))))"

definition serialize_node :: "index_node \<Rightarrow> key_kind \<Rightarrow> exn + char list" where
  "serialize_node n kk =
     bindE (validate_node_shape n) (\<lambda>_.
     bindE (validate_node_keys n kk) (\<lambda>_.
     bindE (serialized_node_size n kk) (\<lambda>size.
     bindE (guardE (size \<le> PAGE_SIZE) (LengthError ''Index node does not fit into page'')) (\<lambda>_.
     let payload = (if is_leaf n then records n else children n) in
     bindE (foldE (\<lambda>(k, v). write_scalar k v)
              [(4, INDEX_NODE_MAGIC), (2, INDEX_NODE_VERSION),
               (1, if is_leaf n then LEAF_NODE_TYPE else INTERNAL_NODE_TYPE), (1, 0),
               (8, unat (page_id n)), (8, unat (next_leaf_page_id n)),
               (4, length (keys n)), (4, length payload)]
              (replicate PAGE_SIZE CHR 0x00, 0)) (\<lambda>cur.
     bindE (foldE write_key (keys n) cur) (\<lambda>cur.
     bindE (foldE (\<lambda>w. write_scalar 8 (unat w)) payload cur) (\<lambda>cur.
     Inr (fst cur))))))))"

definition deserialize_node :: "char list \<Rightarrow> key_kind \<Rightarrow> exn + index_node" where
  "deserialize_node page kk =
     bindE (guardE (length page = PAGE_SIZE)
              (InvalidArgument ''Index node page must have PAGE_SIZE bytes'')) (\<lambda>_.
     bindE (read_scalar page 4 0) (\<lambda>(magic, off).
     bindE (guardE (magic = INDEX_NODE_MAGIC) (RuntimeError ''Invalid index node page magic'')) (\<lambda>_.
     bindE (read_scalar page 2 off) (\<lambda>(version, off).
     bindE (guardE (version = INDEX_NODE_VERSION)
              (RuntimeError ''Unsupported index node page version'')) (\<lambda>_.
     bindE (read_scalar page 1 off) (\<lambda>(node_type, off).
     bindE (read_scalar page 1 off) (\<lambda>(_, off).
     bindE (guardE (node_type = INTERNAL_NODE_TYPE \<or> node_type = LEAF_NODE_TYPE)
              (RuntimeError ''Invalid index node type'')) (\<lambda>_.
     bindE (read_scalar page 8 off) (\<lambda>(pid, off).
     bindE (read_scalar page 8 off) (\<lambda>(nxt, off).
     bindE (read_scalar page 4 off) (\<lambda>(key_count, off).
     bindE (read_scalar page 4 off) (\<lambda>(payload_count, off).
     bindE (guardE (key_count \<le> length page \<and> payload_count \<le> length page)
              (RuntimeError ''Index node payload exceeds page size'')) (\<lambda>_.
     bindE (repeatE key_count (read_key page kk) off) (\<lambda>(ks, off).
     let leaf = (node_type = LEAF_NODE_TYPE) in
     bindE (guardE (if leaf then payload_count = key_count else payload_count = key_count + 1)
              (RuntimeError (if leaf then ''Leaf index node payload count does not match key count''
                 else ''Internal index node payload count does not match child count''))) (\<lambda>_.
     bindE (repeatE payload_count
              (\<lambda>off. bindE (read_scalar page 8 off) (\<lambda>(v, off'). Inr (of_nat v, off'))) off) (\<lambda>(ps, off).
     let n = \<lparr>is_leaf = leaf, page_id = of_nat pid, next_leaf_page_id = of_nat nxt, keys = ks,
              children = (if leaf then [] else ps), records = (if leaf then ps else [])\<rparr> in
     bindE (validate_node_shape n) (\<lambda>_. Inr n)))))))))))))))))"

subsection \<open>Capacities\<close>

definition max_leaf_key_count :: "key_kind \<Rightarrow> nat" where
  "max_leaf_key_count kk = (PAGE_SIZE - INDEX_NODE_HEADER_SIZE) div (fixed_key_size kk + 8 + 2)"

definition max_internal_key_count :: "key_kind \<Rightarrow> nat" where
  "max_internal_key_count kk =
     (PAGE_SIZE - INDEX_NODE_HEADER_SIZE - 8) div (fixed_key_size kk + 8)"

definition min_leaf_key_count :: "key_kind \<Rightarrow> nat" where
  "min_leaf_key_count kk = max 1 ((2 * max_leaf_key_count kk + 2) div 3)"

definition min_internal_key_count :: "key_kind \<Rightarrow> nat" where
  "min_internal_key_count kk = max 1 ((2 * max_internal_key_count kk + 2) div 3)"

definition three_way_counts :: "nat \<Rightarrow> nat \<times> nat \<times> nat" where
  "three_way_counts n =
     (let first = (n + 2) div 3; second = (n - first + 1) div 2
      in (first, second, n - first - second))"

lemma capacities:
  "max_leaf_key_count KindInt64 = 225" "max_leaf_key_count KindString = 15"
  "max_internal_key_count KindInt64 = 253" "max_internal_key_count KindString = 15"
  "min_leaf_key_count KindInt64 = 150" "min_leaf_key_count KindString = 10"
  "min_internal_key_count KindInt64 = 169" "min_internal_key_count KindString = 10"
  by (simp_all add: max_leaf_key_count_def max_internal_key_count_def min_leaf_key_count_def
      min_internal_key_count_def page_constants)

lemma three_way_counts_eq:
  "three_way_counts n = ((n + 2) div 3, (n + 1) div 3, n div 3)"
  by (auto simp: three_way_counts_def Let_def)

subsection \<open>Serialisation writes one page\<close>

text \<open>
  A cursor in the middle of serialisation: the bytes written so far, then zeros.
\<close>

definition cursor_at :: "char list \<Rightarrow> cursor" where
  "cursor_at bs = (bs @ replicate (PAGE_SIZE - length bs) CHR 0x00, length bs)"

lemma splice_cursor:
  "length bs + length d \<le> PAGE_SIZE \<Longrightarrow>
   splice (length bs) d (bs @ replicate (PAGE_SIZE - length bs) c)
   = (bs @ d) @ replicate (PAGE_SIZE - length (bs @ d)) c"
  by (simp add: splice_def)

lemma write_scalar_cursor:
  "length bs + k \<le> PAGE_SIZE \<Longrightarrow>
   write_scalar k v (cursor_at bs) = Inr (cursor_at (bs @ le_bytes k v))"
  using splice_cursor [of bs "le_bytes k v"] by (simp add: cursor_at_def)

lemma foldE_write_scalar:
  "length bs + sum_list (map fst kvs) \<le> PAGE_SIZE \<Longrightarrow>
   foldE (\<lambda>(k, v). write_scalar k v) kvs (cursor_at bs)
   = Inr (cursor_at (bs @ concat (map (\<lambda>(k, v). le_bytes k v) kvs)))"
  by (induction kvs arbitrary: bs) (auto simp: write_scalar_cursor)

lemma foldE_write_words:
  "length bs + 8 * length ws \<le> PAGE_SIZE \<Longrightarrow>
   foldE (\<lambda>w. write_scalar 8 (unat w)) ws (cursor_at bs)
   = Inr (cursor_at (bs @ concat (map u64_bytes ws)))"
  by (induction ws arbitrary: bs) (auto simp: write_scalar_cursor u64_bytes_def)

fun key_bytes :: "index_key \<Rightarrow> char list" where
  "key_bytes (KInt w) = u64_bytes w"
| "key_bytes (KStr s) = nul_padded INDEX_STRING_KEY_SIZE s"

lemma length_nul_padded [simp]: "length s \<le> n \<Longrightarrow> length (nul_padded n s) = n"
  by (simp add: nul_padded_def)

lemma length_key_bytes [simp]: "key_ok kk k \<Longrightarrow> length (key_bytes k) = fixed_key_size kk"
  by (cases k; cases kk) simp_all

lemma write_key_cursor:
  assumes "key_ok kk k" and "length bs + fixed_key_size kk \<le> PAGE_SIZE"
  shows "write_key k (cursor_at bs) = Inr (cursor_at (bs @ key_bytes k))"
proof (cases k)
  case (KInt w)
  with assms show ?thesis by (cases kk) (simp_all add: write_scalar_cursor u64_bytes_def)
next
  case (KStr s)
  with assms have s: "length s \<le> INDEX_STRING_KEY_SIZE" "CHR 0x00 \<notin> set s"
    and fit: "length bs + INDEX_STRING_KEY_SIZE \<le> PAGE_SIZE" by (cases kk; simp)+
  then have "length bs + length (nul_padded INDEX_STRING_KEY_SIZE s) \<le> PAGE_SIZE" by simp
  from splice_cursor [OF this] s fit KStr show ?thesis
    by (simp add: cursor_at_def validate_string_key_def)
qed

lemma foldE_write_keys:
  assumes "\<forall>k \<in> set ks. key_ok kk k" and "length bs + fixed_key_size kk * length ks \<le> PAGE_SIZE"
  shows "foldE write_key ks (cursor_at bs) = Inr (cursor_at (bs @ concat (map key_bytes ks)))"
  using assms
proof (induction ks arbitrary: bs)
  case (Cons k ks)
  then have "write_key k (cursor_at bs) = Inr (cursor_at (bs @ key_bytes k))"
    by (intro write_key_cursor) auto
  moreover have "foldE write_key ks (cursor_at (bs @ key_bytes k))
      = Inr (cursor_at ((bs @ key_bytes k) @ concat (map key_bytes ks)))"
    using Cons.prems by (intro Cons.IH) (auto simp: algebra_simps)
  ultimately show ?case by simp
qed simp

subsection \<open>Well-formed nodes and what they occupy\<close>

definition shape_ok :: "index_node \<Rightarrow> bool" where
  "shape_ok n =
     (if is_leaf n then children n = [] \<and> length (records n) = length (keys n)
      else records n = [] \<and> length (children n) = Suc (length (keys n)))"

definition capacity :: "key_kind \<Rightarrow> bool \<Rightarrow> nat" where
  "capacity kk leaf = (if leaf then max_leaf_key_count kk else max_internal_key_count kk)"

definition node_ok :: "key_kind \<Rightarrow> index_node \<Rightarrow> bool" where
  "node_ok kk n \<longleftrightarrow> shape_ok n \<and> (\<forall>k \<in> set (keys n). key_ok kk k)
     \<and> length (keys n) \<le> capacity kk (is_leaf n)"

lemma capacity_bound: "capacity kk leaf \<le> 253"
  by (cases kk) (simp_all add: capacity_def max_leaf_key_count_def max_internal_key_count_def
      page_constants)

lemma validate_node_shape_ok:
  "shape_ok n \<Longrightarrow> length (keys n) \<le> UINT32_MAX \<Longrightarrow> validate_node_shape n = Inr ()"
  by (auto simp: validate_node_shape_def shape_ok_def)

lemma validate_node_keys_ok:
  assumes "\<forall>k \<in> set (keys n). key_ok kk k"
  shows "validate_node_keys n kk = Inr ()"
proof -
  have "foldE (\<lambda>k _. validate_key_kind k kk) ks () = Inr ()" if "\<forall>k \<in> set ks. key_ok kk k" for ks
    using that by (induction ks) (simp_all add: key_ok_validate)
  then show ?thesis using assms by (simp add: validate_node_keys_def)
qed

lemma serialized_node_size_ok:
  assumes "shape_ok n" and keys: "\<forall>k \<in> set (keys n). key_ok kk k"
    and "length (keys n) < UINT32_MAX"
  shows "serialized_node_size n kk = Inr (INDEX_NODE_HEADER_SIZE
     + (if is_leaf n then length (keys n) * (fixed_key_size kk + 10)
        else length (keys n) * (fixed_key_size kk + 8) + 8))"
proof -
  have "foldE (\<lambda>k size. bindE (validate_key_kind k kk) (\<lambda>_.
          bindE (serialized_key_size k) (\<lambda>m. Inr (size + m)))) ks h
        = Inr (h + length ks * fixed_key_size kk)" if "\<forall>k \<in> set ks. key_ok kk k" for ks h
    using that by (induction ks arbitrary: h) (simp_all add: key_ok_validate key_ok_size [of kk])
  from this [OF keys] assms show ?thesis
    by (auto simp: serialized_node_size_def shape_ok_def algebra_simps)
qed

text \<open>The byte count exceeds a page exactly when the keys exceed the capacity.\<close>

lemma size_fits_iff:
  "INDEX_NODE_HEADER_SIZE + n * (fixed_key_size kk + 10) \<le> PAGE_SIZE
     \<longleftrightarrow> n \<le> max_leaf_key_count kk"
  "INDEX_NODE_HEADER_SIZE + (n * (fixed_key_size kk + 8) + 8) \<le> PAGE_SIZE
     \<longleftrightarrow> n \<le> max_internal_key_count kk"
  by (cases kk; simp add: max_leaf_key_count_def max_internal_key_count_def page_constants
      less_eq_div_iff_mult_less_eq; arith)+

definition node_header :: "index_node \<Rightarrow> char list" where
  "node_header n =
     le_bytes 4 INDEX_NODE_MAGIC @ le_bytes 2 INDEX_NODE_VERSION
     @ le_bytes 1 (if is_leaf n then LEAF_NODE_TYPE else INTERNAL_NODE_TYPE) @ le_bytes 1 0
     @ u64_bytes (page_id n) @ u64_bytes (next_leaf_page_id n)
     @ le_bytes 4 (length (keys n))
     @ le_bytes 4 (length (if is_leaf n then records n else children n))"

definition node_image :: "index_node \<Rightarrow> char list" where
  "node_image n =
     fst (cursor_at (node_header n @ concat (map key_bytes (keys n))
          @ concat (map u64_bytes (if is_leaf n then records n else children n))))"

lemma length_node_header [simp]: "length (node_header n) = 32"
  by (simp add: node_header_def)

lemma length_concat_const:
  "\<forall>x \<in> set xs. length (f x) = n \<Longrightarrow> length (concat (map f xs)) = n * length xs"
  by (induction xs) simp_all

lemma node_size_bound:
  assumes "node_ok kk n"
  shows "32 + fixed_key_size kk * length (keys n)
      + 8 * length (if is_leaf n then records n else children n) \<le> PAGE_SIZE"
proof (cases "is_leaf n")
  case True
  with assms have "INDEX_NODE_HEADER_SIZE + length (keys n) * (fixed_key_size kk + 10) \<le> PAGE_SIZE"
    by (simp add: node_ok_def capacity_def size_fits_iff)
  with True assms show ?thesis
    by (simp add: node_ok_def shape_ok_def INDEX_NODE_HEADER_SIZE_def algebra_simps)
next
  case False
  with assms have "INDEX_NODE_HEADER_SIZE + (length (keys n) * (fixed_key_size kk + 8) + 8) \<le> PAGE_SIZE"
    by (simp add: node_ok_def capacity_def size_fits_iff)
  with False assms show ?thesis
    by (simp add: node_ok_def shape_ok_def INDEX_NODE_HEADER_SIZE_def algebra_simps)
qed

lemma length_node_image:
  assumes "node_ok kk n" shows "length (node_image n) = PAGE_SIZE"
proof -
  have "length (concat (map key_bytes (keys n))) = fixed_key_size kk * length (keys n)"
    using assms by (intro length_concat_const) (auto simp: node_ok_def)
  moreover have "length (concat (map u64_bytes ws)) = 8 * length ws" for ws
    by (rule length_concat_const) simp
  ultimately show ?thesis
    using node_size_bound [OF assms] by (simp add: node_image_def cursor_at_def)
qed

lemma serialize_node_ok:
  assumes ok: "node_ok kk n"
  shows "serialize_node n kk = Inr (node_image n)"
proof -
  let ?payload = "if is_leaf n then records n else children n"
  let ?hdr = "[(4, INDEX_NODE_MAGIC), (2, INDEX_NODE_VERSION),
     (1, if is_leaf n then LEAF_NODE_TYPE else INTERNAL_NODE_TYPE), (1, 0),
     (8, unat (page_id n)), (8, unat (next_leaf_page_id n)),
     (4, length (keys n)), (4, length ?payload)]"
  have len: "length (keys n) \<le> 253"
    using ok capacity_bound [of kk "is_leaf n"] by (simp add: node_ok_def)
  then have shape: "validate_node_shape n = Inr ()"
    using ok by (intro validate_node_shape_ok) (simp_all add: node_ok_def UINT32_MAX_def)
  have vkeys: "validate_node_keys n kk = Inr ()"
    using ok by (intro validate_node_keys_ok) (simp add: node_ok_def)
  have size: "\<exists>sz. serialized_node_size n kk = Inr sz \<and> sz \<le> PAGE_SIZE"
    using ok len serialized_node_size_ok [of n kk]
    by (auto simp: node_ok_def capacity_def size_fits_iff UINT32_MAX_def)
  have keylen: "length (concat (map key_bytes (keys n))) = fixed_key_size kk * length (keys n)"
    using ok by (intro length_concat_const) (auto simp: node_ok_def)
  have start: "(replicate PAGE_SIZE CHR 0x00, 0) = cursor_at []"
    by (simp add: cursor_at_def)
  have hdr: "foldE (\<lambda>(k, v). write_scalar k v) ?hdr (cursor_at []) = Inr (cursor_at (node_header n))"
    by (subst foldE_write_scalar) (simp_all add: PAGE_SIZE_def node_header_def u64_bytes_def)
  have ks: "foldE write_key (keys n) (cursor_at (node_header n))
      = Inr (cursor_at (node_header n @ concat (map key_bytes (keys n))))"
    using ok node_size_bound [OF ok] by (intro foldE_write_keys) (auto simp: node_ok_def)
  have ws: "foldE (\<lambda>w. write_scalar 8 (unat w)) ?payload
        (cursor_at (node_header n @ concat (map key_bytes (keys n))))
      = Inr (cursor_at ((node_header n @ concat (map key_bytes (keys n))) @ concat (map u64_bytes ?payload)))"
    using node_size_bound [OF ok] keylen by (intro foldE_write_words) simp
  from size obtain sz where "serialized_node_size n kk = Inr sz" "sz \<le> PAGE_SIZE" by blast
  then show ?thesis
    by (simp only: serialize_node_def shape vkeys start hdr ks ws Let_def bindE_simps guardE_cases
        if_True node_image_def append_assoc)
qed

subsection \<open>Reading a page back\<close>

text \<open>\<open>tail_at page off bs\<close>: what remains to be read from offset \<open>off\<close> is \<open>bs\<close>.\<close>

definition tail_at :: "char list \<Rightarrow> nat \<Rightarrow> char list \<Rightarrow> bool" where
  "tail_at page off bs \<longleftrightarrow> off \<le> length page \<and> drop off page = bs"

lemma tail_at_region:
  assumes "tail_at page off (x @ post)"
  shows "off + length x \<le> length page" and "region off (length x) page = x"
    and "tail_at page (off + length x) post"
proof -
  from assms have off: "off \<le> length page" and d: "drop off page = x @ post"
    by (auto simp: tail_at_def)
  then have len: "length page - off = length x + length post"
    by (metis length_append length_drop)
  show "off + length x \<le> length page" using off len by simp
  show "region off (length x) page = x" using d by (simp add: region_def)
  have "drop (off + length x) page = drop (length x) (drop off page)" by (simp add: add.commute)
  with d off len show "tail_at page (off + length x) post" by (simp add: tail_at_def)
qed

lemma read_scalar_tail:
  assumes "tail_at page off (le_bytes k v @ post)" and "v < 256 ^ k"
  shows "read_scalar page k off = Inr (v, off + k)" and "tail_at page (off + k) post"
  using tail_at_region [OF assms(1)] assms(2) by (simp_all add: read_scalar_def)

lemma read_scalar_word:
  assumes "tail_at page off (u64_bytes w @ post)"
  shows "read_scalar page 8 off = Inr (unat w, off + 8)" and "tail_at page (off + 8) post"
  using tail_at_region [OF assms] by (simp_all add: read_scalar_def)

lemma takeWhile_nul_padded:
  "CHR 0x00 \<notin> set s \<Longrightarrow> takeWhile (\<lambda>c. c \<noteq> CHR 0x00) (nul_padded n s) = s"
  by (subst nul_padded_def, subst takeWhile_append2) (auto simp: takeWhile_replicate)

lemma read_key_tail:
  assumes "tail_at page off (key_bytes k @ post)" and ok: "key_ok kk k"
  shows "read_key page kk off = Inr (k, off + fixed_key_size kk)"
    and "tail_at page (off + fixed_key_size kk) post"
proof -
  note r = tail_at_region [OF assms(1)]
  from r(3) ok show "tail_at page (off + fixed_key_size kk) post" by simp
  show "read_key page kk off = Inr (k, off + fixed_key_size kk)"
  proof (cases k)
    case (KInt w)
    with ok assms(1) show ?thesis
      by (cases kk) (simp_all add: read_scalar_word(1) [where post = post])
  next
    case (KStr s)
    with ok r(1,2) show ?thesis by (cases kk) (simp_all add: takeWhile_nul_padded)
  qed
qed

lemma repeatE_read:
  assumes "\<And>x off post. x \<in> set xs \<Longrightarrow> tail_at page off (enc x @ post) \<Longrightarrow>
      rd off = Inr (x, off + n) \<and> tail_at page (off + n) post"
    and "tail_at page off (concat (map enc xs) @ post)"
  shows "repeatE (length xs) rd off = Inr (xs, off + n * length xs)
     \<and> tail_at page (off + n * length xs) post"
  using assms
proof (induction xs arbitrary: off)
  case (Cons x xs)
  from Cons.prems(2) have "tail_at page off (enc x @ (concat (map enc xs) @ post))" by simp
  with Cons.prems(1) [of x] have rd: "rd off = Inr (x, off + n)"
    and t: "tail_at page (off + n) (concat (map enc xs) @ post)" by auto
  have "repeatE (length xs) rd (off + n) = Inr (xs, off + n + n * length xs)
     \<and> tail_at page (off + n + n * length xs) post"
    using t by (rule Cons.IH [rotated]) (use Cons.prems(1) in auto)
  with rd show ?case by (simp add: algebra_simps)
qed simp

lemma repeatE_read_keys:
  assumes "\<forall>k \<in> set ks. key_ok kk k" and "tail_at page off (concat (map key_bytes ks) @ post)"
  shows "repeatE (length ks) (read_key page kk) off = Inr (ks, off + fixed_key_size kk * length ks)
     \<and> tail_at page (off + fixed_key_size kk * length ks) post"
  using assms(2) by (rule repeatE_read [rotated]) (use assms(1) read_key_tail in blast)

lemma repeatE_read_words:
  assumes "tail_at page off (concat (map u64_bytes ws) @ post)"
  shows "repeatE (length ws)
      (\<lambda>off. bindE (read_scalar page 8 off) (\<lambda>(v, off'). Inr (of_nat v :: 64 word, off'))) off
     = Inr (ws, off + 8 * length ws)"
proof -
  have "repeatE (length ws)
      (\<lambda>off. bindE (read_scalar page 8 off) (\<lambda>(v, off'). Inr (of_nat v :: 64 word, off'))) off
     = Inr (ws, off + 8 * length ws) \<and> tail_at page (off + 8 * length ws) post"
    using assms by (rule repeatE_read [rotated]) (simp add: read_scalar_word)
  then show ?thesis ..
qed

lemma deserialize_node_image:
  assumes ok: "node_ok kk n"
  shows "deserialize_node (node_image n) kk = Inr n"
proof -
  let ?p = "node_image n"
  let ?pl = "if is_leaf n then records n else children n"
  let ?ty = "if is_leaf n then LEAF_NODE_TYPE else INTERNAL_NODE_TYPE"
  define pad where "pad = replicate (PAGE_SIZE - length (node_header n @ concat (map key_bytes (keys n))
      @ concat (map u64_bytes ?pl))) CHR 0x00"
  have len: "length ?p = PAGE_SIZE" using ok by (rule length_node_image)
  have nk: "length (keys n) \<le> 253"
    using ok capacity_bound [of kk "is_leaf n"] by (simp add: node_ok_def)
  then have np: "length ?pl \<le> 254" using ok by (simp add: node_ok_def shape_ok_def)
  have t0: "tail_at ?p 0 (le_bytes 4 INDEX_NODE_MAGIC @ le_bytes 2 INDEX_NODE_VERSION @ le_bytes 1 ?ty
      @ le_bytes 1 0 @ u64_bytes (page_id n) @ u64_bytes (next_leaf_page_id n)
      @ le_bytes 4 (length (keys n)) @ le_bytes 4 (length ?pl)
      @ concat (map key_bytes (keys n)) @ concat (map u64_bytes ?pl) @ pad)"
    by (simp add: tail_at_def node_image_def cursor_at_def node_header_def pad_def)
  have r1: "read_scalar ?p 4 0 = Inr (INDEX_NODE_MAGIC, 4)"
    and t1: "tail_at ?p 4 (le_bytes 2 INDEX_NODE_VERSION @ le_bytes 1 ?ty
      @ le_bytes 1 0 @ u64_bytes (page_id n) @ u64_bytes (next_leaf_page_id n)
      @ le_bytes 4 (length (keys n)) @ le_bytes 4 (length ?pl)
      @ concat (map key_bytes (keys n)) @ concat (map u64_bytes ?pl) @ pad)"
    using read_scalar_tail [OF t0] by (simp_all add: INDEX_NODE_MAGIC_def)
  have r2: "read_scalar ?p 2 4 = Inr (INDEX_NODE_VERSION, 6)"
    and t2: "tail_at ?p 6 (le_bytes 1 ?ty
      @ le_bytes 1 0 @ u64_bytes (page_id n) @ u64_bytes (next_leaf_page_id n)
      @ le_bytes 4 (length (keys n)) @ le_bytes 4 (length ?pl)
      @ concat (map key_bytes (keys n)) @ concat (map u64_bytes ?pl) @ pad)"
    using read_scalar_tail [OF t1] by (simp_all add: INDEX_NODE_VERSION_def)
  have r3: "read_scalar ?p 1 6 = Inr (?ty, 7)"
    and t3: "tail_at ?p 7 (le_bytes 1 0 @ u64_bytes (page_id n) @ u64_bytes (next_leaf_page_id n)
      @ le_bytes 4 (length (keys n)) @ le_bytes 4 (length ?pl)
      @ concat (map key_bytes (keys n)) @ concat (map u64_bytes ?pl) @ pad)"
    using read_scalar_tail [OF t2] by (simp_all add: LEAF_NODE_TYPE_def INTERNAL_NODE_TYPE_def)
  have r4: "read_scalar ?p 1 7 = Inr (0, 8)"
    and t4: "tail_at ?p 8 (u64_bytes (page_id n) @ u64_bytes (next_leaf_page_id n)
      @ le_bytes 4 (length (keys n)) @ le_bytes 4 (length ?pl)
      @ concat (map key_bytes (keys n)) @ concat (map u64_bytes ?pl) @ pad)"
    using read_scalar_tail [OF t3] by simp_all
  have r5: "read_scalar ?p 8 8 = Inr (unat (page_id n), 16)"
    and t5: "tail_at ?p 16 (u64_bytes (next_leaf_page_id n)
      @ le_bytes 4 (length (keys n)) @ le_bytes 4 (length ?pl)
      @ concat (map key_bytes (keys n)) @ concat (map u64_bytes ?pl) @ pad)"
    using read_scalar_word [OF t4] by simp_all
  have r6: "read_scalar ?p 8 16 = Inr (unat (next_leaf_page_id n), 24)"
    and t6: "tail_at ?p 24 (le_bytes 4 (length (keys n)) @ le_bytes 4 (length ?pl)
      @ concat (map key_bytes (keys n)) @ concat (map u64_bytes ?pl) @ pad)"
    using read_scalar_word [OF t5] by simp_all
  have r7: "read_scalar ?p 4 24 = Inr (length (keys n), 28)"
    and t7: "tail_at ?p 28 (le_bytes 4 (length ?pl)
      @ concat (map key_bytes (keys n)) @ concat (map u64_bytes ?pl) @ pad)"
    using read_scalar_tail [OF t6] nk by simp_all
  have r8: "read_scalar ?p 4 28 = Inr (length ?pl, 32)"
    and t8: "tail_at ?p 32 (concat (map key_bytes (keys n)) @ concat (map u64_bytes ?pl) @ pad)"
    using read_scalar_tail [OF t7] np by simp_all
  have keys: "\<forall>k \<in> set (keys n). key_ok kk k" using ok by (simp add: node_ok_def)
  note rk = repeatE_read_keys [OF keys t8]
  note rw = repeatE_read_words [OF conjunct2 [OF rk]]
  have shape: "validate_node_shape n = Inr ()"
    using ok nk by (intro validate_node_shape_ok) (simp_all add: node_ok_def UINT32_MAX_def)
  have ty: "?ty = INTERNAL_NODE_TYPE \<or> ?ty = LEAF_NODE_TYPE" "(?ty = LEAF_NODE_TYPE) = is_leaf n"
    by (simp_all add: LEAF_NODE_TYPE_def INTERNAL_NODE_TYPE_def)
  have cnt: "length (keys n) \<le> length ?p \<and> length ?pl \<le> length ?p"
    using nk np len by (simp add: PAGE_SIZE_def)
  have pc: "if is_leaf n then length ?pl = length (keys n) else length ?pl = length (keys n) + 1"
    using ok by (simp add: node_ok_def shape_ok_def)
  have node: "\<lparr>is_leaf = is_leaf n, page_id = page_id n, next_leaf_page_id = next_leaf_page_id n,
      keys = keys n, children = (if is_leaf n then [] else ?pl),
      records = (if is_leaf n then ?pl else [])\<rparr> = n"
    using ok by (simp add: node_ok_def shape_ok_def)
  show ?thesis
    unfolding deserialize_node_def
    by (simp only: len r1 r2 r3 r4 r5 r6 r7 r8 conjunct1 [OF rk] rw shape ty cnt [unfolded len] pc node
        Let_def bindE_simps guardE_cases split_conv if_True simp_thms word64_of_nat_unat)
      (use pc in \<open>cases "is_leaf n"; simp\<close>)
qed

text \<open>
  Serialising is total on well-shaped nodes with valid keys: the page image up to the capacity,
  the \<open>length_error\<close> that \<open>node_fits_page\<close> catches above it.
\<close>

lemma serialize_node_cases:
  assumes "shape_ok n" and "\<forall>k \<in> set (keys n). key_ok kk k" and "length (keys n) < UINT32_MAX"
  shows "serialize_node n kk =
    (if length (keys n) \<le> capacity kk (is_leaf n) then Inr (node_image n)
     else Inl (LengthError ''Index node does not fit into page''))"
proof (cases "length (keys n) \<le> capacity kk (is_leaf n)")
  case True
  with assms have "node_ok kk n" by (simp add: node_ok_def)
  with True show ?thesis by (simp add: serialize_node_ok)
next
  case False
  obtain sz where sz: "serialized_node_size n kk = Inr sz" "\<not> sz \<le> PAGE_SIZE"
    using False serialized_node_size_ok [OF assms]
    by (auto simp: capacity_def size_fits_iff split: if_splits)
  have "validate_node_shape n = Inr ()" "validate_node_keys n kk = Inr ()"
    using assms by (simp_all add: validate_node_shape_ok validate_node_keys_ok)
  with False sz show ?thesis by (simp add: serialize_node_def)
qed

end
