(* ===== verification/Disk_Manager.thy ===== *)
theory Disk_Manager
  imports Node_Codec
begin

section \<open>The page file of an index\<close>

text \<open>
  \<open>class DiskPageManager\<close> (\<open>index/src/DiskManager.cpp\<close>): a file of 4096-byte pages, the first of
  which holds the index metadata. The state is the content of the file and the page count that
  the constructor derives from the file size. Reads and writes of the stream itself succeed (the
  operating system is not part of the program), so the branches that test the stream after an
  operation are taken only where the code's own argument makes them fail: a negative offset, or a
  read past the end of the file.

  \<open>page_store\<close> and \<open>index_file\<close> are the contract the tree relies on; the interpretation at the end
  proves that the byte-level operations implement it.
\<close>

record metadata =
  root_page_id :: "64 word"
  first_leaf_page_id :: "64 word"
  tree_height :: "32 word"
  key_total :: "64 word"
  meta_key_kind :: key_kind

record disk =
  disk_file :: "char list"
  disk_page_count :: "64 word"

definition empty_metadata :: metadata where
  "empty_metadata = \<lparr>root_page_id = INVALID_PAGE_ID, first_leaf_page_id = INVALID_PAGE_ID,
     tree_height = 0, key_total = 0, meta_key_kind = KindUnknown\<rparr>"

definition meta_empty :: "metadata \<Rightarrow> bool" where
  "meta_empty m \<longleftrightarrow> root_page_id m = INVALID_PAGE_ID \<or> tree_height m = 0"

subsection \<open>The metadata image\<close>

definition INDEX_METADATA_SIZE :: nat where
  "INDEX_METADATA_SIZE = 8 + 8 + 4 + 8 + 1"

fun kind_byte :: "key_kind \<Rightarrow> nat" where
  "kind_byte KindInt64 = 0"
| "kind_byte KindString = 1"
| "kind_byte KindUnknown = 2"
| "kind_byte (KindOther b) = b"

definition kind_of_byte :: "nat \<Rightarrow> key_kind" where
  "kind_of_byte b = (if b = 0 then KindInt64 else if b = 1 then KindString
     else if b = 2 then KindUnknown else KindOther b)"

definition metadata_bytes :: "metadata \<Rightarrow> char list" where
  "metadata_bytes m =
     u64_bytes (root_page_id m) @ u64_bytes (first_leaf_page_id m)
     @ le_bytes 4 (unat (tree_height m)) @ u64_bytes (key_total m)
     @ le_bytes 1 (kind_byte (meta_key_kind m))"

definition metadata_of_bytes :: "char list \<Rightarrow> metadata" where
  "metadata_of_bytes bs =
     \<lparr>root_page_id = u64_of_bytes (region 0 8 bs), first_leaf_page_id = u64_of_bytes (region 8 8 bs),
      tree_height = of_nat (le_nat (region 16 4 bs)), key_total = u64_of_bytes (region 20 8 bs),
      meta_key_kind = kind_of_byte (le_nat (region 28 1 bs))\<rparr>"

subsection \<open>Operations\<close>

definition write_at :: "nat \<Rightarrow> char list \<Rightarrow> char list \<Rightarrow> char list" where
  \<comment> \<open>\<open>seekp\<close> and \<open>write\<close>: a gap after the end of the file is filled with zeros\<close>
  "write_at off d f = splice off d (f @ replicate (off + length d - length f) CHR 0x00)"

definition new_file :: "char list" where
  "new_file = metadata_bytes empty_metadata @ replicate (PAGE_SIZE - INDEX_METADATA_SIZE) CHR 0x00"

definition open_disk :: "char list option \<Rightarrow> exn + disk" where
  \<comment> \<open>the constructor; \<open>None\<close>: the file does not exist yet\<close>
  "open_disk content =
     (let f = (case content of None \<Rightarrow> new_file | Some f \<Rightarrow> f) in
      bindE (guardE (\<not> (length f < PAGE_SIZE \<or> (length f - PAGE_SIZE) mod PAGE_SIZE \<noteq> 0))
               (RuntimeError ''Index page file size is not aligned to PAGE_SIZE'')) (\<lambda>_.
      Inr \<lparr>disk_file = f, disk_page_count = of_nat ((length f - PAGE_SIZE) div PAGE_SIZE)\<rparr>))"

definition validate_existing_page_id :: "64 word \<Rightarrow> 64 word \<Rightarrow> exn + unit" where
  "validate_existing_page_id pid cnt =
     guardE (\<not> (pid = INVALID_PAGE_ID \<or> pid \<ge> cnt)) (OutOfRange ''Index page id is out of range'')"

definition page_offset :: "64 word \<Rightarrow> exn + 64 word" where
  \<comment> \<open>\<open>std::streamoff\<close> is a signed 64-bit type; the sum can leave it for the last page id let through\<close>
  "page_offset pid =
     bindE (guardE (\<not> unat pid > (2 ^ 63 - 1) div PAGE_SIZE)
              (OutOfRange ''Index page offset is out of range'')) (\<lambda>_.
     Inr (of_nat PAGE_SIZE + pid * of_nat PAGE_SIZE))"

definition allocate_page :: "(disk, 64 word) sx" where
  "allocate_page =
     bindS (getS disk_page_count) (\<lambda>pid.
     bindS (liftE (page_offset pid)) (\<lambda>off.
     bindS (guardS (0 \<le> sint off) (RuntimeError ''Cannot seek to new index page'')) (\<lambda>_.
     bindS (modS (\<lambda>d. d\<lparr>disk_file := write_at (unat off) (replicate PAGE_SIZE CHR 0x00) (disk_file d),
                        disk_page_count := disk_page_count d + 1\<rparr>)) (\<lambda>_.
     retS pid))))"

definition read_page :: "64 word \<Rightarrow> disk \<Rightarrow> exn + char list" where
  "read_page pid d =
     bindE (validate_existing_page_id pid (disk_page_count d)) (\<lambda>_.
     bindE (page_offset pid) (\<lambda>off.
     bindE (guardE (0 \<le> sint off) (RuntimeError ''Cannot seek index page for read'')) (\<lambda>_.
     bindE (guardE (unat off + PAGE_SIZE \<le> length (disk_file d))
              (RuntimeError ''Cannot read index page'')) (\<lambda>_.
     Inr (region (unat off) PAGE_SIZE (disk_file d))))))"

definition write_page :: "64 word \<Rightarrow> char list \<Rightarrow> (disk, unit) sx" where
  "write_page pid data =
     bindS (getS disk_page_count) (\<lambda>cnt.
     bindS (liftE (validate_existing_page_id pid cnt)) (\<lambda>_.
     bindS (guardS (length data = PAGE_SIZE)
              (InvalidArgument ''Index page must have PAGE_SIZE bytes'')) (\<lambda>_.
     bindS (liftE (page_offset pid)) (\<lambda>off.
     bindS (guardS (0 \<le> sint off) (RuntimeError ''Cannot seek index page for write'')) (\<lambda>_.
     modS (\<lambda>d. d\<lparr>disk_file := write_at (unat off) data (disk_file d)\<rparr>))))))"

definition read_metadata :: "disk \<Rightarrow> metadata" where
  "read_metadata d =
     (if length (disk_file d) < INDEX_METADATA_SIZE then empty_metadata
      else metadata_of_bytes (disk_file d))"

definition write_metadata :: "metadata \<Rightarrow> (disk, unit) sx" where
  "write_metadata m = modS (\<lambda>d. d\<lparr>disk_file := write_at 0 (metadata_bytes m) (disk_file d)\<rparr>)"

subsection \<open>Offsets and the file invariant\<close>

definition PAGE_LIMIT :: nat where
  "PAGE_LIMIT = 2 ^ 51 - 1"

definition page_count :: "disk \<Rightarrow> nat" where
  "page_count d = unat (disk_page_count d)"

definition disk_ok :: "disk \<Rightarrow> bool" where
  "disk_ok d \<longleftrightarrow> length (disk_file d) = PAGE_SIZE * (page_count d + 1) \<and> page_count d \<le> PAGE_LIMIT"

lemma sint_small: "unat w < 2 ^ 63 \<Longrightarrow> sint (w :: 64 word) = int (unat w)"
proof -
  assume a: "unat w < 2 ^ 63"
  have u: "uint w = int (unat w)" by simp
  have "signed_take_bit 63 (int (unat w)) = int (unat w)"
  proof (rule signed_take_bit_int_eq_self)
    show "int (unat w) < 2 ^ 63" using a by (metis of_nat_less_iff of_nat_numeral of_nat_power)
    show "- (2 ^ 63) \<le> int (unat w)" by (rule order_trans [of _ 0]) simp_all
  qed
  then show ?thesis unfolding sint_uint u by simp
qed

lemma page_offset_ok:
  assumes "unat pid < PAGE_LIMIT"
  obtains off where "page_offset pid = Inr off" and "unat off = PAGE_SIZE * (unat pid + 1)"
    and "0 \<le> sint off"
proof -
  let ?off = "of_nat PAGE_SIZE + pid * of_nat PAGE_SIZE :: 64 word"
  have b: "4096 + unat pid * 4096 < 2 ^ 63"
    using assms by (simp add: PAGE_LIMIT_def)
  have "unat (pid * 4096) = unat pid * 4096"
    using b by (simp add: unat_word_ariths)
  then have u: "unat ?off = 4096 + unat pid * 4096"
    using b by (simp add: unat_word_ariths PAGE_SIZE_def)
  have "page_offset pid = Inr ?off"
    using assms by (simp add: page_offset_def PAGE_LIMIT_def PAGE_SIZE_def)
  moreover have "unat ?off = PAGE_SIZE * (unat pid + 1)"
    using u by (simp add: PAGE_SIZE_def)
  moreover have "sint ?off = int (unat ?off)"
    using u b by (intro sint_small) simp
  then have "0 \<le> sint ?off" by simp
  ultimately show thesis by (rule that)
qed

lemma PAGE_LIMIT_less: "n \<le> PAGE_LIMIT \<Longrightarrow> n < 2 ^ 64 - 1"
  by (simp add: PAGE_LIMIT_def)

lemma below_count_valid:
  assumes "disk_ok d" and "unat pid < page_count d"
  shows "validate_existing_page_id pid (disk_page_count d) = Inr ()" and "unat pid < PAGE_LIMIT"
proof -
  from assms show lim: "unat pid < PAGE_LIMIT" by (simp add: disk_ok_def)
  have "unat INVALID_PAGE_ID = 2 ^ 64 - 1" by (simp add: INVALID_PAGE_ID_def)
  then have "pid \<noteq> INVALID_PAGE_ID" using lim PAGE_LIMIT_less [of "unat pid"] by auto
  then show "validate_existing_page_id pid (disk_page_count d) = Inr ()"
    using assms by (simp add: validate_existing_page_id_def page_count_def not_le word_less_nat_alt)
qed

lemma page_region_bound:
  assumes "disk_ok d" and "unat pid < page_count d"
  shows "PAGE_SIZE * (unat pid + 1) + PAGE_SIZE \<le> length (disk_file d)"
proof -
  have "PAGE_SIZE * (unat pid + 2) \<le> PAGE_SIZE * (page_count d + 1)"
    using assms by (intro mult_le_mono2) simp
  then show ?thesis using assms by (simp add: disk_ok_def algebra_simps)
qed

lemma read_page_eq:
  assumes "disk_ok d" and "unat pid < page_count d"
  shows "read_page pid d = Inr (region (PAGE_SIZE * (unat pid + 1)) PAGE_SIZE (disk_file d))"
proof -
  note v = below_count_valid [OF assms]
  obtain off where "page_offset pid = Inr off" "unat off = PAGE_SIZE * (unat pid + 1)" "0 \<le> sint off"
    using page_offset_ok [OF v(2)] .
  with v(1) page_region_bound [OF assms] show ?thesis by (simp add: read_page_def)
qed

lemma write_at_inside: "off + length bs \<le> length f \<Longrightarrow> write_at off bs f = splice off bs f"
  by (simp add: write_at_def)

lemma write_page_eq:
  assumes "disk_ok d" and "unat pid < page_count d" and "length bs = PAGE_SIZE"
  shows "write_page pid bs d
    = (Inr (), d\<lparr>disk_file := splice (PAGE_SIZE * (unat pid + 1)) bs (disk_file d)\<rparr>)"
proof -
  note v = below_count_valid [OF assms(1,2)]
  obtain off where "page_offset pid = Inr off" "unat off = PAGE_SIZE * (unat pid + 1)" "0 \<le> sint off"
    using page_offset_ok [OF v(2)] .
  with v(1) page_region_bound [OF assms(1,2)] assms(3) show ?thesis
    by (simp add: write_page_def write_at_inside)
qed

lemma pages_disjoint:
  assumes "m \<noteq> (n :: nat)"
  shows "PAGE_SIZE * (m + 1) + PAGE_SIZE \<le> PAGE_SIZE * (n + 1)
    \<or> PAGE_SIZE * (n + 1) + PAGE_SIZE \<le> PAGE_SIZE * (m + 1)"
  using assms by (auto simp: PAGE_SIZE_def)

lemma write_page_law:
  assumes ok: "disk_ok d" and p: "unat pid < page_count d" and len: "length bs = PAGE_SIZE"
  shows "\<exists>d'. write_page pid bs d = (Inr (), d') \<and> disk_ok d' \<and> page_count d' = page_count d
    \<and> (\<forall>q. read_page q d' = (if q = pid then Inr bs else read_page q d))
    \<and> read_metadata d' = read_metadata d"
proof -
  let ?off = "PAGE_SIZE * (unat pid + 1)"
  let ?d = "d\<lparr>disk_file := splice ?off bs (disk_file d)\<rparr>"
  have inside: "?off + length bs \<le> length (disk_file d)"
    using page_region_bound [OF ok p] len by simp
  then have flen: "length (disk_file ?d) = length (disk_file d)" by simp
  have okd: "disk_ok ?d" and cnt: "page_count ?d = page_count d"
    using ok flen by (simp_all add: disk_ok_def page_count_def)
  have rd: "read_page q ?d = (if q = pid then Inr bs else read_page q d)" for q
  proof (cases "unat q < page_count d")
    case True
    then have q': "unat q < page_count ?d" using cnt by simp
    show ?thesis
    proof (cases "q = pid")
      case True
      have "region ?off PAGE_SIZE (splice ?off bs (disk_file d)) = bs"
        using region_splice_same [of ?off "disk_file d" bs] inside len by simp
      then show ?thesis using read_page_eq [OF okd q'] True by simp
    next
      case False
      then have "unat q \<noteq> unat pid" by (simp add: word_unat_eq_iff)
      then have "region (PAGE_SIZE * (unat q + 1)) PAGE_SIZE (splice ?off bs (disk_file d))
          = region (PAGE_SIZE * (unat q + 1)) PAGE_SIZE (disk_file d)"
        using inside pages_disjoint len by (intro region_splice_disjoint) auto
      then show ?thesis
        using False read_page_eq [OF okd q'] read_page_eq [OF ok True] by simp
    qed
  next
    case False
    then have "q \<noteq> pid" using p by auto
    moreover have "validate_existing_page_id q (disk_page_count d)
        = Inl (OutOfRange ''Index page id is out of range'')"
      using False by (simp add: validate_existing_page_id_def page_count_def word_le_nat_alt)
    ultimately show ?thesis by (simp add: read_page_def)
  qed
  have small: "INDEX_METADATA_SIZE \<le> ?off" by (simp add: INDEX_METADATA_SIZE_def PAGE_SIZE_def)
  have reg: "region a n (disk_file ?d) = region a n (disk_file d)" if "a + n \<le> ?off" for a n
    using that inside by (simp add: region_splice_disjoint)
  have "read_metadata ?d = read_metadata d"
    using flen small reg
    by (simp add: read_metadata_def metadata_of_bytes_def PAGE_SIZE_def)
  with write_page_eq [OF ok p len] okd cnt rd show ?thesis by blast
qed

lemma allocate_page_law:
  assumes ok: "disk_ok d" and room: "page_count d < PAGE_LIMIT"
  shows "\<exists>pid d'. allocate_page d = (Inr pid, d') \<and> disk_ok d' \<and> unat pid = page_count d
    \<and> page_count d' = Suc (page_count d)
    \<and> (\<forall>q. unat q < page_count d \<longrightarrow> read_page q d' = read_page q d)
    \<and> read_metadata d' = read_metadata d"
proof -
  let ?pid = "disk_page_count d"
  have lim: "unat ?pid < PAGE_LIMIT" using room by (simp add: page_count_def)
  obtain off where off: "page_offset ?pid = Inr off" "unat off = PAGE_SIZE * (unat ?pid + 1)" "0 \<le> sint off"
    using page_offset_ok [OF lim] .
  have len: "length (disk_file d) = unat off" using ok off(2) by (simp add: disk_ok_def page_count_def)
  define d' where "d' = d\<lparr>disk_file := disk_file d @ replicate PAGE_SIZE CHR 0x00,
      disk_page_count := disk_page_count d + 1\<rparr>"
  have alloc: "allocate_page d = (Inr ?pid, d')"
    using off len by (simp add: allocate_page_def write_at_def splice_def d'_def)
  have cnt: "page_count d' = Suc (page_count d)"
    using lim PAGE_LIMIT_less [of "unat ?pid"]
    by (simp add: d'_def page_count_def unat_word_ariths PAGE_LIMIT_def)
  have okd: "disk_ok d'"
    using ok room cnt by (simp add: disk_ok_def d'_def PAGE_SIZE_def)
  have rd: "read_page q d' = read_page q d" if q: "unat q < page_count d" for q
  proof -
    have q': "unat q < page_count d'" using q cnt by simp
    have "region (PAGE_SIZE * (unat q + 1)) PAGE_SIZE (disk_file d')
        = region (PAGE_SIZE * (unat q + 1)) PAGE_SIZE (disk_file d)"
      using page_region_bound [OF ok q] by (simp add: d'_def region_append_left)
    then show ?thesis using read_page_eq [OF okd q'] read_page_eq [OF ok q] by simp
  qed
  have big: "4096 \<le> length (disk_file d)" using len off(2) by (simp add: PAGE_SIZE_def)
  then have "read_metadata d' = read_metadata d"
    by (simp add: read_metadata_def metadata_of_bytes_def d'_def region_append_left
        INDEX_METADATA_SIZE_def)
  with alloc okd cnt rd show ?thesis by (auto simp: page_count_def)
qed

subsection \<open>The contract of the page file\<close>

definition node_map :: "(64 word \<Rightarrow> 'd \<Rightarrow> exn + char list) \<Rightarrow> key_kind \<Rightarrow> 'd \<Rightarrow> 64 word \<rightharpoonup> index_node" where
  \<comment> \<open>the nodes that can be read back from the pages\<close>
  "node_map rd kk d p =
     (case bindE (rd p d) (\<lambda>bs. deserialize_node bs kk) of Inl _ \<Rightarrow> None | Inr n \<Rightarrow> Some n)"

locale page_store =
  fixes rd :: "64 word \<Rightarrow> 'd \<Rightarrow> exn + char list"
    and wr :: "64 word \<Rightarrow> char list \<Rightarrow> ('d, unit) sx"
    and alloc :: "('d, 64 word) sx"
    and count :: "'d \<Rightarrow> nat"
    and ok :: "'d \<Rightarrow> bool"
    and limit :: nat
  assumes wr_law: "ok d \<Longrightarrow> unat p < count d \<Longrightarrow> length bs = PAGE_SIZE \<Longrightarrow>
      \<exists>d'. wr p bs d = (Inr (), d') \<and> ok d' \<and> count d' = count d
        \<and> (\<forall>q. rd q d' = (if q = p then Inr bs else rd q d))"
    and alloc_law: "ok d \<Longrightarrow> count d < limit \<Longrightarrow>
      \<exists>p d'. alloc d = (Inr p, d') \<and> ok d' \<and> unat p = count d \<and> count d' = Suc (count d)
        \<and> (\<forall>q. unat q < count d \<longrightarrow> rd q d' = rd q d)"
begin

lemma wr_node:
  assumes "ok d" and "unat (page_id n) < count d" and "node_ok kk n"
  shows "\<exists>d'. wr (page_id n) (node_image n) d = (Inr (), d') \<and> ok d' \<and> count d' = count d
    \<and> node_map rd kk d' = (node_map rd kk d)(page_id n \<mapsto> n)"
proof -
  obtain d' where d': "wr (page_id n) (node_image n) d = (Inr (), d')" "ok d'" "count d' = count d"
    and r: "\<forall>q. rd q d' = (if q = page_id n then Inr (node_image n) else rd q d)"
    using wr_law [OF assms(1,2) length_node_image [OF assms(3)]] by blast
  have "node_map rd kk d' q = ((node_map rd kk d)(page_id n \<mapsto> n)) q" for q
    using r deserialize_node_image [OF assms(3)] by (simp add: node_map_def)
  with d' show ?thesis by blast
qed

lemma alloc_node:
  assumes "ok d" and "count d < limit"
  shows "\<exists>p d'. alloc d = (Inr p, d') \<and> ok d' \<and> unat p = count d \<and> count d' = Suc (count d)
    \<and> (\<forall>q. unat q < count d \<longrightarrow> node_map rd kk d' q = node_map rd kk d q)"
proof -
  obtain p d' where "alloc d = (Inr p, d')" "ok d'" "unat p = count d" "count d' = Suc (count d)"
    and "\<forall>q. unat q < count d \<longrightarrow> rd q d' = rd q d"
    using alloc_law [OF assms] by blast
  then show ?thesis by (auto simp: node_map_def)
qed

end

text \<open>The file of an index also keeps the metadata record, apart from the pages.\<close>

locale index_file = page_store rd wr alloc count ok limit
  for rd :: "64 word \<Rightarrow> 'd \<Rightarrow> exn + char list" and wr alloc count ok limit +
  fixes rm :: "'d \<Rightarrow> metadata"
    and wm :: "metadata \<Rightarrow> ('d, unit) sx"
    and meta_ok :: "metadata \<Rightarrow> bool"
  assumes wm_law: "ok d \<Longrightarrow> meta_ok m \<Longrightarrow>
      \<exists>d'. wm m d = (Inr (), d') \<and> ok d' \<and> count d' = count d \<and> rm d' = m
        \<and> (\<forall>q. rd q d' = rd q d)"
    and wr_meta: "ok d \<Longrightarrow> unat p < count d \<Longrightarrow> length bs = PAGE_SIZE \<Longrightarrow>
      wr p bs d = (Inr (), d') \<Longrightarrow> rm d' = rm d"
    and alloc_meta: "ok d \<Longrightarrow> count d < limit \<Longrightarrow> alloc d = (Inr p, d') \<Longrightarrow> rm d' = rm d"
begin

lemma wm_node:
  assumes "ok d" and "meta_ok m"
  shows "\<exists>d'. wm m d = (Inr (), d') \<and> ok d' \<and> count d' = count d \<and> rm d' = m
    \<and> node_map rd kk d' = node_map rd kk d"
proof -
  obtain d' where "wm m d = (Inr (), d')" "ok d'" "count d' = count d" "rm d' = m"
    and "\<forall>q. rd q d' = rd q d"
    using wm_law [OF assms] by blast
  then show ?thesis by (auto simp: node_map_def fun_eq_iff)
qed

end

fun kind_storable :: "key_kind \<Rightarrow> bool" where
  "kind_storable (KindOther b) = (2 < b \<and> b < 256)"
| "kind_storable _ = True"

definition metadata_ok :: "metadata \<Rightarrow> bool" where
  "metadata_ok m = kind_storable (meta_key_kind m)"

lemma length_metadata_bytes [simp]: "length (metadata_bytes m) = INDEX_METADATA_SIZE"
  by (simp add: metadata_bytes_def INDEX_METADATA_SIZE_def)

lemma metadata_roundtrip:
  assumes "metadata_ok m"
  shows "metadata_of_bytes (metadata_bytes m @ rest) = m"
proof -
  have "unat (tree_height m) < 256 ^ 4" using unsigned_less [of "tree_height m"] by simp
  moreover have "kind_of_byte (le_nat (le_bytes 1 (kind_byte (meta_key_kind m)))) = meta_key_kind m"
    using assms by (cases "meta_key_kind m") (simp_all add: metadata_ok_def kind_of_byte_def)
  ultimately show ?thesis
    by (simp add: metadata_of_bytes_def metadata_bytes_def region_def u64_bytes_def [symmetric])
qed

lemma write_metadata_law:
  assumes ok: "disk_ok d" and m: "metadata_ok m"
  shows "\<exists>d'. write_metadata m d = (Inr (), d') \<and> disk_ok d' \<and> page_count d' = page_count d
    \<and> read_metadata d' = m \<and> (\<forall>q. read_page q d' = read_page q d)"
proof -
  let ?d = "d\<lparr>disk_file := splice 0 (metadata_bytes m) (disk_file d)\<rparr>"
  have len: "PAGE_SIZE \<le> length (disk_file d)" using ok by (simp add: disk_ok_def)
  then have small: "INDEX_METADATA_SIZE \<le> length (disk_file d)"
    by (simp add: PAGE_SIZE_def INDEX_METADATA_SIZE_def)
  then have w: "write_metadata m d = (Inr (), ?d)"
    by (simp add: write_metadata_def write_at_inside)
  have flen: "length (disk_file ?d) = length (disk_file d)" using small by simp
  have okd: "disk_ok ?d" and cnt: "page_count ?d = page_count d"
    using ok flen by (simp_all add: disk_ok_def page_count_def)
  have "splice 0 (metadata_bytes m) (disk_file d)
      = metadata_bytes m @ drop INDEX_METADATA_SIZE (disk_file d)"
    by (simp add: splice_def)
  then have "read_metadata ?d = m"
    using metadata_roundtrip [OF m] by (simp add: read_metadata_def)
  moreover have "read_page q ?d = read_page q d" for q
  proof (cases "unat q < page_count d")
    case True
    have "region (PAGE_SIZE * (unat q + 1)) PAGE_SIZE (disk_file ?d)
        = region (PAGE_SIZE * (unat q + 1)) PAGE_SIZE (disk_file d)"
      using small by (simp add: region_splice_disjoint PAGE_SIZE_def INDEX_METADATA_SIZE_def)
    then show ?thesis using True cnt read_page_eq [OF okd, of q] read_page_eq [OF ok, of q] by simp
  next
    case False
    then have "validate_existing_page_id q (disk_page_count d)
        = Inl (OutOfRange ''Index page id is out of range'')"
      by (simp add: validate_existing_page_id_def page_count_def word_le_nat_alt)
    then show ?thesis by (simp add: read_page_def)
  qed
  ultimately show ?thesis using w okd cnt by blast
qed

interpretation dm: index_file read_page write_page allocate_page page_count disk_ok PAGE_LIMIT
  read_metadata write_metadata metadata_ok
proof unfold_locales
  fix d :: disk and p :: "64 word" and bs :: "char list"
  assume a: "disk_ok d" "unat p < page_count d" "length bs = PAGE_SIZE"
  show "\<exists>d'. write_page p bs d = (Inr (), d') \<and> disk_ok d' \<and> page_count d' = page_count d
      \<and> (\<forall>q. read_page q d' = (if q = p then Inr bs else read_page q d))"
    using write_page_law [OF a] by blast
  fix d' assume "write_page p bs d = (Inr (), d')"
  then show "read_metadata d' = read_metadata d" using write_page_law [OF a] by auto
next
  fix d :: disk
  assume a: "disk_ok d" "page_count d < PAGE_LIMIT"
  show "\<exists>p d'. allocate_page d = (Inr p, d') \<and> disk_ok d' \<and> unat p = page_count d
      \<and> page_count d' = Suc (page_count d)
      \<and> (\<forall>q. unat q < page_count d \<longrightarrow> read_page q d' = read_page q d)"
    using allocate_page_law [OF a] by blast
  fix p d' assume "allocate_page d = (Inr p, d')"
  then show "read_metadata d' = read_metadata d" using allocate_page_law [OF a] by auto
next
  fix d :: disk and m :: metadata
  assume "disk_ok d" "metadata_ok m"
  then show "\<exists>d'. write_metadata m d = (Inr (), d') \<and> disk_ok d' \<and> page_count d' = page_count d
      \<and> read_metadata d' = m \<and> (\<forall>q. read_page q d' = read_page q d)"
    by (rule write_metadata_law)
qed

subsection \<open>Opening a file\<close>

lemma open_new_disk:
  "open_disk None = Inr \<lparr>disk_file = new_file, disk_page_count = 0\<rparr>"
  "disk_ok \<lparr>disk_file = new_file, disk_page_count = 0\<rparr>"
  "read_metadata \<lparr>disk_file = new_file, disk_page_count = 0\<rparr> = empty_metadata"
proof -
  have len: "length new_file = PAGE_SIZE"
    by (simp add: new_file_def PAGE_SIZE_def INDEX_METADATA_SIZE_def)
  then show "open_disk None = Inr \<lparr>disk_file = new_file, disk_page_count = 0\<rparr>"
    and "disk_ok \<lparr>disk_file = new_file, disk_page_count = 0\<rparr>"
    by (simp_all add: open_disk_def disk_ok_def page_count_def)
  have "metadata_ok empty_metadata" by (simp add: metadata_ok_def empty_metadata_def)
  then show "read_metadata \<lparr>disk_file = new_file, disk_page_count = 0\<rparr> = empty_metadata"
    using len by (simp add: read_metadata_def new_file_def metadata_roundtrip PAGE_SIZE_def
        INDEX_METADATA_SIZE_def)
qed

lemma reopen_disk: "disk_ok d \<Longrightarrow> open_disk (Some (disk_file d)) = Inr d"
  by (simp add: open_disk_def disk_ok_def page_count_def PAGE_SIZE_def)

end
