(* ===== verification/BStar_Tree.thy ===== *)
theory BStar_Tree
  imports Disk_Manager
begin

section \<open>The B*+-tree index\<close>

text \<open>
  \<open>class BStarPlusIndex\<close> (\<open>index/src/bstarplus_tree_index.cpp\<close>), operation by operation. The state
  is the page file and the metadata held in memory. Code that only reads pages is a function of
  the state that may fail; code that writes is a computation of type \<open>(bindex, 'a) sx\<close>.

  Conventions. A path of page ids runs from the root to a node; the code keeps the root first and
  looks at \<open>path.back()\<close> and \<open>path[path.size() - 2]\<close>. Here a path has the node first, so that the
  parent is the second element and \<open>parent_path\<close> is the tail. Loops that follow page links are
  bounded by the number of pages plus one: a walk that visits more pages than the file has visits
  one twice and would go round for ever.
\<close>

record bindex =
  bx_disk :: disk
  bx_meta :: metadata

definition kind_of :: "bindex \<Rightarrow> key_kind" where
  "kind_of ix = meta_key_kind (bx_meta ix)"

definition on_disk :: "(disk, 'a) sx \<Rightarrow> (bindex, 'a) sx" where
  "on_disk m ix = (case m (bx_disk ix) of (r, d) \<Rightarrow> (r, ix\<lparr>bx_disk := d\<rparr>))"

definition set_meta :: "(metadata \<Rightarrow> metadata) \<Rightarrow> (bindex, unit) sx" where
  "set_meta f = modS (\<lambda>ix. ix\<lparr>bx_meta := f (bx_meta ix)\<rparr>)"

definition save_meta :: "(bindex, unit) sx" where
  "save_meta = bindS (getS bx_meta) (\<lambda>m. on_disk (write_metadata m))"

definition walk_bound :: "bindex \<Rightarrow> nat" where
  "walk_bound ix = Suc (page_count (bx_disk ix))"

subsection \<open>Nodes\<close>

definition read_node :: "64 word \<Rightarrow> bindex \<Rightarrow> exn + index_node" where
  "read_node pid ix = bindE (read_page pid (bx_disk ix)) (\<lambda>pg. deserialize_node pg (kind_of ix))"

definition write_node :: "index_node \<Rightarrow> (bindex, unit) sx" where
  "write_node n =
     bindS (askE (\<lambda>ix. serialize_node n (kind_of ix))) (\<lambda>pg. on_disk (write_page (page_id n) pg))"

definition node_fits_page :: "index_node \<Rightarrow> bindex \<Rightarrow> exn + bool" where
  "node_fits_page n ix =
     (case serialize_node n (kind_of ix) of
        Inr _ \<Rightarrow> Inr True
      | Inl e \<Rightarrow> (case e of LengthError _ \<Rightarrow> Inr False | _ \<Rightarrow> Inl e))"

definition child_index_for_key :: "index_key list \<Rightarrow> index_key \<Rightarrow> nat" where
  \<comment> \<open>\<open>std::upper_bound\<close>\<close>
  "child_index_for_key ks k = length (takeWhile (\<lambda>x. \<not> k < x) ks)"

definition lower_bound :: "index_key list \<Rightarrow> index_key \<Rightarrow> nat" where
  "lower_bound ks k = length (takeWhile (\<lambda>x. x < k) ks)"

subsection \<open>Walks down the tree\<close>

fun leftmost_leaf :: "nat \<Rightarrow> 64 word \<Rightarrow> bindex \<Rightarrow> exn + index_node" where
  \<comment> \<open>the loop shared by \<open>subtree_min_key\<close> and \<open>leftmost_leaf_page_id\<close>\<close>
  "leftmost_leaf 0 pid ix = Inl NoReturn"
| "leftmost_leaf (Suc f) pid ix =
     bindE (read_node pid ix) (\<lambda>n.
     if is_leaf n then Inr n
     else if children n = [] then Inl (RuntimeError ''Index internal node has no children'')
     else leftmost_leaf f (hd (children n)) ix)"

definition subtree_min_key :: "64 word \<Rightarrow> bindex \<Rightarrow> exn + index_key" where
  "subtree_min_key pid ix =
     bindE (leftmost_leaf (walk_bound ix) pid ix) (\<lambda>n.
     bindE (guardE (keys n \<noteq> []) (RuntimeError ''Index subtree has no keys'')) (\<lambda>_.
     Inr (hd (keys n))))"

definition leftmost_leaf_page_id :: "64 word \<Rightarrow> bindex \<Rightarrow> exn + 64 word" where
  "leftmost_leaf_page_id pid ix =
     bindE (leftmost_leaf (walk_bound ix) pid ix) (\<lambda>n. Inr (page_id n))"

fun min_keys_of :: "64 word list \<Rightarrow> bindex \<Rightarrow> exn + index_key list" where
  "min_keys_of [] ix = Inr []"
| "min_keys_of (p # ps) ix =
     bindE (subtree_min_key p ix) (\<lambda>k. bindE (min_keys_of ps ix) (\<lambda>ks. Inr (k # ks)))"

definition rebuild_internal_keys :: "index_node \<Rightarrow> bindex \<Rightarrow> exn + index_node" where
  "rebuild_internal_keys n ix =
     bindE (guardE (\<not> is_leaf n)
              (LogicError ''Leaf node does not have internal separator keys'')) (\<lambda>_.
     if children n = [] then Inr (n\<lparr>keys := []\<rparr>)
     else bindE (min_keys_of (tl (children n)) ix) (\<lambda>ks. Inr (n\<lparr>keys := ks\<rparr>)))"

fun find_leaf_from :: "nat \<Rightarrow> index_key \<Rightarrow> 64 word \<Rightarrow> 64 word list \<Rightarrow> bindex
    \<Rightarrow> exn + (index_node \<times> 64 word list)" where
  "find_leaf_from 0 key pid path ix = Inl NoReturn"
| "find_leaf_from (Suc f) key pid path ix =
     (if pid = INVALID_PAGE_ID then Inl (RuntimeError ''Index leaf page was not found'')
      else
        bindE (read_node pid ix) (\<lambda>n.
        if is_leaf n then Inr (n, pid # path)
        else
          let i = child_index_for_key (keys n) key in
          if i \<ge> length (children n)
          then Inl (RuntimeError ''Index internal node child pointer is missing'')
          else find_leaf_from f key (children n ! i) (pid # path) ix))"

definition find_leaf :: "index_key \<Rightarrow> bindex \<Rightarrow> exn + (index_node \<times> 64 word list)" where
  "find_leaf key ix = find_leaf_from (walk_bound ix) key (root_page_id (bx_meta ix)) [] ix"

subsection \<open>Lookup and range scan\<close>

fun find_from :: "nat \<Rightarrow> index_key \<Rightarrow> 64 word \<Rightarrow> bindex \<Rightarrow> exn + 64 word option" where
  "find_from 0 key pid ix = Inl NoReturn"
| "find_from (Suc f) key pid ix =
     (if pid = INVALID_PAGE_ID then Inr None
      else
        bindE (read_node pid ix) (\<lambda>n.
        if is_leaf n then
          let i = lower_bound (keys n) key in
          if i < length (keys n) \<and> keys n ! i = key then Inr (Some (records n ! i)) else Inr None
        else
          let i = child_index_for_key (keys n) key in
          if i \<ge> length (children n)
          then Inl (RuntimeError ''Index internal node child pointer is missing'')
          else find_from f key (children n ! i) ix))"

definition find_key :: "index_key \<Rightarrow> bindex \<Rightarrow> exn + 64 word option" where
  "find_key key ix =
     bindE (validate_key_kind key (kind_of ix)) (\<lambda>_.
     if meta_empty (bx_meta ix) then Inr None
     else find_from (walk_bound ix) key (root_page_id (bx_meta ix)) ix)"

fun scan_leaf :: "index_key \<Rightarrow> index_key \<Rightarrow> index_key list \<Rightarrow> 64 word list
    \<Rightarrow> 64 word list \<Rightarrow> bool \<times> 64 word list" where
  \<comment> \<open>the inner loop; the flag is set when the function returns from inside it\<close>
  "scan_leaf b e (k # ks) (r # rs) res =
     (if k < b then scan_leaf b e ks rs res
      else if e < k then (True, res)
      else scan_leaf b e ks rs (res @ [r]))"
| "scan_leaf b e _ _ res = (False, res)"

fun range_loop :: "nat \<Rightarrow> index_key \<Rightarrow> index_key \<Rightarrow> index_node \<Rightarrow> 64 word list \<Rightarrow> bindex
    \<Rightarrow> exn + 64 word list" where
  "range_loop 0 b e n res ix = Inl NoReturn"
| "range_loop (Suc f) b e n res ix =
     (if page_id n \<noteq> INVALID_PAGE_ID \<and> page_id n < disk_page_count (bx_disk ix) then
        case scan_leaf b e (keys n) (records n) res of
          (True, res') \<Rightarrow> Inr res'
        | (False, res') \<Rightarrow>
            if next_leaf_page_id n = INVALID_PAGE_ID then Inr res'
            else bindE (read_node (next_leaf_page_id n) ix) (\<lambda>n'. range_loop f b e n' res' ix)
      else Inr res)"

definition range_search :: "index_key \<Rightarrow> index_key \<Rightarrow> bindex \<Rightarrow> exn + 64 word list" where
  "range_search b e ix =
     bindE (validate_key_kind b (kind_of ix)) (\<lambda>_.
     bindE (validate_key_kind e (kind_of ix)) (\<lambda>_.
     if meta_empty (bx_meta ix) \<or> e < b then Inr []
     else bindE (find_leaf b ix) (\<lambda>(n, _). range_loop (walk_bound ix) b e n [] ix)))"

subsection \<open>Separators and the root\<close>

fun propagate_from :: "64 word \<Rightarrow> index_key \<Rightarrow> 64 word list \<Rightarrow> (bindex, unit) sx" where
  "propagate_from cur mk [] = retS ()"
| "propagate_from cur mk (pp # rest) =
     bindS (askE (read_node pp)) (\<lambda>parent.
     bindS (guardS (\<not> is_leaf parent) (LogicError ''Leaf node cannot be a parent'')) (\<lambda>_.
     case index_of cur (children parent) of
       None \<Rightarrow> retS ()
     | Some i \<Rightarrow>
         if i > 0 then write_node (parent\<lparr>keys := (keys parent)[i - 1 := mk]\<rparr>)
         else bindS (askE (subtree_min_key (page_id parent))) (\<lambda>mk'.
              propagate_from (page_id parent) mk' rest)))"

definition propagate_subtree_min_change :: "64 word \<Rightarrow> 64 word list \<Rightarrow> (bindex, unit) sx" where
  "propagate_subtree_min_change pid path =
     (if length path < 2 \<or> hd path \<noteq> pid then retS ()
      else bindS (askE (subtree_min_key pid)) (\<lambda>mk. propagate_from pid mk (tl path)))"

definition promote_single_child_root :: "index_node \<Rightarrow> (bindex, unit) sx" where
  "promote_single_child_root root =
     bindS (guardS (\<not> (is_leaf root \<or> length (children root) \<noteq> 1))
              (LogicError ''Root can only promote a single child'')) (\<lambda>_.
     bindS (askE (read_node (hd (children root)))) (\<lambda>child.
     bindS (set_meta (\<lambda>m. m\<lparr>root_page_id := page_id child,
              tree_height := (if tree_height m > 1 then tree_height m - 1 else 1)\<rparr>)) (\<lambda>_.
     bindS (if is_leaf child then retS (page_id child)
            else askE (leftmost_leaf_page_id (page_id child))) (\<lambda>first.
     set_meta (\<lambda>m. m\<lparr>first_leaf_page_id := first\<rparr>)))))"

end
