(* ===== verification/BStar_Modify.thy ===== *)
theory BStar_Modify
  imports BStar_Tree
begin

section \<open>Insertion into and deletion from the B*+-tree\<close>

text \<open>
  The mutating half of \<open>class BStarPlusIndex\<close>: splitting with the B* policy (give a key to a
  sibling, then split two nodes into three), deletion with borrowing, merging and redistribution,
  and the constructor.
\<close>

definition reading :: "index_node \<Rightarrow> (index_node \<Rightarrow> (bindex, 'a) sx) \<Rightarrow> (bindex, 'a) sx" where
  \<comment> \<open>\<open>rebuild_internal_keys(n);\<close> and the code that goes on with \<open>n\<close>\<close>
  "reading n k = bindS (askE (rebuild_internal_keys n)) k"

definition fits_both :: "index_node \<Rightarrow> index_node \<Rightarrow> (bindex, bool) sx" where
  \<comment> \<open>\<open>node_fits_page(a) && node_fits_page(b)\<close>, short-circuit\<close>
  "fits_both a b =
     bindS (askE (node_fits_page a)) (\<lambda>x. if x then askE (node_fits_page b) else retS False)"

subsection \<open>Moving entries between leaf siblings\<close>

definition try_give_to_right_leaf :: "index_node \<Rightarrow> index_node \<Rightarrow> nat \<Rightarrow> (bindex, bool) sx" where
  "try_give_to_right_leaf leaf parent i =
     (if i + 1 \<ge> length (children parent) then retS False
      else
        bindS (askE (read_node (children parent ! (i + 1)))) (\<lambda>right.
        if \<not> is_leaf right \<or> keys leaf = [] then retS False
        else
          let leaf' = leaf\<lparr>keys := butlast (keys leaf), records := butlast (records leaf)\<rparr>;
              right' = right\<lparr>keys := last (keys leaf) # keys right,
                             records := last (records leaf) # records right\<rparr> in
          if keys leaf' = [] then retS False
          else
            bindS (fits_both right' leaf') (\<lambda>fits.
            if \<not> fits then retS False
            else
              bindS (write_node leaf') (\<lambda>_.
              bindS (write_node right') (\<lambda>_.
              reading parent (\<lambda>parent'.
              bindS (write_node parent') (\<lambda>_. retS True))))))) "

definition try_give_to_left_leaf :: "index_node \<Rightarrow> index_node \<Rightarrow> nat \<Rightarrow> (bindex, bool) sx" where
  "try_give_to_left_leaf leaf parent i =
     (if i = 0 \<or> keys leaf = [] then retS False
      else
        bindS (askE (read_node (children parent ! (i - 1)))) (\<lambda>left.
        if \<not> is_leaf left then retS False
        else
          let left' = left\<lparr>keys := keys left @ [hd (keys leaf)],
                           records := records left @ [hd (records leaf)]\<rparr>;
              leaf' = leaf\<lparr>keys := tl (keys leaf), records := tl (records leaf)\<rparr> in
          if keys leaf' = [] then retS False
          else
            bindS (fits_both left' leaf') (\<lambda>fits.
            if \<not> fits then retS False
            else
              bindS (write_node left') (\<lambda>_.
              bindS (write_node leaf') (\<lambda>_.
              reading parent (\<lambda>parent'.
              bindS (write_node parent') (\<lambda>_. retS True))))))) "

definition items_of :: "index_node \<Rightarrow> index_node \<Rightarrow> (index_key \<times> 64 word) list" where
  \<comment> \<open>the entries of two leaves, sorted by key as \<open>std::sort\<close> leaves them\<close>
  "items_of left right =
     sort_key fst (zip (keys left) (records left) @ zip (keys right) (records right))"

definition redistribute_leaf_pair :: "index_node \<Rightarrow> index_node \<Rightarrow> index_node \<Rightarrow> 64 word list
    \<Rightarrow> (bindex, unit) sx" where
  "redistribute_leaf_pair left right parent parent_path =
     bindS (guardS (is_leaf left \<and> is_leaf right)
              (LogicError ''Only leaf siblings can be redistributed by redistribute_leaf_pair'')) (\<lambda>_.
     let items = items_of left right;
         left_count = (length items + 1) div 2;
         left1 = left\<lparr>keys := map fst (take left_count items), records := map snd (take left_count items)\<rparr>;
         right' = right\<lparr>keys := map fst (drop left_count items), records := map snd (drop left_count items)\<rparr> in
     bindS (fits_both left1 right') (\<lambda>fits.
     bindS (guardS fits (LengthError ''Redistributed leaf siblings do not fit into pages'')) (\<lambda>_.
     let left' = left1\<lparr>next_leaf_page_id := page_id right'\<rparr> in
     bindS (write_node left') (\<lambda>_.
     bindS (write_node right') (\<lambda>_.
     reading parent (\<lambda>parent'.
     bindS (write_node parent') (\<lambda>_.
     propagate_subtree_min_change (page_id parent') parent_path)))))))"

subsection \<open>Moving children between internal siblings\<close>

definition halve_children :: "index_node \<Rightarrow> index_node \<Rightarrow> index_node \<times> index_node" where
  "halve_children left right =
     (let cs = children left @ children right; left_count = (length cs + 1) div 2
      in (left\<lparr>children := take left_count cs\<rparr>, right\<lparr>children := drop left_count cs\<rparr>))"

definition redistribute_internal_pair :: "index_node \<Rightarrow> index_node \<Rightarrow> index_node \<Rightarrow> 64 word list
    \<Rightarrow> (bindex, unit) sx" where
  "redistribute_internal_pair left right parent parent_path =
     bindS (guardS (\<not> (is_leaf left \<or> is_leaf right))
       (LogicError ''Only internal siblings can be redistributed by redistribute_internal_pair'')) (\<lambda>_.
     case halve_children left right of (left1, right1) \<Rightarrow>
     reading left1 (\<lambda>left'.
     reading right1 (\<lambda>right'.
     bindS (fits_both left' right') (\<lambda>fits.
     bindS (guardS fits (LengthError ''Redistributed internal siblings do not fit into pages'')) (\<lambda>_.
     bindS (write_node left') (\<lambda>_.
     bindS (write_node right') (\<lambda>_.
     reading parent (\<lambda>parent'.
     bindS (write_node parent') (\<lambda>_.
     propagate_subtree_min_change (page_id parent') parent_path)))))))))"

definition try_redistribute_internal_with_right :: "index_node \<Rightarrow> index_node \<Rightarrow> nat \<Rightarrow> 64 word list
    \<Rightarrow> (bindex, bool) sx" where
  "try_redistribute_internal_with_right node parent i parent_path =
     (if i + 1 \<ge> length (children parent) then retS False
      else
        bindS (askE (read_node (children parent ! (i + 1)))) (\<lambda>right.
        if is_leaf right then retS False
        else
          case halve_children node right of (node1, right1) \<Rightarrow>
          reading node1 (\<lambda>node'.
          reading right1 (\<lambda>right'.
          bindS (fits_both node' right') (\<lambda>fits.
          if \<not> fits then retS False
          else bindS (redistribute_internal_pair node right parent parent_path) (\<lambda>_. retS True))))))"

definition try_redistribute_internal_with_left :: "index_node \<Rightarrow> index_node \<Rightarrow> nat \<Rightarrow> 64 word list
    \<Rightarrow> (bindex, bool) sx" where
  "try_redistribute_internal_with_left node parent i parent_path =
     (if i = 0 then retS False
      else
        bindS (askE (read_node (children parent ! (i - 1)))) (\<lambda>left.
        if is_leaf left then retS False
        else
          case halve_children left node of (left1, node1) \<Rightarrow>
          reading left1 (\<lambda>left'.
          reading node1 (\<lambda>node'.
          bindS (fits_both left' node') (\<lambda>fits.
          if \<not> fits then retS False
          else bindS (redistribute_internal_pair left node parent parent_path) (\<lambda>_. retS True))))))"

subsection \<open>Splitting internal nodes\<close>

definition new_internal :: "64 word \<Rightarrow> index_key list \<Rightarrow> 64 word list \<Rightarrow> index_node" where
  "new_internal pid ks cs = \<lparr>is_leaf = False, page_id = pid, next_leaf_page_id = INVALID_PAGE_ID,
     keys = ks, children = cs, records = []\<rparr>"

function (sequential) insert_into_parent ::
    "index_node \<Rightarrow> index_key \<Rightarrow> index_node \<Rightarrow> 64 word list \<Rightarrow> (bindex, unit) sx"
  and split_internal_pair ::
    "index_node \<Rightarrow> index_node \<Rightarrow> index_node \<Rightarrow> nat \<Rightarrow> 64 word list \<Rightarrow> (bindex, unit) sx"
  and split_internal :: "index_node \<Rightarrow> 64 word list \<Rightarrow> (bindex, unit) sx"
where
  "insert_into_parent left separator right path =
     bindS (guardS (path \<noteq> [] \<and> hd path = page_id left)
              (LogicError ''Invalid path to left index node'')) (\<lambda>_.
     case tl path of
       [] \<Rightarrow>
         bindS (on_disk allocate_page) (\<lambda>new_root_page_id.
         bindS (write_node left) (\<lambda>_.
         bindS (write_node right) (\<lambda>_.
         bindS (write_node (new_internal new_root_page_id [separator] [page_id left, page_id right])) (\<lambda>_.
         set_meta (\<lambda>m. m\<lparr>root_page_id := new_root_page_id, tree_height := tree_height m + 1\<rparr>)))))
     | parent_page_id # up \<Rightarrow>
         bindS (askE (read_node parent_page_id)) (\<lambda>parent.
         bindS (guardS (\<not> is_leaf parent) (LogicError ''Leaf node cannot be a parent'')) (\<lambda>_.
         case index_of (page_id left) (children parent) of
           None \<Rightarrow> throwS (LogicError ''Parent does not reference split child'')
         | Some i \<Rightarrow>
             let parent1 = parent\<lparr>keys := insert_at i separator (keys parent),
                                  children := insert_at (i + 1) (page_id right) (children parent)\<rparr> in
             bindS (write_node left) (\<lambda>_.
             bindS (write_node right) (\<lambda>_.
             reading parent1 (\<lambda>parent2.
             bindS (askE (node_fits_page parent2)) (\<lambda>fits.
             if fits then write_node parent2
             else split_internal parent2 (parent_page_id # up))))))))"
| "split_internal_pair left right parent parent_index parent_path =
     bindS (guardS (\<not> (is_leaf left \<or> is_leaf right))
              (LogicError ''Only internal siblings can be split by split_internal_pair'')) (\<lambda>_.
     let cs = children left @ children right in
     bindS (on_disk allocate_page) (\<lambda>middle_page_id.
     case three_way_counts (length cs) of (first, second, _) \<Rightarrow>
     reading (left\<lparr>children := take first cs\<rparr>) (\<lambda>left'.
     reading (new_internal middle_page_id [] (take second (drop first cs))) (\<lambda>middle'.
     reading (right\<lparr>children := drop (first + second) cs\<rparr>) (\<lambda>right'.
     bindS (bindS (fits_both left' middle') (\<lambda>x. if x then askE (node_fits_page right') else retS False)) (\<lambda>fits.
     bindS (guardS fits
              (LengthError ''Internal pair split produced a node that does not fit into a page'')) (\<lambda>_.
     bindS (write_node left') (\<lambda>_.
     bindS (write_node middle') (\<lambda>_.
     bindS (write_node right') (\<lambda>_.
     reading (parent\<lparr>children := insert_at (parent_index + 1) middle_page_id (children parent)\<rparr>) (\<lambda>parent'.
     bindS (askE (node_fits_page parent')) (\<lambda>pfits.
     if pfits then write_node parent' else split_internal parent' parent_path)))))))))))) "
| "split_internal node path =
     bindS (guardS (\<not> is_leaf node) (LogicError ''Leaf node cannot be split by split_internal'')) (\<lambda>_.
     bindS (guardS (path \<noteq> [] \<and> hd path = page_id node)
              (LogicError ''Invalid path to internal index node'')) (\<lambda>_.
     let alone =
       bindS (guardS (2 \<le> length (children node))
                (LogicError ''Cannot split internal node with fewer than two children'')) (\<lambda>_.
       let split_index = length (children node) div 2 in
       bindS (on_disk allocate_page) (\<lambda>right_page_id.
       reading (node\<lparr>children := take split_index (children node)\<rparr>) (\<lambda>node'.
       reading (new_internal right_page_id [] (drop split_index (children node))) (\<lambda>right'.
       bindS (askE (subtree_min_key (hd (children right')))) (\<lambda>separator.
       insert_into_parent node' separator right' path))))) in
     case tl path of
       [] \<Rightarrow> alone
     | parent_page_id # up \<Rightarrow>
         bindS (askE (read_node parent_page_id)) (\<lambda>parent.
         bindS (guardS (\<not> is_leaf parent) (LogicError ''Leaf node cannot be a parent'')) (\<lambda>_.
         case index_of (page_id node) (children parent) of
           None \<Rightarrow> throwS (LogicError ''Parent does not reference split internal node'')
         | Some i \<Rightarrow>
             bindS (try_redistribute_internal_with_right node parent i (parent_page_id # up)) (\<lambda>done_right.
             if done_right then retS ()
             else
             bindS (try_redistribute_internal_with_left node parent i (parent_page_id # up)) (\<lambda>done_left.
             if done_left then retS ()
             else if i + 1 < length (children parent) then
               bindS (askE (read_node (children parent ! (i + 1)))) (\<lambda>right.
               split_internal_pair node right parent i (parent_page_id # up))
             else if i > 0 then
               bindS (askE (read_node (children parent ! (i - 1)))) (\<lambda>left.
               split_internal_pair left node parent (i - 1) (parent_page_id # up))
             else alone))))))"
  by pat_completeness auto
termination
  by (relation "measure (case_sum (\<lambda>(_, _, _, path). 2 * length path)
        (case_sum (\<lambda>(_, _, _, _, path). 2 * length path + 2) (\<lambda>(_, path). 2 * length path + 1)))")
    (auto dest!: length_of_tl)

declare insert_into_parent.simps [simp del] split_internal_pair.simps [simp del]
  split_internal.simps [simp del]

subsection \<open>Splitting leaves\<close>

definition new_leaf :: "64 word \<Rightarrow> 64 word \<Rightarrow> index_key list \<Rightarrow> 64 word list \<Rightarrow> index_node" where
  "new_leaf pid nxt ks rs = \<lparr>is_leaf = True, page_id = pid, next_leaf_page_id = nxt,
     keys = ks, children = [], records = rs\<rparr>"

definition split_leaf_pair :: "index_node \<Rightarrow> index_node \<Rightarrow> index_node \<Rightarrow> nat \<Rightarrow> 64 word list
    \<Rightarrow> (bindex, unit) sx" where
  "split_leaf_pair left right parent parent_index parent_path =
     (let items = items_of left right in
     bindS (on_disk allocate_page) (\<lambda>middle_page_id.
     case three_way_counts (length items) of (first, second, _) \<Rightarrow>
     let its1 = take first items; its2 = take second (drop first items);
         its3 = drop (first + second) items;
         left' = left\<lparr>keys := map fst its1, records := map snd its1,
                      next_leaf_page_id := middle_page_id\<rparr>;
         middle' = new_leaf middle_page_id (page_id right) (map fst its2) (map snd its2);
         right' = right\<lparr>keys := map fst its3, records := map snd its3\<rparr> in
     bindS (guardS (keys left' \<noteq> [] \<and> keys middle' \<noteq> [] \<and> keys right' \<noteq> [])
              (LogicError ''Leaf pair split produced an empty node'')) (\<lambda>_.
     bindS (write_node left') (\<lambda>_.
     bindS (write_node middle') (\<lambda>_.
     bindS (write_node right') (\<lambda>_.
     reading (parent\<lparr>children := insert_at (parent_index + 1) middle_page_id (children parent)\<rparr>) (\<lambda>parent'.
     bindS (askE (node_fits_page parent')) (\<lambda>fits.
     if fits then write_node parent' else split_internal parent' parent_path))))))))"

definition split_leaf_alone :: "index_node \<Rightarrow> 64 word list \<Rightarrow> (bindex, unit) sx" where
  \<comment> \<open>the end of \<open>split_leaf\<close>, reached when there is no sibling\<close>
  "split_leaf_alone leaf path =
     bindS (on_disk allocate_page) (\<lambda>right_page_id.
     let split_index = length (keys leaf) div 2;
         right = new_leaf right_page_id (next_leaf_page_id leaf)
                   (drop split_index (keys leaf)) (drop split_index (records leaf));
         leaf' = leaf\<lparr>keys := take split_index (keys leaf), records := take split_index (records leaf),
                      next_leaf_page_id := right_page_id\<rparr> in
     bindS (guardS (keys right \<noteq> []) (LogicError ''Leaf split produced empty right node'')) (\<lambda>_.
     insert_into_parent leaf' (hd (keys right)) right path))"

definition split_leaf :: "index_node \<Rightarrow> 64 word list \<Rightarrow> (bindex, unit) sx" where
  "split_leaf leaf path =
     bindS (guardS (is_leaf leaf) (LogicError ''Only leaf node can be split by split_leaf'')) (\<lambda>_.
     bindS (guardS (path \<noteq> [] \<and> hd path = page_id leaf)
              (LogicError ''Invalid path to leaf index node'')) (\<lambda>_.
     case tl path of
       [] \<Rightarrow> split_leaf_alone leaf path
     | parent_page_id # up \<Rightarrow>
         bindS (askE (read_node parent_page_id)) (\<lambda>parent.
         bindS (guardS (\<not> is_leaf parent) (LogicError ''Leaf node cannot be a parent'')) (\<lambda>_.
         case index_of (page_id leaf) (children parent) of
           None \<Rightarrow> throwS (LogicError ''Parent does not reference split leaf'')
         | Some i \<Rightarrow>
             bindS (try_give_to_right_leaf leaf parent i) (\<lambda>gave_right.
             if gave_right then retS ()
             else
             bindS (try_give_to_left_leaf leaf parent i) (\<lambda>gave_left.
             if gave_left then retS ()
             else if i + 1 < length (children parent) then
               bindS (askE (read_node (children parent ! (i + 1)))) (\<lambda>right.
               bindS (guardS (is_leaf right) (LogicError ''Leaf sibling has unexpected node type'')) (\<lambda>_.
               split_leaf_pair leaf right parent i (parent_page_id # up)))
             else if i > 0 then
               bindS (askE (read_node (children parent ! (i - 1)))) (\<lambda>left.
               bindS (guardS (is_leaf left) (LogicError ''Leaf sibling has unexpected node type'')) (\<lambda>_.
               split_leaf_pair left leaf parent (i - 1) (parent_page_id # up)))
             else split_leaf_alone leaf path))))))"

definition insert_key :: "index_key \<Rightarrow> 64 word \<Rightarrow> (bindex, unit) sx" where
  "insert_key key record =
     bindS (askE (\<lambda>ix. validate_key_kind key (kind_of ix))) (\<lambda>_.
     bindS (getS bx_meta) (\<lambda>m.
     if meta_empty m then
       bindS (on_disk allocate_page) (\<lambda>pid.
       bindS (write_node (new_leaf pid INVALID_PAGE_ID [key] [record])) (\<lambda>_.
       bindS (set_meta (\<lambda>m. m\<lparr>root_page_id := pid, first_leaf_page_id := pid,
                tree_height := 1, key_total := 1\<rparr>)) (\<lambda>_.
       save_meta)))
     else
       bindS (askE (find_leaf key)) (\<lambda>(leaf, path).
       let i = lower_bound (keys leaf) key in
       bindS (guardS (\<not> (i < length (keys leaf) \<and> keys leaf ! i = key))
                (InvalidArgument ''Duplicate index key'')) (\<lambda>_.
       let leaf' = leaf\<lparr>keys := insert_at i key (keys leaf), records := insert_at i record (records leaf)\<rparr> in
       bindS (askE (node_fits_page leaf')) (\<lambda>fits.
       bindS (if fits then write_node leaf' else split_leaf leaf' path) (\<lambda>_.
       bindS (set_meta (\<lambda>m. m\<lparr>key_total := key_total m + 1\<rparr>)) (\<lambda>_.
       save_meta)))))))"

subsection \<open>Deletion: repairing internal nodes\<close>

definition borrow_child :: "index_node \<Rightarrow> index_node \<Rightarrow> index_node \<Rightarrow> 64 word list
    \<Rightarrow> (bindex, unit) sx" where
  \<comment> \<open>the common end of both borrowing branches of \<open>fix_internal_underflow\<close>: \<open>a\<close> is the left node of
    the pair and \<open>b\<close> the right one, with their new children\<close>
  "borrow_child a b parent parent_path =
     reading a (\<lambda>a'.
     reading b (\<lambda>b'.
     bindS (write_node a') (\<lambda>_.
     bindS (write_node b') (\<lambda>_.
     reading parent (\<lambda>parent'.
     bindS (write_node parent') (\<lambda>_.
     propagate_subtree_min_change (page_id parent') parent_path))))))"

function (sequential) handle_internal_after_child_removed ::
    "index_node \<Rightarrow> 64 word list \<Rightarrow> (bindex, unit) sx"
  and fix_internal_underflow :: "index_node \<Rightarrow> 64 word list \<Rightarrow> (bindex, unit) sx"
where
  "handle_internal_after_child_removed node path =
     bindS (guardS (\<not> is_leaf node) (LogicError ''Leaf node cannot handle removed children'')) (\<lambda>_.
     bindS (guardS (path \<noteq> [] \<and> hd path = page_id node)
              (LogicError ''Invalid path to internal index node'')) (\<lambda>_.
     reading node (\<lambda>node'.
     bindS (getS bx_meta) (\<lambda>m.
     if page_id node' = root_page_id m then
       if length (children node') = 1 then promote_single_child_root node' else write_node node'
     else if length (keys node') < min_internal_key_count (meta_key_kind m)
     then fix_internal_underflow node' path
     else bindS (write_node node') (\<lambda>_. propagate_subtree_min_change (page_id node') path)))))"
| "fix_internal_underflow node path =
     bindS (guardS (\<not> is_leaf node) (LogicError ''Leaf node cannot be fixed by fix_internal_underflow'')) (\<lambda>_.
     bindS (guardS (path \<noteq> [] \<and> hd path = page_id node)
              (LogicError ''Invalid path to internal index node'')) (\<lambda>_.
     bindS (getS bx_meta) (\<lambda>m.
     if page_id node = root_page_id m then
       if length (children node) = 1 then promote_single_child_root node
       else reading node write_node
     else case tl path of
       [] \<Rightarrow> throwS Undefined \<comment> \<open>\<open>path[path.size() - 2]\<close> of a path of one page\<close>
     | parent_page_id # up \<Rightarrow>
         bindS (askE (read_node parent_page_id)) (\<lambda>parent.
         bindS (guardS (\<not> is_leaf parent) (LogicError ''Leaf node cannot be a parent'')) (\<lambda>_.
         case index_of (page_id node) (children parent) of
           None \<Rightarrow> throwS (LogicError ''Parent does not reference underfilled internal node'')
         | Some i \<Rightarrow>
             let parent_path = parent_page_id # up; min_keys = min_internal_key_count (meta_key_kind m);
                 sibling_error = LogicError ''Internal sibling has unexpected node type'' in
             let merge =
               (if i > 0 then
                  bindS (askE (read_node (children parent ! (i - 1)))) (\<lambda>left.
                  bindS (guardS (\<not> is_leaf left) sibling_error) (\<lambda>_.
                  reading (left\<lparr>children := children left @ children node\<rparr>) (\<lambda>merged.
                  bindS (askE (node_fits_page merged)) (\<lambda>fits.
                  if \<not> fits then redistribute_internal_pair left node parent parent_path
                  else
                    reading merged (\<lambda>left'.
                    bindS (write_node left') (\<lambda>_.
                    handle_internal_after_child_removed
                      (parent\<lparr>children := erase_at i (children parent),
                              keys := erase_at (i - 1) (keys parent)\<rparr>) parent_path))))))
                else if i + 1 \<ge> length (children parent) then
                  throwS (LogicError ''Internal node has no sibling for merge'')
                else
                  bindS (askE (read_node (children parent ! (i + 1)))) (\<lambda>right.
                  bindS (guardS (\<not> is_leaf right) sibling_error) (\<lambda>_.
                  reading (node\<lparr>children := children node @ children right\<rparr>) (\<lambda>merged.
                  bindS (askE (node_fits_page merged)) (\<lambda>fits.
                  if \<not> fits then redistribute_internal_pair node right parent parent_path
                  else
                    reading merged (\<lambda>node'.
                    bindS (write_node node') (\<lambda>_.
                    handle_internal_after_child_removed
                      (parent\<lparr>children := erase_at (i + 1) (children parent),
                              keys := erase_at i (keys parent)\<rparr>) parent_path))))))) in
             let borrow_right =
               (if i + 1 < length (children parent) then
                  bindS (askE (read_node (children parent ! (i + 1)))) (\<lambda>right.
                  bindS (guardS (\<not> is_leaf right) sibling_error) (\<lambda>_.
                  if length (keys right) > min_keys then
                    borrow_child (node\<lparr>children := children node @ [hd (children right)]\<rparr>)
                      (right\<lparr>children := tl (children right)\<rparr>) parent parent_path
                  else merge))
                else merge) in
             if i > 0 then
               bindS (askE (read_node (children parent ! (i - 1)))) (\<lambda>left.
               bindS (guardS (\<not> is_leaf left) sibling_error) (\<lambda>_.
               if length (keys left) > min_keys then
                 borrow_child (left\<lparr>children := butlast (children left)\<rparr>)
                   (node\<lparr>children := last (children left) # children node\<rparr>) parent parent_path
               else borrow_right))
             else borrow_right)))))"
  by pat_completeness auto
termination
  by (relation "measure (case_sum (\<lambda>(_, path). 2 * length path + 1) (\<lambda>(_, path). 2 * length path))")
    (auto dest!: length_of_tl)

declare handle_internal_after_child_removed.simps [simp del] fix_internal_underflow.simps [simp del]

subsection \<open>Deletion: repairing leaves\<close>

definition borrow_entry :: "index_node \<Rightarrow> index_node \<Rightarrow> index_node \<Rightarrow> 64 word list
    \<Rightarrow> (bindex, unit) sx" where
  \<comment> \<open>the common end of both borrowing branches of \<open>fix_leaf_underflow\<close>\<close>
  "borrow_entry a b parent parent_path =
     bindS (write_node a) (\<lambda>_.
     bindS (write_node b) (\<lambda>_.
     reading parent (\<lambda>parent'.
     bindS (write_node parent') (\<lambda>_.
     propagate_subtree_min_change (page_id parent') parent_path))))"

definition append_leaf :: "index_node \<Rightarrow> index_node \<Rightarrow> index_node" where
  \<comment> \<open>the merged node of both merging branches\<close>
  "append_leaf left right = left\<lparr>keys := keys left @ keys right, records := records left @ records right,
     next_leaf_page_id := next_leaf_page_id right\<rparr>"

definition fix_leaf_underflow :: "index_node \<Rightarrow> 64 word list \<Rightarrow> (bindex, unit) sx" where
  "fix_leaf_underflow leaf path =
     bindS (guardS (is_leaf leaf) (LogicError ''Only leaf node can be fixed by fix_leaf_underflow'')) (\<lambda>_.
     bindS (guardS (path \<noteq> [] \<and> hd path = page_id leaf)
              (LogicError ''Invalid path to leaf index node'')) (\<lambda>_.
     bindS (getS bx_meta) (\<lambda>m.
     if page_id leaf = root_page_id m then write_node leaf
     else case tl path of
       [] \<Rightarrow> throwS Undefined \<comment> \<open>\<open>path[path.size() - 2]\<close> of a path of one page\<close>
     | parent_page_id # up \<Rightarrow>
         bindS (askE (read_node parent_page_id)) (\<lambda>parent.
         bindS (guardS (\<not> is_leaf parent) (LogicError ''Leaf node cannot be a parent'')) (\<lambda>_.
         case index_of (page_id leaf) (children parent) of
           None \<Rightarrow> throwS (LogicError ''Parent does not reference erased leaf'')
         | Some i \<Rightarrow>
             let parent_path = parent_page_id # up; min_keys = min_leaf_key_count (meta_key_kind m);
                 sibling_error = LogicError ''Leaf sibling has unexpected node type'' in
             let merge =
               (if i > 0 then
                  bindS (askE (read_node (children parent ! (i - 1)))) (\<lambda>left.
                  bindS (guardS (is_leaf left) sibling_error) (\<lambda>_.
                  bindS (askE (node_fits_page (append_leaf left leaf))) (\<lambda>fits.
                  if \<not> fits then redistribute_leaf_pair left leaf parent parent_path
                  else
                    bindS (set_meta (\<lambda>m. if first_leaf_page_id m = page_id leaf
                             then m\<lparr>first_leaf_page_id := page_id left\<rparr> else m)) (\<lambda>_.
                    bindS (write_node (append_leaf left leaf)) (\<lambda>_.
                    handle_internal_after_child_removed
                      (parent\<lparr>children := erase_at i (children parent),
                              keys := erase_at (i - 1) (keys parent)\<rparr>) parent_path)))))
                else if i + 1 \<ge> length (children parent) then
                  throwS (LogicError ''Leaf node has no sibling for merge'')
                else
                  bindS (askE (read_node (children parent ! (i + 1)))) (\<lambda>right.
                  bindS (guardS (is_leaf right) sibling_error) (\<lambda>_.
                  bindS (askE (node_fits_page (append_leaf leaf right))) (\<lambda>fits.
                  if \<not> fits then redistribute_leaf_pair leaf right parent parent_path
                  else
                    bindS (set_meta (\<lambda>m. if first_leaf_page_id m = page_id right
                             then m\<lparr>first_leaf_page_id := page_id leaf\<rparr> else m)) (\<lambda>_.
                    bindS (write_node (append_leaf leaf right)) (\<lambda>_.
                    handle_internal_after_child_removed
                      (parent\<lparr>children := erase_at (i + 1) (children parent),
                              keys := erase_at i (keys parent)\<rparr>) parent_path)))))) in
             let borrow_right =
               (if i + 1 < length (children parent) then
                  bindS (askE (read_node (children parent ! (i + 1)))) (\<lambda>right.
                  bindS (guardS (is_leaf right) sibling_error) (\<lambda>_.
                  if length (keys right) > min_keys then
                    borrow_entry (leaf\<lparr>keys := keys leaf @ [hd (keys right)],
                                       records := records leaf @ [hd (records right)]\<rparr>)
                      (right\<lparr>keys := tl (keys right), records := tl (records right)\<rparr>) parent parent_path
                  else merge))
                else merge) in
             if i > 0 then
               bindS (askE (read_node (children parent ! (i - 1)))) (\<lambda>left.
               bindS (guardS (is_leaf left) sibling_error) (\<lambda>_.
               if length (keys left) > min_keys then
                 borrow_entry (left\<lparr>keys := butlast (keys left), records := butlast (records left)\<rparr>)
                   (leaf\<lparr>keys := last (keys left) # keys leaf, records := last (records left) # records leaf\<rparr>)
                   parent parent_path
               else borrow_right))
             else borrow_right)))))"

definition erase_key :: "index_key \<Rightarrow> (bindex, bool) sx" where
  "erase_key key =
     bindS (askE (\<lambda>ix. validate_key_kind key (kind_of ix))) (\<lambda>_.
     bindS (getS bx_meta) (\<lambda>m.
     if meta_empty m then retS False
     else
       bindS (askE (find_leaf key)) (\<lambda>(leaf, path).
       let i = lower_bound (keys leaf) key in
       if \<not> (i < length (keys leaf) \<and> keys leaf ! i = key) then retS False
       else
         let leaf' = leaf\<lparr>keys := erase_at i (keys leaf), records := erase_at i (records leaf)\<rparr> in
         bindS (set_meta (\<lambda>m. if key_total m > 0 then m\<lparr>key_total := key_total m - 1\<rparr> else m)) (\<lambda>_.
         bindS (getS bx_meta) (\<lambda>m.
         if key_total m = 0 then
           bindS (write_node (leaf'\<lparr>keys := [], records := []\<rparr>)) (\<lambda>_.
           bindS (set_meta (\<lambda>m. m\<lparr>root_page_id := INVALID_PAGE_ID,
                    first_leaf_page_id := INVALID_PAGE_ID, tree_height := 0\<rparr>)) (\<lambda>_.
           bindS save_meta (\<lambda>_. retS True)))
         else if page_id leaf' = root_page_id m \<or> length (keys leaf') \<ge> min_leaf_key_count (meta_key_kind m)
         then
           bindS (write_node leaf') (\<lambda>_.
           bindS (if i = 0 \<and> keys leaf' \<noteq> [] then propagate_subtree_min_change (page_id leaf') path
                  else retS ()) (\<lambda>_.
           bindS save_meta (\<lambda>_. retS True)))
         else
           bindS (fix_leaf_underflow leaf' path) (\<lambda>_.
           bindS save_meta (\<lambda>_. retS True)))))))"

subsection \<open>Opening an index\<close>

definition open_index :: "char list option \<Rightarrow> key_kind \<Rightarrow> exn + bindex" where
  "open_index content kk =
     bindE (open_disk content) (\<lambda>d.
     let loaded = read_metadata d; fresh = empty_metadata\<lparr>meta_key_kind := kk\<rparr> in
     if meta_key_kind loaded \<noteq> KindUnknown then Inr \<lparr>bx_disk = d, bx_meta = loaded\<rparr>
     else
       bindE (guardE (kk \<noteq> KindUnknown)
                (InvalidArgument ''Metadata must be provided for new index'')) (\<lambda>_.
       bindE (fst (write_metadata fresh d)) (\<lambda>_.
       Inr \<lparr>bx_disk = snd (write_metadata fresh d), bx_meta = fresh\<rparr>)))"

end
