(* ===== verification/BStar_Repr.thy ===== *)
theory BStar_Repr
  imports BStar_Modify "HOL-Library.Multiset"
begin

section \<open>Trees stored in pages\<close>

text \<open>
  The vocabulary of the correctness proofs. \<open>ptree\<close> is the tree that the pages of an index
  spell out, with the page of every node; \<open>stored\<close> says that a node map spells out a tree whose
  last leaf links to a given page. A context is the way from a node to the root, as the path of
  page ids that the code carries, with the siblings at every level; \<open>ctxst\<close> says that a context
  is stored around a hole. The context records the page of the hole's root, the page of its
  leftmost leaf and the smallest key that the separators above remember for it: after a
  deletion that key can be stale until \<open>propagate_subtree_min_change\<close> has run.
\<close>

subsection \<open>Trees\<close>

datatype ptree = PL "64 word" "(index_key \<times> 64 word) list" | PN "64 word" "ptree list"

fun root_of :: "ptree \<Rightarrow> 64 word" where
  "root_of (PL p kvs) = p"
| "root_of (PN p ts) = p"

fun cont :: "ptree \<Rightarrow> (index_key \<times> 64 word) list" where
  "cont (PL p kvs) = kvs"
| "cont (PN p ts) = concat (map cont ts)"

fun pids :: "ptree \<Rightarrow> 64 word list" where
  "pids (PL p kvs) = [p]"
| "pids (PN p ts) = p # concat (map pids ts)"

fun fl :: "ptree \<Rightarrow> 64 word" where
  "fl (PL p kvs) = p"
| "fl (PN p []) = p"
| "fl (PN p (t # ts)) = fl t"

abbreviation conts :: "ptree list \<Rightarrow> (index_key \<times> 64 word) list" where
  "conts ts \<equiv> concat (map cont ts)"

abbreviation pidl :: "ptree list \<Rightarrow> 64 word list" where
  "pidl ts \<equiv> concat (map pids ts)"

abbreviation roots :: "ptree list \<Rightarrow> 64 word list" where
  "roots ts \<equiv> map root_of ts"

definition mink :: "ptree \<Rightarrow> index_key" where
  "mink t = fst (hd (cont t))"

definition seps :: "ptree list \<Rightarrow> index_key list" where
  "seps ts = map mink (tl ts)"

definition leaf_node :: "64 word \<Rightarrow> 64 word \<Rightarrow> (index_key \<times> 64 word) list \<Rightarrow> index_node" where
  "leaf_node p nx kvs = new_leaf p nx (map fst kvs) (map snd kvs)"

fun nxt_of :: "ptree list \<Rightarrow> 64 word \<Rightarrow> 64 word" where
  "nxt_of [] nx = nx"
| "nxt_of (t # ts) nx = fl t"

fun stored :: "(64 word \<rightharpoonup> index_node) \<Rightarrow> ptree \<Rightarrow> 64 word \<Rightarrow> bool"
  and storeds :: "(64 word \<rightharpoonup> index_node) \<Rightarrow> ptree list \<Rightarrow> 64 word \<Rightarrow> bool"
where
  "stored N (PL p kvs) nx = (N p = Some (leaf_node p nx kvs))"
| "stored N (PN p ts) nx = (N p = Some (new_internal p (seps ts) (roots ts)) \<and> storeds N ts nx)"
| "storeds N [] nx = True"
| "storeds N (t # ts) nx = (stored N t (nxt_of ts nx) \<and> storeds N ts nx)"

fun wft :: "key_kind \<Rightarrow> nat \<Rightarrow> ptree \<Rightarrow> bool" where
  "wft kk 0 (PL p kvs) = (kvs \<noteq> [] \<and> length kvs \<le> max_leaf_key_count kk
     \<and> (\<forall>kv \<in> set kvs. key_ok kk (fst kv)))"
| "wft kk (Suc h) (PN p ts) = (2 \<le> length ts \<and> length ts \<le> Suc (max_internal_key_count kk)
     \<and> (\<forall>t \<in> set ts. wft kk h t))"
| "wft kk _ _ = False"

subsection \<open>Facts about trees\<close>

lemma node_field_simps [simp]:
  "is_leaf (leaf_node p nx kvs)" "page_id (leaf_node p nx kvs) = p"
  "next_leaf_page_id (leaf_node p nx kvs) = nx" "keys (leaf_node p nx kvs) = map fst kvs"
  "records (leaf_node p nx kvs) = map snd kvs" "children (leaf_node p nx kvs) = []"
  "\<not> is_leaf (new_internal p ks cs)" "page_id (new_internal p ks cs) = p"
  "keys (new_internal p ks cs) = ks" "children (new_internal p ks cs) = cs"
  "records (new_internal p ks cs) = []"
  "next_leaf_page_id (new_internal p ks cs) = INVALID_PAGE_ID"
  by (simp_all add: leaf_node_def new_leaf_def new_internal_def)

lemma new_internal_update [simp]:
  "new_internal p ks cs\<lparr>keys := ks'\<rparr> = new_internal p ks' cs"
  "new_internal p ks cs\<lparr>children := cs'\<rparr> = new_internal p ks cs'"
  by (simp_all add: new_internal_def)

lemma nxt_of_append [simp]: "nxt_of (ts @ us) nx = nxt_of ts (nxt_of us nx)"
  by (cases ts) simp_all

lemma storeds_append [simp]:
  "storeds N (ts @ us) nx = (storeds N ts (nxt_of us nx) \<and> storeds N us nx)"
  by (induction ts) auto

lemma seps_simps [simp]: "seps [] = []" "seps (t # ts) = map mink ts"
  by (simp_all add: seps_def)

lemma length_seps [simp]: "length (seps ts) = length ts - 1"
  by (simp add: seps_def)

lemma root_in_pids [simp]: "root_of t \<in> set (pids t)"
  by (cases t) simp_all

lemma fl_in_pids [simp]: "fl t \<in> set (pids t)"
  by (induction t rule: fl.induct) auto

lemma roots_in_pidl: "set (roots ts) \<subseteq> set (pidl ts)"
  by auto

lemma wft_children: "wft kk h (PN p ts) \<longleftrightarrow> (\<exists>h'. h = Suc h' \<and> 2 \<le> length ts
    \<and> length ts \<le> Suc (max_internal_key_count kk) \<and> (\<forall>t \<in> set ts. wft kk h' t))"
  by (cases h) auto

lemma wft_leaf: "wft kk h (PL p kvs) \<longleftrightarrow> h = 0 \<and> kvs \<noteq> []
    \<and> length kvs \<le> max_leaf_key_count kk \<and> (\<forall>kv \<in> set kvs. key_ok kk (fst kv))"
  by (cases h) auto

lemma wft_cont_ne: "wft kk h t \<Longrightarrow> cont t \<noteq> []"
proof (induction kk h t rule: wft.induct)
  case (2 kk h p ts)
  then obtain t us where "ts = t # us" by (cases ts) auto
  with 2 show ?case by auto
qed auto

lemma conts_ne: "\<forall>t \<in> set ts. wft kk h t \<Longrightarrow> ts \<noteq> [] \<Longrightarrow> conts ts \<noteq> []"
  by (cases ts) (auto dest: wft_cont_ne)

lemma mink_PN: "wft kk h t \<Longrightarrow> mink (PN p (t # ts)) = mink t"
  by (auto simp: mink_def dest: wft_cont_ne)

lemma cont_keys_ok: "wft kk h t \<Longrightarrow> kv \<in> set (cont t) \<Longrightarrow> key_ok kk (fst kv)"
  by (induction kk h t rule: wft.induct) auto

lemma mink_ok: "wft kk h t \<Longrightarrow> key_ok kk (mink t)"
  unfolding mink_def by (rule cont_keys_ok) (auto dest: wft_cont_ne)

lemma seps_ok: "\<forall>t \<in> set ts. wft kk h t \<Longrightarrow> k \<in> set (seps ts) \<Longrightarrow> key_ok kk k"
  by (cases ts) (auto dest: mink_ok)

lemma height_less_pids: "wft kk h t \<Longrightarrow> h < length (pids t)"
proof (induction kk h t rule: wft.induct)
  case (2 kk h p ts)
  then obtain t us where "ts = t # us" by (cases ts) auto
  with 2 show ?case by force
qed auto

lemma pids_exp: "wft kk h t \<Longrightarrow> 2 ^ h \<le> length (pids t)"
proof (induction kk h t rule: wft.induct)
  case (2 kk h p ts)
  then obtain t u us where ts: "ts = t # u # us" by (cases ts; cases "tl ts") auto
  with 2 have "2 ^ h \<le> length (pids t)" "2 ^ h \<le> length (pids u)" by auto
  with ts show ?case by simp
qed auto

lemma cont_bound: "wft kk h t \<Longrightarrow> length (cont t) \<le> 253 * length (pids t)"
proof (induction kk h t rule: wft.induct)
  case (1 kk p kvs)
  then show ?case using capacity_bound [of kk True] by (simp add: capacity_def)
next
  case (2 kk h p ts)
  have "length (conts us) \<le> 253 * length (pidl us)" if "set us \<subseteq> set ts" for us
    using that
  proof (induction us)
    case (Cons u us)
    then show ?case using 2 by fastforce
  qed simp
  from this [of ts] show ?case by simp
qed auto

lemma stored_frame:
  "(\<forall>p \<in> set (pids t). N' p = N p) \<Longrightarrow> stored N' t nx = stored N t nx"
  "(\<forall>p \<in> set (pidl ts). N' p = N p) \<Longrightarrow> storeds N' ts nx = storeds N ts nx"
  by (induction N t nx and N ts nx rule: stored_storeds.induct) simp_all

subsection \<open>Contexts\<close>

type_synonym frame = "64 word \<times> ptree list \<times> ptree list"

fun plug :: "frame list \<Rightarrow> ptree \<Rightarrow> ptree" where
  "plug [] t = t"
| "plug ((p, ls, rs) # c) t = plug c (PN p (ls @ t # rs))"

fun cl :: "frame list \<Rightarrow> (index_key \<times> 64 word) list" where
  "cl [] = []"
| "cl ((p, ls, rs) # c) = cl c @ conts ls"

fun cr :: "frame list \<Rightarrow> (index_key \<times> 64 word) list" where
  "cr [] = []"
| "cr ((p, ls, rs) # c) = conts rs @ cr c"

fun cpids :: "frame list \<Rightarrow> 64 word list" where
  "cpids [] = []"
| "cpids ((p, ls, rs) # c) = p # pidl ls @ pidl rs @ cpids c"

fun cnx :: "frame list \<Rightarrow> 64 word" where
  "cnx [] = INVALID_PAGE_ID"
| "cnx ((p, ls, rs) # c) = nxt_of rs (cnx c)"

fun lmk :: "ptree list \<Rightarrow> index_key \<Rightarrow> index_key" where
  "lmk [] k = k"
| "lmk (t # ts) k = mink t"

fun cfl :: "frame list \<Rightarrow> 64 word \<Rightarrow> 64 word" where
  "cfl [] f = f"
| "cfl ((p, ls, rs) # c) f = cfl c (nxt_of ls f)"

fun ctxst :: "(64 word \<rightharpoonup> index_node) \<Rightarrow> frame list \<Rightarrow> 64 word \<Rightarrow> 64 word \<Rightarrow> index_key \<Rightarrow> bool" where
  "ctxst N [] r f k = True"
| "ctxst N ((p, ls, rs) # c) r f k =
     (N p = Some (new_internal p (tl (map mink ls @ k # map mink rs)) (roots ls @ r # roots rs))
      \<and> storeds N ls f \<and> storeds N rs (cnx c) \<and> ctxst N c p (nxt_of ls f) (lmk ls k))"

fun wfc :: "key_kind \<Rightarrow> nat \<Rightarrow> frame list \<Rightarrow> bool" where
  "wfc kk h [] = True"
| "wfc kk h ((p, ls, rs) # c) =
     ((\<forall>t \<in> set ls \<union> set rs. wft kk h t) \<and> 1 \<le> length ls + length rs
      \<and> length ls + length rs \<le> max_internal_key_count kk \<and> wfc kk (Suc h) c)"

abbreviation cpath :: "frame list \<Rightarrow> 64 word list" where
  "cpath c \<equiv> map fst c"

lemma cont_plug: "cont (plug c t) = cl c @ cont t @ cr c"
  by (induction c t rule: plug.induct) simp_all

lemma mset_pids_plug: "mset (pids (plug c t)) = mset (pids t) + mset (cpids c)"
  by (induction c t rule: plug.induct) simp_all

lemma set_pids_plug: "set (pids (plug c t)) = set (pids t) \<union> set (cpids c)"
  by (metis mset_pids_plug set_mset_mset set_mset_union)

lemma distinct_pids_plug:
  "distinct (pids (plug c t)) \<longleftrightarrow> distinct (pids t) \<and> distinct (cpids c)
     \<and> set (pids t) \<inter> set (cpids c) = {}"
proof -
  have "mset (pids (plug c t)) = mset (pids t @ cpids c)" by (simp add: mset_pids_plug)
  then have "distinct (pids (plug c t)) = distinct (pids t @ cpids c)"
    by (rule mset_eq_imp_distinct_iff)
  then show ?thesis by simp
qed

lemma wft_plug: "wft kk (h + length c) (plug c t) \<longleftrightarrow> wft kk h t \<and> wfc kk h c"
proof (induction c t arbitrary: h rule: plug.induct)
  case (2 p ls rs c t)
  show ?case using 2 [of "Suc h"] by (simp add: ball_Un) auto
qed simp

lemma fl_PN: "fl (PN p (ls @ t # rs)) = nxt_of ls (fl t)"
  by (cases ls) simp_all

lemma fl_plug: "fl (plug c t) = cfl c (fl t)"
  by (induction c t rule: plug.induct) (simp_all add: fl_PN)

lemma root_plug: "root_of (plug c t) = last (root_of t # cpath c)"
  by (induction c t rule: plug.induct) simp_all

lemma mink_frame:
  assumes "wft kk h t" and "\<forall>u \<in> set ls. wft kk h u"
  shows "mink (PN p (ls @ t # rs)) = lmk ls (mink t)"
  using assms mink_PN by (cases ls) auto

lemma stored_plug:
  assumes "wft kk h t" and "wfc kk h c"
  shows "stored N (plug c t) INVALID_PAGE_ID
    \<longleftrightarrow> stored N t (cnx c) \<and> ctxst N c (root_of t) (fl t) (mink t)"
  using assms
proof (induction c t arbitrary: h rule: plug.induct)
  case (2 p ls rs c t)
  have w: "wft kk (Suc h) (PN p (ls @ t # rs))" and wc: "wfc kk (Suc h) c"
    using 2(2,3) by auto
  have m: "mink (PN p (ls @ t # rs)) = lmk ls (mink t)"
    using 2(2,3) by (intro mink_frame) auto
  have s: "seps (ls @ t # rs) = tl (map mink ls @ mink t # map mink rs)"
    by (cases ls) simp_all
  show ?case using 2(1) [OF w wc] m s by (auto simp: fl_PN)
qed simp

lemma ctxst_frame:
  "(\<forall>p \<in> set (cpids c). N' p = N p) \<Longrightarrow> ctxst N' c r f k = ctxst N c r f k"
proof (induction c arbitrary: r f k)
  case (Cons fr c)
  obtain p ls rs where [simp]: "fr = (p, ls, rs)" by (cases fr)
  have "storeds N' ls f = storeds N ls f" "storeds N' rs (cnx c) = storeds N rs (cnx c)"
    using Cons.prems by (intro stored_frame(2); simp)+
  then show ?case using Cons by simp
qed simp

text \<open>A context with nothing to the left of the hole does not remember the hole's smallest key.\<close>

lemma ctxst_leftmost:
  "\<forall>fr \<in> set c. fst (snd fr) = [] \<Longrightarrow> ctxst N c r f k = ctxst N c r f k'"
proof (induction c arbitrary: r f)
  case (Cons fr c)
  obtain p ls rs where "fr = (p, ls, rs)" by (cases fr)
  with Cons show ?case by simp
qed simp

lemma wfc_cpath_in: "set (cpath c) \<subseteq> set (cpids c)"
proof (induction c)
  case (Cons fr c)
  obtain p ls rs where "fr = (p, ls, rs)" by (cases fr)
  with Cons show ?case by auto
qed simp

end
