(* ===== verification/BStar_State.thy ===== *)
theory BStar_State
  imports BStar_Repr
begin

section \<open>Reading and writing stored trees\<close>

text \<open>
  The steps every tree operation is made of, stated over the nodes that the pages spell out:
  reading a node, the smallest key of a stored subtree, rebuilding separators, testing a node
  against the page size, writing a node, allocating a page and propagating a changed minimum.
\<close>

definition nodes :: "bindex \<Rightarrow> 64 word \<rightharpoonup> index_node" where
  "nodes ix = node_map read_page (kind_of ix) (bx_disk ix)"

definition pcount :: "bindex \<Rightarrow> nat" where
  "pcount ix = page_count (bx_disk ix)"

lemma read_node_nodes: "nodes ix p = Some n \<Longrightarrow> read_node p ix = Inr n"
  by (auto simp: nodes_def node_map_def read_node_def split: sum.splits)

lemma walk_bound_pcount: "walk_bound ix = Suc (pcount ix)"
  by (simp add: walk_bound_def pcount_def)

subsection \<open>Reads\<close>

lemma leftmost_leaf_stored:
  "stored (nodes ix) t nx \<Longrightarrow> wft kk h t \<Longrightarrow> h < f \<Longrightarrow>
   \<exists>nx' kvs. leftmost_leaf f (root_of t) ix = Inr (leaf_node (fl t) nx' kvs)
     \<and> kvs \<noteq> [] \<and> hd kvs = hd (cont t)"
proof (induction f arbitrary: h t nx)
  case (Suc f)
  show ?case
  proof (cases t)
    case (PL p kvs)
    with Suc.prems show ?thesis by (auto simp: read_node_nodes wft_leaf)
  next
    case (PN p ts)
    with Suc.prems obtain h' u us where h: "h = Suc h'" "ts = u # us" and u: "wft kk h' u"
      by (cases ts) (auto simp: wft_children)
    with PN Suc.prems have "stored (nodes ix) u (nxt_of us nx)"
      and n: "nodes ix p = Some (new_internal p (seps ts) (roots ts))" by auto
    from Suc.IH [OF this(1) u] h Suc.prems obtain nx' kvs where
      "leftmost_leaf f (root_of u) ix = Inr (leaf_node (fl u) nx' kvs)" "kvs \<noteq> []" "hd kvs = hd (cont u)"
      by auto
    with PN h n wft_cont_ne [OF u] show ?thesis by (auto simp: read_node_nodes)
  qed
qed simp

lemma subtree_min_key_stored:
  assumes "stored (nodes ix) t nx" and "wft kk h t" and "h \<le> pcount ix"
  shows "subtree_min_key (root_of t) ix = Inr (mink t)"
proof -
  from leftmost_leaf_stored [OF assms(1,2), of "walk_bound ix"] assms(3)
  obtain nx' kvs where "leftmost_leaf (walk_bound ix) (root_of t) ix = Inr (leaf_node (fl t) nx' kvs)"
    and "kvs \<noteq> []" "hd kvs = hd (cont t)"
    by (auto simp: walk_bound_pcount)
  then show ?thesis by (simp add: subtree_min_key_def mink_def hd_map)
qed

lemma leftmost_leaf_page_id_stored:
  assumes "stored (nodes ix) t nx" and "wft kk h t" and "h \<le> pcount ix"
  shows "leftmost_leaf_page_id (root_of t) ix = Inr (fl t)"
  using leftmost_leaf_stored [OF assms(1,2), of "walk_bound ix"] assms(3)
  by (auto simp: walk_bound_pcount leftmost_leaf_page_id_def)

lemma min_keys_of_stored:
  "storeds (nodes ix) ts nx \<Longrightarrow> \<forall>t \<in> set ts. wft kk h t \<Longrightarrow> h \<le> pcount ix \<Longrightarrow>
   min_keys_of (roots ts) ix = Inr (map mink ts)"
  by (induction ts) (auto simp: subtree_min_key_stored)

lemma rebuild_stored:
  assumes "storeds (nodes ix) ts nx" and "\<forall>t \<in> set ts. wft kk h t" and "h \<le> pcount ix"
  shows "rebuild_internal_keys (new_internal p ks (roots ts)) ix = Inr (new_internal p (seps ts) (roots ts))"
proof (cases ts)
  case Nil
  then show ?thesis by (simp add: rebuild_internal_keys_def)
next
  case (Cons t us)
  with assms min_keys_of_stored [of ix us nx kk h] show ?thesis
    by (simp add: rebuild_internal_keys_def)
qed

lemma reading_stored:
  assumes "storeds (nodes ix) ts nx" and "\<forall>t \<in> set ts. wft kk h t" and "h \<le> pcount ix"
  shows "reading (new_internal p ks (roots ts)) f ix = f (new_internal p (seps ts) (roots ts)) ix"
  unfolding reading_def by (rule bindS_askE) (rule rebuild_stored [OF assms])

subsection \<open>The page size\<close>

lemma max_le: "max_leaf_key_count kk \<le> 253" "max_internal_key_count kk \<le> 253"
  using capacity_bound [of kk True] capacity_bound [of kk False] by (simp_all add: capacity_def)

lemma fits_internal:
  assumes "\<forall>t \<in> set ts. wft (kind_of ix) h t" and "ts \<noteq> []" and "length ts < 1000"
  shows "node_fits_page (new_internal p (seps ts) (roots ts)) ix
    = Inr (length ts \<le> Suc (max_internal_key_count (kind_of ix)))"
proof -
  have "shape_ok (new_internal p (seps ts) (roots ts))"
    using assms(2) by (cases ts) (simp_all add: shape_ok_def)
  moreover have "\<forall>k \<in> set (seps ts). key_ok (kind_of ix) k"
    using seps_ok [OF assms(1)] by blast
  moreover have "length ts - 1 \<le> m \<longleftrightarrow> length ts \<le> Suc m" for m
    using assms(2) by (cases ts) auto
  ultimately show ?thesis
    using assms(3) serialize_node_cases [of "new_internal p (seps ts) (roots ts)" "kind_of ix"]
    by (simp add: node_fits_page_def capacity_def UINT32_MAX_def)
qed

lemma fits_leaf:
  assumes "\<forall>kv \<in> set kvs. key_ok (kind_of ix) (fst kv)" and "length kvs < 1000"
  shows "node_fits_page (leaf_node p nx kvs) ix
    = Inr (length kvs \<le> max_leaf_key_count (kind_of ix))"
proof -
  have "shape_ok (leaf_node p nx kvs)" by (simp add: shape_ok_def)
  then show ?thesis
    using assms serialize_node_cases [of "leaf_node p nx kvs" "kind_of ix"]
    by (simp add: node_fits_page_def capacity_def UINT32_MAX_def)
qed

lemma node_ok_internal:
  assumes "\<forall>t \<in> set ts. wft kk h t" and "ts \<noteq> []" and "length ts \<le> Suc (max_internal_key_count kk)"
  shows "node_ok kk (new_internal p (seps ts) (roots ts))"
  using assms seps_ok [OF assms(1)] by (cases ts) (auto simp: node_ok_def shape_ok_def capacity_def)

lemma node_ok_leaf:
  assumes "\<forall>kv \<in> set kvs. key_ok kk (fst kv)" and "length kvs \<le> max_leaf_key_count kk"
  shows "node_ok kk (leaf_node p nx kvs)"
  using assms by (auto simp: node_ok_def shape_ok_def capacity_def)

subsection \<open>Writes\<close>

text \<open>\<open>same ix ix'\<close>: only pages were written between the two states.\<close>

definition same :: "bindex \<Rightarrow> bindex \<Rightarrow> bool" where
  "same ix ix' \<longleftrightarrow> bx_meta ix' = bx_meta ix \<and> pcount ix' = pcount ix \<and> disk_ok (bx_disk ix')"

lemma same_trans [trans]: "same a b \<Longrightarrow> same b c \<Longrightarrow> same a c"
  by (simp add: same_def)

lemma same_kind: "same ix ix' \<Longrightarrow> kind_of ix' = kind_of ix"
  by (simp add: same_def kind_of_def)

lemma write_node_ok:
  assumes "disk_ok (bx_disk ix)" and "unat (page_id n) < pcount ix" and "node_ok (kind_of ix) n"
  shows "\<exists>ix'. write_node n ix = (Inr (), ix') \<and> same ix ix'
    \<and> nodes ix' = (nodes ix)(page_id n \<mapsto> n)"
proof -
  obtain d' where d': "write_page (page_id n) (node_image n) (bx_disk ix) = (Inr (), d')" "disk_ok d'"
    "page_count d' = page_count (bx_disk ix)"
    "node_map read_page (kind_of ix) d' = (node_map read_page (kind_of ix) (bx_disk ix))(page_id n \<mapsto> n)"
    using dm.wr_node [OF assms(1), of n "kind_of ix"] assms(2,3) by (auto simp: pcount_def)
  let ?ix = "ix\<lparr>bx_disk := d'\<rparr>"
  have "write_node n ix = (Inr (), ?ix)"
    using serialize_node_ok [OF assms(3)] d'(1)
    by (simp add: write_node_def bindS_askE on_disk_def)
  moreover have "same ix ?ix" using d' by (simp add: same_def pcount_def)
  moreover have "nodes ?ix = (nodes ix)(page_id n \<mapsto> n)"
    using d' by (simp add: nodes_def kind_of_def)
  ultimately show ?thesis by blast
qed

lemma allocate_ok:
  assumes "disk_ok (bx_disk ix)" and "pcount ix < PAGE_LIMIT"
  shows "\<exists>p ix'. on_disk allocate_page ix = (Inr p, ix') \<and> bx_meta ix' = bx_meta ix
    \<and> disk_ok (bx_disk ix') \<and> unat p = pcount ix \<and> pcount ix' = Suc (pcount ix)
    \<and> (\<forall>q. unat q < pcount ix \<longrightarrow> nodes ix' q = nodes ix q)"
proof -
  obtain p d' where d': "allocate_page (bx_disk ix) = (Inr p, d')" "disk_ok d'"
    "unat p = page_count (bx_disk ix)" "page_count d' = Suc (page_count (bx_disk ix))"
    "\<forall>q. unat q < page_count (bx_disk ix) \<longrightarrow>
       node_map read_page (kind_of ix) d' q = node_map read_page (kind_of ix) (bx_disk ix) q"
    using dm.alloc_node [OF assms(1), of "kind_of ix"] assms(2) by (auto simp: pcount_def)
  let ?ix = "ix\<lparr>bx_disk := d'\<rparr>"
  have "on_disk allocate_page ix = (Inr p, ?ix)" using d'(1) by (simp add: on_disk_def)
  moreover have "\<forall>q. unat q < pcount ix \<longrightarrow> nodes ?ix q = nodes ix q"
    using d' by (simp add: nodes_def kind_of_def pcount_def)
  ultimately show ?thesis using d' by (intro exI [of _ p] exI [of _ ?ix]) (simp add: pcount_def)
qed

lemma save_meta_ok:
  assumes "disk_ok (bx_disk ix)" and "metadata_ok (bx_meta ix)"
  shows "\<exists>ix'. save_meta ix = (Inr (), ix') \<and> same ix ix' \<and> nodes ix' = nodes ix
    \<and> read_metadata (bx_disk ix') = bx_meta ix"
proof -
  obtain d' where d': "write_metadata (bx_meta ix) (bx_disk ix) = (Inr (), d')" "disk_ok d'"
    "page_count d' = page_count (bx_disk ix)" "read_metadata d' = bx_meta ix"
    "node_map read_page (kind_of ix) d' = node_map read_page (kind_of ix) (bx_disk ix)"
    using dm.wm_node [OF assms] by blast
  let ?ix = "ix\<lparr>bx_disk := d'\<rparr>"
  have "save_meta ix = (Inr (), ?ix)" using d'(1) by (simp add: save_meta_def on_disk_def)
  moreover have "same ix ?ix" using d' by (simp add: same_def pcount_def)
  moreover have "nodes ?ix = nodes ix" using d' by (simp add: nodes_def kind_of_def)
  ultimately show ?thesis using d' by (intro exI [of _ ?ix]) simp
qed

subsection \<open>A whole tree, and a hole in a stored context\<close>

definition good :: "bindex \<Rightarrow> nat \<Rightarrow> ptree \<Rightarrow> bool" where
  "good ix h t \<longleftrightarrow> disk_ok (bx_disk ix) \<and> stored (nodes ix) t INVALID_PAGE_ID
     \<and> wft (kind_of ix) h t \<and> distinct (pids t) \<and> (\<forall>p \<in> set (pids t). unat p < pcount ix)
     \<and> root_page_id (bx_meta ix) = root_of t \<and> first_leaf_page_id (bx_meta ix) = fl t
     \<and> unat (tree_height (bx_meta ix)) = Suc h"

text \<open>
  \<open>env ix c r f k h S\<close>: the context \<open>c\<close> is stored around a hole of height \<open>h\<close> whose root page is
  \<open>r\<close>, whose leftmost leaf is on page \<open>f\<close> and whose recorded minimum is \<open>k\<close>; the pages \<open>S\<close> belong
  to the hole.
\<close>

definition env :: "bindex \<Rightarrow> frame list \<Rightarrow> 64 word \<Rightarrow> 64 word \<Rightarrow> index_key \<Rightarrow> nat \<Rightarrow> 64 word set \<Rightarrow> bool" where
  "env ix c r f k h S \<longleftrightarrow> disk_ok (bx_disk ix) \<and> ctxst (nodes ix) c r f k
     \<and> wfc (kind_of ix) h c \<and> distinct (cpids c) \<and> S \<inter> set (cpids c) = {}
     \<and> (\<forall>p \<in> S \<union> set (cpids c). unat p < pcount ix)
     \<and> root_page_id (bx_meta ix) = last (r # cpath c)
     \<and> first_leaf_page_id (bx_meta ix) = cfl c f
     \<and> unat (tree_height (bx_meta ix)) = Suc (h + length c)
     \<and> h + length c \<le> pcount ix \<and> h + length c < 51"

lemma length_le_bound:
  assumes "distinct (xs :: 64 word list)" and "\<forall>p \<in> set xs. unat p < n"
  shows "length xs \<le> n"
proof -
  have "inj_on unat (set xs)" by (meson inj_onI word_unat_eq_iff)
  then have "length xs = card (unat ` set xs)"
    using assms(1) by (simp add: card_image distinct_card)
  also have "\<dots> \<le> card {..<n}" using assms(2) by (intro card_mono) auto
  finally show ?thesis by simp
qed

lemma good_pids_bound:
  assumes "good ix h t" shows "length (pids t) \<le> pcount ix" and "h < pcount ix"
proof -
  from assms show *: "length (pids t) \<le> pcount ix"
    unfolding good_def by (intro length_le_bound) auto
  from assms have "h < length (pids t)" unfolding good_def by (intro height_less_pids) auto
  with * show "h < pcount ix" by simp
qed

lemma disk_ok_pcount: "disk_ok (bx_disk ix) \<Longrightarrow> pcount ix \<le> PAGE_LIMIT"
  by (simp add: disk_ok_def pcount_def)

lemma good_height: "good ix h t \<Longrightarrow> h < 51"
proof -
  assume g: "good ix h t"
  then have "2 ^ h \<le> length (pids t)" unfolding good_def by (intro pids_exp) auto
  also have "\<dots> \<le> pcount ix" by (rule good_pids_bound [OF g])
  also have "\<dots> \<le> PAGE_LIMIT" using g by (intro disk_ok_pcount) (simp add: good_def)
  also have "\<dots> < 2 ^ 51" by (simp add: PAGE_LIMIT_def)
  finally show "h < 51" by (rule power_less_imp_less_exp [rotated]) simp
qed

lemma env_of_good:
  assumes "good ix (h + length c) (plug c t)"
  shows "env ix c (root_of t) (fl t) (mink t) h (set (pids t))"
    and "stored (nodes ix) t (cnx c)" and "wft (kind_of ix) h t" and "distinct (pids t)"
proof -
  from assms have w: "wft (kind_of ix) h t" "wfc (kind_of ix) h c"
    and d: "distinct (pids t)" "distinct (cpids c)" "set (pids t) \<inter> set (cpids c) = {}"
    by (auto simp: good_def wft_plug distinct_pids_plug)
  then show "wft (kind_of ix) h t" "distinct (pids t)" by auto
  from assms have "stored (nodes ix) (plug c t) INVALID_PAGE_ID" by (simp add: good_def)
  then have s: "stored (nodes ix) t (cnx c)" "ctxst (nodes ix) c (root_of t) (fl t) (mink t)"
    using stored_plug [OF w] by simp_all
  then show "stored (nodes ix) t (cnx c)" by simp
  have "h + length c \<le> pcount ix" "h + length c < 51"
    using good_pids_bound(2) [OF assms] good_height [OF assms] by simp_all
  then show "env ix c (root_of t) (fl t) (mink t) h (set (pids t))"
    using assms s w d by (auto simp: env_def good_def set_pids_plug root_plug fl_plug)
qed

lemma good_of_env:
  assumes "env ix c (root_of t) (fl t) (mink t) h S" and "stored (nodes ix) t (cnx c)"
    and "wft (kind_of ix) h t" and "distinct (pids t)" and "set (pids t) \<subseteq> S"
  shows "good ix (h + length c) (plug c t)"
proof -
  from assms(1) have w: "wfc (kind_of ix) h c" by (simp add: env_def)
  show ?thesis
    using assms w stored_plug [OF assms(3) w]
    by (auto simp: env_def good_def set_pids_plug root_plug fl_plug wft_plug distinct_pids_plug)
qed

lemma env_same:
  assumes "env ix c r f k h S" and "same ix ix'" and "\<forall>p \<in> set (cpids c). nodes ix' p = nodes ix p"
  shows "env ix' c r f k h S"
  using assms ctxst_frame [OF assms(3)] by (simp add: env_def same_def kind_of_def)

lemma env_write:
  assumes "env ix c r f k h S" and "same ix ix'" and "nodes ix' = (nodes ix)(p \<mapsto> n)" and "p \<in> S"
  shows "env ix' c r f k h S"
  using assms(1,2) by (rule env_same) (use assms in \<open>auto simp: env_def\<close>)

lemma env_alloc:
  assumes "env ix c r f k h S" and "bx_meta ix' = bx_meta ix" and "disk_ok (bx_disk ix')"
    and "unat p = pcount ix" and "pcount ix' = Suc (pcount ix)"
    and "\<forall>q. unat q < pcount ix \<longrightarrow> nodes ix' q = nodes ix q"
  shows "env ix' c r f k h (insert p S)" and "p \<notin> S" and "p \<notin> set (cpids c)"
proof -
  have b: "q \<in> S \<union> set (cpids c) \<Longrightarrow> unat q < pcount ix" for q
    using assms(1) by (simp add: env_def)
  from b [of p] assms(4) show p: "p \<notin> S" "p \<notin> set (cpids c)" by auto
  have "\<forall>q \<in> set (cpids c). nodes ix' q = nodes ix q" using b assms(6) by simp
  from ctxst_frame [OF this] have "ctxst (nodes ix') c r f k = ctxst (nodes ix) c r f k" .
  moreover have "\<forall>q \<in> insert p S \<union> set (cpids c). unat q < pcount ix'"
    using b assms(4,5) by (auto intro: less_SucI)
  moreover have "kind_of ix' = kind_of ix" using assms(2) by (simp add: kind_of_def)
  ultimately show "env ix' c r f k h (insert p S)"
    using assms(1-3,5) p by (auto simp: env_def)
qed

lemma env_subset: "env ix c r f k h S \<Longrightarrow> S' \<subseteq> S \<Longrightarrow> env ix c r f k h S'"
  by (auto simp: env_def)

lemma env_key: "env ix c r f k h S \<Longrightarrow> \<forall>fr \<in> set c. fst (snd fr) = [] \<Longrightarrow> env ix c r f k' h S"
  using ctxst_leftmost [of c "nodes ix" r f k k'] by (simp add: env_def)

lemma env_pop:
  assumes "env ix ((p, ls, rs) # c) r f k h S"
  shows "env ix c p (nxt_of ls f) (lmk ls k) (Suc h) (insert p (S \<union> set (pidl ls) \<union> set (pidl rs)))"
    and "nodes ix p = Some (new_internal p (tl (map mink ls @ k # map mink rs)) (roots ls @ r # roots rs))"
    and "storeds (nodes ix) ls f" and "storeds (nodes ix) rs (cnx c)"
    and "\<forall>t \<in> set ls. wft (kind_of ix) h t" and "\<forall>t \<in> set rs. wft (kind_of ix) h t"
    and "1 \<le> length ls + length rs" and "length ls + length rs \<le> max_internal_key_count (kind_of ix)"
    and "distinct (p # pidl ls @ pidl rs @ cpids c)"
    and "S \<inter> set (p # pidl ls @ pidl rs @ cpids c) = {}"
  using assms by (auto simp: env_def)

subsection \<open>Propagating a changed minimum\<close>

lemma propagate_from_ok:
  assumes "env ix c (root_of t) (fl t) k h S" and "stored (nodes ix) t (cnx c)"
    and "wft (kind_of ix) h t" and "set (pids t) \<subseteq> S"
  shows "\<exists>ix'. propagate_from (root_of t) (mink t) (cpath c) ix = (Inr (), ix') \<and> same ix ix'
    \<and> env ix' c (root_of t) (fl t) (mink t) h S \<and> (\<forall>p. p \<notin> set (cpids c) \<longrightarrow> nodes ix' p = nodes ix p)"
  using assms
proof (induction c arbitrary: t k h S)
  case Nil
  then have "same ix ix" by (simp add: same_def env_def)
  with Nil show ?case by (auto simp: env_def)
next
  case (Cons fr c)
  obtain p ls rs where fr: "fr = (p, ls, rs)" by (cases fr)
  note e = Cons.prems(1) [unfolded fr]
  note pop = env_pop [OF e]
  let ?ks = "tl (map mink ls @ k # map mink rs)" and ?cs = "roots ls @ root_of t # roots rs"
  have read: "read_node p ix = Inr (new_internal p ?ks ?cs)" by (rule read_node_nodes [OF pop(2)])
  have "root_of t \<in> S" using Cons.prems(4) root_in_pids by blast
  then have "root_of t \<notin> set (roots ls)" using pop(10) roots_in_pidl [of ls] by auto
  then have idx: "index_of (root_of t) ?cs = Some (length (roots ls))" by (rule index_of_middle)
  show ?case
  proof (cases ls)
    case (Cons u us)
    let ?n = "new_internal p (map mink us @ mink t # map mink rs) ?cs"
    have ks: "?ks[length us := mink t] = map mink us @ mink t # map mink rs"
      by (simp add: Cons list_update_append)
    have ok: "node_ok (kind_of ix) ?n"
      using pop(5,6,8) Cons.prems(3) mink_ok
      by (auto simp: node_ok_def shape_ok_def capacity_def Cons)
    have p: "unat p < pcount ix" using e by (simp add: env_def)
    obtain ix' where w: "write_node ?n ix = (Inr (), ix')" "same ix ix'" "nodes ix' = (nodes ix)(p \<mapsto> ?n)"
      using write_node_ok [of ix ?n] e p ok by (auto simp: env_def)
    have "propagate_from (root_of t) (mink t) (cpath (fr # c)) ix = (Inr (), ix')"
      using w(1) by (simp add: fr bindS_askE read idx) (simp add: Cons list_update_append)
    moreover have "env ix' c p (nxt_of ls (fl t)) (lmk ls k) (Suc h)
        (insert p (S \<union> set (pidl ls) \<union> set (pidl rs)))"
      using pop(1) w(2,3) by (rule env_write) simp
    moreover have "storeds (nodes ix') ls (fl t)" "storeds (nodes ix') rs (cnx c)"
      using pop(3,4,9) w(3) stored_frame(2) [of ls "nodes ix'" "nodes ix" "fl t"]
        stored_frame(2) [of rs "nodes ix'" "nodes ix" "cnx c"] by auto
    ultimately have "env ix' (fr # c) (root_of t) (fl t) (mink t) h S"
      using e w(2,3) by (simp add: env_def fr Cons same_def kind_of_def)
    with w show ?thesis
      using \<open>propagate_from (root_of t) (mink t) (cpath (fr # c)) ix = (Inr (), ix')\<close>
      by (intro exI [of _ ix']) (auto simp: fr)
  next
    case Nil
    let ?t = "PN p (t # rs)"
    have st: "stored (nodes ix) ?t (cnx c)"
      using pop(2,4) Cons.prems(2) by (simp add: Nil fr)
    have wf: "wft (kind_of ix) (Suc h) ?t"
      using pop(6,7,8) Cons.prems(3) by (auto simp: Nil)
    have m: "mink ?t = mink t" by (rule mink_PN [OF Cons.prems(3)])
    have hb: "Suc h \<le> pcount ix" using e by (simp add: env_def)
    have mk: "subtree_min_key p ix = Inr (mink t)"
      using subtree_min_key_stored [OF st wf hb] m by simp
    let ?S = "insert p (S \<union> set (pidl ls) \<union> set (pidl rs))"
    have e': "env ix c (root_of ?t) (fl ?t) k (Suc h) ?S" using pop(1) by (simp add: Nil)
    have sub: "set (pids ?t) \<subseteq> ?S" using Cons.prems(4) by auto
    obtain ix' where w: "propagate_from (root_of ?t) (mink ?t) (cpath c) ix = (Inr (), ix')" "same ix ix'"
      "env ix' c (root_of ?t) (fl ?t) (mink ?t) (Suc h) ?S"
      "\<forall>p. p \<notin> set (cpids c) \<longrightarrow> nodes ix' p = nodes ix p"
      using Cons.IH [OF e' st wf sub] by blast
    have "propagate_from (root_of t) (mink t) (cpath (fr # c)) ix = (Inr (), ix')"
      using w(1) m mk by (simp add: fr bindS_askE read idx Nil)
    moreover have "set (pidl rs) \<inter> set (cpids c) = {}" "p \<notin> set (cpids c)" using pop(9) by simp_all
    then have out: "\<forall>q \<in> set (pidl rs). nodes ix' q = nodes ix q" "nodes ix' p = nodes ix p"
      using w(4) by blast+
    have "storeds (nodes ix') rs (cnx c)" using pop(4) stored_frame(2) [OF out(1)] by simp
    with out(2) have "env ix' (fr # c) (root_of t) (fl t) (mink t) h S"
      using e w(2,3) pop(2) m by (simp add: env_def fr Nil same_def kind_of_def)
    ultimately show ?thesis using w by (intro exI [of _ ix']) (auto simp: fr)
  qed
qed

lemma propagate_ok:
  assumes "env ix c (root_of t) (fl t) k h S" and "stored (nodes ix) t (cnx c)"
    and "wft (kind_of ix) h t" and "set (pids t) \<subseteq> S" and "distinct (pids t)"
  shows "\<exists>ix'. propagate_subtree_min_change (root_of t) (root_of t # cpath c) ix = (Inr (), ix')
    \<and> same ix ix' \<and> good ix' (h + length c) (plug c t)"
proof (cases c)
  case Nil
  then have "env ix c (root_of t) (fl t) (mink t) h S" "same ix ix"
    using assms(1) by (simp_all add: env_def same_def)
  with good_of_env [OF this(1) assms(2,3,5,4)] Nil show ?thesis
    by (auto simp: propagate_subtree_min_change_def)
next
  case (Cons fr c')
  have "h \<le> pcount ix" using assms(1) by (simp add: env_def)
  then have mk: "subtree_min_key (root_of t) ix = Inr (mink t)"
    by (rule subtree_min_key_stored [OF assms(2,3)])
  obtain ix' where w: "propagate_from (root_of t) (mink t) (cpath c) ix = (Inr (), ix')" "same ix ix'"
    "env ix' c (root_of t) (fl t) (mink t) h S" "\<forall>p. p \<notin> set (cpids c) \<longrightarrow> nodes ix' p = nodes ix p"
    using propagate_from_ok [OF assms(1-4)] by blast
  have run: "propagate_subtree_min_change (root_of t) (root_of t # cpath c) ix = (Inr (), ix')"
    using w(1) by (simp add: propagate_subtree_min_change_def Cons bindS_askE mk)
  have "\<forall>p \<in> set (pids t). nodes ix' p = nodes ix p"
    using w(4) assms(1,4) by (auto simp: env_def)
  from stored_frame(1) [OF this] assms(2) have st: "stored (nodes ix') t (cnx c)" by simp
  have wf: "wft (kind_of ix') h t" using assms(3) same_kind [OF w(2)] by simp
  show ?thesis using run w(2) good_of_env [OF w(3) st wf assms(5,4)] by blast
qed

end
