(* ===== verification/BStar_Steps.thy ===== *)
theory BStar_Steps
  imports BStar_State
begin

section \<open>The common step of every restructuring\<close>

text \<open>
  Splits, merges, borrowing and redistribution all do the same thing to the tree: some adjacent
  children of a node are replaced by others made of the same grandchildren, the new ones are
  written from left to right, and the parent's separators are recomputed before the parent is
  written or split in turn. This theory proves that step once.
\<close>

subsection \<open>Writing the roots of subtrees\<close>

fun rnode :: "ptree \<Rightarrow> 64 word \<Rightarrow> index_node" where
  "rnode (PL p kvs) nx = leaf_node p nx kvs"
| "rnode (PN p ts) nx = new_internal p (seps ts) (roots ts)"

fun kids_stored :: "(64 word \<rightharpoonup> index_node) \<Rightarrow> ptree \<Rightarrow> 64 word \<Rightarrow> bool" where
  "kids_stored N (PL p kvs) nx = True"
| "kids_stored N (PN p ts) nx = storeds N ts nx"

fun kids_storeds :: "(64 word \<rightharpoonup> index_node) \<Rightarrow> ptree list \<Rightarrow> 64 word \<Rightarrow> bool" where
  "kids_storeds N [] nx = True"
| "kids_storeds N (t # ts) nx = (kids_stored N t (nxt_of ts nx) \<and> kids_storeds N ts nx)"

fun kids :: "ptree \<Rightarrow> 64 word list" where
  "kids (PL p kvs) = []"
| "kids (PN p ts) = pidl ts"

fun put :: "(64 word \<rightharpoonup> index_node) \<Rightarrow> ptree list \<Rightarrow> 64 word \<Rightarrow> 64 word \<rightharpoonup> index_node" where
  "put N [] nx = N"
| "put N (t # ts) nx = put (N(root_of t \<mapsto> rnode t (nxt_of ts nx))) ts nx"

fun write_roots :: "ptree list \<Rightarrow> 64 word \<Rightarrow> (bindex, unit) sx" where
  "write_roots [] nx = retS ()"
| "write_roots (t # ts) nx = bindS (write_node (rnode t (nxt_of ts nx))) (\<lambda>_. write_roots ts nx)"

lemma rnode_simps [simp]:
  "page_id (rnode t nx) = root_of t"
  by (cases t) simp_all

lemma pids_kids: "pids t = root_of t # kids t"
  by (cases t) simp_all

lemma stored_kids: "stored N t nx \<longleftrightarrow> N (root_of t) = Some (rnode t nx) \<and> kids_stored N t nx"
  by (cases t) simp_all

lemma storeds_kids: "storeds N ts nx \<Longrightarrow> kids_storeds N ts nx"
  by (induction ts) (simp_all add: stored_kids)

lemma kids_storeds_append [simp]:
  "kids_storeds N (ts @ us) nx = (kids_storeds N ts (nxt_of us nx) \<and> kids_storeds N us nx)"
  by (induction ts) auto

lemma kids_stored_frame: "\<forall>p \<in> set (kids t). N' p = N p \<Longrightarrow> kids_stored N' t nx = kids_stored N t nx"
  by (cases t) (simp_all add: stored_frame(2))

lemma put_other: "p \<notin> set (roots ts) \<Longrightarrow> put N ts nx p = N p"
  by (induction ts arbitrary: N) auto

lemma kids_storeds_upd:
  "p \<notin> set (pidl ts) \<Longrightarrow> kids_storeds (N(p \<mapsto> n)) ts nx = kids_storeds N ts nx"
proof (induction ts)
  case (Cons t ts)
  then have "\<forall>q \<in> set (kids t). (N(p \<mapsto> n)) q = N q" by (auto simp: pids_kids)
  from kids_stored_frame [OF this] Cons show ?case by simp
qed simp

lemma storeds_put:
  "kids_storeds N ts nx \<Longrightarrow> distinct (pidl ts) \<Longrightarrow> storeds (put N ts nx) ts nx"
proof (induction ts arbitrary: N)
  case (Cons t ts)
  let ?N = "N(root_of t \<mapsto> rnode t (nxt_of ts nx))"
  have d: "distinct (pids t)" "distinct (pidl ts)" "set (pids t) \<inter> set (pidl ts) = {}"
    using Cons.prems(2) by simp_all
  then have out: "root_of t \<notin> set (pidl ts)" using root_in_pids by blast
  have "\<forall>q \<in> set (kids t). ?N q = N q" using d(1) by (auto simp: pids_kids)
  then have "stored ?N t (nxt_of ts nx)"
    using Cons.prems(1) kids_stored_frame [of t ?N N] by (simp add: stored_kids)
  moreover have "\<forall>q \<in> set (pids t). put ?N ts nx q = ?N q"
    using d(3) roots_in_pidl [of ts] by (intro ballI put_other) blast
  ultimately have "stored (put ?N ts nx) t (nxt_of ts nx)"
    using stored_frame(1) [of t "put ?N ts nx" ?N] by blast
  moreover have "kids_storeds N ts nx" using Cons.prems(1) by simp
  then have "kids_storeds ?N ts nx" using kids_storeds_upd [OF out] by blast
  then have "storeds (put ?N ts nx) ts nx" using d(2) by (rule Cons.IH)
  ultimately show ?case by simp
qed simp

lemma storeds_plant:
  assumes "storeds N ls (fl t)" and "storeds N rs nx" and "kids_storeds N (t # ts) (nxt_of rs nx)"
    and "distinct (pidl (ls @ (t # ts) @ rs))"
  shows "storeds (put N (t # ts) (nxt_of rs nx)) (ls @ (t # ts) @ rs) nx"
proof -
  let ?N = "put N (t # ts) (nxt_of rs nx)"
  have d: "distinct (pidl (t # ts))" "set (pidl ls) \<inter> set (pidl (t # ts)) = {}"
    "set (pidl rs) \<inter> set (pidl (t # ts)) = {}"
    using assms(4) by auto
  have same: "?N q = N q" if "q \<notin> set (pidl (t # ts))" for q
    using that roots_in_pidl [of "t # ts"] by (intro put_other) blast
  have "\<forall>q \<in> set (pidl ls). ?N q = N q" "\<forall>q \<in> set (pidl rs). ?N q = N q"
    using d same by blast+
  then have "storeds ?N ls (fl t)" "storeds ?N rs nx"
    using assms(1,2) stored_frame(2) by blast+
  moreover have "storeds ?N (t # ts) (nxt_of rs nx)"
    using storeds_put [OF assms(3) d(1)] .
  ultimately show ?thesis by simp
qed

lemma node_ok_rnode: "wft kk h t \<Longrightarrow> node_ok kk (rnode t nx)"
proof (cases t)
  case (PL p kvs)
  assume "wft kk h t"
  with PL show ?thesis by (auto simp: wft_leaf intro: node_ok_leaf)
next
  case (PN p ts)
  assume "wft kk h t"
  with PN obtain h' where "\<forall>t \<in> set ts. wft kk h' t" "2 \<le> length ts"
    "length ts \<le> Suc (max_internal_key_count kk)" by (auto simp: wft_children)
  with node_ok_internal [of ts kk h'] PN show ?thesis by fastforce
qed

lemma write_roots_ok:
  "disk_ok (bx_disk ix) \<Longrightarrow> \<forall>t \<in> set ts. wft (kind_of ix) h t \<Longrightarrow> \<forall>p \<in> set (roots ts). unat p < pcount ix
   \<Longrightarrow> \<exists>ix'. write_roots ts nx ix = (Inr (), ix') \<and> same ix ix' \<and> nodes ix' = put (nodes ix) ts nx"
proof (induction ts arbitrary: ix)
  case (Cons t ts)
  let ?n = "rnode t (nxt_of ts nx)"
  obtain ix1 where w: "write_node ?n ix = (Inr (), ix1)" "same ix ix1"
    "nodes ix1 = (nodes ix)(root_of t \<mapsto> ?n)"
    using write_node_ok [OF Cons.prems(1), of ?n] Cons.prems(2,3) node_ok_rnode [of "kind_of ix" h t] by auto
  have "disk_ok (bx_disk ix1)" "kind_of ix1 = kind_of ix" "pcount ix1 = pcount ix"
    using w(2) same_kind [OF w(2)] by (simp_all add: same_def)
  with Cons.IH [of ix1] Cons.prems obtain ix' where
    "write_roots ts nx ix1 = (Inr (), ix')" "same ix1 ix'" "nodes ix' = put (nodes ix1) ts nx" by auto
  with w show ?case by (auto simp: bindS_Inr intro: same_trans)
qed (simp add: same_def)

text \<open>Two and three consecutive writes of the code are \<open>write_roots\<close>.\<close>

lemma write_two:
  "bindS (write_node (rnode a (fl b))) (\<lambda>_. bindS (write_node (rnode b nx)) (\<lambda>_. g)) ix
     = bindS (write_roots [a, b] nx) (\<lambda>_. g) ix"
  by (auto simp: bindS_def split: prod.splits sum.splits)

lemma write_three:
  "bindS (write_node (rnode a (fl b))) (\<lambda>_. bindS (write_node (rnode b (fl c))) (\<lambda>_.
     bindS (write_node (rnode c nx)) (\<lambda>_. g))) ix
     = bindS (write_roots [a, b, c] nx) (\<lambda>_. g) ix"
  by (auto simp: bindS_def split: prod.splits sum.splits)

declare write_roots.simps [simp del]

subsection \<open>New children below a hole, and their parent\<close>

lemma env_disk: "env ix c r f k h S \<Longrightarrow> disk_ok (bx_disk ix)"
  by (simp add: env_def)

lemma env_height: "env ix c r f k (Suc h) S \<Longrightarrow> h \<le> pcount ix"
  by (simp add: env_def)

lemma env_count: "env ix c r f k h S \<Longrightarrow> p \<in> S \<Longrightarrow> unat p < pcount ix"
  by (simp add: env_def)

lemma env_disjoint: "env ix c r f k h S \<Longrightarrow> S \<inter> set (cpids c) = {}"
  by (simp add: env_def)

lemma children_written:
  assumes e: "env ix c p f k (Suc h) S"
    and l: "storeds (nodes ix) ls (fl t)" and r: "storeds (nodes ix) rs (cnx c)"
    and m: "kids_storeds (nodes ix) (t # ts) (nxt_of rs (cnx c))"
    and w: "\<forall>u \<in> set (t # ts). wft (kind_of ix) h u"
    and d: "distinct (p # pidl (ls @ (t # ts) @ rs))" and s: "set (pidl (t # ts)) \<subseteq> S"
  shows "\<exists>ix'. write_roots (t # ts) (nxt_of rs (cnx c)) ix = (Inr (), ix') \<and> same ix ix'
    \<and> env ix' c p f k (Suc h) S \<and> storeds (nodes ix') (ls @ (t # ts) @ rs) (cnx c)
    \<and> nodes ix' p = nodes ix p"
proof -
  have rs: "set (roots (t # ts)) \<subseteq> S" using roots_in_pidl s by blast
  then have "\<forall>q \<in> set (roots (t # ts)). unat q < pcount ix" using env_count [OF e] by blast
  from write_roots_ok [OF env_disk [OF e] w this] obtain ix' where
    ix': "write_roots (t # ts) (nxt_of rs (cnx c)) ix = (Inr (), ix')" "same ix ix'"
      "nodes ix' = put (nodes ix) (t # ts) (nxt_of rs (cnx c))" by blast
  have d': "distinct (pidl (ls @ (t # ts) @ rs))" "p \<notin> set (pidl (ls @ (t # ts) @ rs))"
    using d unfolding distinct.simps by blast+
  have "q \<notin> set (roots (t # ts))" if "q \<in> set (cpids c)" for q
    using that rs env_disjoint [OF e] by blast
  then have "\<forall>q \<in> set (cpids c). nodes ix' q = nodes ix q"
    unfolding ix'(3) by (intro ballI put_other) blast
  then have "env ix' c p f k (Suc h) S" by (rule env_same [OF e ix'(2)])
  moreover have "storeds (nodes ix') (ls @ (t # ts) @ rs) (cnx c)"
    unfolding ix'(3) using l r m d'(1) by (rule storeds_plant)
  moreover have "p \<notin> set (pidl (t # ts))" using d'(2) by simp
  then have "p \<notin> set (roots (t # ts))" using roots_in_pidl by blast
  then have "nodes ix' p = nodes ix p" unfolding ix'(3) by (rule put_other)
  ultimately show ?thesis using ix' by blast
qed

lemma parent_written:
  assumes e: "env ix c p f k (Suc h) S" and s: "storeds (nodes ix) ts (cnx c)"
    and w: "\<forall>t \<in> set ts. wft (kind_of ix) h t" "ts \<noteq> []"
      "length ts \<le> Suc (max_internal_key_count (kind_of ix))"
    and p: "p \<in> S" and d: "distinct (p # pidl ts)"
  shows "\<exists>ix'. write_node (new_internal p (seps ts) (roots ts)) ix = (Inr (), ix') \<and> same ix ix'
    \<and> env ix' c p f k (Suc h) S \<and> stored (nodes ix') (PN p ts) (cnx c)"
proof -
  let ?n = "new_internal p (seps ts) (roots ts)"
  obtain ix' where ix': "write_node ?n ix = (Inr (), ix')" "same ix ix'"
    "nodes ix' = (nodes ix)(p \<mapsto> ?n)"
    using write_node_ok [OF env_disk [OF e], of ?n] env_count [OF e p] node_ok_internal [OF w] by auto
  have "\<forall>q \<in> set (pidl ts). nodes ix' q = nodes ix q" using d ix'(3) by auto
  then have "storeds (nodes ix') ts (cnx c)" using s stored_frame(2) by blast
  then have "stored (nodes ix') (PN p ts) (cnx c)" using ix'(3) by simp
  with ix'(1,2) env_write [OF e ix'(2,3) p] show ?thesis by blast
qed

lemma reading_env:
  assumes "env ix c p f k (Suc h) S" and "storeds (nodes ix) ts nx"
    and "\<forall>t \<in> set ts. wft kk h t"
  shows "reading (new_internal q ks (roots ts)) g ix = g (new_internal q (seps ts) (roots ts)) ix"
  using assms env_height by (intro reading_stored)

text \<open>New children are written, the separators recomputed and the parent written.\<close>

lemma family_written:
  assumes e: "env ix c p f k (Suc h) S"
    and l: "storeds (nodes ix) ls (fl t)" and r: "storeds (nodes ix) rs (cnx c)"
    and m: "kids_storeds (nodes ix) (t # ts) (nxt_of rs (cnx c))"
    and w: "\<forall>u \<in> set (ls @ (t # ts) @ rs). wft (kind_of ix) h u"
    and n: "length (ls @ (t # ts) @ rs) \<le> Suc (max_internal_key_count (kind_of ix))"
    and d: "distinct (p # pidl (ls @ (t # ts) @ rs))"
    and s: "set (p # pidl (ls @ (t # ts) @ rs)) \<subseteq> S"
  shows "\<exists>ix'. bindS (write_roots (t # ts) (nxt_of rs (cnx c)))
        (\<lambda>_. reading (new_internal p ks (roots (ls @ (t # ts) @ rs))) (\<lambda>n'. bindS (write_node n') (g n'))) ix
      = g (new_internal p (seps (ls @ (t # ts) @ rs)) (roots (ls @ (t # ts) @ rs))) () ix'
    \<and> same ix ix' \<and> env ix' c p f k (Suc h) S \<and> stored (nodes ix') (PN p (ls @ (t # ts) @ rs)) (cnx c)"
proof -
  let ?ts = "ls @ (t # ts) @ rs"
  have ps: "p \<in> S" "set (pidl (t # ts)) \<subseteq> S" using s by auto
  have w': "\<forall>u \<in> set (t # ts). wft (kind_of ix) h u" using w by simp
  obtain ix1 where i1: "write_roots (t # ts) (nxt_of rs (cnx c)) ix = (Inr (), ix1)" "same ix ix1"
    "env ix1 c p f k (Suc h) S" "storeds (nodes ix1) ?ts (cnx c)"
    using children_written [OF e l r m w' d ps(2)] by blast
  note kk = same_kind [OF i1(2)]
  have ne: "?ts \<noteq> []" by simp
  obtain ix2 where i2: "write_node (new_internal p (seps ?ts) (roots ?ts)) ix1 = (Inr (), ix2)"
    "same ix1 ix2" "env ix2 c p f k (Suc h) S" "stored (nodes ix2) (PN p ?ts) (cnx c)"
    using parent_written [OF i1(3,4) _ ne _ ps(1) d] w n unfolding kk by blast
  have "bindS (write_roots (t # ts) (nxt_of rs (cnx c)))
      (\<lambda>_. reading (new_internal p ks (roots ?ts)) (\<lambda>n'. bindS (write_node n') (g n'))) ix
    = reading (new_internal p ks (roots ?ts)) (\<lambda>n'. bindS (write_node n') (g n')) ix1"
    using i1(1) by (rule bindS_Inr)
  also have "\<dots> = bindS (write_node (new_internal p (seps ?ts) (roots ?ts)))
      (g (new_internal p (seps ?ts) (roots ?ts))) ix1"
    using i1(3,4) w by (rule reading_env)
  also have "\<dots> = g (new_internal p (seps ?ts) (roots ?ts)) () ix2"
    using i2(1) by (rule bindS_Inr)
  finally show ?thesis using i1(2) i2 same_trans by blast
qed

end
