(* ===== verification/BStar_Search.thy ===== *)
theory BStar_Search
  imports BStar_Steps
begin

section \<open>Searching a stored tree\<close>

text \<open>
  The descent of \<open>find\<close> and \<open>find_leaf\<close> ends in the only leaf whose key interval holds the key,
  and the scan of \<open>range_search\<close> along the leaf links reads the rest of the index in key order.
\<close>

definition ksorted :: "(index_key \<times> 64 word) list \<Rightarrow> bool" where
  "ksorted kvs \<longleftrightarrow> sorted_wrt (<) (map fst kvs)"

abbreviation below :: "(index_key \<times> 64 word) list \<Rightarrow> index_key \<Rightarrow> bool" where
  "below kvs k \<equiv> \<forall>kv \<in> set kvs. fst kv < k"

abbreviation above :: "index_key \<Rightarrow> (index_key \<times> 64 word) list \<Rightarrow> bool" where
  "above k kvs \<equiv> \<forall>kv \<in> set kvs. k < fst kv"

lemma pid_valid: "unat p < pcount ix \<Longrightarrow> disk_ok (bx_disk ix) \<Longrightarrow> p \<noteq> INVALID_PAGE_ID"
proof
  assume "unat p < pcount ix" "disk_ok (bx_disk ix)" "p = INVALID_PAGE_ID"
  then show False
    using disk_ok_pcount [of ix] by (simp add: INVALID_PAGE_ID_def PAGE_LIMIT_def)
qed

lemma ksorted_append: "ksorted (xs @ ys) \<longleftrightarrow> ksorted xs \<and> ksorted ys
    \<and> (\<forall>x \<in> set xs. \<forall>y \<in> set ys. fst x < fst y)"
  by (auto simp: ksorted_def sorted_wrt_append)

lemma ksorted_simps [simp]: "ksorted []" "ksorted (x # xs) \<longleftrightarrow> above (fst x) xs \<and> ksorted xs"
  by (auto simp: ksorted_def)

lemma mink_in: assumes "cont t \<noteq> []" shows "\<exists>v. (mink t, v) \<in> set (cont t)"
proof -
  from assms obtain k v kvs where "cont t = (k, v) # kvs" by (cases "cont t") auto
  then show ?thesis by (auto simp: mink_def)
qed

lemma mink_le: "ksorted (cont t) \<Longrightarrow> kv \<in> set (cont t) \<Longrightarrow> mink t \<le> fst kv"
  by (cases "cont t") (auto simp: mink_def less_imp_le)

subsection \<open>Choosing a child\<close>

lemma child_choice:
  assumes "ts \<noteq> []" and "ksorted (conts ts)" and "\<forall>t \<in> set ts. cont t \<noteq> []"
  shows "\<exists>ls t rs. ts = ls @ t # rs \<and> child_index_for_key (seps ts) k = length ls
    \<and> below (conts ls) k \<and> above k (conts rs) \<and> (ls = [] \<or> mink t \<le> k)"
  using assms
proof (induction ts)
  case (Cons t ts)
  show ?case
  proof (cases "\<exists>u us. ts = u # us \<and> mink u \<le> k")
    case False
    have "above k (conts ts)"
    proof (cases ts)
      case (Cons u us)
      with False have "k < mink u" by auto
      moreover have "mink u \<le> fst kv" if "kv \<in> set (conts ts)" for kv
      proof -
        have so: "ksorted (cont u @ conts us)" "cont u \<noteq> []"
          using Cons.prems \<open>ts = u # us\<close> by (simp_all add: ksorted_append)
        obtain v where "(mink u, v) \<in> set (cont u)" using mink_in [OF so(2)] by blast
        then show ?thesis
          using so(1) that \<open>ts = u # us\<close> mink_le [of u kv] unfolding ksorted_append
          by (fastforce intro: less_imp_le)
      qed
      ultimately show ?thesis by (auto intro: less_le_trans)
    qed simp
    moreover have "child_index_for_key (seps (t # ts)) k = 0"
      using False by (cases ts) (auto simp: child_index_for_key_def)
    ultimately show ?thesis
      by (intro exI [of _ "[]"] exI [of _ t] exI [of _ ts]) simp
  next
    case True
    then obtain u us where u: "ts = u # us" "mink u \<le> k" by blast
    have "ts \<noteq> []" "ksorted (conts ts)" "\<forall>t \<in> set ts. cont t \<noteq> []"
      using Cons.prems u by (simp_all add: ksorted_append)
    then obtain ls v rs where i: "ts = ls @ v # rs" "child_index_for_key (seps ts) k = length ls"
      "below (conts ls) k" "above k (conts rs)" "ls = [] \<or> mink v \<le> k"
      using Cons.IH by blast
    have "below (cont t) k"
    proof
      fix kv assume kv: "kv \<in> set (cont t)"
      have "cont u \<noteq> []" using Cons.prems(3) u(1) by simp
      then obtain w where w: "(mink u, w) \<in> set (cont u)" using mink_in by blast
      have "\<forall>x \<in> set (cont t). \<forall>y \<in> set (cont u). fst x < fst y"
        using Cons.prems(2) u(1) by (simp add: ksorted_append)
      with kv w have "fst kv < mink u" by fastforce
      with u(2) show "fst kv < k" by simp
    qed
    moreover have "mink v \<le> k"
    proof (cases "ls = []")
      case True
      with i(1) u show ?thesis by simp
    qed (use i(5) in blast)
    moreover have "child_index_for_key (seps (t # ts)) k = Suc (length ls)"
      using u i(2) by (simp add: child_index_for_key_def not_less)
    ultimately show ?thesis
      using i by (intro exI [of _ "t # ls"] exI [of _ v] exI [of _ rs]) auto
  qed
qed simp

lemma plug_append: "plug (c @ d) t = plug d (plug c t)"
  by (induction c t rule: plug.induct) simp_all

lemma cl_append [simp]: "cl (c @ d) = cl d @ cl c"
  by (induction c rule: cl.induct) simp_all

lemma cr_append [simp]: "cr (c @ d) = cr c @ cr d"
  by (induction c rule: cr.induct) simp_all

lemma cl_leftmost: "\<forall>fr \<in> set c. fst (snd fr) = [] \<Longrightarrow> cl c = []"
  by (induction c rule: cl.induct) auto

subsection \<open>The descent to a leaf\<close>

lemma find_leaf_from_stored:
  assumes "stored (nodes ix) t nx" and "wft kk h t" and "h < f" and "ksorted (cont t)"
    and "\<forall>p \<in> set (pids t). p \<noteq> INVALID_PAGE_ID"
  shows "\<exists>c p kvs n. t = plug c (PL p kvs) \<and> length c = h \<and> nodes ix p = Some n
    \<and> find_leaf_from f k (root_of t) path ix = Inr (n, p # cpath c @ path)
    \<and> below (cl c) k \<and> above k (cr c)
    \<and> (mink (PL p kvs) \<le> k \<or> (\<forall>fr \<in> set c. fst (snd fr) = []))
    \<and> find_from f k (root_of t) ix =
        (let i = lower_bound (keys n) k
         in if i < length (keys n) \<and> keys n ! i = k then Inr (Some (records n ! i)) else Inr None)"
  using assms
proof (induction f arbitrary: h t nx path)
  case (Suc f)
  show ?case
  proof (cases t)
    case (PL p kvs)
    with Suc.prems show ?thesis
      by (intro exI [of _ "[]"] exI [of _ p] exI [of _ kvs]) (auto simp: read_node_nodes wft_leaf Let_def)
  next
    case (PN p ts)
    obtain h' where h: "h = Suc h'" "2 \<le> length ts" "\<forall>u \<in> set ts. wft kk h' u"
      using Suc.prems(2) PN by (auto simp: wft_children)
    have "ts \<noteq> []" "ksorted (conts ts)" "\<forall>t \<in> set ts. cont t \<noteq> []"
      using h Suc.prems(4) PN wft_cont_ne by auto
    then obtain ls u rs where ch: "ts = ls @ u # rs" "child_index_for_key (seps ts) k = length ls"
      "below (conts ls) k" "above k (conts rs)" "ls = [] \<or> mink u \<le> k"
      using child_choice by blast
    have n: "nodes ix p = Some (new_internal p (seps ts) (roots ts))"
      and st: "stored (nodes ix) u (nxt_of rs nx)"
      using Suc.prems(1) PN ch(1) by auto
    have pv: "p \<noteq> INVALID_PAGE_ID" using Suc.prems(5) PN by simp
    have u: "wft kk h' u" "h' < f" "ksorted (cont u)" "\<forall>p \<in> set (pids u). p \<noteq> INVALID_PAGE_ID"
      using Suc.prems(3-5) h PN ch(1) by (auto simp: ksorted_append)
    obtain c q kvs m where i: "u = plug c (PL q kvs)" "length c = h'" "nodes ix q = Some m"
      "find_leaf_from f k (root_of u) (p # path) ix = Inr (m, q # cpath c @ p # path)"
      "below (cl c) k" "above k (cr c)" "mink (PL q kvs) \<le> k \<or> (\<forall>fr \<in> set c. fst (snd fr) = [])"
      "find_from f k (root_of u) ix =
        (let i = lower_bound (keys m) k
         in if i < length (keys m) \<and> keys m ! i = k then Inr (Some (records m ! i)) else Inr None)"
      using Suc.IH [OF st u] by blast
    have step: "child_index_for_key (seps ts) k < length (roots ts)" "roots ts ! length ls = root_of u"
      using ch by (simp_all add: nth_append)
    let ?c = "c @ [(p, ls, rs)]"
    have "mink (PL q kvs) \<le> k \<or> ls = []"
    proof (cases "\<forall>fr \<in> set c. fst (snd fr) = []")
      case True
      then have "hd (cont u) = hd kvs"
      proof -
        have "kvs \<noteq> []" using u(1) i(1,2) wft_plug [of kk 0 c "PL q kvs"] by simp
        then show ?thesis using True i(1) by (simp add: cont_plug cl_leftmost)
      qed
      then show ?thesis using ch(5) by (auto simp: mink_def)
    qed (use i(7) in blast)
    then have "mink (PL q kvs) \<le> k \<or> (\<forall>fr \<in> set ?c. fst (snd fr) = [])"
      using i(7) by auto
    moreover have "t = plug ?c (PL q kvs)" using PN ch(1) i(1) by (simp add: plug_append)
    moreover have "find_leaf_from (Suc f) k (root_of t) path ix = Inr (m, q # cpath ?c @ path)"
      using PN pv n step ch(2) i(4) by (simp add: read_node_nodes Let_def)
    moreover have "find_from (Suc f) k (root_of t) ix = find_from f k (root_of u) ix"
      using PN pv n step ch(2) by (simp add: read_node_nodes Let_def)
    moreover have "below (cl ?c) k" "above k (cr ?c)" using ch(3,4) i(5,6) by auto
    ultimately show ?thesis using h(1) i(2,3,8) by (intro exI [of _ ?c] exI) auto
  qed
qed simp

lemma find_leaf_good:
  assumes g: "good ix h t" and s: "ksorted (cont t)"
  shows "\<exists>c p kvs. t = plug c (PL p kvs) \<and> length c = h
    \<and> find_leaf k ix = Inr (leaf_node p (cnx c) kvs, p # cpath c)
    \<and> below (cl c) k \<and> above k (cr c)
    \<and> (mink (PL p kvs) \<le> k \<or> (\<forall>fr \<in> set c. fst (snd fr) = []))
    \<and> find_from (walk_bound ix) k (root_page_id (bx_meta ix)) ix =
        (let i = lower_bound (map fst kvs) k
         in if i < length kvs \<and> map fst kvs ! i = k then Inr (Some (map snd kvs ! i)) else Inr None)"
proof -
  have st: "stored (nodes ix) t INVALID_PAGE_ID" "wft (kind_of ix) h t"
    "root_page_id (bx_meta ix) = root_of t"
    using g by (simp_all add: good_def)
  have b: "h < walk_bound ix" using good_pids_bound(2) [OF g] by (simp add: walk_bound_pcount)
  have v: "\<forall>p \<in> set (pids t). p \<noteq> INVALID_PAGE_ID" using g pid_valid by (auto simp: good_def)
  obtain c p kvs n where c: "t = plug c (PL p kvs)" "length c = h" "nodes ix p = Some n"
    "find_leaf_from (walk_bound ix) k (root_of t) [] ix = Inr (n, p # cpath c @ [])"
    "below (cl c) k" "above k (cr c)" "mink (PL p kvs) \<le> k \<or> (\<forall>fr \<in> set c. fst (snd fr) = [])"
    "find_from (walk_bound ix) k (root_of t) ix =
        (let i = lower_bound (keys n) k
         in if i < length (keys n) \<and> keys n ! i = k then Inr (Some (records n ! i)) else Inr None)"
    using find_leaf_from_stored [OF st(1,2) b s v] by blast
  have "good ix (0 + length c) (plug c (PL p kvs))" using g c by simp
  then have "stored (nodes ix) (PL p kvs) (cnx c)" by (rule env_of_good(2))
  then have "n = leaf_node p (cnx c) kvs" using c(3) by simp
  then have n: "keys n = map fst kvs" "records n = map snd kvs" "n = leaf_node p (cnx c) kvs" by simp_all
  have "find_leaf k ix = Inr (leaf_node p (cnx c) kvs, p # cpath c)"
    using c(4) n(3) st(3) by (simp add: find_leaf_def)
  with c(1,2,5-8) show ?thesis unfolding n(1,2) st(3) length_map
    by (intro exI [of _ c] exI [of _ p] exI [of _ kvs]) simp
qed

subsection \<open>Positions in a sorted leaf\<close>

lemma lower_bound_split:
  assumes "ksorted kvs"
  shows "\<exists>as bs. kvs = as @ bs \<and> lower_bound (map fst kvs) k = length as \<and> below as k
    \<and> (\<forall>kv \<in> set bs. k \<le> fst kv)"
proof -
  define as where "as = takeWhile (\<lambda>kv. fst kv < k) kvs"
  define bs where "bs = dropWhile (\<lambda>kv. fst kv < k) kvs"
  have kvs: "kvs = as @ bs" by (simp add: as_def bs_def)
  have "lower_bound (map fst kvs) k = length as"
    by (simp add: lower_bound_def takeWhile_map comp_def as_def)
  moreover have "below as k" by (auto simp: as_def dest: set_takeWhileD)
  moreover have "\<forall>kv \<in> set bs. k \<le> fst kv"
  proof (cases bs)
    case (Cons b bs')
    then have "\<not> fst b < k" using hd_dropWhile [of "\<lambda>kv. fst kv < k" kvs] by (simp add: bs_def)
    then show ?thesis using assms kvs Cons by (auto simp: ksorted_append not_less dest: less_imp_le)
  qed simp
  ultimately show ?thesis using kvs by blast
qed

lemma map_of_below: "below as k \<Longrightarrow> map_of (as @ bs) k = map_of bs k"
  by (induction as) auto

lemma map_of_above: "above k bs \<Longrightarrow> map_of bs k = None"
  by (induction bs) auto

lemma map_of_below_None: "below as k \<Longrightarrow> map_of as k = None"
  using map_of_below [of as k "[]"] by simp

lemma leaf_lookup:
  assumes "ksorted kvs"
  shows "(let i = lower_bound (map fst kvs) k
         in if i < length kvs \<and> map fst kvs ! i = k then Inr (Some (map snd kvs ! i)) else Inr None)
    = Inr (map_of kvs k)"
proof -
  obtain as bs where s: "kvs = as @ bs" "lower_bound (map fst kvs) k = length as" "below as k"
    "\<forall>kv \<in> set bs. k \<le> fst kv" using lower_bound_split [OF assms] by blast
  show ?thesis
  proof (cases bs)
    case Nil
    with s map_of_below [OF s(3), of "[]"] show ?thesis by (simp add: Let_def)
  next
    case (Cons b bs')
    have "above k bs'" if "fst b \<noteq> k"
    proof -
      have "k < fst b" using that s(4) Cons by (auto simp: order_less_le)
      then show ?thesis using assms s(1) Cons by (auto simp: ksorted_append intro: less_trans)
    qed
    then show ?thesis
      using s map_of_below [OF s(3), of bs] map_of_above [of bs' k] Cons
      by (cases b) (auto simp: Let_def nth_append)
  qed
qed

lemma find_key_good:
  assumes g: "good ix h t" and s: "ksorted (cont t)" and k: "key_matches_kind k (kind_of ix)"
  shows "find_key k ix = Inr (map_of (cont t) k)"
proof -
  obtain c p kvs where c: "t = plug c (PL p kvs)" "below (cl c) k" "above k (cr c)"
    "find_from (walk_bound ix) k (root_page_id (bx_meta ix)) ix =
        (let i = lower_bound (map fst kvs) k
         in if i < length kvs \<and> map fst kvs ! i = k then Inr (Some (map snd kvs ! i)) else Inr None)"
    using find_leaf_good [OF g s] by blast
  have "ksorted kvs" using s c(1) by (simp add: cont_plug ksorted_append)
  note l = leaf_lookup [OF this]
  have "root_page_id (bx_meta ix) \<noteq> INVALID_PAGE_ID"
    using g pid_valid root_in_pids [of t] unfolding good_def by metis
  moreover have "tree_height (bx_meta ix) \<noteq> 0" using g by (auto simp: good_def)
  moreover have "map_of (cont t) k = map_of kvs k"
    using c(1) map_of_below_None [OF c(2)] map_of_above [OF c(3)]
    by (simp add: cont_plug map_add_def split: option.splits)
  ultimately show ?thesis using c(4) l k
    by (simp add: find_key_def validate_key_kind_def meta_empty_def)
qed

subsection \<open>Scanning the leaf chain\<close>

type_synonym leaf_pages = "(64 word \<times> (index_key \<times> 64 word) list) list"

fun leaves :: "ptree \<Rightarrow> leaf_pages" where
  "leaves (PL p kvs) = [(p, kvs)]"
| "leaves (PN p ts) = concat (map leaves ts)"

fun next_of :: "leaf_pages \<Rightarrow> 64 word \<Rightarrow> 64 word" where
  "next_of [] nx = nx"
| "next_of ((p, kvs) # ls) nx = p"

fun chain :: "(64 word \<rightharpoonup> index_node) \<Rightarrow> leaf_pages \<Rightarrow> 64 word \<Rightarrow> bool" where
  "chain N [] nx = True"
| "chain N ((p, kvs) # ls) nx = (N p = Some (leaf_node p (next_of ls nx) kvs) \<and> chain N ls nx)"

lemma next_of_append [simp]: "next_of (xs @ ys) nx = next_of xs (next_of ys nx)"
  by (cases xs) auto

lemma chain_append [simp]: "chain N (xs @ ys) nx = (chain N xs (next_of ys nx) \<and> chain N ys nx)"
  by (induction xs) auto

lemma cont_leaves: "cont t = concat (map snd (leaves t))"
proof (induction t)
  case (PN p ts)
  then show ?case by (induction ts) auto
qed simp

lemma leaves_pids: "set (map fst (leaves t)) \<subseteq> set (pids t)"
  by (induction t) fastforce+

lemma length_leaves: "length (leaves t) \<le> length (pids t)"
proof (induction t)
  case (PN p ts)
  have "length (concat (map leaves us)) \<le> length (pidl us)" if "set us \<subseteq> set ts" for us
    using that PN by (induction us) (auto intro: add_mono)
  from this [of ts] show ?case by simp
qed simp

lemma next_of_leaves: "wft kk h t \<Longrightarrow> next_of (leaves t) nx = fl t"
proof (induction kk h t arbitrary: nx rule: wft.induct)
  case (2 kk h p ts)
  then obtain u us where "ts = u # us" by (cases ts) auto
  with 2 show ?case by simp
qed auto

lemma next_of_leaves_list:
  "\<forall>t \<in> set ts. wft kk h t \<Longrightarrow> next_of (concat (map leaves ts)) nx = nxt_of ts nx"
  by (cases ts) (auto simp: next_of_leaves)

lemma stored_chain: "stored N t nx \<Longrightarrow> wft kk h t \<Longrightarrow> chain N (leaves t) nx"
proof (induction kk h t arbitrary: nx rule: wft.induct)
  case (2 kk h p ts)
  have "chain N (concat (map leaves us)) nx"
    if "storeds N us nx" "set us \<subseteq> set ts" for us
    using that
  proof (induction us)
    case (Cons u us)
    then have "\<forall>t \<in> set us. wft kk h t" using "2.prems" by auto
    then have "next_of (concat (map leaves us)) nx = nxt_of us nx" by (rule next_of_leaves_list)
    with Cons "2.IH" [of u "nxt_of us nx"] "2.prems" show ?case by auto
  qed simp
  from this [of ts] show ?case using "2.prems" by simp
qed auto

definition in_range :: "index_key \<Rightarrow> index_key \<Rightarrow> (index_key \<times> 64 word) list \<Rightarrow> 64 word list" where
  "in_range b e kvs = map snd (filter (\<lambda>kv. b \<le> fst kv \<and> fst kv \<le> e) kvs)"

lemma in_range_append [simp]: "in_range b e (xs @ ys) = in_range b e xs @ in_range b e ys"
  by (simp add: in_range_def)

lemma in_range_below: "below kvs b \<Longrightarrow> in_range b e kvs = []"
  by (auto simp: in_range_def filter_empty_conv)

lemma in_range_above: "above e kvs \<Longrightarrow> in_range b e kvs = []"
  by (auto simp: in_range_def filter_empty_conv)

lemma scan_leaf_eq:
  assumes "ksorted kvs" and "b \<le> e"
  shows "scan_leaf b e (map fst kvs) (map snd kvs) res
    = (\<exists>kv \<in> set kvs. e < fst kv, res @ in_range b e kvs)"
  using assms(1)
proof (induction kvs arbitrary: res)
  case (Cons kv kvs)
  consider "fst kv < b" | "e < fst kv" "\<not> fst kv < b" | "b \<le> fst kv" "fst kv \<le> e" by fastforce
  then show ?case
  proof cases
    case 1
    then have "\<not> e < fst kv" using assms(2) by auto
    with 1 Cons show ?thesis by (auto simp: in_range_def)
  next
    case 2
    then have "above e (kv # kvs)" using Cons.prems by auto
    from in_range_above [OF this] 2 show ?thesis by simp
  next
    case 3
    with Cons show ?thesis by (auto simp: in_range_def)
  qed
qed (simp add: in_range_def)

lemma range_loop_chain:
  assumes "chain (nodes ix) ((p, kvs) # ls) INVALID_PAGE_ID" and "length ls < f" and "b \<le> e"
    and "ksorted (kvs @ concat (map snd ls))" and "\<forall>q \<in> insert p (fst ` set ls). unat q < pcount ix"
    and "disk_ok (bx_disk ix)"
  shows "range_loop f b e (leaf_node p (next_of ls INVALID_PAGE_ID) kvs) res ix
    = Inr (res @ in_range b e (kvs @ concat (map snd ls)))"
  using assms
proof (induction ls arbitrary: f p kvs res)
  case Nil
  then obtain f' where f: "f = Suc f'" by (cases f) auto
  have "p \<noteq> INVALID_PAGE_ID" "p < disk_page_count (bx_disk ix)"
    using Nil pid_valid [of p ix] by (simp_all add: word_less_nat_alt pcount_def page_count_def)
  with Nil f scan_leaf_eq [of kvs b e res] show ?case by (simp add: ksorted_append split: bool.split)
next
  case (Cons l ls)
  obtain q kvs' where l: "l = (q, kvs')" by (cases l)
  obtain f' where f: "f = Suc f'" "length ls < f'" using Cons.prems(2) by (cases f) auto
  have v: "p \<noteq> INVALID_PAGE_ID" "p < disk_page_count (bx_disk ix)" "q \<noteq> INVALID_PAGE_ID"
    using Cons.prems(5,6) l pid_valid [of p ix] pid_valid [of q ix]
    by (simp_all add: word_less_nat_alt pcount_def page_count_def)
  have so: "ksorted kvs" "ksorted (kvs' @ concat (map snd ls))"
    "\<forall>x \<in> set kvs. \<forall>y \<in> set (kvs' @ concat (map snd ls)). fst x < fst y"
    using Cons.prems(4) l by (auto simp: ksorted_append)
  show ?case
  proof (cases "\<exists>kv \<in> set kvs. e < fst kv")
    case True
    then have "above e (kvs' @ concat (map snd ls))" using so(3) by (meson less_trans)
    from in_range_above [OF this, of b] True v f scan_leaf_eq [OF so(1) assms(3), of res] l
    show ?thesis by simp
  next
    case False
    have rd: "read_node q ix = Inr (leaf_node q (next_of ls INVALID_PAGE_ID) kvs')"
      using Cons.prems(1) l by (intro read_node_nodes) simp
    have "range_loop f' b e (leaf_node q (next_of ls INVALID_PAGE_ID) kvs') (res @ in_range b e kvs) ix
      = Inr ((res @ in_range b e kvs) @ in_range b e (kvs' @ concat (map snd ls)))"
      using Cons.prems l f(2) so(2) by (intro Cons.IH) auto
    with False v f scan_leaf_eq [OF so(1) assms(3), of res] rd l show ?thesis by simp
  qed
qed

fun crl :: "frame list \<Rightarrow> leaf_pages" where
  "crl [] = []"
| "crl ((p, ls, rs) # c) = concat (map leaves rs) @ crl c"

fun cll :: "frame list \<Rightarrow> leaf_pages" where
  "cll [] = []"
| "cll ((p, ls, rs) # c) = cll c @ concat (map leaves ls)"

lemma leaves_plug: "leaves (plug c t) = cll c @ leaves t @ crl c"
  by (induction c t rule: plug.induct) simp_all

lemma cont_crl: "concat (map snd (crl c)) = cr c"
proof (induction c rule: crl.induct)
  case (2 p ls rs c)
  have "concat (map snd (concat (map leaves rs))) = conts rs"
    by (induction rs) (simp_all add: cont_leaves)
  with 2 show ?case by simp
qed simp

lemma range_search_good:
  assumes g: "good ix h t" and s: "ksorted (cont t)"
    and b: "key_matches_kind b (kind_of ix)" and e: "key_matches_kind e (kind_of ix)"
  shows "range_search b e ix = Inr (in_range b e (cont t))"
proof (cases "e < b")
  case True
  then have "in_range b e (cont t) = []" by (auto simp: in_range_def filter_empty_conv)
  with True b e show ?thesis by (simp add: range_search_def validate_key_kind_def)
next
  case False
  obtain c p kvs where c: "t = plug c (PL p kvs)" "below (cl c) b"
    "find_leaf b ix = Inr (leaf_node p (cnx c) kvs, p # cpath c)" "length c = h"
    using find_leaf_good [OF g s] by blast
  have st: "stored (nodes ix) t INVALID_PAGE_ID" "wft (kind_of ix) h t" "disk_ok (bx_disk ix)"
    using g by (simp_all add: good_def)
  have lv: "leaves t = cll c @ (p, kvs) # crl c" using c(1) by (simp add: leaves_plug)
  have ch: "chain (nodes ix) ((p, kvs) # crl c) INVALID_PAGE_ID"
    using stored_chain [OF st(1,2)] lv by simp
  have nx: "nodes ix p = Some (leaf_node p (next_of (crl c) INVALID_PAGE_ID) kvs)" using ch by simp
  have "good ix (0 + length c) (plug c (PL p kvs))" using g c(1,4) by simp
  then have "leaf_node p (cnx c) kvs = leaf_node p (next_of (crl c) INVALID_PAGE_ID) kvs"
    using env_of_good(2) nx by fastforce
  note fl = c(3) [unfolded this]
  have "fst ` set (leaves t) \<subseteq> set (pids t)" using leaves_pids [of t] by simp
  then have "\<forall>q \<in> insert p (fst ` set (crl c)). unat q < pcount ix"
    using g lv by (auto simp: good_def)
  moreover have "length (crl c) < walk_bound ix"
    using length_leaves [of t] good_pids_bound(1) [OF g] lv by (simp add: walk_bound_pcount)
  moreover have "ksorted (kvs @ concat (map snd (crl c)))"
    using s c(1) by (simp add: cont_plug ksorted_append cont_crl)
  ultimately have "range_loop (walk_bound ix) b e (leaf_node p (next_of (crl c) INVALID_PAGE_ID) kvs) [] ix
    = Inr ([] @ in_range b e (kvs @ concat (map snd (crl c))))"
    using ch False st(3) by (intro range_loop_chain) auto
  moreover have "in_range b e (cont t) = in_range b e (kvs @ cr c)"
    using c(1) in_range_below [OF c(2)] by (simp add: cont_plug)
  moreover have "root_page_id (bx_meta ix) \<noteq> INVALID_PAGE_ID"
    using g pid_valid root_in_pids [of t] unfolding good_def by metis
  moreover have "tree_height (bx_meta ix) \<noteq> 0" using g by (auto simp: good_def)
  ultimately show ?thesis using fl b e False
    by (simp add: range_search_def validate_key_kind_def meta_empty_def cont_crl)
qed

end
