(* ===== verification/BStar_Pairs.thy ===== *)
theory BStar_Pairs
  imports BStar_Search
begin

section \<open>Rearranging two siblings\<close>

text \<open>
  Insertion and deletion both take a node and one of its siblings and distribute what they hold
  anew. \<open>pair\<close> is the situation they start from: two adjacent children of a page whose own nodes
  may be out of date (one of them has grown too large or too small and is only in memory), with
  everything around and below them stored. \<open>family\<close> is the situation after the new children have
  been written and before their parent is.
\<close>

subsection \<open>Outcomes\<close>

definition reach :: "bindex \<Rightarrow> nat \<Rightarrow> bindex \<Rightarrow> bool" where
  "reach ix n ix' \<longleftrightarrow> kind_of ix' = kind_of ix \<and> key_total (bx_meta ix') = key_total (bx_meta ix)
     \<and> pcount ix \<le> pcount ix' \<and> pcount ix' \<le> pcount ix + n"

definition yields :: "bindex \<Rightarrow> nat \<Rightarrow> (index_key \<times> 64 word) list \<Rightarrow> (exn + 'a) \<times> bindex \<Rightarrow> bool" where
  \<comment> \<open>a run returned, allocated at most \<open>n\<close> pages and left a whole tree with these entries\<close>
  "yields ix n kvs res \<longleftrightarrow> (\<exists>x ix' h t. res = (Inr x, ix') \<and> good ix' h t \<and> cont t = kvs \<and> reach ix n ix')"

lemma same_reach: "same ix ix' \<Longrightarrow> reach ix n ix'"
  by (simp add: same_def reach_def kind_of_def)

lemma reach_trans: "reach ix m ix1 \<Longrightarrow> reach ix1 n ix2 \<Longrightarrow> m + n \<le> k \<Longrightarrow> reach ix k ix2"
  by (simp add: reach_def)

lemma yields_reach:
  "reach ix m ix1 \<Longrightarrow> yields ix1 n kvs res \<Longrightarrow> m + n \<le> k \<Longrightarrow> yields ix k kvs res"
  unfolding yields_def using reach_trans by blast

lemma yieldsI: "good ix' h t \<Longrightarrow> cont t = kvs \<Longrightarrow> reach ix n ix' \<Longrightarrow> yields ix n kvs (Inr x, ix')"
  by (auto simp: yields_def)

lemma max_ge: "15 \<le> max_leaf_key_count kk" "15 \<le> max_internal_key_count kk"
  by (cases kk; simp add: max_leaf_key_count_def max_internal_key_count_def page_constants)+

subsection \<open>New children written\<close>

definition family :: "bindex \<Rightarrow> frame list \<Rightarrow> 64 word \<Rightarrow> ptree list \<Rightarrow> index_key \<Rightarrow> nat
    \<Rightarrow> 64 word set \<Rightarrow> bool" where
  "family ix c p ts k h S \<longleftrightarrow> env ix c p (nxt_of ts p) k (Suc h) S \<and> storeds (nodes ix) ts (cnx c)
     \<and> (\<forall>t \<in> set ts. wft (kind_of ix) h t) \<and> distinct (p # pidl ts) \<and> set (p # pidl ts) \<subseteq> S"

lemma fl_PN_nxt: "fl (PN p ts) = nxt_of ts p"
  by (cases ts) simp_all

lemma family_reading:
  "family ix c p ts k h S \<Longrightarrow>
   reading (new_internal q ks (roots ts)) g ix = g (new_internal q (seps ts) (roots ts)) ix"
  unfolding family_def by (intro reading_env) auto

lemma family_fits:
  "family ix c p ts k h S \<Longrightarrow> ts \<noteq> [] \<Longrightarrow> length ts < 1000 \<Longrightarrow>
   node_fits_page (new_internal q (seps ts) (roots ts)) ix
     = Inr (length ts \<le> Suc (max_internal_key_count (kind_of ix)))"
  unfolding family_def by (intro fits_internal) auto

lemma family_write:
  assumes f: "family ix c p ts k h S"
    and n: "2 \<le> length ts" "length ts \<le> Suc (max_internal_key_count (kind_of ix))"
  shows "\<exists>ix'. write_node (new_internal p (seps ts) (roots ts)) ix = (Inr (), ix') \<and> same ix ix'
    \<and> env ix' c p (fl (PN p ts)) k (Suc h) S \<and> stored (nodes ix') (PN p ts) (cnx c)
    \<and> wft (kind_of ix') (Suc h) (PN p ts) \<and> distinct (pids (PN p ts)) \<and> set (pids (PN p ts)) \<subseteq> S"
proof -
  have ne: "ts \<noteq> []" using n(1) by auto
  have e: "env ix c p (nxt_of ts p) k (Suc h) S" "storeds (nodes ix) ts (cnx c)"
    "\<forall>t \<in> set ts. wft (kind_of ix) h t" "distinct (p # pidl ts)" "set (p # pidl ts) \<subseteq> S" "p \<in> S"
    using f by (auto simp: family_def)
  obtain ix' where ix': "write_node (new_internal p (seps ts) (roots ts)) ix = (Inr (), ix')" "same ix ix'"
    "env ix' c p (nxt_of ts p) k (Suc h) S" "stored (nodes ix') (PN p ts) (cnx c)"
    using parent_written [OF e(1,2,3) ne n(2) e(6,4)] by blast
  have "wft (kind_of ix') (Suc h) (PN p ts)" using e(3) n same_kind [OF ix'(2)] by simp
  with ix' e(4,5) show ?thesis by (simp add: fl_PN_nxt)
qed

lemma mink_hd: "wft kk h (PN p ts) \<Longrightarrow> mink (PN p ts) = mink (hd ts)"
  using mink_PN by (cases ts) (auto simp: wft_children)

lemma family_done:
  assumes f: "family ix c p ts (mink (hd ts)) h S"
    and n: "2 \<le> length ts" "length ts \<le> Suc (max_internal_key_count (kind_of ix))"
  shows "yields ix 0 (cl c @ conts ts @ cr c) (write_node (new_internal p (seps ts) (roots ts)) ix)"
proof -
  obtain ix' where ix': "write_node (new_internal p (seps ts) (roots ts)) ix = (Inr (), ix')" "same ix ix'"
    "env ix' c p (fl (PN p ts)) (mink (hd ts)) (Suc h) S" "stored (nodes ix') (PN p ts) (cnx c)"
    "wft (kind_of ix') (Suc h) (PN p ts)" "distinct (pids (PN p ts))" "set (pids (PN p ts)) \<subseteq> S"
    using family_write [OF assms] by blast
  have e: "env ix' c (root_of (PN p ts)) (fl (PN p ts)) (mink (PN p ts)) (Suc h) S"
    using ix'(3) mink_hd [OF ix'(5)] by simp
  have g: "good ix' (Suc h + length c) (plug c (PN p ts))"
    using e ix'(4-7) by (rule good_of_env)
  have "yields ix 0 (cl c @ conts ts @ cr c) (Inr (), ix')"
    by (rule yieldsI [OF g _ same_reach [OF ix'(2)]]) (simp add: cont_plug)
  with ix'(1) show ?thesis by simp
qed

text \<open>The same when the smallest key may have changed and is then propagated.\<close>

lemma family_propagated:
  assumes f: "family ix c p ts k h S"
    and n: "2 \<le> length ts" "length ts \<le> Suc (max_internal_key_count (kind_of ix))"
  shows "yields ix 0 (cl c @ conts ts @ cr c)
    (bindS (write_node (new_internal p (seps ts) (roots ts)))
       (\<lambda>_. propagate_subtree_min_change p (p # cpath c)) ix)"
proof -
  obtain ix1 where i1: "write_node (new_internal p (seps ts) (roots ts)) ix = (Inr (), ix1)" "same ix ix1"
    "env ix1 c p (fl (PN p ts)) k (Suc h) S" "stored (nodes ix1) (PN p ts) (cnx c)"
    "wft (kind_of ix1) (Suc h) (PN p ts)" "distinct (pids (PN p ts))" "set (pids (PN p ts)) \<subseteq> S"
    using family_write [OF assms] by blast
  have e: "env ix1 c (root_of (PN p ts)) (fl (PN p ts)) k (Suc h) S" using i1(3) by simp
  obtain ix' where i2: "propagate_subtree_min_change p (p # cpath c) ix1 = (Inr (), ix')" "same ix1 ix'"
    "good ix' (Suc h + length c) (plug c (PN p ts))"
    using propagate_ok [OF e i1(4,5,7,6)] by auto
  have "yields ix 0 (cl c @ conts ts @ cr c) (Inr (), ix')"
    by (rule yieldsI [OF i2(3) _ same_reach [OF same_trans [OF i1(2) i2(2)]]]) (simp add: cont_plug)
  moreover have "bindS (write_node (new_internal p (seps ts) (roots ts)))
      (\<lambda>_. propagate_subtree_min_change p (p # cpath c)) ix = (Inr (), ix')"
    using i1(1) i2(1) by (simp add: bindS_Inr)
  ultimately show ?thesis by simp
qed

subsection \<open>A pair of siblings\<close>

definition pair :: "bindex \<Rightarrow> frame list \<Rightarrow> 64 word \<Rightarrow> ptree list \<Rightarrow> ptree \<Rightarrow> ptree \<Rightarrow> ptree list
    \<Rightarrow> index_key \<Rightarrow> nat \<Rightarrow> 64 word set \<Rightarrow> bool" where
  "pair ix c p ls a b rs k h S \<longleftrightarrow> env ix c p (nxt_of ls (fl a)) k (Suc h) S
     \<and> storeds (nodes ix) ls (fl a) \<and> storeds (nodes ix) rs (cnx c)
     \<and> kids_storeds (nodes ix) [a, b] (nxt_of rs (cnx c))
     \<and> (\<forall>t \<in> set ls \<union> set rs. wft (kind_of ix) h t)
     \<and> distinct (p # pidl (ls @ [a, b] @ rs)) \<and> set (p # pidl (ls @ [a, b] @ rs)) \<subseteq> S
     \<and> length ls + length rs < max_internal_key_count (kind_of ix)"

lemma env_siblings:
  assumes "env ix ((p, ls, rs) # c) r f k h S" and "distinct (pids t)" and "set (pids t) \<subseteq> S"
  shows "distinct (p # pidl (ls @ t # rs))"
    and "set (p # pidl (ls @ t # rs)) \<subseteq> insert p (S \<union> set (pidl ls) \<union> set (pidl rs))"
proof -
  have d: "distinct (p # pidl ls @ pidl rs @ cpids c)" "S \<inter> set (p # pidl ls @ pidl rs @ cpids c) = {}"
    using env_pop [OF assms(1)] by blast+
  have s: "set (pids t) \<inter> set (p # pidl ls @ pidl rs) = {}" using d(2) assms(3) by auto
  have "distinct ((p # pidl ls @ pidl rs) @ cpids c)" using d(1) by simp
  then have "distinct (p # pidl ls @ pidl rs)" unfolding distinct_append by blast
  then have "distinct (pids t @ p # pidl ls @ pidl rs)"
    using s assms(2) by (simp only: distinct_append [of "pids t"])
  moreover have "mset (pids t @ p # pidl ls @ pidl rs) = mset (p # pidl (ls @ t # rs))" by simp
  ultimately show "distinct (p # pidl (ls @ t # rs))" using mset_eq_imp_distinct_iff by blast
  show "set (p # pidl (ls @ t # rs)) \<subseteq> insert p (S \<union> set (pidl ls) \<union> set (pidl rs))"
    using assms(3) by auto
qed

lemma pair_right:
  assumes e: "env ix ((p, ls, b # rs) # c) (root_of a) (fl a) k h S"
    and "kids_stored (nodes ix) a (fl b)" and "distinct (pids a)" and "set (pids a) \<subseteq> S"
  shows "pair ix c p ls a b rs (lmk ls k) h (insert p (S \<union> set (pidl ls) \<union> set (pidl (b # rs))))"
proof -
  note pop = env_pop [OF e]
  have "kids_stored (nodes ix) b (nxt_of rs (cnx c))" using pop(4) by (simp add: stored_kids)
  then have "kids_storeds (nodes ix) [a, b] (nxt_of rs (cnx c))" using assms(2) by simp
  moreover have "storeds (nodes ix) ls (fl a)" "storeds (nodes ix) rs (cnx c)"
    "\<forall>t \<in> set ls \<union> set rs. wft (kind_of ix) h t"
    "length ls + length rs < max_internal_key_count (kind_of ix)"
    using pop(3-6,8) by auto
  ultimately show ?thesis
    using pop(1) env_siblings [OF e assms(3,4)] unfolding pair_def by simp
qed

lemma lmk_snoc: "lmk (ls @ [a]) k = lmk ls (mink a)"
  by (cases ls) simp_all

lemma pair_left:
  assumes e: "env ix ((p, ls @ [a], rs) # c) (root_of b) (fl b) k h S"
    and "kids_stored (nodes ix) b (nxt_of rs (cnx c))" and "distinct (pids b)" and "set (pids b) \<subseteq> S"
  shows "pair ix c p ls a b rs (lmk ls (mink a)) h (insert p (S \<union> set (pidl (ls @ [a])) \<union> set (pidl rs)))"
proof -
  note pop = env_pop [OF e]
  have "kids_stored (nodes ix) a (fl b)" using pop(3) by (simp add: stored_kids)
  then have "kids_storeds (nodes ix) [a, b] (nxt_of rs (cnx c))" using assms(2) by simp
  moreover have "storeds (nodes ix) ls (fl a)" "storeds (nodes ix) rs (cnx c)"
    "\<forall>t \<in> set ls \<union> set rs. wft (kind_of ix) h t"
    "length ls + length rs < max_internal_key_count (kind_of ix)"
    using pop(3-6,8) by auto
  ultimately show ?thesis
    using pop(1) env_siblings [OF e assms(3,4)] unfolding pair_def by (simp add: lmk_snoc)
qed

lemma pair_alloc:
  assumes "pair ix c p ls a b rs k h S" and "pcount ix < PAGE_LIMIT"
  shows "\<exists>m ix'. on_disk allocate_page ix = (Inr m, ix') \<and> reach ix 1 ix'
    \<and> pair ix' c p ls a b rs k h (insert m S) \<and> m \<notin> S
    \<and> pcount ix' = Suc (pcount ix)
    \<and> (\<forall>q \<in> S. nodes ix' q = nodes ix q)"
proof -
  have e: "env ix c p (nxt_of ls (fl a)) k (Suc h) S" using assms(1) by (simp add: pair_def)
  obtain m ix' where m: "on_disk allocate_page ix = (Inr m, ix')" "bx_meta ix' = bx_meta ix"
    "disk_ok (bx_disk ix')" "unat m = pcount ix" "pcount ix' = Suc (pcount ix)"
    "\<forall>q. unat q < pcount ix \<longrightarrow> nodes ix' q = nodes ix q"
    using allocate_ok [OF env_disk [OF e] assms(2)] by blast
  note ea = env_alloc [OF e m(2-6)]
  have kk: "kind_of ix' = kind_of ix" using m(2) by (simp add: kind_of_def)
  have same: "\<forall>q \<in> S. nodes ix' q = nodes ix q" using env_count [OF e] m(6) by blast
  have sub: "set (pidl ls) \<subseteq> S" "set (pidl rs) \<subseteq> S" "set (pids a) \<subseteq> S" "set (pids b) \<subseteq> S"
    using assms(1) by (simp_all add: pair_def)
  have "storeds (nodes ix') ls (fl a)" "storeds (nodes ix') rs (cnx c)"
    using assms(1) stored_frame(2) [of ls "nodes ix'" "nodes ix"] stored_frame(2) [of rs "nodes ix'" "nodes ix"]
      sub same unfolding pair_def by blast+
  moreover have "\<forall>q \<in> set (kids a). nodes ix' q = nodes ix q" "\<forall>q \<in> set (kids b). nodes ix' q = nodes ix q"
    using sub(3,4) same by (auto simp: pids_kids)
  then have "kids_storeds (nodes ix') [a, b] (nxt_of rs (cnx c))"
    using assms(1) kids_stored_frame [of a "nodes ix'" "nodes ix"] kids_stored_frame [of b "nodes ix'" "nodes ix"]
    unfolding pair_def by simp
  ultimately have "pair ix' c p ls a b rs k h (insert m S)"
    using assms(1) ea(1) kk unfolding pair_def by auto
  then show ?thesis using m ea(2) kk same by (auto simp: reach_def)
qed

lemma pair_regroup:
  assumes pr: "pair ix c p ls a b rs k h S"
    and m: "kids_storeds (nodes ix) (t # ts) (nxt_of rs (cnx c))"
    and w: "\<forall>u \<in> set (t # ts). wft (kind_of ix) h u" and f: "fl t = fl a"
    and d: "distinct (pidl (t # ts))" and s: "set (pidl (t # ts)) \<subseteq> S"
    and o: "set (pidl (t # ts)) \<inter> set (p # pidl ls @ pidl rs) = {}"
  shows "\<exists>ix'. write_roots (t # ts) (nxt_of rs (cnx c)) ix = (Inr (), ix') \<and> same ix ix'
    \<and> family ix' c p (ls @ (t # ts) @ rs) k h S"
proof -
  have e: "env ix c p (nxt_of ls (fl a)) k (Suc h) S" "storeds (nodes ix) ls (fl t)"
    "storeds (nodes ix) rs (cnx c)" "\<forall>t \<in> set ls \<union> set rs. wft (kind_of ix) h t"
    "distinct (p # pidl (ls @ [a, b] @ rs))" "set (p # pidl (ls @ [a, b] @ rs)) \<subseteq> S"
    using pr f unfolding pair_def by simp_all
  have "distinct (p # pidl ls @ pidl rs)" using e(5) by auto
  with d o have "distinct (pidl (t # ts) @ p # pidl ls @ pidl rs)"
    by (simp only: distinct_append [of "pidl (t # ts)"])
  moreover have "mset (pidl (t # ts) @ p # pidl ls @ pidl rs) = mset (p # pidl (ls @ (t # ts) @ rs))" by simp
  ultimately have d': "distinct (p # pidl (ls @ (t # ts) @ rs))" using mset_eq_imp_distinct_iff by blast
  have s': "set (p # pidl (ls @ (t # ts) @ rs)) \<subseteq> S" using s e(6) by auto
  obtain ix' where ix': "write_roots (t # ts) (nxt_of rs (cnx c)) ix = (Inr (), ix')" "same ix ix'"
    "env ix' c p (nxt_of ls (fl a)) k (Suc h) S" "storeds (nodes ix') (ls @ (t # ts) @ rs) (cnx c)"
    using children_written [OF e(1,2,3) m w d' s] by blast
  moreover have "nxt_of (ls @ (t # ts) @ rs) p = nxt_of ls (fl a)" using f by simp
  moreover have "\<forall>u \<in> set (ls @ (t # ts) @ rs). wft (kind_of ix') h u"
    using e(4) w same_kind [OF ix'(2)] by auto
  ultimately have "family ix' c p (ls @ (t # ts) @ rs) k h S"
    using d' s' unfolding family_def by metis
  with ix'(1,2) show ?thesis by blast
qed

subsection \<open>Internal siblings: a new division of their children\<close>

lemma nxt_of_ne: "ts \<noteq> [] \<Longrightarrow> nxt_of ts x = nxt_of ts y"
  by (cases ts) auto

lemma pair_env: "pair ix c p ls a b rs k h S \<Longrightarrow> env ix c p (nxt_of ls (fl a)) k (Suc h) S"
  by (simp add: pair_def)

lemma pair_children:
  assumes "pair ix c p ls (PN p1 as) (PN p2 bs) rs k h S" and "bs \<noteq> []"
  shows "storeds (nodes ix) (as @ bs) (nxt_of rs (cnx c))"
proof -
  have "storeds (nodes ix) as (nxt_of bs p2)" "storeds (nodes ix) bs (nxt_of rs (cnx c))"
    using assms(1) by (simp_all add: pair_def fl_PN_nxt)
  then show ?thesis using nxt_of_ne [OF assms(2)] by (metis storeds_append)
qed

lemma halve_children_internal:
  "halve_children (new_internal p1 k1 (roots as)) (new_internal p2 k2 (roots bs)) =
    (new_internal p1 k1 (roots (take ((length (as @ bs) + 1) div 2) (as @ bs))),
     new_internal p2 k2 (roots (drop ((length (as @ bs) + 1) div 2) (as @ bs))))"
  by (simp add: halve_children_def Let_def take_map drop_map)

lemma fits_both_internal:
  assumes "\<forall>t \<in> set (c1 @ c2). wft (kind_of ix) h t" and "c1 \<noteq> []" "c2 \<noteq> []" and "length (c1 @ c2) < 1000"
  shows "fits_both (new_internal p1 (seps c1) (roots c1)) (new_internal p2 (seps c2) (roots c2)) ix
    = (Inr (length c1 \<le> Suc (max_internal_key_count (kind_of ix))
         \<and> length c2 \<le> Suc (max_internal_key_count (kind_of ix))), ix)"
proof -
  have w: "\<forall>t \<in> set c1. wft (kind_of ix) h t" "\<forall>t \<in> set c2. wft (kind_of ix) h t"
    and n: "length c1 < 1000" "length c2 < 1000" using assms by auto
  show ?thesis unfolding fits_both_def
    by (subst bindS_askE [where h = "node_fits_page (new_internal p1 (seps c1) (roots c1))",
          OF fits_internal [OF w(1) assms(2) n(1)]])
      (simp add: fits_internal [OF w(2) assms(3) n(2)])
qed

text \<open>A pair of internal nodes with its children cut at another place.\<close>

lemma pair_cut:
  assumes pr: "pair ix c p ls (PN p1 as) (PN p2 bs) rs k (Suc h) S" and ne: "as \<noteq> []" "bs \<noteq> []"
    and cs: "as @ bs = c1 @ c2" and w: "\<forall>t \<in> set (as @ bs). wft (kind_of ix) h t"
    and n: "2 \<le> length c1" "length c1 \<le> Suc (max_internal_key_count (kind_of ix))"
      "2 \<le> length c2" "length c2 \<le> Suc (max_internal_key_count (kind_of ix))"
  shows "\<exists>ix'. write_roots [PN p1 c1, PN p2 c2] (nxt_of rs (cnx c)) ix = (Inr (), ix') \<and> same ix ix'
    \<and> family ix' c p (ls @ [PN p1 c1, PN p2 c2] @ rs) k (Suc h) S"
proof (rule pair_regroup [OF pr])
  have ne': "c1 \<noteq> []" "c2 \<noteq> []" using n by auto
  have "storeds (nodes ix) (c1 @ c2) (nxt_of rs (cnx c))" using pair_children [OF pr ne(2)] cs by simp
  then show "kids_storeds (nodes ix) [PN p1 c1, PN p2 c2] (nxt_of rs (cnx c))"
    using nxt_of_ne [OF ne'(2)] by (simp add: fl_PN_nxt) metis
  show "\<forall>u \<in> set [PN p1 c1, PN p2 c2]. wft (kind_of ix) (Suc h) u" using w n cs by auto
  have "nxt_of (as @ bs) p1 = nxt_of as p1" "nxt_of (c1 @ c2) p1 = nxt_of c1 p1"
    using ne ne' by (cases as; cases c1; simp)+
  with cs show "fl (PN p1 c1) = fl (PN p1 as)" by (simp add: fl_PN_nxt)
  have "pidl as @ pidl bs = pidl c1 @ pidl c2" using cs by (metis concat_append map_append)
  then have "mset (pidl as) + mset (pidl bs) = mset (pidl c1) + mset (pidl c2)"
    by (metis mset_append)
  then have m: "mset (pidl [PN p1 c1, PN p2 c2]) = mset (pidl [PN p1 as, PN p2 bs])" by simp
  have d: "distinct (p # pidl (ls @ [PN p1 as, PN p2 bs] @ rs))"
    "set (p # pidl (ls @ [PN p1 as, PN p2 bs] @ rs)) \<subseteq> S"
    using pr unfolding pair_def by blast+
  have "mset (p # pidl (ls @ [PN p1 as, PN p2 bs] @ rs))
      = mset (pidl [PN p1 as, PN p2 bs] @ p # pidl ls @ pidl rs)" by simp
  then have dd: "distinct (pidl [PN p1 as, PN p2 bs] @ p # pidl ls @ pidl rs)"
    using d(1) mset_eq_imp_distinct_iff by blast
  then have "distinct (pidl [PN p1 as, PN p2 bs])" unfolding distinct_append by blast
  then show "distinct (pidl [PN p1 c1, PN p2 c2])" using mset_eq_imp_distinct_iff [OF m] by blast
  have s: "set (pidl [PN p1 c1, PN p2 c2]) = set (pidl [PN p1 as, PN p2 bs])"
    using m by (metis set_mset_mset)
  show "set (pidl [PN p1 c1, PN p2 c2]) \<subseteq> S" unfolding s using d(2) by auto
  show "set (pidl [PN p1 c1, PN p2 c2]) \<inter> set (p # pidl ls @ pidl rs) = {}"
    using dd unfolding s distinct_append by blast
qed

lemma redistribute_internal_ok:
  assumes pr: "pair ix c p ls (PN p1 as) (PN p2 bs) rs k (Suc h) S" and ne: "as \<noteq> []" "bs \<noteq> []"
    and w: "\<forall>t \<in> set (as @ bs). wft (kind_of ix) h t"
    and n: "4 \<le> length (as @ bs)" "length (as @ bs) \<le> 2 * Suc (max_internal_key_count (kind_of ix))"
  shows "yields ix 0 (cl c @ conts ls @ conts (as @ bs) @ conts rs @ cr c)
    (redistribute_internal_pair (new_internal p1 k1 (roots as)) (new_internal p2 k2 (roots bs))
       (new_internal p ks (roots (ls @ [PN p1 as, PN p2 bs] @ rs))) (p # cpath c) ix)"
proof -
  define i where "i = (length (as @ bs) + 1) div 2"
  define c1 where "c1 = take i (as @ bs)"
  define c2 where "c2 = drop i (as @ bs)"
  let ?m = "max_internal_key_count (kind_of ix)"
  have cs: "as @ bs = c1 @ c2" unfolding c1_def c2_def by (rule append_take_drop_id [symmetric])
  have l: "2 \<le> length c1" "length c1 \<le> Suc ?m" "2 \<le> length c2" "length c2 \<le> Suc ?m"
    using n by (auto simp: c1_def c2_def i_def)
  then have ne': "c1 \<noteq> []" "c2 \<noteq> []" by auto
  have w': "\<forall>t \<in> set c1. wft (kind_of ix) h t" "\<forall>t \<in> set c2. wft (kind_of ix) h t"
    using w unfolding cs by auto
  have st: "storeds (nodes ix) c1 (nxt_of c2 (nxt_of rs (cnx c)))" "storeds (nodes ix) c2 (nxt_of rs (cnx c))"
    using pair_children [OF pr ne(2)] unfolding cs by simp_all
  have e: "env ix c p (nxt_of ls (fl (PN p1 as))) k (Suc (Suc h)) S" using pr by (rule pair_env)
  then have e': "h \<le> pcount ix" by (simp add: env_def)
  obtain ix1 where i1: "write_roots [PN p1 c1, PN p2 c2] (nxt_of rs (cnx c)) ix = (Inr (), ix1)" "same ix ix1"
    "family ix1 c p (ls @ [PN p1 c1, PN p2 c2] @ rs) k (Suc h) S"
    using pair_cut [OF pr ne cs w l] by blast
  have len: "length (ls @ [PN p1 c1, PN p2 c2] @ rs) \<le> Suc (max_internal_key_count (kind_of ix1))"
    using pr same_kind [OF i1(2)] by (simp add: pair_def)
  have fits: "fits_both (new_internal p1 (seps c1) (roots c1)) (new_internal p2 (seps c2) (roots c2)) ix
      = (Inr True, ix)"
    using fits_both_internal [of c1 c2 ix h] w' ne' l max_le(2) [of "kind_of ix"] by auto
  have "redistribute_internal_pair (new_internal p1 k1 (roots as)) (new_internal p2 k2 (roots bs))
      (new_internal p ks (roots (ls @ [PN p1 as, PN p2 bs] @ rs))) (p # cpath c) ix
    = bindS (write_roots [PN p1 c1, PN p2 c2] (nxt_of rs (cnx c)))
       (\<lambda>_. reading (new_internal p ks (roots (ls @ [PN p1 c1, PN p2 c2] @ rs)))
         (\<lambda>q. bindS (write_node q) (\<lambda>_. propagate_subtree_min_change (page_id q) (p # cpath c)))) ix"
    unfolding redistribute_internal_pair_def halve_children_internal i_def [symmetric]
      c1_def [symmetric] c2_def [symmetric]
    by (simp add: reading_stored [OF st(1) w'(1) e'] reading_stored [OF st(2) w'(2) e']
        bindS_Inr [where m = "fits_both _ _", OF fits]
        write_two [of "PN p1 c1" "PN p2 c2" "nxt_of rs (cnx c)", simplified])
  also have "\<dots> = bindS (write_node (new_internal p (seps (ls @ [PN p1 c1, PN p2 c2] @ rs))
        (roots (ls @ [PN p1 c1, PN p2 c2] @ rs)))) (\<lambda>_. propagate_subtree_min_change p (p # cpath c)) ix1"
    unfolding bindS_Inr [where m = "write_roots _ _", OF i1(1)] family_reading [OF i1(3)] by simp
  finally have run: "redistribute_internal_pair (new_internal p1 k1 (roots as)) (new_internal p2 k2 (roots bs))
      (new_internal p ks (roots (ls @ [PN p1 as, PN p2 bs] @ rs))) (p # cpath c) ix = \<dots>" .
  have co: "cl c @ conts (ls @ [PN p1 c1, PN p2 c2] @ rs) @ cr c
      = cl c @ conts ls @ conts (as @ bs) @ conts rs @ cr c"
    unfolding cs by simp
  have two: "2 \<le> length (ls @ [PN p1 c1, PN p2 c2] @ rs)" by simp
  show ?thesis
    using yields_reach [OF same_reach [OF i1(2)] family_propagated [OF i1(3) two len], of 0 0]
    unfolding run co by simp
qed

subsection \<open>Leaves: a new division of their entries\<close>

lemma leaf_node_update [simp]:
  "leaf_node p nx kvs\<lparr>keys := map fst as, records := map snd as\<rparr> = leaf_node p nx as"
  "leaf_node p nx kvs\<lparr>keys := map fst as, records := map snd as, next_leaf_page_id := q\<rparr> = leaf_node p q as"
  "leaf_node p nx kvs\<lparr>next_leaf_page_id := q\<rparr> = leaf_node p q kvs"
  "new_leaf p nx (map fst as) (map snd as) = leaf_node p nx as"
  by (simp_all add: leaf_node_def new_leaf_def)

lemma items_of_leaves:
  assumes "ksorted (kv1 @ kv2)"
  shows "items_of (leaf_node p1 n1 kv1) (leaf_node p2 n2 kv2) = kv1 @ kv2"
proof -
  have "sorted_wrt (<) (map fst (kv1 @ kv2))" using assms by (simp only: ksorted_def)
  then have "sorted (map fst (kv1 @ kv2))" by (rule strict_sorted_imp_sorted)
  then show ?thesis by (simp add: items_of_def zip_map_fst_snd sort_key_id_if_sorted)
qed

lemma fits_both_leaf:
  assumes "\<forall>kv \<in> set (x1 @ x2). key_ok (kind_of ix) (fst kv)" and "length x1 < 1000" "length x2 < 1000"
  shows "fits_both (leaf_node p1 n1 x1) (leaf_node p2 n2 x2) ix
    = (Inr (length x1 \<le> max_leaf_key_count (kind_of ix) \<and> length x2 \<le> max_leaf_key_count (kind_of ix)), ix)"
proof -
  have k: "\<forall>kv \<in> set x1. key_ok (kind_of ix) (fst kv)" "\<forall>kv \<in> set x2. key_ok (kind_of ix) (fst kv)"
    using assms(1) by auto
  show ?thesis unfolding fits_both_def
    by (subst bindS_askE [where h = "node_fits_page (leaf_node p1 n1 x1)", OF fits_leaf [OF k(1) assms(2)]])
      (simp add: fits_leaf [OF k(2) assms(3)])
qed

lemma pair_cut_leaf:
  assumes pr: "pair ix c p ls (PL p1 kv1) (PL p2 kv2) rs k 0 S"
    and w: "\<forall>kv \<in> set (x1 @ x2). key_ok (kind_of ix) (fst kv)"
    and n: "x1 \<noteq> []" "length x1 \<le> max_leaf_key_count (kind_of ix)"
      "x2 \<noteq> []" "length x2 \<le> max_leaf_key_count (kind_of ix)"
  shows "\<exists>ix'. write_roots [PL p1 x1, PL p2 x2] (nxt_of rs (cnx c)) ix = (Inr (), ix') \<and> same ix ix'
    \<and> family ix' c p (ls @ [PL p1 x1, PL p2 x2] @ rs) k 0 S"
  using assms by (intro pair_regroup [OF pr]) (auto simp: pair_def)

text \<open>The siblings are written with new contents, then the parent, and nothing is propagated.\<close>

lemma leaf_pair_moved:
  assumes pr: "pair ix c p ls (PL p1 kv1) (PL p2 kv2) rs k 0 S"
    and w: "\<forall>kv \<in> set (x1 @ x2). key_ok (kind_of ix) (fst kv)"
    and n: "x1 \<noteq> []" "length x1 \<le> max_leaf_key_count (kind_of ix)"
      "x2 \<noteq> []" "length x2 \<le> max_leaf_key_count (kind_of ix)"
  shows "\<exists>ix1. (\<forall>g :: index_node \<Rightarrow> (bindex, 'a) sx. bindS (write_node (leaf_node p1 p2 x1)) (\<lambda>_.
        bindS (write_node (leaf_node p2 (nxt_of rs (cnx c)) x2)) (\<lambda>_.
        reading (new_internal p ks (roots (ls @ [PL p1 kv1, PL p2 kv2] @ rs))) g)) ix
      = g (new_internal p (seps (ls @ [PL p1 x1, PL p2 x2] @ rs)) (roots (ls @ [PL p1 x1, PL p2 x2] @ rs))) ix1)
    \<and> same ix ix1 \<and> family ix1 c p (ls @ [PL p1 x1, PL p2 x2] @ rs) k 0 S
    \<and> length (ls @ [PL p1 x1, PL p2 x2] @ rs) \<le> Suc (max_internal_key_count (kind_of ix1))"
proof -
  obtain ix1 where i1: "write_roots [PL p1 x1, PL p2 x2] (nxt_of rs (cnx c)) ix = (Inr (), ix1)" "same ix ix1"
    "family ix1 c p (ls @ [PL p1 x1, PL p2 x2] @ rs) k 0 S"
    using pair_cut_leaf [OF assms] by blast
  have len: "length (ls @ [PL p1 x1, PL p2 x2] @ rs) \<le> Suc (max_internal_key_count (kind_of ix1))"
    using pr same_kind [OF i1(2)] by (simp add: pair_def)
  have eq: "roots (ls @ [PL p1 kv1, PL p2 kv2] @ rs) = roots (ls @ [PL p1 x1, PL p2 x2] @ rs)" by simp
  have "bindS (write_node (leaf_node p1 p2 x1)) (\<lambda>_.
        bindS (write_node (leaf_node p2 (nxt_of rs (cnx c)) x2)) (\<lambda>_.
        reading (new_internal p ks (roots (ls @ [PL p1 kv1, PL p2 kv2] @ rs))) g)) ix
      = g (new_internal p (seps (ls @ [PL p1 x1, PL p2 x2] @ rs)) (roots (ls @ [PL p1 x1, PL p2 x2] @ rs))) ix1"
    for g :: "index_node \<Rightarrow> (bindex, 'a) sx"
    unfolding eq write_two [of "PL p1 x1" "PL p2 x2", simplified]
      bindS_Inr [where m = "write_roots _ _", OF i1(1)] family_reading [OF i1(3)] ..
  with i1(2,3) len show ?thesis by blast
qed

lemma leaf_pair_propagated:
  assumes pr: "pair ix c p ls (PL p1 kv1) (PL p2 kv2) rs k 0 S"
    and w: "\<forall>kv \<in> set (x1 @ x2). key_ok (kind_of ix) (fst kv)"
    and n: "x1 \<noteq> []" "length x1 \<le> max_leaf_key_count (kind_of ix)"
      "x2 \<noteq> []" "length x2 \<le> max_leaf_key_count (kind_of ix)"
  shows "yields ix 0 (cl c @ conts ls @ (x1 @ x2) @ conts rs @ cr c)
    (borrow_entry (leaf_node p1 p2 x1) (leaf_node p2 (nxt_of rs (cnx c)) x2)
       (new_internal p ks (roots (ls @ [PL p1 kv1, PL p2 kv2] @ rs))) (p # cpath c) ix)"
proof -
  obtain ix1 where i1: "\<And>g :: index_node \<Rightarrow> (bindex, unit) sx. bindS (write_node (leaf_node p1 p2 x1)) (\<lambda>_.
        bindS (write_node (leaf_node p2 (nxt_of rs (cnx c)) x2)) (\<lambda>_.
        reading (new_internal p ks (roots (ls @ [PL p1 kv1, PL p2 kv2] @ rs))) g)) ix
      = g (new_internal p (seps (ls @ [PL p1 x1, PL p2 x2] @ rs)) (roots (ls @ [PL p1 x1, PL p2 x2] @ rs))) ix1"
    "same ix ix1" "family ix1 c p (ls @ [PL p1 x1, PL p2 x2] @ rs) k 0 S"
    "length (ls @ [PL p1 x1, PL p2 x2] @ rs) \<le> Suc (max_internal_key_count (kind_of ix1))"
    using leaf_pair_moved [OF assms] by blast
  have two: "2 \<le> length (ls @ [PL p1 x1, PL p2 x2] @ rs)" by simp
  show ?thesis unfolding borrow_entry_def i1(1)
    using yields_reach [OF same_reach [OF i1(2)] family_propagated [OF i1(3) two i1(4)], of 0 0] by simp
qed

lemma redistribute_leaf_ok:
  assumes pr: "pair ix c p ls (PL p1 kv1) (PL p2 kv2) rs k 0 S"
    and w: "\<forall>kv \<in> set (kv1 @ kv2). key_ok (kind_of ix) (fst kv)" and s: "ksorted (kv1 @ kv2)"
    and n: "2 \<le> length (kv1 @ kv2)" "length (kv1 @ kv2) \<le> 2 * max_leaf_key_count (kind_of ix)"
  shows "yields ix 0 (cl c @ conts ls @ (kv1 @ kv2) @ conts rs @ cr c)
    (redistribute_leaf_pair (leaf_node p1 n1 kv1) (leaf_node p2 (nxt_of rs (cnx c)) kv2)
       (new_internal p ks (roots (ls @ [PL p1 kv1, PL p2 kv2] @ rs))) (p # cpath c) ix)"
proof -
  define i where "i = (length (kv1 @ kv2) + 1) div 2"
  define x1 where "x1 = take i (kv1 @ kv2)"
  define x2 where "x2 = drop i (kv1 @ kv2)"
  let ?m = "max_leaf_key_count (kind_of ix)"
  have x: "kv1 @ kv2 = x1 @ x2" unfolding x1_def x2_def by (rule append_take_drop_id [symmetric])
  have l: "0 < length x1" "length x1 \<le> ?m" "0 < length x2" "length x2 \<le> ?m"
    using n by (auto simp: x1_def x2_def i_def)
  have l': "length x1 < 1000" "length x2 < 1000" using l(2,4) max_le(1) [of "kind_of ix"] by auto
  have k: "\<forall>kv \<in> set (x1 @ x2). key_ok (kind_of ix) (fst kv)" using w unfolding x .
  have fits: "fits_both (leaf_node p1 n1 x1) (leaf_node p2 (nxt_of rs (cnx c)) x2) ix = (Inr True, ix)"
    using fits_both_leaf [OF k l'] l by simp
  have "redistribute_leaf_pair (leaf_node p1 n1 kv1) (leaf_node p2 (nxt_of rs (cnx c)) kv2)
       (new_internal p ks (roots (ls @ [PL p1 kv1, PL p2 kv2] @ rs))) (p # cpath c) ix
    = borrow_entry (leaf_node p1 p2 x1) (leaf_node p2 (nxt_of rs (cnx c)) x2)
       (new_internal p ks (roots (ls @ [PL p1 kv1, PL p2 kv2] @ rs))) (p # cpath c) ix"
    unfolding redistribute_leaf_pair_def items_of_leaves [OF s] i_def [symmetric] Let_def
      x1_def [symmetric] x2_def [symmetric]
    by (simp add: bindS_Inr [where m = "fits_both _ _", OF fits] borrow_entry_def)
  moreover have "yields ix 0 (cl c @ conts ls @ (x1 @ x2) @ conts rs @ cr c)
    (borrow_entry (leaf_node p1 p2 x1) (leaf_node p2 (nxt_of rs (cnx c)) x2)
       (new_internal p ks (roots (ls @ [PL p1 kv1, PL p2 kv2] @ rs))) (p # cpath c) ix)"
    using l by (intro leaf_pair_propagated [OF pr k]) auto
  ultimately show ?thesis unfolding x by simp
qed

subsection \<open>Finding the sibling\<close>

lemma family_mink:
  assumes "family ix c p ts k h S" and "ts \<noteq> []" shows "mink (PN p ts) = mink (hd ts)"
proof -
  obtain t us where "ts = t # us" using assms(2) by (cases ts) auto
  then show ?thesis using assms(1) mink_PN [of "kind_of ix" h t] by (simp add: family_def)
qed

text \<open>A node \<open>PN p ts\<close> in memory and its right or left sibling form a pair.\<close>

lemma sibling_right:
  assumes f: "family ix ((pp, ls, b # rs) # c) p ts k h S" and ne: "ts \<noteq> []"
  shows "\<exists>q us S'. b = PN q us \<and> 2 \<le> length us \<and> length us \<le> Suc (max_internal_key_count (kind_of ix))
    \<and> (\<forall>t \<in> set (ts @ us). wft (kind_of ix) h t)
    \<and> nodes ix q = Some (new_internal q (seps us) (roots us))
    \<and> pair ix c pp ls (PN p ts) (PN q us) rs (lmk ls k) (Suc h) S'"
proof -
  have e: "env ix ((pp, ls, b # rs) # c) (root_of (PN p ts)) (fl (PN p ts)) k (Suc h) S"
    using f by (simp add: family_def fl_PN_nxt)
  note pop = env_pop [OF e]
  have "wft (kind_of ix) (Suc h) b" using pop(6) by simp
  then obtain q us where b: "b = PN q us" "2 \<le> length us" "length us \<le> Suc (max_internal_key_count (kind_of ix))"
    "\<forall>t \<in> set us. wft (kind_of ix) h t"
    by (cases b) (auto simp: wft_children)
  have "kids_stored (nodes ix) (PN p ts) (fl b)" "distinct (pids (PN p ts))" "set (pids (PN p ts)) \<subseteq> S"
    using f by (simp_all add: family_def)
  from pair_right [OF e this] b pop(4) f show ?thesis by (auto simp: family_def)
qed

lemma sibling_left:
  assumes f: "family ix ((pp, ls @ [a], rs) # c) p ts k h S" and ne: "ts \<noteq> []"
  shows "\<exists>q us S'. a = PN q us \<and> 2 \<le> length us \<and> length us \<le> Suc (max_internal_key_count (kind_of ix))
    \<and> (\<forall>t \<in> set (us @ ts). wft (kind_of ix) h t)
    \<and> nodes ix q = Some (new_internal q (seps us) (roots us))
    \<and> pair ix c pp ls (PN q us) (PN p ts) rs (lmk ls (mink (PN q us))) (Suc h) S'"
proof -
  have e: "env ix ((pp, ls @ [a], rs) # c) (root_of (PN p ts)) (fl (PN p ts)) k (Suc h) S"
    using f by (simp add: family_def fl_PN_nxt)
  note pop = env_pop [OF e]
  have "wft (kind_of ix) (Suc h) a" using pop(5) by simp
  then obtain q us where b: "a = PN q us" "2 \<le> length us" "length us \<le> Suc (max_internal_key_count (kind_of ix))"
    "\<forall>t \<in> set us. wft (kind_of ix) h t"
    by (cases a) (auto simp: wft_children)
  have "kids_stored (nodes ix) (PN p ts) (nxt_of rs (cnx c))" "distinct (pids (PN p ts))" "set (pids (PN p ts)) \<subseteq> S"
    using f by (simp_all add: family_def)
  from pair_left [OF e this] b pop(3) f show ?thesis by (auto simp: family_def)
qed

text \<open>A leaf in memory and its right or left sibling.\<close>

lemma leaf_right:
  assumes e: "env ix ((pp, ls, b # rs) # c) p p k 0 {p}"
  shows "\<exists>q kv2 S'. b = PL q kv2 \<and> kv2 \<noteq> [] \<and> length kv2 \<le> max_leaf_key_count (kind_of ix)
    \<and> (\<forall>kv \<in> set kv2. key_ok (kind_of ix) (fst kv))
    \<and> nodes ix q = Some (leaf_node q (nxt_of rs (cnx c)) kv2)
    \<and> pair ix c pp ls (PL p kvs) (PL q kv2) rs (lmk ls k) 0 S'"
proof -
  have e': "env ix ((pp, ls, b # rs) # c) (root_of (PL p kvs)) (fl (PL p kvs)) k 0 {p}" using e by simp
  note pop = env_pop [OF e]
  have "wft (kind_of ix) 0 b" using pop(6) by simp
  then obtain q kv2 where b: "b = PL q kv2" "kv2 \<noteq> []" "length kv2 \<le> max_leaf_key_count (kind_of ix)"
    "\<forall>kv \<in> set kv2. key_ok (kind_of ix) (fst kv)"
    by (cases b) (auto simp: wft_leaf)
  have "kids_stored (nodes ix) (PL p kvs) (fl b)" "distinct (pids (PL p kvs))" "set (pids (PL p kvs)) \<subseteq> {p}"
    by simp_all
  from pair_right [OF e' this] b pop(4) show ?thesis by auto
qed

lemma leaf_left:
  assumes e: "env ix ((pp, ls @ [b], rs) # c) p p k 0 {p}"
  shows "\<exists>q kv1 S'. b = PL q kv1 \<and> kv1 \<noteq> [] \<and> length kv1 \<le> max_leaf_key_count (kind_of ix)
    \<and> (\<forall>kv \<in> set kv1. key_ok (kind_of ix) (fst kv))
    \<and> nodes ix q = Some (leaf_node q p kv1)
    \<and> pair ix c pp ls (PL q kv1) (PL p kvs) rs (lmk ls (fst (hd kv1))) 0 S'"
proof -
  have e': "env ix ((pp, ls @ [b], rs) # c) (root_of (PL p kvs)) (fl (PL p kvs)) k 0 {p}" using e by simp
  note pop = env_pop [OF e]
  have "wft (kind_of ix) 0 b" using pop(5) by simp
  then obtain q kv1 where b: "b = PL q kv1" "kv1 \<noteq> []" "length kv1 \<le> max_leaf_key_count (kind_of ix)"
    "\<forall>kv \<in> set kv1. key_ok (kind_of ix) (fst kv)"
    by (cases b) (auto simp: wft_leaf)
  have "kids_stored (nodes ix) (PL p kvs) (nxt_of rs (cnx c))" "distinct (pids (PL p kvs))" "set (pids (PL p kvs)) \<subseteq> {p}"
    by simp_all
  from pair_left [OF e' this] b pop(3) show ?thesis by (auto simp: mink_def)
qed

end
