(* ===== verification/BStar_Insert.thy ===== *)
theory BStar_Insert
  imports BStar_Pairs
begin

section \<open>Insertion keeps the tree and adds the entry\<close>

text \<open>
  \<open>insert\<close> on a whole tree: the entry is added to its leaf; a leaf that no longer fits gives an
  entry to a sibling or is split with a full sibling into three, and its parent is treated the
  same way, up to a new root. The induction is over the context of the node that overflows:
  \<open>splittable c\<close> says that \<open>split_internal\<close> succeeds for a node with one child too many below \<open>c\<close>.
\<close>

subsection \<open>A new root\<close>

lemma kids_storeds_frame:
  "\<forall>q \<in> set (pidl ts). N' q = N q \<Longrightarrow> kids_storeds N' ts nx = kids_storeds N ts nx"
proof (induction ts)
  case (Cons t ts)
  then have "\<forall>q \<in> set (kids t). N' q = N q" by (simp add: pids_kids)
  from kids_stored_frame [OF this] Cons show ?case by simp
qed simp

lemma new_root_ok:
  assumes e: "env ix [] (root_of a) (fl a) k h S"
    and m: "kids_storeds (nodes ix) [a, b] INVALID_PAGE_ID"
    and w: "wft (kind_of ix) h a" "wft (kind_of ix) h b"
    and d: "distinct (pidl [a, b])" "set (pidl [a, b]) \<subseteq> S" and room: "pcount ix < PAGE_LIMIT"
  shows "yields ix 1 (cont a @ cont b)
    (insert_into_parent (rnode a (fl b)) (mink b) (rnode b INVALID_PAGE_ID) [root_of a] ix)"
proof -
  obtain q ix1 where i1: "on_disk allocate_page ix = (Inr q, ix1)" "bx_meta ix1 = bx_meta ix"
    "disk_ok (bx_disk ix1)" "unat q = pcount ix" "pcount ix1 = Suc (pcount ix)"
    "\<forall>p. unat p < pcount ix \<longrightarrow> nodes ix1 p = nodes ix p"
    using allocate_ok [OF env_disk [OF e] room] by blast
  have k1: "kind_of ix1 = kind_of ix" using i1(2) by (simp add: kind_of_def)
  have cnt: "\<forall>p \<in> set (pidl [a, b]). unat p < pcount ix" using d(2) env_count [OF e] by blast
  have q: "q \<notin> set (pidl [a, b])"
  proof
    assume "q \<in> set (pidl [a, b])"
    then have "unat q < pcount ix" using cnt by blast
    with i1(4) show False by simp
  qed
  have "\<forall>p \<in> set (pidl [a, b]). nodes ix1 p = nodes ix p" using cnt i1(6) by blast
  from kids_storeds_frame [OF this] m have m1: "kids_storeds (nodes ix1) [a, b] INVALID_PAGE_ID" by blast
  have w1: "\<forall>t \<in> set [a, b]. wft (kind_of ix1) h t" using w k1 by simp
  have r1: "\<forall>p \<in> set (roots [a, b]). unat p < pcount ix1"
    using cnt i1(5) by (auto simp: less_Suc_eq)
  obtain ix2 where i2: "write_roots [a, b] INVALID_PAGE_ID ix1 = (Inr (), ix2)" "same ix1 ix2"
    "nodes ix2 = put (nodes ix1) [a, b] INVALID_PAGE_ID"
    using write_roots_ok [OF i1(3) w1 r1] by blast
  have st2: "storeds (nodes ix2) [a, b] INVALID_PAGE_ID" using storeds_put [OF m1 d(1)] i2(3) by simp
  let ?n = "new_internal q [mink b] [root_of a, root_of b]"
  have k2: "kind_of ix2 = kind_of ix" using same_kind [OF i2(2)] k1 by simp
  have "node_ok (kind_of ix2) ?n"
    using mink_ok [OF w(2)] k2 max_ge(2) [of "kind_of ix2"] by (simp add: node_ok_def shape_ok_def capacity_def)
  then obtain ix3 where i3: "write_node ?n ix2 = (Inr (), ix3)" "same ix2 ix3" "nodes ix3 = (nodes ix2)(q \<mapsto> ?n)"
    using write_node_ok [of ix2 ?n] i2(2) i1(4,5) by (auto simp: same_def)
  let ?ix = "ix3\<lparr>bx_meta := (bx_meta ix3)\<lparr>root_page_id := q, tree_height := tree_height (bx_meta ix3) + 1\<rparr>\<rparr>"
  have run: "insert_into_parent (rnode a (fl b)) (mink b) (rnode b INVALID_PAGE_ID) [root_of a] ix = (Inr (), ?ix)"
    using i1(1) i3(1) by (simp add: insert_into_parent.simps bindS_Inr write_two
      bindS_Inr [where m = "write_roots _ _", OF i2(1)] set_meta_def)
  have meta3: "bx_meta ix3 = bx_meta ix" "pcount ix3 = Suc (pcount ix)" "disk_ok (bx_disk ix3)"
    using i2(2) i3(2) i1(2,5) by (simp_all add: same_def)
  have "storeds (nodes ix3) [a, b] INVALID_PAGE_ID"
    using st2 i3(3) q stored_frame(2) [of "[a, b]" "nodes ix3" "nodes ix2"] by auto
  then have "stored (nodes ?ix) (PN q [a, b]) INVALID_PAGE_ID"
    using i3(3) by (simp add: nodes_def kind_of_def)
  moreover have "wft (kind_of ?ix) (Suc h) (PN q [a, b])"
    using w meta3(1) max_ge(2) [of "kind_of ix"] by (simp add: kind_of_def)
  moreover have "unat (tree_height (bx_meta ix)) = Suc h" "h < 51" "first_leaf_page_id (bx_meta ix) = fl a"
    using e by (simp_all add: env_def)
  then have "unat (tree_height (bx_meta ix) + 1) = Suc (Suc h)" by (simp add: unat_word_ariths)
  moreover have "\<forall>p \<in> set (pids (PN q [a, b])). unat p < pcount ?ix"
    using cnt i1(4) meta3(2) by (auto simp: pcount_def less_Suc_eq)
  ultimately have "good ?ix (Suc h) (PN q [a, b])"
    using q d(1) meta3 \<open>first_leaf_page_id (bx_meta ix) = fl a\<close> by (simp add: good_def)
  moreover have "reach ix 1 ?ix" using meta3 by (simp add: reach_def kind_of_def pcount_def)
  ultimately have "yields ix 1 (cont a @ cont b) (Inr (), ?ix)" by (intro yieldsI) auto
  with run show ?thesis by simp
qed

subsection \<open>Three nodes out of two\<close>

definition splittable :: "frame list \<Rightarrow> bool" where
  "splittable c \<longleftrightarrow> (\<forall>ix p ts h S. family ix c p ts (mink (hd ts)) h S
      \<and> length ts = Suc (Suc (max_internal_key_count (kind_of ix)))
      \<and> pcount ix + length c + 2 \<le> PAGE_LIMIT
    \<longrightarrow> yields ix (length c + 2) (cl c @ conts ts @ cr c)
         (split_internal (new_internal p (seps ts) (roots ts)) (p # cpath c) ix))"

lemma family_finish:
  assumes sp: "splittable c" and f: "family ix c p ts (mink (hd ts)) h S"
    and n: "2 \<le> length ts" "length ts \<le> Suc (Suc (max_internal_key_count (kind_of ix)))"
    and room: "pcount ix + length c + 2 \<le> PAGE_LIMIT"
  shows "yields ix (length c + 2) (cl c @ conts ts @ cr c)
    (reading (new_internal p ks (roots ts)) (\<lambda>q. bindS (askE (node_fits_page q))
       (\<lambda>fits. if fits then write_node q else split_internal q (p # cpath c))) ix)"
proof -
  let ?q = "new_internal p (seps ts) (roots ts)" and ?m = "max_internal_key_count (kind_of ix)"
  have ne: "ts \<noteq> []" "length ts < 1000" using n max_le(2) [of "kind_of ix"] by auto
  have run: "reading (new_internal p ks (roots ts)) (\<lambda>q. bindS (askE (node_fits_page q))
       (\<lambda>fits. if fits then write_node q else split_internal q (p # cpath c))) ix
    = (if length ts \<le> Suc ?m then write_node ?q ix else split_internal ?q (p # cpath c) ix)"
    by (simp add: family_reading [OF f] bindS_askE [where h = "node_fits_page _", OF family_fits [OF f ne]])
  show ?thesis
  proof (cases "length ts \<le> Suc ?m")
    case True
    from family_done [OF f n(1) True] have "yields ix 0 (cl c @ conts ts @ cr c) (write_node ?q ix)" .
    then have "yields ix (length c + 2) (cl c @ conts ts @ cr c) (write_node ?q ix)"
      by (rule yields_reach [of ix 0, rotated]) (simp_all add: reach_def)
    with True show ?thesis unfolding run by simp
  next
    case False
    then have "length ts = Suc (Suc ?m)" using n(2) by simp
    with sp f room have "yields ix (length c + 2) (cl c @ conts ts @ cr c) (split_internal ?q (p # cpath c) ix)"
      unfolding splittable_def by blast
    with False show ?thesis unfolding run by simp
  qed
qed

lemma insert_child:
  "insert_at (length ls + 1) m (roots ls @ q # zs) = roots ls @ q # m # zs"
  using insert_at_append [of "roots ls @ [q]" m zs] by simp

lemma pair_members:
  assumes "pair ix c p ls a b rs k h S"
  shows "distinct (pidl [a, b] @ p # pidl ls @ pidl rs)" and "set (pidl [a, b] @ p # pidl ls @ pidl rs) \<subseteq> S"
proof -
  have d: "distinct (p # pidl (ls @ [a, b] @ rs))" "set (p # pidl (ls @ [a, b] @ rs)) \<subseteq> S"
    using assms unfolding pair_def by blast+
  have "mset (p # pidl (ls @ [a, b] @ rs)) = mset (pidl [a, b] @ p # pidl ls @ pidl rs)" by simp
  from mset_eq_imp_distinct_iff [OF this] d(1)
  show "distinct (pidl [a, b] @ p # pidl ls @ pidl rs)" by blast
  show "set (pidl [a, b] @ p # pidl ls @ pidl rs) \<subseteq> S" using d(2) by auto
qed

text \<open>The general form: three new children, one of them on a page allocated for it.\<close>

lemma pair_three:
  assumes pr: "pair ix c p ls a b rs k h S" and m: "q \<in> S" "q \<notin> set (pidl [a, b] @ p # pidl ls @ pidl rs)"
    and st: "kids_storeds (nodes ix) [t1, t2, t3] (nxt_of rs (cnx c))"
    and w: "\<forall>u \<in> set [t1, t2, t3]. wft (kind_of ix) h u" and f: "fl t1 = fl a"
    and ms: "mset (pidl [t1, t2, t3]) = mset (pidl [a, b]) + {#q#}"
  shows "\<exists>ix'. write_roots [t1, t2, t3] (nxt_of rs (cnx c)) ix = (Inr (), ix') \<and> same ix ix'
    \<and> family ix' c p (ls @ [t1, t2, t3] @ rs) k h S"
proof (rule pair_regroup [OF pr st w f])
  note pm = pair_members [OF pr]
  have ms': "mset (pidl [t1, t2, t3]) = mset (q # pidl [a, b])" using ms by simp
  have "distinct (pidl [a, b])" using pm(1) unfolding distinct_append by blast
  then have "distinct (q # pidl [a, b])" using m(2) by simp
  then show "distinct (pidl [t1, t2, t3])" using mset_eq_imp_distinct_iff [OF ms'] by blast
  have s: "set (pidl [t1, t2, t3]) = insert q (set (pidl [a, b]))"
    using ms' by (metis set_mset_mset list.simps(15))
  show "set (pidl [t1, t2, t3]) \<subseteq> S" unfolding s using pm(2) m(1) by auto
  have "set (pidl [a, b]) \<inter> set (p # pidl ls @ pidl rs) = {}" using pm(1) unfolding distinct_append by blast
  then show "set (pidl [t1, t2, t3]) \<inter> set (p # pidl ls @ pidl rs) = {}"
    unfolding s using m(2) by auto
qed

subsection \<open>Splitting internal nodes\<close>

lemma mink_PN_cut:
  assumes "as @ bs = c1 @ c2" and "as \<noteq> []" "c1 \<noteq> []" and "\<forall>t \<in> set (as @ bs). wft kk h t"
  shows "mink (PN p c1) = mink (PN p as)"
proof -
  obtain t as' where a: "as = t # as'" using assms(2) by (cases as) auto
  obtain u c1' where c: "c1 = u # c1'" using assms(3) by (cases c1) auto
  have "u = t" "wft kk h t" using assms(1,4) unfolding a c by simp_all
  with a c show ?thesis by (simp add: mink_PN)
qed

lemma thirds: "(n + 2) div 3 + (n + 1) div 3 + n div 3 = (n :: nat)"
proof -
  define k where "k = n div 3"
  have "n = 3 * k + n mod 3" by (simp add: k_def)
  moreover have "n mod 3 = 0 \<or> n mod 3 = 1 \<or> n mod 3 = 2" by linarith
  ultimately have "n = 3 * k \<or> n = 3 * k + 1 \<or> n = 3 * k + 2" by linarith
  moreover have d: "(3 * k + r) div 3 = k + r div 3" for r by simp
  ultimately show ?thesis by (elim disjE) (simp_all only: d add.assoc, simp_all)
qed

lemma three_cut:
  fixes xs :: "'a list"
  defines "c1 \<equiv> take ((length xs + 2) div 3) xs"
    and "c2 \<equiv> take ((length xs + 1) div 3) (drop ((length xs + 2) div 3) xs)"
    and "c3 \<equiv> drop ((length xs + 2) div 3 + (length xs + 1) div 3) xs"
  shows "xs = c1 @ c2 @ c3" and "length c1 = (length xs + 2) div 3"
    and "length c2 = (length xs + 1) div 3" and "length c3 = length xs div 3"
proof -
  show "xs = c1 @ c2 @ c3"
    unfolding c1_def c2_def c3_def by (metis append_take_drop_id drop_drop add.commute)
  show "length c1 = (length xs + 2) div 3" "length c2 = (length xs + 1) div 3" "length c3 = length xs div 3"
    using thirds [of "length xs"] unfolding c1_def c2_def c3_def by simp_all
qed

lemma split_internal_pair_ok:
  assumes sp: "splittable c"
    and pr: "pair ix c p ls (PN p1 as) (PN p2 bs) rs (lmk ls (mink (PN p1 as))) (Suc h) S"
    and ne: "as \<noteq> []" "bs \<noteq> []" and w: "\<forall>t \<in> set (as @ bs). wft (kind_of ix) h t"
    and n: "length (as @ bs) = 2 * max_internal_key_count (kind_of ix) + 3"
    and room: "pcount ix + length c + 3 \<le> PAGE_LIMIT"
  shows "yields ix (length c + 3) (cl c @ conts ls @ conts (as @ bs) @ conts rs @ cr c)
    (split_internal_pair (new_internal p1 k1 (roots as)) (new_internal p2 k2 (roots bs))
       (new_internal p ks (roots (ls @ [PN p1 as, PN p2 bs] @ rs))) (length ls) (p # cpath c) ix)"
proof -
  let ?m = "max_internal_key_count (kind_of ix)" and ?n = "length (as @ bs)"
  define c1 where "c1 = take ((?n + 2) div 3) (as @ bs)"
  define c2 where "c2 = take ((?n + 1) div 3) (drop ((?n + 2) div 3) (as @ bs))"
  define c3 where "c3 = drop ((?n + 2) div 3 + (?n + 1) div 3) (as @ bs)"
  note cut = three_cut [of "as @ bs", folded c1_def c2_def c3_def]
  have cs: "as @ bs = c1 @ c2 @ c3" by (rule cut(1))
  have "length c1 = (?n + 2) div 3" "length c2 = (?n + 1) div 3" "length c3 = ?n div 3" by (rule cut)+
  then have len: "2 \<le> length c1" "length c1 \<le> Suc ?m" "2 \<le> length c2" "length c2 \<le> Suc ?m"
    "2 \<le> length c3" "length c3 \<le> Suc ?m"
    using n max_ge(2) [of "kind_of ix"] by simp_all
  then have nec: "c1 \<noteq> []" "c2 \<noteq> []" "c3 \<noteq> []" by auto
  have small: "length (c1 @ c2) < 1000" "length c3 < 1000"
    using len max_le(2) [of "kind_of ix"] by auto
  obtain q ix1 where i1: "on_disk allocate_page ix = (Inr q, ix1)" "reach ix 1 ix1"
    "pair ix1 c p ls (PN p1 as) (PN p2 bs) rs (lmk ls (mink (PN p1 as))) (Suc h) (insert q S)" "q \<notin> S"
    "pcount ix1 = Suc (pcount ix)"
    using pair_alloc [OF pr] room by (auto simp: less_eq_Suc_le)
  have kk: "kind_of ix1 = kind_of ix" using i1(2) by (simp add: reach_def)
  have w1: "\<forall>t \<in> set c1. wft (kind_of ix1) h t" "\<forall>t \<in> set c2. wft (kind_of ix1) h t"
    "\<forall>t \<in> set c3. wft (kind_of ix1) h t"
    using w unfolding cs kk by auto
  have sts: "storeds (nodes ix1) (c1 @ c2 @ c3) (nxt_of rs (cnx c))"
    using pair_children [OF i1(3) ne(2)] unfolding cs .
  then have st: "storeds (nodes ix1) c1 (nxt_of c2 (nxt_of c3 (nxt_of rs (cnx c))))"
    "storeds (nodes ix1) c2 (nxt_of c3 (nxt_of rs (cnx c)))" "storeds (nodes ix1) c3 (nxt_of rs (cnx c))"
    by simp_all
  have hb: "h \<le> pcount ix1" using pair_env [OF i1(3)] by (simp add: env_def)
  let ?A = "PN p1 c1" and ?B = "PN q c2" and ?C = "PN p2 c3"
  have pm: "set (pidl [PN p1 as, PN p2 bs] @ p # pidl ls @ pidl rs) \<subseteq> S" by (rule pair_members [OF pr])
  have q: "q \<notin> set (pidl [PN p1 as, PN p2 bs] @ p # pidl ls @ pidl rs)" using pm i1(4) by blast
  have kst: "kids_storeds (nodes ix1) [?A, ?B, ?C] (nxt_of rs (cnx c))"
    using st nxt_of_ne [OF nec(2)] nxt_of_ne [OF nec(3)] by (simp add: fl_PN_nxt) metis
  have wf: "\<forall>u \<in> set [?A, ?B, ?C]. wft (kind_of ix1) (Suc h) u" using w1 len unfolding kk by simp
  have "nxt_of (as @ bs) p1 = nxt_of as p1" "nxt_of (c1 @ c2 @ c3) p1 = nxt_of c1 p1"
    using ne nec by (cases as; cases c1; simp)+
  then have f: "fl ?A = fl (PN p1 as)" using cs by (simp add: fl_PN_nxt)
  have "pidl as @ pidl bs = pidl c1 @ pidl c2 @ pidl c3" using cs by (metis concat_append map_append)
  then have "mset (pidl as) + mset (pidl bs) = mset (pidl c1) + mset (pidl c2) + mset (pidl c3)"
    by (metis mset_append union_assoc)
  then have ms: "mset (pidl [?A, ?B, ?C]) = mset (pidl [PN p1 as, PN p2 bs]) + {#q#}"
    by (simp add: union_assoc)
  obtain ix2 where i2: "write_roots [?A, ?B, ?C] (nxt_of rs (cnx c)) ix1 = (Inr (), ix2)" "same ix1 ix2"
    "family ix2 c p (ls @ [?A, ?B, ?C] @ rs) (lmk ls (mink (PN p1 as))) (Suc h) (insert q S)"
    using pair_three [OF i1(3) _ q kst wf f ms] by blast
  have "mink (hd (ls @ [?A, ?B, ?C] @ rs)) = lmk ls (mink (PN p1 as))"
    using mink_PN_cut [OF cs ne(1) nec(1) w] by (cases ls) simp_all
  with i2(3) have fam: "family ix2 c p (ls @ [?A, ?B, ?C] @ rs) (mink (hd (ls @ [?A, ?B, ?C] @ rs))) (Suc h) (insert q S)"
    by simp
  have k2: "kind_of ix2 = kind_of ix" "pcount ix2 = Suc (pcount ix)"
    using same_kind [OF i2(2)] kk i2(2) i1(5) by (simp_all add: same_def)
  have fits: "fits_both (new_internal p1 (seps c1) (roots c1)) (new_internal q (seps c2) (roots c2)) ix1 = (Inr True, ix1)"
    using fits_both_internal [of c1 c2 ix1 h] w1 nec small(1) len unfolding kk by auto
  have fits3: "node_fits_page (new_internal p2 (seps c3) (roots c3)) ix1 = Inr True"
    using fits_internal [OF w1(3) nec(3) small(2)] len(6) unfolding kk by simp
  have fits_all: "bindS (fits_both (new_internal p1 (seps c1) (roots c1)) (new_internal q (seps c2) (roots c2)))
      (\<lambda>x. if x then askE (node_fits_page (new_internal p2 (seps c3) (roots c3))) else retS False) ix1 = (Inr True, ix1)"
    by (simp add: bindS_Inr [where m = "fits_both _ _", OF fits] fits3)
  let ?fin = "\<lambda>q. bindS (askE (node_fits_page q)) (\<lambda>fits. if fits then write_node q else split_internal q (p # cpath c))"
  have run: "split_internal_pair (new_internal p1 k1 (roots as)) (new_internal p2 k2 (roots bs))
       (new_internal p ks (roots (ls @ [PN p1 as, PN p2 bs] @ rs))) (length ls) (p # cpath c) ix
    = reading (new_internal p ks (roots (ls @ [?A, ?B, ?C] @ rs))) ?fin ix2"
  proof -
    have t: "roots as @ roots bs = roots c1 @ roots c2 @ roots c3" using cs by (metis map_append)
    have "length c1 + (length c2 + length c3) = ?n" unfolding cs by simp
    then have tw: "three_way_counts (length c1 + (length c2 + length c3)) = (length c1, length c2, length c3)"
      using cut(2-4) by (simp add: three_way_counts_eq)
    have "split_internal_pair (new_internal p1 k1 (roots as)) (new_internal p2 k2 (roots bs))
       (new_internal p ks (roots (ls @ [PN p1 as, PN p2 bs] @ rs))) (length ls) (p # cpath c) ix
      = bindS (write_roots [?A, ?B, ?C] (nxt_of rs (cnx c)))
          (\<lambda>_. reading (new_internal p ks (roots (ls @ [?A, ?B, ?C] @ rs))) ?fin) ix1"
      unfolding split_internal_pair.simps
      by (simp add: bindS_Inr [where m = "on_disk _", OF i1(1)] t tw
          reading_stored [OF st(1) w1(1) hb] reading_stored [OF st(2) w1(2) hb] reading_stored [OF st(3) w1(3) hb]
          bindS_Inr [where m = "bindS (fits_both _ _) _", OF fits_all]
          write_three [of ?A ?B ?C "nxt_of rs (cnx c)", simplified]
          insert_child [of ls q p1 "p2 # roots rs", simplified])
    also have "\<dots> = reading (new_internal p ks (roots (ls @ [?A, ?B, ?C] @ rs))) ?fin ix2"
      using i2(1) by (rule bindS_Inr)
    finally show ?thesis .
  qed
  have r: "reach ix 1 ix2" by (rule reach_trans [OF i1(2) same_reach [OF i2(2), of 0]]) simp
  have "yields ix2 (length c + 2) (cl c @ conts (ls @ [?A, ?B, ?C] @ rs) @ cr c)
    (reading (new_internal p ks (roots (ls @ [?A, ?B, ?C] @ rs))) ?fin ix2)"
    using pr k2 room by (intro family_finish [OF sp fam]) (simp_all add: pair_def)
  then have "yields ix (length c + 3) (cl c @ conts (ls @ [?A, ?B, ?C] @ rs) @ cr c)
    (reading (new_internal p ks (roots (ls @ [?A, ?B, ?C] @ rs))) ?fin ix2)"
    by (rule yields_reach [OF r]) simp
  moreover have "cl c @ conts (ls @ [?A, ?B, ?C] @ rs) @ cr c
      = cl c @ conts ls @ conts (as @ bs) @ conts rs @ cr c" unfolding cs by simp
  ultimately show ?thesis unfolding run by metis
qed

text \<open>Whether the children of two internal nodes fit into the two nodes when halved.\<close>

lemma halves_fit:
  assumes pr: "pair ix c p ls (PN p1 as) (PN p2 bs) rs k (Suc h) S" and ne: "as \<noteq> []" "bs \<noteq> []"
    and w: "\<forall>t \<in> set (as @ bs). wft (kind_of ix) h t" and n: "length (as @ bs) < 1000"
  shows "(case halve_children (new_internal p1 k1 (roots as)) (new_internal p2 k2 (roots bs)) of
      (left1, right1) \<Rightarrow> reading left1 (\<lambda>l. reading right1 (\<lambda>r. bindS (fits_both l r) g))) ix
    = g (length (as @ bs) \<le> 2 * Suc (max_internal_key_count (kind_of ix))) ix"
proof -
  define i where "i = (length (as @ bs) + 1) div 2"
  define c1 where "c1 = take i (as @ bs)"
  define c2 where "c2 = drop i (as @ bs)"
  let ?m = "max_internal_key_count (kind_of ix)"
  have cs: "as @ bs = c1 @ c2" unfolding c1_def c2_def by (rule append_take_drop_id [symmetric])
  have two: "2 \<le> length (as @ bs)" using ne by (cases as; cases bs) auto
  then have l: "length c1 = i" "length c2 = length (as @ bs) - i" "0 < length c1" "0 < length c2"
    by (auto simp: c1_def c2_def i_def)
  then have nec: "c1 \<noteq> []" "c2 \<noteq> []" by auto
  have w': "\<forall>t \<in> set (c1 @ c2). wft (kind_of ix) h t" "\<forall>t \<in> set c1. wft (kind_of ix) h t"
    "\<forall>t \<in> set c2. wft (kind_of ix) h t" using w unfolding cs by auto
  have st: "storeds (nodes ix) c1 (nxt_of c2 (nxt_of rs (cnx c)))" "storeds (nodes ix) c2 (nxt_of rs (cnx c))"
    using pair_children [OF pr ne(2)] unfolding cs by simp_all
  have hb: "h \<le> pcount ix" using pair_env [OF pr] by (simp add: env_def)
  have n': "length (c1 @ c2) < 1000" using n unfolding cs .
  have "length c1 \<le> Suc ?m \<and> length c2 \<le> Suc ?m \<longleftrightarrow> length (as @ bs) \<le> 2 * Suc ?m"
    unfolding l(1,2) i_def using two by auto
  then have "fits_both (new_internal p1 (seps c1) (roots c1)) (new_internal p2 (seps c2) (roots c2)) ix
      = (Inr (length (as @ bs) \<le> 2 * Suc ?m), ix)"
    using fits_both_internal [OF w'(1) nec n'] by simp
  then show ?thesis
    unfolding halve_children_internal i_def [symmetric] c1_def [symmetric] c2_def [symmetric] prod.case
    by (simp only: reading_stored [OF st(1) w'(2) hb] reading_stored [OF st(2) w'(3) hb]
        bindS_Inr [where m = "fits_both _ _"])
qed

lemma try_right_eq:
  assumes pr: "pair ix c p ls (PN p1 as) (PN p2 bs) rs k (Suc h) S" and ne: "as \<noteq> []" "bs \<noteq> []"
    and w: "\<forall>t \<in> set (as @ bs). wft (kind_of ix) h t" and n: "length (as @ bs) < 1000"
    and rd: "nodes ix p2 = Some (new_internal p2 k2 (roots bs))"
  shows "try_redistribute_internal_with_right (new_internal p1 k1 (roots as))
      (new_internal p ks (roots (ls @ [PN p1 as, PN p2 bs] @ rs))) (length ls) path ix
    = (if length (as @ bs) \<le> 2 * Suc (max_internal_key_count (kind_of ix))
       then bindS (redistribute_internal_pair (new_internal p1 k1 (roots as)) (new_internal p2 k2 (roots bs))
         (new_internal p ks (roots (ls @ [PN p1 as, PN p2 bs] @ rs))) path) (\<lambda>_. retS True) ix
       else (Inr False, ix))"
  unfolding try_redistribute_internal_with_right_def
  by (simp add: bindS_askE [where h = "read_node _", OF read_node_nodes [OF rd]] nth_append
      halves_fit [OF pr ne w n])

lemma try_left_eq:
  assumes pr: "pair ix c p ls (PN p1 as) (PN p2 bs) rs k (Suc h) S" and ne: "as \<noteq> []" "bs \<noteq> []"
    and w: "\<forall>t \<in> set (as @ bs). wft (kind_of ix) h t" and n: "length (as @ bs) < 1000"
    and rd: "nodes ix p1 = Some (new_internal p1 k1 (roots as))"
  shows "try_redistribute_internal_with_left (new_internal p2 k2 (roots bs))
      (new_internal p ks (roots (ls @ [PN p1 as, PN p2 bs] @ rs))) (Suc (length ls)) path ix
    = (if length (as @ bs) \<le> 2 * Suc (max_internal_key_count (kind_of ix))
       then bindS (redistribute_internal_pair (new_internal p1 k1 (roots as)) (new_internal p2 k2 (roots bs))
         (new_internal p ks (roots (ls @ [PN p1 as, PN p2 bs] @ rs))) path) (\<lambda>_. retS True) ix
       else (Inr False, ix))"
  unfolding try_redistribute_internal_with_left_def
  by (simp add: bindS_askE [where h = "read_node _", OF read_node_nodes [OF rd]] nth_append
      halves_fit [OF pr ne w n])

lemma yields_bind:
  "yields ix n kvs (m ix0) \<Longrightarrow> (\<And>x ix'. m ix0 = (Inr x, ix') \<Longrightarrow> \<exists>y. f x ix' = (Inr y, ix')) \<Longrightarrow>
   yields ix n kvs (bindS m f ix0)"
  by (fastforce simp: yields_def bindS_def)

lemma yields_more: "yields ix m kvs res \<Longrightarrow> m \<le> n \<Longrightarrow> yields ix n kvs res"
  unfolding yields_def reach_def by (metis add_le_mono1 add.commute le_trans)

definition full_right :: "key_kind \<Rightarrow> ptree list \<Rightarrow> bool" where
  "full_right kk rs \<longleftrightarrow> (\<forall>q us rs'. rs = PN q us # rs' \<longrightarrow> length us = Suc (max_internal_key_count kk))"

definition full_left :: "key_kind \<Rightarrow> ptree list \<Rightarrow> bool" where
  "full_left kk ls \<longleftrightarrow> (\<forall>q us ls'. ls = ls' @ [PN q us] \<longrightarrow> length us = Suc (max_internal_key_count kk))"

lemma tried:
  fixes red :: "(bindex, unit) sx"
  assumes t: "t ix = (if fit then bindS red (\<lambda>_. retS True) ix else (Inr False, ix))"
    and r: "fit \<Longrightarrow> yields ix 0 kvs (red ix)" and g: "\<not> fit \<Longrightarrow> yields ix m kvs (g ix)"
  shows "yields ix m kvs (bindS t (\<lambda>d. if d then retS () else g) ix)"
proof (cases fit)
  case True
  obtain ix' where ix': "red ix = (Inr (), ix')" using r [OF True] by (auto simp: yields_def)
  then have "t ix = (Inr True, ix')" using t True by (simp add: bindS_def)
  then have "bindS t (\<lambda>d. if d then retS () else g) ix = (Inr (), ix')" by (simp add: bindS_def)
  then show ?thesis using yields_more [OF r [OF True], of m] ix' by simp
next
  case False
  then have "t ix = (Inr False, ix)" using t by simp
  then show ?thesis using g [OF False] by (simp add: bindS_def)
qed

lemma right_stage:
  assumes f: "family ix ((pp, ls, rs) # c) p ts (mink (hd ts)) h S"
    and n: "length ts = Suc (Suc (max_internal_key_count (kind_of ix)))"
    and g: "full_right (kind_of ix) rs \<Longrightarrow> yields ix m (cl c @ conts ls @ conts ts @ conts rs @ cr c) (g ix)"
  shows "yields ix m (cl c @ conts ls @ conts ts @ conts rs @ cr c)
    (bindS (try_redistribute_internal_with_right (new_internal p (seps ts) (roots ts))
        (new_internal pp ks (roots ls @ p # roots rs)) (length ls) (pp # cpath c))
      (\<lambda>d. if d then retS () else g) ix)"
proof (cases rs)
  case Nil
  with g show ?thesis by (simp add: full_right_def try_redistribute_internal_with_right_def bindS_def)
next
  case (Cons b rs')
  have ne: "ts \<noteq> []" using n by auto
  obtain q us S' where b: "b = PN q us" "2 \<le> length us" "length us \<le> Suc (max_internal_key_count (kind_of ix))"
    "\<forall>t \<in> set (ts @ us). wft (kind_of ix) h t" "nodes ix q = Some (new_internal q (seps us) (roots us))"
    "pair ix c pp ls (PN p ts) (PN q us) rs' (lmk ls (mink (hd ts))) (Suc h) S'"
    using sibling_right [OF f [unfolded Cons] ne] by blast
  have us: "us \<noteq> []" "length (ts @ us) < 1000" using b(2,3) n max_le(2) [of "kind_of ix"] by auto
  have "yields ix 0 (cl c @ conts ls @ conts ts @ conts rs @ cr c)
    (redistribute_internal_pair (new_internal p (seps ts) (roots ts)) (new_internal q (seps us) (roots us))
       (new_internal pp ks (roots (ls @ [PN p ts, PN q us] @ rs'))) (pp # cpath c) ix)"
    if "length (ts @ us) \<le> 2 * Suc (max_internal_key_count (kind_of ix))"
    using redistribute_internal_ok [OF b(6) ne us(1) b(4) _ that] b(1,2) n Cons by simp
  moreover have "yields ix m (cl c @ conts ls @ conts ts @ conts rs @ cr c) (g ix)"
    if "\<not> length (ts @ us) \<le> 2 * Suc (max_internal_key_count (kind_of ix))"
    using that b(1,3) n Cons by (intro g) (simp add: full_right_def)
  ultimately show ?thesis
    using try_right_eq [OF b(6) ne us(1) b(4) us(2) b(5), of "seps ts" ks] Cons b(1)
    by (intro tried [where fit = "length (ts @ us) \<le> 2 * Suc (max_internal_key_count (kind_of ix))"
      and red = "redistribute_internal_pair (new_internal p (seps ts) (roots ts)) (new_internal q (seps us) (roots us))
        (new_internal pp ks (roots (ls @ [PN p ts, PN q us] @ rs'))) (pp # cpath c)"]) simp_all
qed

lemma left_stage:
  assumes f: "family ix ((pp, ls, rs) # c) p ts (mink (hd ts)) h S"
    and n: "length ts = Suc (Suc (max_internal_key_count (kind_of ix)))"
    and g: "full_left (kind_of ix) ls \<Longrightarrow> yields ix m (cl c @ conts ls @ conts ts @ conts rs @ cr c) (g ix)"
  shows "yields ix m (cl c @ conts ls @ conts ts @ conts rs @ cr c)
    (bindS (try_redistribute_internal_with_left (new_internal p (seps ts) (roots ts))
        (new_internal pp ks (roots ls @ p # roots rs)) (length ls) (pp # cpath c))
      (\<lambda>d. if d then retS () else g) ix)"
proof (cases ls rule: rev_cases)
  case Nil
  with g show ?thesis by (simp add: full_left_def try_redistribute_internal_with_left_def bindS_def)
next
  case (snoc ls' b)
  have ne: "ts \<noteq> []" using n by auto
  obtain q us S' where b: "b = PN q us" "2 \<le> length us" "length us \<le> Suc (max_internal_key_count (kind_of ix))"
    "\<forall>t \<in> set (us @ ts). wft (kind_of ix) h t" "nodes ix q = Some (new_internal q (seps us) (roots us))"
    "pair ix c pp ls' (PN q us) (PN p ts) rs (lmk ls' (mink (PN q us))) (Suc h) S'"
    using sibling_left [OF f [unfolded snoc] ne] by blast
  have us: "us \<noteq> []" "length (us @ ts) < 1000" using b(2,3) n max_le(2) [of "kind_of ix"] by auto
  have "yields ix 0 (cl c @ conts ls @ conts ts @ conts rs @ cr c)
    (redistribute_internal_pair (new_internal q (seps us) (roots us)) (new_internal p (seps ts) (roots ts))
       (new_internal pp ks (roots (ls' @ [PN q us, PN p ts] @ rs))) (pp # cpath c) ix)"
    if "length (us @ ts) \<le> 2 * Suc (max_internal_key_count (kind_of ix))"
    using redistribute_internal_ok [OF b(6) us(1) ne b(4) _ that] b(1,2) n snoc by simp
  moreover have "yields ix m (cl c @ conts ls @ conts ts @ conts rs @ cr c) (g ix)"
    if "\<not> length (us @ ts) \<le> 2 * Suc (max_internal_key_count (kind_of ix))"
    using that b(1,3) n snoc by (intro g) (simp add: full_left_def)
  ultimately show ?thesis
    using try_left_eq [OF b(6) us(1) ne b(4) us(2) b(5), of "seps ts" ks] snoc b(1)
    by (intro tried [where fit = "length (us @ ts) \<le> 2 * Suc (max_internal_key_count (kind_of ix))"
      and red = "redistribute_internal_pair (new_internal q (seps us) (roots us)) (new_internal p (seps ts) (roots ts))
        (new_internal pp ks (roots (ls' @ [PN q us, PN p ts] @ rs))) (pp # cpath c)"]) simp_all
qed

lemma family_alloc:
  assumes "family ix c p ts k h S" and "pcount ix < PAGE_LIMIT"
  shows "\<exists>m ix'. on_disk allocate_page ix = (Inr m, ix') \<and> reach ix 1 ix'
    \<and> family ix' c p ts k h (insert m S) \<and> m \<notin> S \<and> pcount ix' = Suc (pcount ix)"
proof -
  have e: "env ix c p (nxt_of ts p) k (Suc h) S" using assms(1) by (simp add: family_def)
  obtain m ix' where m: "on_disk allocate_page ix = (Inr m, ix')" "bx_meta ix' = bx_meta ix"
    "disk_ok (bx_disk ix')" "unat m = pcount ix" "pcount ix' = Suc (pcount ix)"
    "\<forall>q. unat q < pcount ix \<longrightarrow> nodes ix' q = nodes ix q"
    using allocate_ok [OF env_disk [OF e] assms(2)] by blast
  note ea = env_alloc [OF e m(2-6)]
  have kk: "kind_of ix' = kind_of ix" using m(2) by (simp add: kind_of_def)
  have "\<forall>q \<in> set (pidl ts). nodes ix' q = nodes ix q"
    using assms(1) env_count [OF e] m(6) by (auto simp: family_def)
  then have "storeds (nodes ix') ts (cnx c)" using assms(1) stored_frame(2) unfolding family_def by blast
  then have "family ix' c p ts k h (insert m S)" using assms(1) ea(1) kk unfolding family_def by auto
  then show ?thesis using m ea(2) kk by (auto simp: reach_def)
qed

text \<open>The root has no sibling: it is split in half below a new root.\<close>

lemma split_root:
  assumes f: "family ix [] p ts (mink (hd ts)) h S"
    and n: "length ts = Suc (Suc (max_internal_key_count (kind_of ix)))"
    and room: "pcount ix + 2 \<le> PAGE_LIMIT"
  shows "yields ix 2 (conts ts) (split_internal (new_internal p (seps ts) (roots ts)) [p] ix)"
proof -
  define i where "i = length ts div 2"
  define c1 where "c1 = take i ts"
  define c2 where "c2 = drop i ts"
  let ?m = "max_internal_key_count (kind_of ix)"
  have cs: "ts = c1 @ c2" unfolding c1_def c2_def by (rule append_take_drop_id [symmetric])
  have len: "2 \<le> length c1" "length c1 \<le> Suc ?m" "2 \<le> length c2" "length c2 \<le> Suc ?m"
    using n max_ge(2) [of "kind_of ix"] by (auto simp: c1_def c2_def i_def)
  then have nec: "c1 \<noteq> []" "c2 \<noteq> []" by auto
  obtain q ix1 where i1: "on_disk allocate_page ix = (Inr q, ix1)" "reach ix 1 ix1"
    "family ix1 [] p ts (mink (hd ts)) h (insert q S)" "q \<notin> S" "pcount ix1 = Suc (pcount ix)"
    using family_alloc [OF f] room by auto
  have kk: "kind_of ix1 = kind_of ix" using i1(2) by (simp add: reach_def)
  have fam: "env ix1 [] p (nxt_of ts p) (mink (hd ts)) (Suc h) (insert q S)"
    "storeds (nodes ix1) (c1 @ c2) INVALID_PAGE_ID" "\<forall>t \<in> set (c1 @ c2). wft (kind_of ix1) h t"
    "distinct (p # pidl (c1 @ c2))" "set (p # pidl (c1 @ c2)) \<subseteq> S"
    using i1(3) f cs unfolding family_def by simp_all
  have hb: "h \<le> pcount ix1" using fam(1) by (simp add: env_def)
  have w: "\<forall>t \<in> set c1. wft (kind_of ix1) h t" "\<forall>t \<in> set c2. wft (kind_of ix1) h t" using fam(3) by auto
  have st: "storeds (nodes ix1) c1 (nxt_of c2 INVALID_PAGE_ID)" "storeds (nodes ix1) c2 INVALID_PAGE_ID"
    using fam(2) by simp_all
  obtain t us where c2: "c2 = t # us" using nec(2) by (cases c2) auto
  have mk: "subtree_min_key (root_of t) ix1 = Inr (mink (PN q c2))"
    using subtree_min_key_stored [of ix1 t] st(2) w(2) hb mink_PN c2 by fastforce
  have "mink (hd ts) = mink (PN p c1)" using mink_PN [of "kind_of ix1" h "hd c1"] w(1) nec(1) cs by (cases c1) simp_all
  have e: "env ix1 [] (root_of (PN p c1)) (fl (PN p c1)) (mink (hd ts)) (Suc h) (insert q S)"
    using fam(1) nec(1) cs by (cases c1) simp_all
  have ks: "kids_storeds (nodes ix1) [PN p c1, PN q c2] INVALID_PAGE_ID"
    using st nxt_of_ne [OF nec(2)] by (simp add: fl_PN_nxt) metis
  have wf: "wft (kind_of ix1) (Suc h) (PN p c1)" "wft (kind_of ix1) (Suc h) (PN q c2)"
    using w len kk by simp_all
  have "q \<notin> set (p # pidl (c1 @ c2))" using fam(5) i1(4) by blast
  then have d: "distinct (pidl [PN p c1, PN q c2])" "set (pidl [PN p c1, PN q c2]) \<subseteq> insert q S"
    using fam(4,5) by auto
  have "yields ix1 1 (cont (PN p c1) @ cont (PN q c2))
    (insert_into_parent (rnode (PN p c1) (fl (PN q c2))) (mink (PN q c2)) (rnode (PN q c2) INVALID_PAGE_ID)
      [root_of (PN p c1)] ix1)"
    using room i1(5) by (intro new_root_ok [OF e ks wf d]) simp
  moreover have roots: "roots ts = roots c1 @ roots c2" using cs by (metis map_append)
  have half: "(length c1 + length c2) div 2 = length c1" "2 \<le> length c1 + length c2"
    using len(1) by (simp_all add: c1_def c2_def i_def)
  have two: "Suc 0 \<le> length c1 + length c2" using len(1) by simp
  have hd2: "hd (roots c2) = root_of t" using c2 by simp
  have "split_internal (new_internal p (seps ts) (roots ts)) [p] ix
    = insert_into_parent (new_internal p (seps c1) (roots c1)) (mink (PN q c2)) (new_internal q (seps c2) (roots c2)) [p] ix1"
    by (simp add: split_internal.simps Let_def bindS_Inr [where m = "on_disk _", OF i1(1)] roots half two hd2
        reading_stored [OF st(1) w(1) hb] reading_stored [OF st(2) w(2) hb] bindS_askE mk)
  ultimately have "yields ix1 1 (conts c1 @ conts c2) (split_internal (new_internal p (seps ts) (roots ts)) [p] ix)"
    by simp
  from yields_reach [OF i1(2) this, of 2] show ?thesis unfolding cs by simp
qed

lemma splittable_all: "splittable c"
proof (induction c)
  case Nil
  show ?case unfolding splittable_def
  proof (intro allI impI, elim conjE)
    fix ix p ts h S
    assume "family ix [] p ts (mink (hd ts)) h S"
      "length ts = Suc (Suc (max_internal_key_count (kind_of ix)))" "pcount ix + length ([] :: frame list) + 2 \<le> PAGE_LIMIT"
    from split_root [OF this(1,2)] this(3)
    show "yields ix (length ([] :: frame list) + 2) (cl [] @ conts ts @ cr [])
        (split_internal (new_internal p (seps ts) (roots ts)) (p # cpath []) ix)" by (simp add: numeral_2_eq_2)
  qed
next
  case (Cons fr c)
  obtain pp ls rs where fr: "fr = (pp, ls, rs)" by (cases fr)
  show ?case unfolding splittable_def
  proof (intro allI impI, elim conjE)
    fix ix p ts h S
    assume f0: "family ix (fr # c) p ts (mink (hd ts)) h S"
      and n: "length ts = Suc (Suc (max_internal_key_count (kind_of ix)))"
      and room: "pcount ix + length (fr # c) + 2 \<le> PAGE_LIMIT"
    note f = f0 [unfolded fr]
    have ne: "ts \<noteq> []" using n by auto
    let ?N = "new_internal p (seps ts) (roots ts)"
    let ?X = "cl c @ conts ls @ conts ts @ conts rs @ cr c" and ?n = "length c + 3"
    define ks where "ks = tl (map mink ls @ mink (hd ts) # map mink rs)"
    let ?P = "new_internal pp ks (roots ls @ p # roots rs)"
    have e: "env ix ((pp, ls, rs) # c) p (nxt_of ts p) (mink (hd ts)) (Suc h) S" using f by (simp add: family_def)
    note pop = env_pop [OF e]
    have rd: "read_node pp ix = Inr ?P" using read_node_nodes [OF pop(2)] by (simp add: ks_def)
    have "p \<in> S" using f by (simp add: family_def)
    then have "p \<notin> set (roots ls)" using pop(10) roots_in_pidl [of ls] by auto
    then have idx: "index_of p (roots ls @ p # roots rs) = Some (length ls)" by (metis index_of_middle length_map)
    define fall where "fall =
      (if length ls + 1 < length (children ?P) then
         bindS (askE (read_node (children ?P ! (length ls + 1)))) (\<lambda>right.
           split_internal_pair ?N right ?P (length ls) (pp # cpath c))
       else bindS (askE (read_node (children ?P ! (length ls - 1)))) (\<lambda>left.
           split_internal_pair left ?N ?P (length ls - 1) (pp # cpath c)))"
    have fall: "yields ix ?n ?X (fall ix)" if "full_right (kind_of ix) rs" "full_left (kind_of ix) ls"
    proof (cases rs)
      case (Cons b rs')
      obtain q us S' where b: "b = PN q us" "\<forall>t \<in> set (ts @ us). wft (kind_of ix) h t" "2 \<le> length us"
        "nodes ix q = Some (new_internal q (seps us) (roots us))"
        "pair ix c pp ls (PN p ts) (PN q us) rs' (lmk ls (mink (PN p ts))) (Suc h) S'"
        using sibling_right [OF f [unfolded Cons] ne] family_mink [OF f ne] by metis
      have "us \<noteq> []" "length (ts @ us) = 2 * max_internal_key_count (kind_of ix) + 3"
        using that(1) Cons b(1,3) n by (auto simp: full_right_def)
      from split_internal_pair_ok [OF Cons.IH b(5) ne this(1) b(2) this(2), of "seps ts" "seps us" ks]
      show ?thesis using room Cons b(1) read_node_nodes [OF b(4)]
        by (simp add: fall_def nth_append bindS_askE)
    next
      case Nil
      then obtain ls' b where ls: "ls = ls' @ [b]" using pop(7) by (cases ls rule: rev_cases) auto
      obtain q us S' where b: "b = PN q us" "\<forall>t \<in> set (us @ ts). wft (kind_of ix) h t" "2 \<le> length us"
        "nodes ix q = Some (new_internal q (seps us) (roots us))"
        "pair ix c pp ls' (PN q us) (PN p ts) rs (lmk ls' (mink (PN q us))) (Suc h) S'"
        using sibling_left [OF f [unfolded ls] ne] by blast
      have "us \<noteq> []" "length (us @ ts) = 2 * max_internal_key_count (kind_of ix) + 3"
        using that(2) ls b(1,3) n by (auto simp: full_left_def)
      from split_internal_pair_ok [OF Cons.IH b(5) this(1) ne b(2) this(2), of "seps us" "seps ts" ks]
      show ?thesis using room Nil ls b(1) read_node_nodes [OF b(4)]
        by (simp add: fall_def nth_append bindS_askE)
    qed
    have "yields ix ?n ?X (bindS (try_redistribute_internal_with_right ?N ?P (length ls) (pp # cpath c))
        (\<lambda>d. if d then retS () else bindS (try_redistribute_internal_with_left ?N ?P (length ls) (pp # cpath c))
        (\<lambda>d. if d then retS () else fall)) ix)"
      by (intro right_stage [OF f n] left_stage [OF f n] fall)
    moreover have "ls \<noteq> [] \<or> rs \<noteq> []" using pop(7) by auto
    then have "split_internal ?N (p # cpath (fr # c)) ix
      = bindS (try_redistribute_internal_with_right ?N ?P (length ls) (pp # cpath c))
        (\<lambda>d. if d then retS () else bindS (try_redistribute_internal_with_left ?N ?P (length ls) (pp # cpath c))
        (\<lambda>d. if d then retS () else fall)) ix"
      using idx unfolding fall_def
      by (auto simp: split_internal.simps fr Let_def bindS_askE [where h = "read_node pp", OF rd] cong: if_cong)
    ultimately show "yields ix (length (fr # c) + 2) (cl (fr # c) @ conts ts @ cr (fr # c))
        (split_internal ?N (p # cpath (fr # c)) ix)"
      by (simp add: fr numeral_3_eq_3)
  qed
qed

subsection \<open>Splitting leaves\<close>

lemma bindS_assoc: "bindS (bindS m f) g = bindS m (\<lambda>x. bindS (f x) g)"
  by (rule ext) (auto simp: bindS_def split: prod.splits sum.splits)

definition move :: "index_node \<Rightarrow> index_node \<Rightarrow> index_node \<Rightarrow> (bindex, unit) sx" where
  \<comment> \<open>both leaves and then the parent are written\<close>
  "move a b parent = bindS (write_node a) (\<lambda>_. bindS (write_node b) (\<lambda>_. reading parent write_node))"

lemma move_done:
  assumes pr: "pair ix c p ls (PL p1 kv1) (PL p2 kv2) rs (lmk ls (fst (hd x1))) 0 S"
    and w: "\<forall>kv \<in> set (x1 @ x2). key_ok (kind_of ix) (fst kv)"
    and n: "x1 \<noteq> []" "length x1 \<le> max_leaf_key_count (kind_of ix)"
      "x2 \<noteq> []" "length x2 \<le> max_leaf_key_count (kind_of ix)"
  shows "yields ix 0 (cl c @ conts ls @ x1 @ x2 @ conts rs @ cr c)
    (move (leaf_node p1 p2 x1) (leaf_node p2 (nxt_of rs (cnx c)) x2)
       (new_internal p ks (roots ls @ p1 # p2 # roots rs)) ix)"
proof -
  let ?ts = "ls @ [PL p1 x1, PL p2 x2] @ rs"
  obtain ix1 where i1: "\<And>g :: index_node \<Rightarrow> (bindex, unit) sx. bindS (write_node (leaf_node p1 p2 x1)) (\<lambda>_.
        bindS (write_node (leaf_node p2 (nxt_of rs (cnx c)) x2)) (\<lambda>_.
        reading (new_internal p ks (roots (ls @ [PL p1 kv1, PL p2 kv2] @ rs))) g)) ix
      = g (new_internal p (seps ?ts) (roots ?ts)) ix1"
    "same ix ix1" "family ix1 c p ?ts (lmk ls (fst (hd x1))) 0 S"
    "length ?ts \<le> Suc (max_internal_key_count (kind_of ix1))"
    using leaf_pair_moved [OF assms] by blast
  have "lmk ls (fst (hd x1)) = mink (hd ?ts)" by (cases ls) (simp_all add: mink_def)
  with i1(3) have fam: "family ix1 c p ?ts (mink (hd ?ts)) 0 S" by simp
  have "yields ix1 0 (cl c @ conts ?ts @ cr c) (write_node (new_internal p (seps ?ts) (roots ?ts)) ix1)"
    by (rule family_done [OF fam _ i1(4)]) simp
  from yields_reach [OF same_reach [OF i1(2)] this, of 0 0] show ?thesis
    using i1(1) [of write_node] by (simp add: move_def)
qed

lemma give_right_eq:
  assumes rd: "nodes ix q = Some (leaf_node q n2 kv2)" and ne: "xs \<noteq> []"
    and w: "\<forall>kv \<in> set (x # kv2) \<union> set xs. key_ok (kind_of ix) (fst kv)"
    and n: "length xs \<le> max_leaf_key_count (kind_of ix)" "length kv2 \<le> max_leaf_key_count (kind_of ix)"
  shows "try_give_to_right_leaf (leaf_node p q (xs @ [x])) (new_internal pp ks (roots ls @ p # q # zs)) (length ls) ix
    = (if Suc (length kv2) \<le> max_leaf_key_count (kind_of ix)
       then bindS (move (leaf_node p q xs) (leaf_node q n2 (x # kv2)) (new_internal pp ks (roots ls @ p # q # zs)))
         (\<lambda>_. retS True) ix else (Inr False, ix))"
proof -
  have u: "leaf_node p q (xs @ [x])\<lparr>keys := map fst xs, records := map snd xs\<rparr> = leaf_node p q xs"
    "leaf_node q n2 kv2\<lparr>keys := fst x # map fst kv2, records := snd x # map snd kv2\<rparr> = leaf_node q n2 (x # kv2)"
    by (simp_all add: leaf_node_def new_leaf_def)
  have small: "length (x # kv2) < 1000" "length xs < 1000" using n max_le(1) [of "kind_of ix"] by auto
  have w': "\<forall>kv \<in> set ((x # kv2) @ xs). key_ok (kind_of ix) (fst kv)" using w by auto
  have "fits_both (leaf_node q n2 (x # kv2)) (leaf_node p q xs) ix
      = (Inr (Suc (length kv2) \<le> max_leaf_key_count (kind_of ix)), ix)"
    using fits_both_leaf [OF w' small] n(1) by simp
  then show ?thesis
    unfolding try_give_to_right_leaf_def move_def
    by (simp add: bindS_askE [where h = "read_node _", OF read_node_nodes [OF rd]] nth_append u ne
        butlast_append Let_def bindS_Inr [where m = "fits_both _ _"] bindS_assoc reading_def)
qed

lemma give_left_eq:
  assumes rd: "nodes ix q = Some (leaf_node q p kv1)" and ne: "xs \<noteq> []"
    and w: "\<forall>kv \<in> set (kv1 @ [x]) \<union> set xs. key_ok (kind_of ix) (fst kv)"
    and n: "length xs \<le> max_leaf_key_count (kind_of ix)" "length kv1 \<le> max_leaf_key_count (kind_of ix)"
  shows "try_give_to_left_leaf (leaf_node p n2 (x # xs)) (new_internal pp ks (roots ls @ q # p # zs)) (Suc (length ls)) ix
    = (if Suc (length kv1) \<le> max_leaf_key_count (kind_of ix)
       then bindS (move (leaf_node q p (kv1 @ [x])) (leaf_node p n2 xs) (new_internal pp ks (roots ls @ q # p # zs)))
         (\<lambda>_. retS True) ix else (Inr False, ix))"
proof -
  have u: "leaf_node p n2 (x # xs)\<lparr>keys := map fst xs, records := map snd xs\<rparr> = leaf_node p n2 xs"
    "leaf_node q p kv1\<lparr>keys := map fst kv1 @ [fst x], records := map snd kv1 @ [snd x]\<rparr> = leaf_node q p (kv1 @ [x])"
    by (simp_all add: leaf_node_def new_leaf_def)
  have small: "length (kv1 @ [x]) < 1000" "length xs < 1000" using n max_le(1) [of "kind_of ix"] by auto
  have w': "\<forall>kv \<in> set ((kv1 @ [x]) @ xs). key_ok (kind_of ix) (fst kv)" using w by auto
  have "fits_both (leaf_node q p (kv1 @ [x])) (leaf_node p n2 xs) ix
      = (Inr (Suc (length kv1) \<le> max_leaf_key_count (kind_of ix)), ix)"
    using fits_both_leaf [OF w' small] n(1) by simp
  then show ?thesis
    unfolding try_give_to_left_leaf_def move_def
    by (simp add: bindS_askE [where h = "read_node _", OF read_node_nodes [OF rd]] nth_append u ne
        Let_def bindS_Inr [where m = "fits_both _ _"] bindS_assoc reading_def)
qed

lemma split_leaf_pair_ok:
  assumes pr: "pair ix c p ls (PL p1 kv1) (PL p2 kv2) rs (lmk ls (fst (hd kv1))) 0 S"
    and w: "\<forall>kv \<in> set (kv1 @ kv2). key_ok (kind_of ix) (fst kv)" and s: "ksorted (kv1 @ kv2)" and ne: "kv1 \<noteq> []"
    and n: "length (kv1 @ kv2) = 2 * max_leaf_key_count (kind_of ix) + 1"
    and room: "pcount ix + length c + 3 \<le> PAGE_LIMIT"
  shows "yields ix (length c + 3) (cl c @ conts ls @ (kv1 @ kv2) @ conts rs @ cr c)
    (split_leaf_pair (leaf_node p1 n1 kv1) (leaf_node p2 (nxt_of rs (cnx c)) kv2)
       (new_internal p ks (roots ls @ p1 # p2 # roots rs)) (length ls) (p # cpath c) ix)"
proof -
  let ?m = "max_leaf_key_count (kind_of ix)" and ?n = "length (kv1 @ kv2)"
  define c1 where "c1 = take ((?n + 2) div 3) (kv1 @ kv2)"
  define c2 where "c2 = take ((?n + 1) div 3) (drop ((?n + 2) div 3) (kv1 @ kv2))"
  define c3 where "c3 = drop ((?n + 2) div 3 + (?n + 1) div 3) (kv1 @ kv2)"
  note cut = three_cut [of "kv1 @ kv2", folded c1_def c2_def c3_def]
  have cs: "kv1 @ kv2 = c1 @ c2 @ c3" by (rule cut(1))
  have "length c1 = (?n + 2) div 3" "length c2 = (?n + 1) div 3" "length c3 = ?n div 3" by (rule cut)+
  then have len: "1 \<le> length c1" "length c1 \<le> ?m" "1 \<le> length c2" "length c2 \<le> ?m" "1 \<le> length c3" "length c3 \<le> ?m"
    using n max_ge(1) [of "kind_of ix"] by simp_all
  then have nec: "c1 \<noteq> []" "c2 \<noteq> []" "c3 \<noteq> []" by auto
  obtain q ix1 where i1: "on_disk allocate_page ix = (Inr q, ix1)" "reach ix 1 ix1"
    "pair ix1 c p ls (PL p1 kv1) (PL p2 kv2) rs (lmk ls (fst (hd kv1))) 0 (insert q S)" "q \<notin> S"
    "pcount ix1 = Suc (pcount ix)"
    using pair_alloc [OF pr] room by (auto simp: less_eq_Suc_le)
  have kk: "kind_of ix1 = kind_of ix" using i1(2) by (simp add: reach_def)
  let ?A = "PL p1 c1" and ?B = "PL q c2" and ?C = "PL p2 c3"
  have q: "q \<notin> set (pidl [PL p1 kv1, PL p2 kv2] @ p # pidl ls @ pidl rs)"
    using pair_members(2) [OF pr] i1(4) by blast
  have wf: "\<forall>u \<in> set [?A, ?B, ?C]. wft (kind_of ix1) 0 u" using w len nec unfolding kk cs by auto
  obtain ix2 where i2: "write_roots [?A, ?B, ?C] (nxt_of rs (cnx c)) ix1 = (Inr (), ix2)" "same ix1 ix2"
    "family ix2 c p (ls @ [?A, ?B, ?C] @ rs) (lmk ls (fst (hd kv1))) 0 (insert q S)"
    using pair_three [OF i1(3) _ q _ wf] by auto
  have "hd kv1 = hd c1" using cs ne nec(1) by (metis hd_append2)
  then have "mink (hd (ls @ [?A, ?B, ?C] @ rs)) = lmk ls (fst (hd kv1))" by (cases ls) (simp_all add: mink_def)
  with i2(3) have fam: "family ix2 c p (ls @ [?A, ?B, ?C] @ rs) (mink (hd (ls @ [?A, ?B, ?C] @ rs))) 0 (insert q S)"
    by simp
  have k2: "kind_of ix2 = kind_of ix" "pcount ix2 = Suc (pcount ix)"
    using same_kind [OF i2(2)] kk i2(2) i1(5) by (simp_all add: same_def)
  let ?fin = "\<lambda>q. bindS (askE (node_fits_page q)) (\<lambda>fits. if fits then write_node q else split_internal q (p # cpath c))"
  let ?P = "new_internal p ks (roots (ls @ [?A, ?B, ?C] @ rs))"
  have run: "split_leaf_pair (leaf_node p1 n1 kv1) (leaf_node p2 (nxt_of rs (cnx c)) kv2)
       (new_internal p ks (roots ls @ p1 # p2 # roots rs)) (length ls) (p # cpath c) ix = reading ?P ?fin ix2"
  proof -
    have "length c1 + (length c2 + length c3) = ?n" unfolding cs by simp
    then have tw: "three_way_counts (length c1 + (length c2 + length c3)) = (length c1, length c2, length c3)"
      using cut(2-4) by (simp add: three_way_counts_eq)
    have "split_leaf_pair (leaf_node p1 n1 kv1) (leaf_node p2 (nxt_of rs (cnx c)) kv2)
       (new_internal p ks (roots ls @ p1 # p2 # roots rs)) (length ls) (p # cpath c) ix
      = bindS (write_roots [?A, ?B, ?C] (nxt_of rs (cnx c))) (\<lambda>_. reading ?P ?fin) ix1"
      unfolding split_leaf_pair_def items_of_leaves [OF s] cs
      by (simp add: bindS_Inr [where m = "on_disk _", OF i1(1)] tw Let_def nec
          write_three [of ?A ?B ?C "nxt_of rs (cnx c)", simplified]
          insert_child [of ls q p1 "p2 # roots rs", simplified])
    also have "\<dots> = reading ?P ?fin ix2" using i2(1) by (rule bindS_Inr)
    finally show ?thesis .
  qed
  have r: "reach ix 1 ix2" by (rule reach_trans [OF i1(2) same_reach [OF i2(2), of 0]]) simp
  have "yields ix2 (length c + 2) (cl c @ conts (ls @ [?A, ?B, ?C] @ rs) @ cr c) (reading ?P ?fin ix2)"
    using pr k2 room by (intro family_finish [OF splittable_all fam]) (simp_all add: pair_def)
  then have "yields ix (length c + 3) (cl c @ conts (ls @ [?A, ?B, ?C] @ rs) @ cr c) (reading ?P ?fin ix2)"
    by (rule yields_reach [OF r]) simp
  moreover have "cl c @ conts (ls @ [?A, ?B, ?C] @ rs) @ cr c = cl c @ conts ls @ (kv1 @ kv2) @ conts rs @ cr c"
    unfolding cs by simp
  ultimately show ?thesis unfolding run by metis
qed

definition overfull_leaf :: "bindex \<Rightarrow> frame list \<Rightarrow> 64 word \<Rightarrow> (index_key \<times> 64 word) list \<Rightarrow> bool" where
  "overfull_leaf ix c p kvs \<longleftrightarrow> env ix c p p (fst (hd kvs)) 0 {p}
     \<and> length kvs = Suc (max_leaf_key_count (kind_of ix))
     \<and> (\<forall>kv \<in> set kvs. key_ok (kind_of ix) (fst kv)) \<and> ksorted (cl c @ kvs @ cr c)"

definition full_leaf_right :: "key_kind \<Rightarrow> ptree list \<Rightarrow> bool" where
  "full_leaf_right kk rs \<longleftrightarrow> (\<forall>q kvs rs'. rs = PL q kvs # rs' \<longrightarrow> length kvs = max_leaf_key_count kk)"

definition full_leaf_left :: "key_kind \<Rightarrow> ptree list \<Rightarrow> bool" where
  "full_leaf_left kk ls \<longleftrightarrow> (\<forall>q kvs ls'. ls = ls' @ [PL q kvs] \<longrightarrow> length kvs = max_leaf_key_count kk)"

lemma leaf_right_stage:
  assumes o: "overfull_leaf ix ((pp, ls, rs) # c) p kvs"
    and g: "full_leaf_right (kind_of ix) rs \<Longrightarrow> yields ix m (cl c @ conts ls @ kvs @ conts rs @ cr c) (g ix)"
  shows "yields ix m (cl c @ conts ls @ kvs @ conts rs @ cr c)
    (bindS (try_give_to_right_leaf (leaf_node p (nxt_of rs (cnx c)) kvs)
        (new_internal pp ks (roots ls @ p # roots rs)) (length ls))
      (\<lambda>d. if d then retS () else g) ix)"
proof (cases rs)
  case Nil
  with g show ?thesis by (simp add: full_leaf_right_def try_give_to_right_leaf_def bindS_def)
next
  case (Cons b rs')
  have e: "env ix ((pp, ls, b # rs') # c) p p (fst (hd kvs)) 0 {p}"
    and n: "length kvs = Suc (max_leaf_key_count (kind_of ix))" and w: "\<forall>kv \<in> set kvs. key_ok (kind_of ix) (fst kv)"
    using o Cons by (simp_all add: overfull_leaf_def)
  obtain q kv2 S' where b: "b = PL q kv2" "kv2 \<noteq> []" "length kv2 \<le> max_leaf_key_count (kind_of ix)"
    "\<forall>kv \<in> set kv2. key_ok (kind_of ix) (fst kv)" "nodes ix q = Some (leaf_node q (nxt_of rs' (cnx c)) kv2)"
    "pair ix c pp ls (PL p kvs) (PL q kv2) rs' (lmk ls (fst (hd kvs))) 0 S'"
    using leaf_right [OF e, of kvs] by blast
  obtain xs x where kvs: "kvs = xs @ [x]" using n by (cases kvs rule: rev_cases) auto
  have xs: "xs \<noteq> []" "length xs \<le> max_leaf_key_count (kind_of ix)" using n kvs max_ge(1) [of "kind_of ix"] by auto
  have w': "\<forall>kv \<in> set (xs @ x # kv2). key_ok (kind_of ix) (fst kv)"
    "\<forall>kv \<in> set (x # kv2) \<union> set xs. key_ok (kind_of ix) (fst kv)" using w b(4) kvs by auto
  have pr: "pair ix c pp ls (PL p kvs) (PL q kv2) rs' (lmk ls (fst (hd xs))) 0 S'" using b(6) kvs xs(1) by simp
  let ?P = "new_internal pp ks (roots ls @ p # q # roots rs')"
  have "yields ix 0 (cl c @ conts ls @ kvs @ conts rs @ cr c)
      (move (leaf_node p q xs) (leaf_node q (nxt_of rs' (cnx c)) (x # kv2)) ?P ix)"
    if "Suc (length kv2) \<le> max_leaf_key_count (kind_of ix)"
    using move_done [OF pr w'(1) xs, of ks] that Cons b(1) kvs by simp
  moreover have "yields ix m (cl c @ conts ls @ kvs @ conts rs @ cr c) (g ix)"
    if "\<not> Suc (length kv2) \<le> max_leaf_key_count (kind_of ix)"
    using that b(1,3) Cons by (intro g) (simp add: full_leaf_right_def)
  ultimately show ?thesis
    using give_right_eq [OF b(5) xs(1) w'(2) xs(2) b(3), of p pp ks ls "roots rs'"] Cons b(1) kvs
    by (intro tried [where fit = "Suc (length kv2) \<le> max_leaf_key_count (kind_of ix)"
      and red = "move (leaf_node p q xs) (leaf_node q (nxt_of rs' (cnx c)) (x # kv2)) ?P"]) simp_all
qed

lemma leaf_left_stage:
  assumes o: "overfull_leaf ix ((pp, ls, rs) # c) p kvs"
    and g: "full_leaf_left (kind_of ix) ls \<Longrightarrow> yields ix m (cl c @ conts ls @ kvs @ conts rs @ cr c) (g ix)"
  shows "yields ix m (cl c @ conts ls @ kvs @ conts rs @ cr c)
    (bindS (try_give_to_left_leaf (leaf_node p (nxt_of rs (cnx c)) kvs)
        (new_internal pp ks (roots ls @ p # roots rs)) (length ls))
      (\<lambda>d. if d then retS () else g) ix)"
proof (cases ls rule: rev_cases)
  case Nil
  with g show ?thesis by (simp add: full_leaf_left_def try_give_to_left_leaf_def bindS_def)
next
  case (snoc ls' b)
  have e: "env ix ((pp, ls' @ [b], rs) # c) p p (fst (hd kvs)) 0 {p}"
    and n: "length kvs = Suc (max_leaf_key_count (kind_of ix))" and w: "\<forall>kv \<in> set kvs. key_ok (kind_of ix) (fst kv)"
    using o snoc by (simp_all add: overfull_leaf_def)
  obtain q kv1 S' where b: "b = PL q kv1" "kv1 \<noteq> []" "length kv1 \<le> max_leaf_key_count (kind_of ix)"
    "\<forall>kv \<in> set kv1. key_ok (kind_of ix) (fst kv)" "nodes ix q = Some (leaf_node q p kv1)"
    "pair ix c pp ls' (PL q kv1) (PL p kvs) rs (lmk ls' (fst (hd kv1))) 0 S'"
    using leaf_left [OF e, of kvs] by blast
  obtain xs x where kvs: "kvs = x # xs" using n by (cases kvs) auto
  have xs: "xs \<noteq> []" "length xs \<le> max_leaf_key_count (kind_of ix)" using n kvs max_ge(1) [of "kind_of ix"] by auto
  have w': "\<forall>kv \<in> set ((kv1 @ [x]) @ xs). key_ok (kind_of ix) (fst kv)"
    "\<forall>kv \<in> set (kv1 @ [x]) \<union> set xs. key_ok (kind_of ix) (fst kv)" using w b(4) kvs by auto
  have pr: "pair ix c pp ls' (PL q kv1) (PL p kvs) rs (lmk ls' (fst (hd (kv1 @ [x])))) 0 S'" using b(2,6) by simp
  let ?P = "new_internal pp ks (roots ls' @ q # p # roots rs)"
  have "yields ix 0 (cl c @ conts ls @ kvs @ conts rs @ cr c)
      (move (leaf_node q p (kv1 @ [x])) (leaf_node p (nxt_of rs (cnx c)) xs) ?P ix)"
    if "Suc (length kv1) \<le> max_leaf_key_count (kind_of ix)"
    using move_done [OF pr w'(1) _ _ xs, of ks] that snoc b(1) kvs by simp
  moreover have "yields ix m (cl c @ conts ls @ kvs @ conts rs @ cr c) (g ix)"
    if "\<not> Suc (length kv1) \<le> max_leaf_key_count (kind_of ix)"
    using that b(1,3) snoc by (intro g) (simp add: full_leaf_left_def)
  ultimately show ?thesis
    using give_left_eq [OF b(5) xs(1) w'(2) xs(2) b(3), of "nxt_of rs (cnx c)" pp ks ls' "roots rs"] snoc b(1) kvs
    by (intro tried [where fit = "Suc (length kv1) \<le> max_leaf_key_count (kind_of ix)"
      and red = "move (leaf_node q p (kv1 @ [x])) (leaf_node p (nxt_of rs (cnx c)) xs) ?P"]) simp_all
qed

lemma ksorted_siblings:
  assumes "overfull_leaf ix ((pp, ls, rs) # c) p kvs"
  shows "rs = PL q kv2 # rs' \<Longrightarrow> ksorted (kvs @ kv2)" and "ls = ls' @ [PL q kv1] \<Longrightarrow> ksorted (kv1 @ kvs)"
  using assms by (auto simp: overfull_leaf_def ksorted_append)

lemma split_root_leaf:
  assumes o: "overfull_leaf ix [] p kvs" and room: "pcount ix + 2 \<le> PAGE_LIMIT"
  shows "yields ix 2 kvs (split_leaf_alone (leaf_node p INVALID_PAGE_ID kvs) [p] ix)"
proof -
  define i where "i = length kvs div 2"
  define c1 where "c1 = take i kvs"
  define c2 where "c2 = drop i kvs"
  let ?m = "max_leaf_key_count (kind_of ix)"
  have e: "env ix [] p p (fst (hd kvs)) 0 {p}" and n: "length kvs = Suc ?m"
    and w: "\<forall>kv \<in> set kvs. key_ok (kind_of ix) (fst kv)" using o by (simp_all add: overfull_leaf_def)
  have cs: "kvs = c1 @ c2" unfolding c1_def c2_def by (rule append_take_drop_id [symmetric])
  have len: "1 \<le> length c1" "length c1 \<le> ?m" "1 \<le> length c2" "length c2 \<le> ?m"
    using n max_ge(1) [of "kind_of ix"] by (auto simp: c1_def c2_def i_def)
  then have nec: "c1 \<noteq> []" "c2 \<noteq> []" by auto
  have half: "(length c1 + length c2) div 2 = length c1" by (simp add: c1_def c2_def i_def)
  have lim: "pcount ix < PAGE_LIMIT" using room by simp
  obtain q ix1 where m: "on_disk allocate_page ix = (Inr q, ix1)" "bx_meta ix1 = bx_meta ix"
    "disk_ok (bx_disk ix1)" "unat q = pcount ix" "pcount ix1 = Suc (pcount ix)"
    "\<forall>p. unat p < pcount ix \<longrightarrow> nodes ix1 p = nodes ix p"
    using allocate_ok [OF env_disk [OF e] lim] by blast
  note ea = env_alloc [OF e m(2-6)]
  have kk: "kind_of ix1 = kind_of ix" using m(2) by (simp add: kind_of_def)
  have "wft (kind_of ix1) 0 (PL p c1)" "wft (kind_of ix1) 0 (PL q c2)"
    using w len nec unfolding kk cs by auto
  then have "yields ix1 1 (c1 @ c2) (insert_into_parent (leaf_node p q c1) (mink (PL q c2))
      (leaf_node q INVALID_PAGE_ID c2) [p] ix1)"
    using new_root_ok [of ix1 "PL p c1" "fst (hd kvs)" 0 "insert q {p}" "PL q c2"] ea room m(5) by auto
  moreover have "split_leaf_alone (leaf_node p INVALID_PAGE_ID kvs) [p] ix
    = insert_into_parent (leaf_node p q c1) (mink (PL q c2)) (leaf_node q INVALID_PAGE_ID c2) [p] ix1"
    unfolding split_leaf_alone_def cs
    by (simp add: bindS_Inr [where m = "on_disk _", OF m(1)] Let_def half nec mink_def hd_map)
  moreover have "reach ix 1 ix1" using m kk by (simp add: reach_def)
  ultimately show ?thesis using yields_reach [of ix 1 ix1 1 kvs _ 2] cs by simp
qed

lemma split_leaf_ok:
  assumes o: "overfull_leaf ix c p kvs" and room: "pcount ix + length c + 2 \<le> PAGE_LIMIT"
  shows "yields ix (length c + 2) (cl c @ kvs @ cr c) (split_leaf (leaf_node p (cnx c) kvs) (p # cpath c) ix)"
proof (cases c)
  case Nil
  with split_root_leaf [of ix p kvs] o room show ?thesis by (simp add: split_leaf_def numeral_2_eq_2)
next
  case (Cons fr d)
  obtain pp ls rs where fr: "fr = (pp, ls, rs)" by (cases fr)
  have o': "overfull_leaf ix ((pp, ls, rs) # d) p kvs" using o Cons fr by simp
  have e: "env ix ((pp, ls, rs) # d) p p (fst (hd kvs)) 0 {p}"
    and n: "length kvs = Suc (max_leaf_key_count (kind_of ix))"
    and w: "\<forall>kv \<in> set kvs. key_ok (kind_of ix) (fst kv)" using o' by (simp_all add: overfull_leaf_def)
  note pop = env_pop [OF e]
  let ?L = "leaf_node p (nxt_of rs (cnx d)) kvs" and ?X = "cl d @ conts ls @ kvs @ conts rs @ cr d"
  define ks where "ks = tl (map mink ls @ fst (hd kvs) # map mink rs)"
  let ?P = "new_internal pp ks (roots ls @ p # roots rs)"
  have rd: "read_node pp ix = Inr ?P" using read_node_nodes [OF pop(2)] by (simp add: ks_def)
  have "p \<notin> set (roots ls)" using pop(10) roots_in_pidl [of ls] by auto
  then have idx: "index_of p (roots ls @ p # roots rs) = Some (length ls)" by (metis index_of_middle length_map)
  define fall where "fall =
    (if length ls + 1 < length (children ?P) then
       bindS (askE (read_node (children ?P ! (length ls + 1)))) (\<lambda>right.
       bindS (guardS (is_leaf right) (LogicError ''Leaf sibling has unexpected node type'')) (\<lambda>_.
         split_leaf_pair ?L right ?P (length ls) (pp # cpath d)))
     else bindS (askE (read_node (children ?P ! (length ls - 1)))) (\<lambda>left.
       bindS (guardS (is_leaf left) (LogicError ''Leaf sibling has unexpected node type'')) (\<lambda>_.
         split_leaf_pair left ?L ?P (length ls - 1) (pp # cpath d))))"
  have fall: "yields ix (length d + 3) ?X (fall ix)"
    if "full_leaf_right (kind_of ix) rs" "full_leaf_left (kind_of ix) ls"
  proof (cases rs)
    case (Cons b rs')
    obtain q kv2 S' where b: "b = PL q kv2" "kv2 \<noteq> []" "\<forall>kv \<in> set kv2. key_ok (kind_of ix) (fst kv)"
      "nodes ix q = Some (leaf_node q (nxt_of rs' (cnx d)) kv2)"
      "pair ix d pp ls (PL p kvs) (PL q kv2) rs' (lmk ls (fst (hd kvs))) 0 S'"
      using leaf_right [OF e [unfolded Cons], of kvs] by blast
    have f: "length (kvs @ kv2) = 2 * max_leaf_key_count (kind_of ix) + 1" "kvs \<noteq> []"
      "\<forall>kv \<in> set (kvs @ kv2). key_ok (kind_of ix) (fst kv)"
      using that(1) Cons b(1,3) n w by (auto simp: full_leaf_right_def)
    have s: "ksorted (kvs @ kv2)" using ksorted_siblings(1) [OF o'] Cons b(1) by blast
    from split_leaf_pair_ok [OF b(5) f(3) s f(2,1), of _ ks]
    show ?thesis using room Cons \<open>c = fr # d\<close> b(1) read_node_nodes [OF b(4)]
      by (simp add: fall_def nth_append bindS_askE)
  next
    case Nil
    then obtain ls' b where ls: "ls = ls' @ [b]" using pop(7) by (cases ls rule: rev_cases) auto
    obtain q kv1 S' where b: "b = PL q kv1" "kv1 \<noteq> []" "\<forall>kv \<in> set kv1. key_ok (kind_of ix) (fst kv)"
      "nodes ix q = Some (leaf_node q p kv1)"
      "pair ix d pp ls' (PL q kv1) (PL p kvs) rs (lmk ls' (fst (hd kv1))) 0 S'"
      using leaf_left [OF e [unfolded ls], of kvs] by blast
    have f: "length (kv1 @ kvs) = 2 * max_leaf_key_count (kind_of ix) + 1"
      "\<forall>kv \<in> set (kv1 @ kvs). key_ok (kind_of ix) (fst kv)"
      using that(2) ls b(1,3) n w by (auto simp: full_leaf_left_def)
    have s: "ksorted (kv1 @ kvs)" using ksorted_siblings(2) [OF o'] ls b(1) by blast
    from split_leaf_pair_ok [OF b(5) f(2) s b(2) f(1), of p ks]
    show ?thesis using room Nil ls Cons b(1) read_node_nodes [OF b(4)]
      by (simp add: fall_def nth_append bindS_askE)
  qed
  have "yields ix (length d + 3) ?X (bindS (try_give_to_right_leaf ?L ?P (length ls))
      (\<lambda>d1. if d1 then retS () else bindS (try_give_to_left_leaf ?L ?P (length ls))
      (\<lambda>d2. if d2 then retS () else fall)) ix)"
    by (intro leaf_right_stage [OF o'] leaf_left_stage [OF o'] fall)
  moreover have "ls \<noteq> [] \<or> rs \<noteq> []" using pop(7) by auto
  then have "split_leaf ?L (p # cpath (fr # d)) ix
    = bindS (try_give_to_right_leaf ?L ?P (length ls))
      (\<lambda>d1. if d1 then retS () else bindS (try_give_to_left_leaf ?L ?P (length ls))
      (\<lambda>d2. if d2 then retS () else fall)) ix"
    using idx unfolding fall_def
    by (auto simp: split_leaf_def fr Let_def bindS_askE [where h = "read_node pp", OF rd] cong: if_cong)
  ultimately show ?thesis by (simp add: Cons fr numeral_3_eq_3)
qed

subsection \<open>The operation\<close>

definition ins :: "index_key \<Rightarrow> 64 word \<Rightarrow> (index_key \<times> 64 word) list \<Rightarrow> (index_key \<times> 64 word) list" where
  "ins k v kvs = filter (\<lambda>kv. fst kv < k) kvs @ (k, v) # filter (\<lambda>kv. k < fst kv) kvs"

lemma ins_split:
  assumes "below as k" and "above k bs" shows "ins k v (as @ bs) = as @ (k, v) # bs"
proof -
  have "filter (\<lambda>kv. fst kv < k) as = as" "filter (\<lambda>kv. fst kv < k) bs = []"
    "filter (\<lambda>kv. k < fst kv) as = []" "filter (\<lambda>kv. k < fst kv) bs = bs"
    using assms by (auto simp: filter_empty_conv filter_id_conv dest: less_asym less_imp_not_less)
  then show ?thesis by (simp add: ins_def)
qed

lemma write_leaf_good:
  assumes e: "env ix c p p (fst (hd kvs)) 0 {p}" and ne: "kvs \<noteq> []"
    and n: "length kvs \<le> max_leaf_key_count (kind_of ix)" and w: "\<forall>kv \<in> set kvs. key_ok (kind_of ix) (fst kv)"
  shows "\<exists>ix'. write_node (leaf_node p (cnx c) kvs) ix = (Inr (), ix') \<and> same ix ix'
    \<and> good ix' (length c) (plug c (PL p kvs))"
proof -
  have "node_ok (kind_of ix) (leaf_node p (cnx c) kvs)" using node_ok_leaf [OF w n] .
  then obtain ix' where ix': "write_node (leaf_node p (cnx c) kvs) ix = (Inr (), ix')" "same ix ix'"
    "nodes ix' = (nodes ix)(p \<mapsto> leaf_node p (cnx c) kvs)"
    using write_node_ok [OF env_disk [OF e], of "leaf_node p (cnx c) kvs"] env_count [OF e] by auto
  have e': "env ix' c (root_of (PL p kvs)) (fl (PL p kvs)) (mink (PL p kvs)) 0 {p}"
    using env_write [OF e ix'(2,3)] by (simp add: mink_def)
  have "wft (kind_of ix') 0 (PL p kvs)" using ne n w same_kind [OF ix'(2)] by simp
  then have "good ix' (0 + length c) (plug c (PL p kvs))"
    using ix'(3) by (intro good_of_env [OF e']) simp_all
  with ix'(1,2) show ?thesis by auto
qed

lemma write_leaf_ok:
  assumes "env ix c p p (fst (hd kvs)) 0 {p}" and "kvs \<noteq> []"
    and "length kvs \<le> max_leaf_key_count (kind_of ix)" and "\<forall>kv \<in> set kvs. key_ok (kind_of ix) (fst kv)"
  shows "yields ix 0 (cl c @ kvs @ cr c) (write_node (leaf_node p (cnx c) kvs) ix)"
proof -
  obtain ix' where ix': "write_node (leaf_node p (cnx c) kvs) ix = (Inr (), ix')" "same ix ix'"
    "good ix' (length c) (plug c (PL p kvs))" using write_leaf_good [OF assms] by blast
  have "yields ix 0 (cl c @ kvs @ cr c) (Inr (), ix')"
    by (rule yieldsI [OF ix'(3) _ same_reach [OF ix'(2)]]) (simp add: cont_plug)
  then show ?thesis using ix'(1) by simp
qed

lemma good_not_empty:
  assumes "good ix h t" shows "\<not> meta_empty (bx_meta ix)"
proof -
  have "root_page_id (bx_meta ix) \<noteq> INVALID_PAGE_ID"
    using assms pid_valid root_in_pids [of t] unfolding good_def by metis
  moreover have "tree_height (bx_meta ix) \<noteq> 0" using assms by (auto simp: good_def)
  ultimately show ?thesis by (simp add: meta_empty_def)
qed

lemma good_same_nodes:
  "good ix h t \<Longrightarrow> same ix ix' \<Longrightarrow> nodes ix' = nodes ix \<Longrightarrow> good ix' h t"
  by (simp add: good_def same_def kind_of_def)

lemma good_key_total:
  "good ix h t \<Longrightarrow> good (ix\<lparr>bx_meta := (bx_meta ix)\<lparr>key_total := n\<rparr>\<rparr>) h t"
  by (simp add: good_def nodes_def kind_of_def pcount_def)

lemma save_good:
  assumes g: "good ix h t" and k: "kind_storable (kind_of ix)"
  shows "\<exists>ix'. save_meta ix = (Inr (), ix') \<and> good ix' h t \<and> same ix ix' \<and> read_metadata (bx_disk ix') = bx_meta ix'"
proof -
  have "disk_ok (bx_disk ix)" "metadata_ok (bx_meta ix)"
    using assms by (simp_all add: good_def metadata_ok_def kind_of_def)
  from save_meta_ok [OF this] obtain ix' where ix': "save_meta ix = (Inr (), ix')" "same ix ix'"
    "nodes ix' = nodes ix" "read_metadata (bx_disk ix') = bx_meta ix" by blast
  then show ?thesis using good_same_nodes [OF g ix'(2,3)] by (auto simp: same_def)
qed

text \<open>The place of a new key: the leaf found by the descent, cut where the key belongs.\<close>

lemma find_slot:
  assumes g: "good ix h t" and s: "ksorted (cont t)" and new: "key \<notin> fst ` set (cont t)"
  shows "\<exists>c p as bs. t = plug c (PL p (as @ bs)) \<and> length c = h
    \<and> find_leaf key ix = Inr (leaf_node p (cnx c) (as @ bs), p # cpath c)
    \<and> lower_bound (map fst (as @ bs)) key = length as
    \<and> below (cl c @ as) key \<and> above key (bs @ cr c)
    \<and> env ix c p p (fst (hd (as @ (key, r) # bs))) 0 {p}
    \<and> length (as @ bs) \<le> max_leaf_key_count (kind_of ix)
    \<and> (\<forall>kv \<in> set (as @ bs). key_ok (kind_of ix) (fst kv))"
proof -
  obtain c p kvs where c: "t = plug c (PL p kvs)" "length c = h"
    "find_leaf key ix = Inr (leaf_node p (cnx c) kvs, p # cpath c)" "below (cl c) key" "above key (cr c)"
    "mink (PL p kvs) \<le> key \<or> (\<forall>fr \<in> set c. fst (snd fr) = [])"
    using find_leaf_good [OF g s] by blast
  have "good ix (0 + length c) (plug c (PL p kvs))" using g c by simp
  note eg = env_of_good [OF this]
  have e: "env ix c p p (fst (hd kvs)) 0 {p}" and wf: "kvs \<noteq> []" "length kvs \<le> max_leaf_key_count (kind_of ix)"
    "\<forall>kv \<in> set kvs. key_ok (kind_of ix) (fst kv)" using eg by (simp_all add: mink_def)
  have "ksorted kvs" using s c(1) by (simp add: cont_plug ksorted_append)
  then obtain as bs where ab: "kvs = as @ bs" "lower_bound (map fst kvs) key = length as" "below as key"
    "\<forall>kv \<in> set bs. key \<le> fst kv" using lower_bound_split by blast
  have "\<forall>kv \<in> set bs. key \<noteq> fst kv" using new c(1) ab(1) by (auto simp: cont_plug image_iff)
  then have bs: "above key bs" using ab(4) by (simp add: order_less_le)
  have "env ix c p p (fst (hd (as @ (key, r) # bs))) 0 {p}"
  proof (cases as)
    case (Cons a as')
    then show ?thesis using e ab(1) by simp
  next
    case Nil
    then have "hd kvs \<in> set bs" using wf(1) ab(1) by simp
    then have "\<not> mink (PL p kvs) \<le> key" using bs by (auto simp: mink_def)
    with c(6) have lm: "\<forall>fr \<in> set c. fst (snd fr) = []" by blast
    show ?thesis by (rule env_key [OF e lm])
  qed
  then show ?thesis using c(1-5) wf(2,3) ab(1-3) bs
    by (intro exI [of _ c] exI [of _ p] exI [of _ as] exI [of _ bs]) auto
qed

lemma insert_key_run:
  assumes g: "good ix h t" and ko: "key_ok (kind_of ix) key"
    and f: "find_leaf key ix = Inr (leaf_node p (cnx c) (as @ bs), p # cpath c)"
    and lb: "lower_bound (map fst (as @ bs)) key = length as" and ab: "above key bs"
    and w: "\<forall>kv \<in> set (as @ bs). key_ok (kind_of ix) (fst kv)" and n: "length (as @ bs) < 999"
  shows "insert_key key r ix =
    bindS (if Suc (length (as @ bs)) \<le> max_leaf_key_count (kind_of ix)
           then write_node (leaf_node p (cnx c) (as @ (key, r) # bs))
           else split_leaf (leaf_node p (cnx c) (as @ (key, r) # bs)) (p # cpath c))
      (\<lambda>_. bindS (set_meta (\<lambda>m. m\<lparr>key_total := key_total m + 1\<rparr>)) (\<lambda>_. save_meta)) ix"
proof -
  have nd: "leaf_node p (cnx c) (as @ bs)\<lparr>keys := insert_at (length as) key (map fst as @ map fst bs),
      records := insert_at (length as) r (map snd as @ map snd bs)\<rparr> = leaf_node p (cnx c) (as @ (key, r) # bs)"
    using insert_at_append [of "map fst as" key "map fst bs"] insert_at_append [of "map snd as" r "map snd bs"]
    by (simp add: leaf_node_def new_leaf_def)
  have nodup: "bs \<noteq> [] \<Longrightarrow> (map fst as @ map fst bs) ! length as \<noteq> key"
    using ab by (cases bs) (auto simp: nth_append)
  have v: "validate_key_kind key (kind_of ix) = Inr ()" using ko by (simp add: key_ok_validate)
  have "\<forall>kv \<in> set (as @ (key, r) # bs). key_ok (kind_of ix) (fst kv)" "length (as @ (key, r) # bs) < 1000"
    using w ko n by auto
  from fits_leaf [OF this] have fits: "node_fits_page (leaf_node p (cnx c) (as @ (key, r) # bs)) ix
      = Inr (Suc (length (as @ bs)) \<le> max_leaf_key_count (kind_of ix))" by simp
  show ?thesis using lb
    by (simp add: insert_key_def nodup cong: if_cong add: bindS_askE [where h = "\<lambda>ix. validate_key_kind key (kind_of ix)", OF v]
          good_not_empty [OF g] bindS_askE [where h = "find_leaf _", OF f] Let_def nd
          bindS_askE [where h = "node_fits_page _", OF fits])
qed

lemma commit_good:
  assumes y: "yields ix n kvs (m ix)" and st: "kind_storable (kind_of ix)"
  shows "\<exists>ix' h t. bindS m (\<lambda>_. bindS (set_meta (\<lambda>m. m\<lparr>key_total := key_total m + 1\<rparr>)) (\<lambda>_. save_meta)) ix
      = (Inr (), ix') \<and> good ix' h t \<and> cont t = kvs \<and> kind_of ix' = kind_of ix
    \<and> key_total (bx_meta ix') = key_total (bx_meta ix) + 1
    \<and> read_metadata (bx_disk ix') = bx_meta ix' \<and> pcount ix' \<le> pcount ix + n"
proof -
  obtain x ix1 h t where i1: "m ix = (Inr x, ix1)" "good ix1 h t" "cont t = kvs" "reach ix n ix1"
    using y by (auto simp: yields_def)
  let ?ix = "ix1\<lparr>bx_meta := (bx_meta ix1)\<lparr>key_total := key_total (bx_meta ix1) + 1\<rparr>\<rparr>"
  have kk: "kind_of ?ix = kind_of ix" using i1(4) by (simp add: reach_def kind_of_def)
  obtain ix2 where i2: "save_meta ?ix = (Inr (), ix2)" "good ix2 h t" "same ?ix ix2"
    "read_metadata (bx_disk ix2) = bx_meta ix2"
    using save_good [OF good_key_total [OF i1(2)]] st kk by metis
  have "bindS m (\<lambda>_. bindS (set_meta (\<lambda>m. m\<lparr>key_total := key_total m + 1\<rparr>)) (\<lambda>_. save_meta)) ix = (Inr (), ix2)"
    using i1(1) i2(1) by (simp add: bindS_def set_meta_def)
  moreover have "key_total (bx_meta ix2) = key_total (bx_meta ix) + 1" "kind_of ix2 = kind_of ix"
    "pcount ix2 \<le> pcount ix + n"
    using i2(3) i1(4) same_kind [OF i2(3)] kk by (simp_all add: same_def reach_def pcount_def)
  ultimately show ?thesis using i1(3) i2 by blast
qed

lemma insert_key_good:
  assumes g: "good ix h t" and s: "ksorted (cont t)" and ko: "key_ok (kind_of ix) key"
    and st: "kind_storable (kind_of ix)" and new: "key \<notin> fst ` set (cont t)"
    and room: "pcount ix + h + 2 \<le> PAGE_LIMIT"
  shows "\<exists>ix' h' t'. insert_key key r ix = (Inr (), ix') \<and> good ix' h' t' \<and> cont t' = ins key r (cont t)
    \<and> kind_of ix' = kind_of ix \<and> key_total (bx_meta ix') = key_total (bx_meta ix) + 1
    \<and> read_metadata (bx_disk ix') = bx_meta ix' \<and> pcount ix' \<le> pcount ix + (h + 2)"
proof -
  obtain c p as bs where c: "t = plug c (PL p (as @ bs))" "length c = h"
    "find_leaf key ix = Inr (leaf_node p (cnx c) (as @ bs), p # cpath c)"
    "lower_bound (map fst (as @ bs)) key = length as" "below (cl c @ as) key" "above key (bs @ cr c)"
    "env ix c p p (fst (hd (as @ (key, r) # bs))) 0 {p}" "length (as @ bs) \<le> max_leaf_key_count (kind_of ix)"
    "\<forall>kv \<in> set (as @ bs). key_ok (kind_of ix) (fst kv)"
    using find_slot [OF g s new] by blast
  let ?kvs = "as @ (key, r) # bs"
  have cont: "cl c @ ?kvs @ cr c = ins key r (cont t)"
    using ins_split [OF c(5,6), of r] c(1) by (simp add: cont_plug)
  have w: "\<forall>kv \<in> set ?kvs. key_ok (kind_of ix) (fst kv)" using c(9) ko by auto
  have s': "ksorted (cl c @ ?kvs @ cr c)"
    using s c(1,5,6) by (auto simp: cont_plug ksorted_append)
  have "yields ix (h + 2) (ins key r (cont t))
      ((if Suc (length (as @ bs)) \<le> max_leaf_key_count (kind_of ix) then write_node (leaf_node p (cnx c) ?kvs)
        else split_leaf (leaf_node p (cnx c) ?kvs) (p # cpath c)) ix)"
  proof (cases "Suc (length (as @ bs)) \<le> max_leaf_key_count (kind_of ix)")
    case True
    then have "yields ix 0 (cl c @ ?kvs @ cr c) (write_node (leaf_node p (cnx c) ?kvs) ix)"
      using w by (intro write_leaf_ok [OF c(7)]) simp_all
    with yields_more [OF this] True cont show ?thesis by simp
  next
    case False
    then have "overfull_leaf ix c p ?kvs" using c(7,8) w s' by (simp add: overfull_leaf_def)
    from split_leaf_ok [OF this] room c(2) False cont show ?thesis by simp
  qed
  moreover have "length (as @ bs) < 999" "above key bs" using c(6,8) max_le(1) [of "kind_of ix"] by auto
  ultimately show ?thesis
    using commit_good [OF _ st] unfolding insert_key_run [OF g ko c(3,4) \<open>above key bs\<close> c(9) \<open>length (as @ bs) < 999\<close>]
    by blast
qed

text \<open>A key that is there already is refused and nothing changes.\<close>

lemma insert_key_duplicate:
  assumes g: "good ix h t" and s: "ksorted (cont t)" and k: "key_matches_kind key (kind_of ix)"
    and dup: "key \<in> fst ` set (cont t)"
  shows "insert_key key r ix = (Inl (InvalidArgument ''Duplicate index key''), ix)"
proof -
  obtain c p kvs where c: "t = plug c (PL p kvs)"
    "find_leaf key ix = Inr (leaf_node p (cnx c) kvs, p # cpath c)" "below (cl c) key" "above key (cr c)"
    using find_leaf_good [OF g s] by blast
  have "ksorted kvs" using s c(1) by (simp add: cont_plug ksorted_append)
  note l = leaf_lookup [OF this, of key]
  have "key \<in> fst ` set kvs" using dup c(1,3,4) by (auto simp: cont_plug)
  then have "map_of kvs key \<noteq> None" by (simp add: map_of_eq_None_iff)
  then have "lower_bound (map fst kvs) key < length kvs \<and> map fst kvs ! lower_bound (map fst kvs) key = key"
    using l by (auto simp: Let_def split: if_splits)
  moreover have v: "validate_key_kind key (kind_of ix) = Inr ()" using k by (simp add: validate_key_kind_def)
  ultimately show ?thesis
    by (simp add: insert_key_def bindS_askE [where h = "\<lambda>ix. validate_key_kind key (kind_of ix)", OF v]
        good_not_empty [OF g] bindS_askE [where h = "find_leaf _", OF c(2)] Let_def)
qed

end
