(* ===== verification/BStar_Erase.thy ===== *)
theory BStar_Erase
  imports BStar_Insert
begin

section \<open>Deletion keeps the tree and removes the entry\<close>

text \<open>
  \<open>erase\<close> on a whole tree. A node that gets too small borrows from a sibling, is merged with one,
  or (when the merged node would not fit) shares its content with one; a merge removes a child of
  the parent, which is treated the same way, up to a root with a single child, which is dropped.
  The smallest key that the separators above remember may be stale until it is propagated, so the
  contexts here record an arbitrary key. \<open>repairable c\<close> is the induction hypothesis: deletion
  repairs an internal node below \<open>c\<close> that has lost a child.
\<close>

subsection \<open>Borrowing and merging\<close>

lemma borrow_child_ok:
  assumes pr: "pair ix c p ls (PN p1 as) (PN p2 bs) rs k (Suc h) S" and ne: "as \<noteq> []" "bs \<noteq> []"
    and cs: "as @ bs = c1 @ c2" and w: "\<forall>t \<in> set (as @ bs). wft (kind_of ix) h t"
    and n: "2 \<le> length c1" "length c1 \<le> Suc (max_internal_key_count (kind_of ix))"
      "2 \<le> length c2" "length c2 \<le> Suc (max_internal_key_count (kind_of ix))"
  shows "yields ix 0 (cl c @ conts ls @ conts (as @ bs) @ conts rs @ cr c)
    (borrow_child (new_internal p1 k1 (roots c1)) (new_internal p2 k2 (roots c2))
       (new_internal p ks (roots ls @ p1 # p2 # roots rs)) (p # cpath c) ix)"
proof -
  have w': "\<forall>t \<in> set c1. wft (kind_of ix) h t" "\<forall>t \<in> set c2. wft (kind_of ix) h t"
    using w unfolding cs by auto
  have st: "storeds (nodes ix) c1 (nxt_of c2 (nxt_of rs (cnx c)))" "storeds (nodes ix) c2 (nxt_of rs (cnx c))"
    using pair_children [OF pr ne(2)] unfolding cs by simp_all
  have hb: "h \<le> pcount ix" using pair_env [OF pr] by (simp add: env_def)
  let ?ts = "ls @ [PN p1 c1, PN p2 c2] @ rs"
  obtain ix1 where i1: "write_roots [PN p1 c1, PN p2 c2] (nxt_of rs (cnx c)) ix = (Inr (), ix1)" "same ix ix1"
    "family ix1 c p ?ts k (Suc h) S"
    using pair_cut [OF pr ne cs w n] by blast
  have len: "2 \<le> length ?ts" "length ?ts \<le> Suc (max_internal_key_count (kind_of ix1))"
    using pr same_kind [OF i1(2)] by (simp_all add: pair_def)
  have "borrow_child (new_internal p1 k1 (roots c1)) (new_internal p2 k2 (roots c2))
      (new_internal p ks (roots ls @ p1 # p2 # roots rs)) (p # cpath c) ix
    = bindS (write_roots [PN p1 c1, PN p2 c2] (nxt_of rs (cnx c)))
       (\<lambda>_. reading (new_internal p ks (roots ?ts))
         (\<lambda>q. bindS (write_node q) (\<lambda>_. propagate_subtree_min_change (page_id q) (p # cpath c)))) ix"
    unfolding borrow_child_def
    by (simp add: reading_stored [OF st(1) w'(1) hb] reading_stored [OF st(2) w'(2) hb]
        write_two [of "PN p1 c1" "PN p2 c2" "nxt_of rs (cnx c)", simplified])
  also have "\<dots> = bindS (write_node (new_internal p (seps ?ts) (roots ?ts)))
      (\<lambda>_. propagate_subtree_min_change p (p # cpath c)) ix1"
    unfolding bindS_Inr [where m = "write_roots _ _", OF i1(1)] family_reading [OF i1(3)] by simp
  finally have run: "borrow_child (new_internal p1 k1 (roots c1)) (new_internal p2 k2 (roots c2))
      (new_internal p ks (roots ls @ p1 # p2 # roots rs)) (p # cpath c) ix = \<dots>" .
  have co: "cl c @ conts ?ts @ cr c = cl c @ conts ls @ conts (as @ bs) @ conts rs @ cr c"
    unfolding cs by simp
  show ?thesis
    using yields_reach [OF same_reach [OF i1(2)] family_propagated [OF i1(3) len], of 0 0]
    unfolding run co by simp
qed

text \<open>The two members of a pair are replaced by one node on the left member's page.\<close>

lemma pair_merged:
  assumes pr: "pair ix c p ls a b rs k h S" and r: "root_of t = root_of a" and f: "fl t = fl a"
    and st: "kids_stored (nodes ix) t (nxt_of rs (cnx c))" and w: "wft (kind_of ix) h t"
    and m: "mset (pidl [a, b]) = mset (pids t) + {#root_of b#}"
  shows "\<exists>ix'. write_node (rnode t (nxt_of rs (cnx c))) ix = (Inr (), ix') \<and> same ix ix'
    \<and> family ix' c p (ls @ [t] @ rs) k h S"
proof -
  note pm = pair_members [OF pr]
  have ab: "mset (pidl [a, b]) = mset (root_of b # pids t)" using m by simp
  have "distinct (pidl [a, b])" using pm(1) unfolding distinct_append by blast
  then have "distinct (root_of b # pids t)" using mset_eq_imp_distinct_iff [OF ab] by blast
  then have d: "distinct (pidl [t])" by simp
  have s: "set (pidl [t]) \<subseteq> set (pidl [a, b])" using ab by (metis set_mset_mset list.simps(15) set_subset_Cons
        concat.simps append_Nil2 list.map(1) list.map(2))
  have "set (pidl [t]) \<subseteq> S" "set (pidl [t]) \<inter> set (p # pidl ls @ pidl rs) = {}"
    using s pm unfolding distinct_append by auto
  then obtain ix' where ix': "write_roots [t] (nxt_of rs (cnx c)) ix = (Inr (), ix')" "same ix ix'"
    "family ix' c p (ls @ [t] @ rs) k h S"
    using pair_regroup [OF pr _ _ f d] st w by auto
  then have "write_node (rnode t (nxt_of rs (cnx c))) ix = (Inr (), ix')"
    by (simp add: write_roots.simps bindS_def split: prod.splits sum.splits)
  with ix'(2,3) show ?thesis by blast
qed

lemma pair_merge_internal:
  assumes pr: "pair ix c p ls (PN p1 as) (PN p2 bs) rs k (Suc h) S" and ne: "as \<noteq> []" "bs \<noteq> []"
    and w: "\<forall>t \<in> set (as @ bs). wft (kind_of ix) h t"
    and n: "length (as @ bs) \<le> Suc (max_internal_key_count (kind_of ix))"
  shows "\<exists>ix'. write_node (new_internal p1 (seps (as @ bs)) (roots (as @ bs))) ix = (Inr (), ix') \<and> same ix ix'
    \<and> family ix' c p (ls @ [PN p1 (as @ bs)] @ rs) k (Suc h) S"
proof -
  have two: "2 \<le> length (as @ bs)" using ne by (cases as; cases bs) auto
  have "fl (PN p1 (as @ bs)) = fl (PN p1 as)" using ne(1) by (cases as) simp_all
  moreover have "kids_stored (nodes ix) (PN p1 (as @ bs)) (nxt_of rs (cnx c))"
    using pair_children [OF pr ne(2)] by simp
  moreover have "wft (kind_of ix) (Suc h) (PN p1 (as @ bs))" using w n two by simp
  ultimately show ?thesis using pair_merged [OF pr, of "PN p1 (as @ bs)"] by simp
qed

lemma pair_merge_leaf:
  assumes pr: "pair ix c p ls (PL p1 kv1) (PL p2 kv2) rs k 0 S" and ne: "kv1 @ kv2 \<noteq> []"
    and w: "\<forall>kv \<in> set (kv1 @ kv2). key_ok (kind_of ix) (fst kv)"
    and n: "length (kv1 @ kv2) \<le> max_leaf_key_count (kind_of ix)"
  shows "\<exists>ix'. write_node (leaf_node p1 (nxt_of rs (cnx c)) (kv1 @ kv2)) ix = (Inr (), ix') \<and> same ix ix'
    \<and> family ix' c p (ls @ [PL p1 (kv1 @ kv2)] @ rs) k 0 S"
  using pair_merged [OF pr, of "PL p1 (kv1 @ kv2)"] assms(2-4) by simp

lemma first_leaf_in: "cfl c f \<in> insert f (set (cpids c))"
proof (induction c arbitrary: f)
  case (Cons fr c)
  obtain p ls rs where fr: "fr = (p, ls, rs)" by (cases fr)
  have "nxt_of ls f \<in> insert f (set (pidl ls))" by (cases ls) simp_all
  then show ?case using Cons [of "nxt_of ls f"] fr by auto
qed simp

text \<open>The right member of a pair is never the first leaf.\<close>

lemma pair_first:
  assumes pr: "pair ix c p ls a b rs k h S"
  shows "first_leaf_page_id (bx_meta ix) \<noteq> root_of b"
proof -
  have e: "env ix c p (nxt_of ls (fl a)) k (Suc h) S" using pr by (rule pair_env)
  have "first_leaf_page_id (bx_meta ix) \<in> insert (nxt_of ls (fl a)) (set (cpids c))"
    using e first_leaf_in by (simp add: env_def)
  moreover have "nxt_of ls (fl a) \<in> set (pidl ls) \<union> set (pids a)" by (cases ls) auto
  moreover have d: "distinct (p # pidl (ls @ [a, b] @ rs))" "set (p # pidl (ls @ [a, b] @ rs)) \<subseteq> S"
    using pr unfolding pair_def by blast+
  then have "set (pids b) \<inter> (set (pidl ls) \<union> set (pids a)) = {}" "root_of b \<in> S" by auto
  then have "root_of b \<notin> set (pidl ls) \<union> set (pids a)" "root_of b \<notin> set (cpids c)"
    using root_in_pids [of b] env_disjoint [OF e] by blast+
  ultimately show ?thesis by (metis insertE)
qed

subsection \<open>Internal nodes\<close>

definition repairable :: "frame list \<Rightarrow> bool" where
  "repairable c \<longleftrightarrow> (\<forall>ix p ts k k1 h S. family ix c p ts k h S \<and> ts \<noteq> []
      \<and> length ts \<le> Suc (max_internal_key_count (kind_of ix))
    \<longrightarrow> yields ix 0 (cl c @ conts ts @ cr c)
         (handle_internal_after_child_removed (new_internal p k1 (roots ts)) (p # cpath c) ix))"

lemma merge_internal_ok:
  assumes rp: "repairable c" and pr: "pair ix c p ls (PN p1 as) (PN p2 bs) rs k (Suc h) S"
    and ne: "as \<noteq> []" "bs \<noteq> []" and w: "\<forall>t \<in> set (as @ bs). wft (kind_of ix) h t"
    and n: "length (as @ bs) \<le> 2 * Suc (max_internal_key_count (kind_of ix))"
  shows "yields ix 0 (cl c @ conts ls @ conts (as @ bs) @ conts rs @ cr c)
    (reading (new_internal p1 k1 (roots as @ roots bs)) (\<lambda>merged.
      bindS (askE (node_fits_page merged)) (\<lambda>fits.
      if \<not> fits then redistribute_internal_pair (new_internal p1 ka (roots as)) (new_internal p2 kb (roots bs))
        (new_internal p ks (roots ls @ p1 # p2 # roots rs)) (p # cpath c)
      else reading merged (\<lambda>l. bindS (write_node l) (\<lambda>_.
        handle_internal_after_child_removed (new_internal p ks' (roots ls @ p1 # roots rs)) (p # cpath c))))) ix)"
    (is "yields ix 0 ?X (reading _ ?f ix)")
proof -
  let ?m = "max_internal_key_count (kind_of ix)" and ?N = "new_internal p1 (seps (as @ bs)) (roots (as @ bs))"
  have st: "storeds (nodes ix) (as @ bs) (nxt_of rs (cnx c))" using pair_children [OF pr ne(2)] .
  have hb: "h \<le> pcount ix" using pair_env [OF pr] by (simp add: env_def)
  have small: "as @ bs \<noteq> []" "length (as @ bs) < 1000" using ne n max_le(2) [of "kind_of ix"] by auto
  have step: "reading (new_internal p1 k1 (roots as @ roots bs)) ?f ix = ?f ?N ix"
    by (rule reading_stored [OF st w hb, unfolded map_append, THEN trans]) (simp only: map_append)
  have fits: "node_fits_page ?N ix = Inr (length (as @ bs) \<le> Suc ?m)" by (rule fits_internal [OF w small])
  show ?thesis
  proof (cases "length (as @ bs) \<le> Suc ?m")
    case False
    then have "4 \<le> length (as @ bs)" using max_ge(2) [of "kind_of ix"] by simp
    from redistribute_internal_ok [OF pr ne w this n, of ka kb ks] False
    show ?thesis unfolding step by (simp add: bindS_askE [where h = "node_fits_page _", OF fits [unfolded map_append]])
  next
    case True
    obtain ix1 where i1: "write_node ?N ix = (Inr (), ix1)" "same ix ix1"
      "family ix1 c p (ls @ [PN p1 (as @ bs)] @ rs) k (Suc h) S"
      using pair_merge_internal [OF pr ne w True] by blast
    let ?ts = "ls @ [PN p1 (as @ bs)] @ rs"
    have "?ts \<noteq> []" "length ?ts \<le> Suc (max_internal_key_count (kind_of ix1))"
      using pr same_kind [OF i1(2)] by (simp_all add: pair_def)
    with rp i1(3) have "yields ix1 0 (cl c @ conts ?ts @ cr c)
        (handle_internal_after_child_removed (new_internal p ks' (roots ?ts)) (p # cpath c) ix1)"
      unfolding repairable_def by blast
    from yields_reach [OF same_reach [OF i1(2)] this, of 0 0] True show ?thesis
      unfolding step
      by (simp add: bindS_askE [where h = "node_fits_page _", OF fits [unfolded map_append]]
          reading_stored [OF st w hb, unfolded map_append]
          bindS_Inr [where m = "write_node _", OF i1(1) [unfolded map_append]])
  qed
qed

lemma min_le: "min_leaf_key_count kk \<le> max_leaf_key_count kk" "min_internal_key_count kk \<le> max_internal_key_count kk"
  "3 \<le> min_leaf_key_count kk" "3 \<le> min_internal_key_count kk"
  using max_ge [of kk] by (auto simp: min_leaf_key_count_def min_internal_key_count_def)

lemma erase_child_left: "erase_at (Suc (length ls)) (roots ls @ q # p # zs) = roots ls @ q # zs"
  using erase_at_append [of "roots ls @ [q]" p zs] by simp

definition small_node :: "bindex \<Rightarrow> frame list \<Rightarrow> 64 word \<Rightarrow> ptree list \<Rightarrow> index_key \<Rightarrow> nat
    \<Rightarrow> 64 word set \<Rightarrow> bool" where
  "small_node ix c p ts k h S \<longleftrightarrow> family ix c p ts k h S \<and> ts \<noteq> []
     \<and> length ts \<le> min_internal_key_count (kind_of ix)"

text \<open>What a small node can do with its right sibling, and with its left one.\<close>

lemma internal_right_ok:
  assumes rp: "repairable c" and sm: "small_node ix ((pp, ls, PN q us # rs) # c) p ts k h S"
    and X: "X = cl c @ conts ls @ conts ts @ conts us @ conts rs @ cr c"
  shows "nodes ix q = Some (new_internal q (seps us) (roots us))"
    and "2 \<le> length us"
    and "min_internal_key_count (kind_of ix) < length us - 1 \<Longrightarrow>
      yields ix 0 X (borrow_child (new_internal p k1 (roots ts @ [root_of (hd us)])) (new_internal q k2 (roots (tl us)))
        (new_internal pp ks (roots ls @ p # q # roots rs)) (pp # cpath c) ix)"
    and "yields ix 0 X (reading (new_internal p k1 (roots ts @ roots us)) (\<lambda>merged.
      bindS (askE (node_fits_page merged)) (\<lambda>fits.
      if \<not> fits then redistribute_internal_pair (new_internal p ka (roots ts)) (new_internal q kb (roots us))
        (new_internal pp ks (roots ls @ p # q # roots rs)) (pp # cpath c)
      else reading merged (\<lambda>l. bindS (write_node l) (\<lambda>_.
        handle_internal_after_child_removed (new_internal pp ks' (roots ls @ p # roots rs)) (pp # cpath c))))) ix)"
proof -
  have f: "family ix ((pp, ls, PN q us # rs) # c) p ts k h S" and ne: "ts \<noteq> []"
    and n: "length ts \<le> min_internal_key_count (kind_of ix)" using sm by (simp_all add: small_node_def)
  obtain S' where b: "2 \<le> length us" "length us \<le> Suc (max_internal_key_count (kind_of ix))"
    "\<forall>t \<in> set (ts @ us). wft (kind_of ix) h t" "nodes ix q = Some (new_internal q (seps us) (roots us))"
    "pair ix c pp ls (PN p ts) (PN q us) rs (lmk ls k) (Suc h) S'"
    using sibling_right [OF f ne] by auto
  then show "nodes ix q = Some (new_internal q (seps us) (roots us))" "2 \<le> length us" by blast+
  obtain u us' where us: "us = u # us'" "us' \<noteq> []" using b(1) by (cases us; cases "tl us") auto
  note mm = min_le(2,4) [of "kind_of ix"]
  show "yields ix 0 X (borrow_child (new_internal p k1 (roots ts @ [root_of (hd us)])) (new_internal q k2 (roots (tl us)))
        (new_internal pp ks (roots ls @ p # q # roots rs)) (pp # cpath c) ix)"
    if "min_internal_key_count (kind_of ix) < length us - 1"
    using borrow_child_ok [OF b(5) ne _ _ b(3), of "ts @ [u]" us' k1 k2 ks] that n mm b(2) ne us X
    by (cases ts) auto
  have "length (ts @ us) \<le> 2 * Suc (max_internal_key_count (kind_of ix))" using n mm b(2) by simp
  from merge_internal_ok [OF rp b(5) ne _ b(3) this, of k1 ka kb ks ks'] us(1) X
  show "yields ix 0 X (reading (new_internal p k1 (roots ts @ roots us)) (\<lambda>merged.
      bindS (askE (node_fits_page merged)) (\<lambda>fits.
      if \<not> fits then redistribute_internal_pair (new_internal p ka (roots ts)) (new_internal q kb (roots us))
        (new_internal pp ks (roots ls @ p # q # roots rs)) (pp # cpath c)
      else reading merged (\<lambda>l. bindS (write_node l) (\<lambda>_.
        handle_internal_after_child_removed (new_internal pp ks' (roots ls @ p # roots rs)) (pp # cpath c))))) ix)"
    by simp
qed

lemma internal_left_ok:
  assumes rp: "repairable c" and sm: "small_node ix ((pp, ls @ [PN q us], rs) # c) p ts k h S"
    and X: "X = cl c @ conts ls @ conts us @ conts ts @ conts rs @ cr c"
  shows "nodes ix q = Some (new_internal q (seps us) (roots us))"
    and "2 \<le> length us"
    and "min_internal_key_count (kind_of ix) < length us - 1 \<Longrightarrow>
      yields ix 0 X (borrow_child (new_internal q k1 (roots (butlast us))) (new_internal p k2 (root_of (last us) # roots ts))
        (new_internal pp ks (roots ls @ q # p # roots rs)) (pp # cpath c) ix)"
    and "yields ix 0 X (reading (new_internal q k1 (roots us @ roots ts)) (\<lambda>merged.
      bindS (askE (node_fits_page merged)) (\<lambda>fits.
      if \<not> fits then redistribute_internal_pair (new_internal q ka (roots us)) (new_internal p kb (roots ts))
        (new_internal pp ks (roots ls @ q # p # roots rs)) (pp # cpath c)
      else reading merged (\<lambda>l. bindS (write_node l) (\<lambda>_.
        handle_internal_after_child_removed (new_internal pp ks' (roots ls @ q # roots rs)) (pp # cpath c))))) ix)"
proof -
  have f: "family ix ((pp, ls @ [PN q us], rs) # c) p ts k h S" and ne: "ts \<noteq> []"
    and n: "length ts \<le> min_internal_key_count (kind_of ix)" using sm by (simp_all add: small_node_def)
  obtain S' where b: "2 \<le> length us" "length us \<le> Suc (max_internal_key_count (kind_of ix))"
    "\<forall>t \<in> set (us @ ts). wft (kind_of ix) h t" "nodes ix q = Some (new_internal q (seps us) (roots us))"
    "pair ix c pp ls (PN q us) (PN p ts) rs (lmk ls (mink (PN q us))) (Suc h) S'"
    using sibling_left [OF f ne] by auto
  then show "nodes ix q = Some (new_internal q (seps us) (roots us))" "2 \<le> length us" by blast+
  obtain us' u where us: "us = us' @ [u]" using b(1) by (cases us rule: rev_cases) auto
  note mm = min_le(2,4) [of "kind_of ix"]
  show "yields ix 0 X (borrow_child (new_internal q k1 (roots (butlast us))) (new_internal p k2 (root_of (last us) # roots ts))
        (new_internal pp ks (roots ls @ q # p # roots rs)) (pp # cpath c) ix)"
    if "min_internal_key_count (kind_of ix) < length us - 1"
    using borrow_child_ok [OF b(5) _ ne _ b(3), of us' "u # ts" k1 k2 ks] that n mm b(2) ne us X
    by (cases ts) auto
  have "length (us @ ts) \<le> 2 * Suc (max_internal_key_count (kind_of ix))" using n mm b(2) by simp
  from merge_internal_ok [OF rp b(5) _ ne b(3) this, of k1 ka kb ks ks'] us(1) X
  show "yields ix 0 X (reading (new_internal q k1 (roots us @ roots ts)) (\<lambda>merged.
      bindS (askE (node_fits_page merged)) (\<lambda>fits.
      if \<not> fits then redistribute_internal_pair (new_internal q ka (roots us)) (new_internal p kb (roots ts))
        (new_internal pp ks (roots ls @ q # p # roots rs)) (pp # cpath c)
      else reading merged (\<lambda>l. bindS (write_node l) (\<lambda>_.
        handle_internal_after_child_removed (new_internal pp ks' (roots ls @ q # roots rs)) (pp # cpath c))))) ix)"
    by simp
qed

text \<open>What the code reads when it looks at a small internal node and its parent.\<close>

lemma small_node_reads:
  assumes sm: "small_node ix ((pp, ls, rs) # c) p ts k h S"
  shows "\<exists>ks. read_node pp ix = Inr (new_internal pp ks (roots ls @ p # roots rs))"
    and "index_of p (roots ls @ p # roots rs) = Some (length ls)"
    and "root_page_id (bx_meta ix) \<noteq> p"
    and "ls \<noteq> [] \<or> rs \<noteq> []"
    and "\<forall>t \<in> set ls \<union> set rs. \<exists>q us. t = PN q us"
proof -
  have f: "family ix ((pp, ls, rs) # c) p ts k h S" using sm by (simp add: small_node_def)
  then have e: "env ix ((pp, ls, rs) # c) p (nxt_of ts p) k (Suc h) S" and p: "p \<in> S"
    by (simp_all add: family_def)
  note pop = env_pop [OF e]
  show "\<exists>ks. read_node pp ix = Inr (new_internal pp ks (roots ls @ p # roots rs))"
    using read_node_nodes [OF pop(2)] by blast
  have "p \<notin> set (roots ls)" using p pop(10) roots_in_pidl [of ls] by auto
  then show "index_of p (roots ls @ p # roots rs) = Some (length ls)" by (metis index_of_middle length_map)
  have "root_page_id (bx_meta ix) = last (p # cpath ((pp, ls, rs) # c))" using e unfolding env_def by blast
  then have "root_page_id (bx_meta ix) \<in> set (cpath ((pp, ls, rs) # c))"
    using last_in_set [of "pp # cpath c"] by simp
  then have "root_page_id (bx_meta ix) \<in> set (cpids ((pp, ls, rs) # c))" using wfc_cpath_in by blast
  then show "root_page_id (bx_meta ix) \<noteq> p" using env_disjoint [OF e] p by blast
  show "ls \<noteq> [] \<or> rs \<noteq> []" using pop(7) by auto
  have "wft (kind_of ix) (Suc h) t \<Longrightarrow> \<exists>q us. t = PN q us" for t by (cases t) auto
  then show "\<forall>t \<in> set ls \<union> set rs. \<exists>q us. t = PN q us" using pop(5,6) by blast
qed

lemma fix_internal_ok:
  assumes rp: "repairable c" and sm: "small_node ix ((pp, ls, rs) # c) p ts k h S"
  shows "yields ix 0 (cl c @ conts ls @ conts ts @ conts rs @ cr c)
    (fix_internal_underflow (new_internal p (seps ts) (roots ts)) (p # pp # cpath c) ix)"
proof -
  note r = small_node_reads [OF sm]
  obtain ks where rd: "read_node pp ix = Inr (new_internal pp ks (roots ls @ p # roots rs))" using r(1) by blast
  have kk: "meta_key_kind (bx_meta ix) = kind_of ix" by (simp add: kind_of_def)
  note run = fix_internal_underflow.simps bindS_askE [where h = "read_node pp"] r(3) [symmetric] kk Let_def
    nth_append
  show ?thesis
  proof (cases ls rule: rev_cases)
    case Nil
    then obtain q us rs' where rs: "rs = PN q us # rs'" using r(4,5) by (cases rs) auto
    note ro = internal_right_ok [OF rp sm [unfolded rs Nil] refl]
    have "us \<noteq> []" using ro(2) by auto
    then show ?thesis
      using ro(3) [of "seps ts" "seps us" ks] ro(4) [of "seps ts" "seps ts" "seps us" ks]
        rd [unfolded Nil rs] r(2) [unfolded Nil rs] unfolding Nil rs
      by (simp add: run bindS_askE [where h = "read_node q", OF read_node_nodes [OF ro(1)]] map_tl hd_map
          erase_child_left [of "[]", simplified] cong: if_cong)
  next
    case (snoc ls' b)
    obtain q us where b: "b = PN q us" using r(5) snoc by auto
    note lo = internal_left_ok [OF rp sm [unfolded snoc b] refl]
    have us: "us \<noteq> []" using lo(2) by auto
    show ?thesis
    proof (cases rs)
      case Nil
      show ?thesis
        using us lo(3) [of "seps us" "seps ts" ks] lo(4) [of "seps us" "seps us" "seps ts" ks]
          rd [unfolded snoc b Nil] r(2) [unfolded snoc b Nil] unfolding snoc b Nil
        by (simp add: run bindS_askE [where h = "read_node q", OF read_node_nodes [OF lo(1)]]
            map_butlast last_map erase_child_left cong: if_cong)
    next
      case (Cons d rs')
      obtain q2 us2 where d: "d = PN q2 us2" using r(5) Cons by auto
      note ro = internal_right_ok [OF rp sm [unfolded snoc b Cons d] refl]
      have "us2 \<noteq> []" using ro(2) by auto
      then show ?thesis
        using us lo(3) [of "seps us" "seps ts" ks] lo(4) [of "seps us" "seps us" "seps ts" ks]
          ro(3) [of "seps ts" "seps us2" ks] rd [unfolded snoc b Cons d] r(2) [unfolded snoc b Cons d]
        unfolding snoc b Cons d
        by (simp add: run bindS_askE [where h = "read_node q", OF read_node_nodes [OF lo(1)]]
            bindS_askE [where h = "read_node q2", OF read_node_nodes [OF ro(1)]]
            map_butlast last_map map_tl hd_map erase_child_left cong: if_cong)
    qed
  qed
qed

lemma promote_ok:
  assumes f: "family ix [] p [t] k h S"
  shows "yields ix 0 (cont t) (promote_single_child_root (new_internal p ks [root_of t]) ix)"
proof -
  have e: "env ix [] p (fl t) k (Suc h) S" and st: "stored (nodes ix) t INVALID_PAGE_ID"
    and w: "wft (kind_of ix) h t" and d: "distinct (pids t)" "set (pids t) \<subseteq> S"
    using f by (simp_all add: family_def)
  have rd: "read_node (root_of t) ix = Inr (rnode t INVALID_PAGE_ID)"
    using st read_node_nodes by (simp add: stored_kids)
  let ?m = "(bx_meta ix)\<lparr>root_page_id := root_of t,
      tree_height := (if tree_height (bx_meta ix) > 1 then tree_height (bx_meta ix) - 1 else 1)\<rparr>"
  let ?ix1 = "ix\<lparr>bx_meta := ?m\<rparr>" and ?ix2 = "ix\<lparr>bx_meta := ?m\<lparr>first_leaf_page_id := fl t\<rparr>\<rparr>"
  have th: "unat (tree_height (bx_meta ix)) = Suc (Suc h)" "h < 50" "Suc h \<le> pcount ix"
    using e by (simp_all add: env_def)
  then have th1: "unat (if tree_height (bx_meta ix) > 1 then tree_height (bx_meta ix) - 1 else 1) = Suc h"
    by (simp add: word_less_nat_alt unat_sub word_le_nat_alt)
  have same1: "nodes ?ix1 = nodes ix" "nodes ?ix2 = nodes ix" "kind_of ?ix2 = kind_of ix" "pcount ?ix1 = pcount ix"
    by (simp_all add: nodes_def kind_of_def pcount_def)
  have st1: "stored (nodes ?ix1) t INVALID_PAGE_ID" unfolding same1 by (rule st)
  have "h \<le> pcount ?ix1" using th(3) same1(4) by simp
  note ll = leftmost_leaf_page_id_stored [OF st1 w this]
  have run: "promote_single_child_root (new_internal p ks [root_of t]) ix = (Inr (), ?ix2)"
  proof (cases t)
    case (PL q kvs)
    then show ?thesis using rd
      by (simp add: promote_single_child_root_def bindS_askE [where h = "read_node q"] set_meta_def)
  next
    case (PN q ts)
    then show ?thesis using rd ll
      by (simp add: promote_single_child_root_def bindS_askE [where h = "read_node q"] set_meta_def
          bindS_askE [where h = "leftmost_leaf_page_id q"])
  qed
  have "disk_ok (bx_disk ix)" "\<forall>p \<in> set (pids t). unat p < pcount ix" using e d(2) by (auto simp: env_def)
  then have "good ?ix2 h t" using st w d(1) th1 same1 by (simp add: good_def pcount_def)
  moreover have "reach ix 0 ?ix2" by (simp add: reach_def kind_of_def pcount_def)
  ultimately have "yields ix 0 (cont t) (Inr (), ?ix2)" by (intro yieldsI) auto
  with run show ?thesis by simp
qed

lemma repairable_all: "repairable c"
proof (induction c)
  case Nil
  show ?case unfolding repairable_def
  proof (intro allI impI, elim conjE)
    fix ix p ts k k1 h S
    assume f: "family ix [] p ts k h S" and ts: "ts \<noteq> []" "length ts \<le> Suc (max_internal_key_count (kind_of ix))"
    have e: "env ix [] p (nxt_of ts p) k (Suc h) S" using f by (simp add: family_def)
    then have r: "root_page_id (bx_meta ix) = p" by (simp add: env_def)
    have run: "handle_internal_after_child_removed (new_internal p k1 (roots ts)) [p] ix
      = (if length ts = 1 then promote_single_child_root (new_internal p (seps ts) (roots ts))
         else write_node (new_internal p (seps ts) (roots ts))) ix"
      using r by (simp add: handle_internal_after_child_removed.simps family_reading [OF f])
    show "yields ix 0 (cl [] @ conts ts @ cr [])
        (handle_internal_after_child_removed (new_internal p k1 (roots ts)) (p # cpath []) ix)"
    proof (cases "length ts = 1")
      case True
      then obtain t where t: "ts = [t]" by (auto simp: length_Suc_conv)
      with promote_ok [of ix p t k h S "seps [t]"] f run show ?thesis by simp
    next
      case False
      then have two: "2 \<le> length ts" using ts(1) by (cases ts; cases "tl ts") auto
      have f': "family ix [] p ts (mink (hd ts)) h S"
        using f env_key [OF e, of "mink (hd ts)"] by (simp add: family_def)
      from family_done [OF f' two ts(2)] False run show ?thesis by simp
    qed
  qed
next
  case (Cons fr c)
  obtain pp ls rs where fr: "fr = (pp, ls, rs)" by (cases fr)
  show ?case unfolding repairable_def
  proof (intro allI impI, elim conjE)
    fix ix p ts k k1 h S
    assume f0: "family ix (fr # c) p ts k h S" and ts: "ts \<noteq> []" "length ts \<le> Suc (max_internal_key_count (kind_of ix))"
    note f = f0 [unfolded fr]
    let ?N = "new_internal p (seps ts) (roots ts)"
    let ?min = "min_internal_key_count (kind_of ix)"
    have "env ix ((pp, ls, rs) # c) p (nxt_of ts p) k (Suc h) S" "p \<in> S" using f by (simp_all add: family_def)
    then have "root_page_id (bx_meta ix) = last (p # pp # cpath c)" "p \<notin> set (cpids ((pp, ls, rs) # c))"
      using env_disjoint by (auto simp: env_def)
    then have r: "p \<noteq> root_page_id (bx_meta ix)"
      using wfc_cpath_in [of "(pp, ls, rs) # c"] last_in_set [of "pp # cpath c"] by auto
    have kk: "meta_key_kind (bx_meta ix) = kind_of ix" by (simp add: kind_of_def)
    have run: "handle_internal_after_child_removed (new_internal p k1 (roots ts)) (p # pp # cpath c) ix
      = (if length ts - 1 < ?min then fix_internal_underflow ?N (p # pp # cpath c)
         else bindS (write_node ?N) (\<lambda>_. propagate_subtree_min_change p (p # pp # cpath c))) ix"
      using r kk by (simp add: handle_internal_after_child_removed.simps family_reading [OF f])
    show "yields ix 0 (cl (fr # c) @ conts ts @ cr (fr # c))
        (handle_internal_after_child_removed (new_internal p k1 (roots ts)) (p # cpath (fr # c)) ix)"
    proof (cases "length ts - 1 < ?min")
      case True
      then have "small_node ix ((pp, ls, rs) # c) p ts k h S" using f ts(1) by (simp add: small_node_def)
      from fix_internal_ok [OF Cons.IH this] True run show ?thesis by (simp add: fr)
    next
      case False
      then have two: "2 \<le> length ts" using min_le(4) [of "kind_of ix"] by simp
      from family_propagated [OF f two ts(2)] False run show ?thesis by (simp add: fr)
    qed
  qed
qed

subsection \<open>Leaves\<close>

lemma append_leaf_eq: "append_leaf (leaf_node p1 n1 kv1) (leaf_node p2 n2 kv2) = leaf_node p1 n2 (kv1 @ kv2)"
  by (simp add: append_leaf_def leaf_node_def new_leaf_def)

lemma merge_leaf_ok:
  assumes pr: "pair ix c p ls (PL p1 kv1) (PL p2 kv2) rs k 0 S" and ne: "kv1 @ kv2 \<noteq> []"
    and w: "\<forall>kv \<in> set (kv1 @ kv2). key_ok (kind_of ix) (fst kv)" and s: "ksorted (kv1 @ kv2)"
    and n: "length (kv1 @ kv2) \<le> 2 * max_leaf_key_count (kind_of ix)"
  shows "yields ix 0 (cl c @ conts ls @ kv1 @ kv2 @ conts rs @ cr c)
    (bindS (askE (node_fits_page (leaf_node p1 (nxt_of rs (cnx c)) (kv1 @ kv2)))) (\<lambda>fits.
      if \<not> fits then redistribute_leaf_pair (leaf_node p1 n1 kv1) (leaf_node p2 (nxt_of rs (cnx c)) kv2)
        (new_internal p ks (roots ls @ p1 # p2 # roots rs)) (p # cpath c)
      else bindS (set_meta (\<lambda>m. if first_leaf_page_id m = p2 then m\<lparr>first_leaf_page_id := p1\<rparr> else m)) (\<lambda>_.
        bindS (write_node (leaf_node p1 (nxt_of rs (cnx c)) (kv1 @ kv2))) (\<lambda>_.
        handle_internal_after_child_removed (new_internal p ks' (roots ls @ p1 # roots rs)) (p # cpath c)))) ix)"
proof -
  let ?L = "leaf_node p1 (nxt_of rs (cnx c)) (kv1 @ kv2)" and ?m = "max_leaf_key_count (kind_of ix)"
  have "length (kv1 @ kv2) < 1000" using n max_le(1) [of "kind_of ix"] by simp
  note fits = fits_leaf [OF w this, of p1 "nxt_of rs (cnx c)"]
  show ?thesis
  proof (cases "length (kv1 @ kv2) \<le> ?m")
    case False
    then have "2 \<le> length (kv1 @ kv2)" using max_ge(1) [of "kind_of ix"] by simp
    from redistribute_leaf_ok [OF pr w s this n, of n1 ks] False show ?thesis
      by (simp add: bindS_askE [where h = "node_fits_page _", OF fits])
  next
    case True
    let ?ts = "ls @ [PL p1 (kv1 @ kv2)] @ rs"
    obtain ix1 where i1: "write_node ?L ix = (Inr (), ix1)" "same ix ix1" "family ix1 c p ?ts k 0 S"
      using pair_merge_leaf [OF pr ne w True] by blast
    have "?ts \<noteq> []" "length ?ts \<le> Suc (max_internal_key_count (kind_of ix1))"
      using pr same_kind [OF i1(2)] by (simp_all add: pair_def)
    with i1(3) have "yields ix1 0 (cl c @ conts ?ts @ cr c)
        (handle_internal_after_child_removed (new_internal p ks' (roots ?ts)) (p # cpath c) ix1)"
      using repairable_all [of c] unfolding repairable_def by blast
    from yields_reach [OF same_reach [OF i1(2)] this, of 0 0] True pair_first [OF pr]
    show ?thesis
      by (simp add: bindS_askE [where h = "node_fits_page _", OF fits] set_meta_def
          bindS_Inr [where m = "write_node _", OF i1(1)])
  qed
qed

definition small_leaf :: "bindex \<Rightarrow> frame list \<Rightarrow> 64 word \<Rightarrow> (index_key \<times> 64 word) list \<Rightarrow> index_key \<Rightarrow> bool" where
  "small_leaf ix c p kvs k \<longleftrightarrow> env ix c p p k 0 {p} \<and> length kvs < min_leaf_key_count (kind_of ix)
     \<and> (\<forall>kv \<in> set kvs. key_ok (kind_of ix) (fst kv)) \<and> ksorted (cl c @ kvs @ cr c)"

lemma leaf_right_ok:
  assumes sm: "small_leaf ix ((pp, ls, PL q kv2 # rs) # c) p kvs k"
    and X: "X = cl c @ conts ls @ kvs @ kv2 @ conts rs @ cr c"
  shows "nodes ix q = Some (leaf_node q (nxt_of rs (cnx c)) kv2)" and "kv2 \<noteq> []"
    and "min_leaf_key_count (kind_of ix) < length kv2 \<Longrightarrow>
      yields ix 0 X (borrow_entry (leaf_node p q (kvs @ [hd kv2])) (leaf_node q (nxt_of rs (cnx c)) (tl kv2))
        (new_internal pp ks (roots ls @ p # q # roots rs)) (pp # cpath c) ix)"
    and "yields ix 0 X
    (bindS (askE (node_fits_page (leaf_node p (nxt_of rs (cnx c)) (kvs @ kv2)))) (\<lambda>fits.
      if \<not> fits then redistribute_leaf_pair (leaf_node p q kvs) (leaf_node q (nxt_of rs (cnx c)) kv2)
        (new_internal pp ks (roots ls @ p # q # roots rs)) (pp # cpath c)
      else bindS (set_meta (\<lambda>m. if first_leaf_page_id m = q then m\<lparr>first_leaf_page_id := p\<rparr> else m)) (\<lambda>_.
        bindS (write_node (leaf_node p (nxt_of rs (cnx c)) (kvs @ kv2))) (\<lambda>_.
        handle_internal_after_child_removed (new_internal pp ks' (roots ls @ p # roots rs)) (pp # cpath c)))) ix)"
proof -
  have e: "env ix ((pp, ls, PL q kv2 # rs) # c) p p k 0 {p}" and n: "length kvs < min_leaf_key_count (kind_of ix)"
    and w: "\<forall>kv \<in> set kvs. key_ok (kind_of ix) (fst kv)" and s: "ksorted (cl c @ conts ls @ kvs @ kv2 @ conts rs @ cr c)"
    using sm by (simp_all add: small_leaf_def)
  obtain S' where b: "kv2 \<noteq> []" "length kv2 \<le> max_leaf_key_count (kind_of ix)"
    "\<forall>kv \<in> set kv2. key_ok (kind_of ix) (fst kv)" "nodes ix q = Some (leaf_node q (nxt_of rs (cnx c)) kv2)"
    "pair ix c pp ls (PL p kvs) (PL q kv2) rs (lmk ls k) 0 S'"
    using leaf_right [OF e, of kvs] by auto
  then show "nodes ix q = Some (leaf_node q (nxt_of rs (cnx c)) kv2)" "kv2 \<noteq> []" by blast+
  obtain x xs where kv2: "kv2 = x # xs" using b(1) by (cases kv2) auto
  note mm = min_le(1,3) [of "kind_of ix"]
  have w2: "\<forall>kv \<in> set (kvs @ kv2). key_ok (kind_of ix) (fst kv)" using w b(3) by auto
  show "yields ix 0 X (borrow_entry (leaf_node p q (kvs @ [hd kv2])) (leaf_node q (nxt_of rs (cnx c)) (tl kv2))
        (new_internal pp ks (roots ls @ p # q # roots rs)) (pp # cpath c) ix)"
    if "min_leaf_key_count (kind_of ix) < length kv2"
  proof -
    have "xs \<noteq> []" using that mm kv2 by auto
    with leaf_pair_propagated [OF b(5), of "kvs @ [x]" xs ks] show ?thesis
      using n mm b(2) w2 kv2 X by auto
  qed
  have "ksorted (kvs @ kv2)" using s by (simp add: ksorted_append)
  moreover have "kvs @ kv2 \<noteq> []" "length (kvs @ kv2) \<le> 2 * max_leaf_key_count (kind_of ix)"
    using b(1,2) n mm by simp_all
  ultimately show "yields ix 0 X
    (bindS (askE (node_fits_page (leaf_node p (nxt_of rs (cnx c)) (kvs @ kv2)))) (\<lambda>fits.
      if \<not> fits then redistribute_leaf_pair (leaf_node p q kvs) (leaf_node q (nxt_of rs (cnx c)) kv2)
        (new_internal pp ks (roots ls @ p # q # roots rs)) (pp # cpath c)
      else bindS (set_meta (\<lambda>m. if first_leaf_page_id m = q then m\<lparr>first_leaf_page_id := p\<rparr> else m)) (\<lambda>_.
        bindS (write_node (leaf_node p (nxt_of rs (cnx c)) (kvs @ kv2))) (\<lambda>_.
        handle_internal_after_child_removed (new_internal pp ks' (roots ls @ p # roots rs)) (pp # cpath c)))) ix)"
    using merge_leaf_ok [OF b(5) _ w2] unfolding X by blast
qed

lemma leaf_left_ok:
  assumes sm: "small_leaf ix ((pp, ls @ [PL q kv1], rs) # c) p kvs k"
    and X: "X = cl c @ conts ls @ kv1 @ kvs @ conts rs @ cr c"
  shows "nodes ix q = Some (leaf_node q p kv1)" and "kv1 \<noteq> []"
    and "min_leaf_key_count (kind_of ix) < length kv1 \<Longrightarrow>
      yields ix 0 X (borrow_entry (leaf_node q p (butlast kv1)) (leaf_node p (nxt_of rs (cnx c)) (last kv1 # kvs))
        (new_internal pp ks (roots ls @ q # p # roots rs)) (pp # cpath c) ix)"
    and "yields ix 0 X
    (bindS (askE (node_fits_page (leaf_node q (nxt_of rs (cnx c)) (kv1 @ kvs)))) (\<lambda>fits.
      if \<not> fits then redistribute_leaf_pair (leaf_node q p kv1) (leaf_node p (nxt_of rs (cnx c)) kvs)
        (new_internal pp ks (roots ls @ q # p # roots rs)) (pp # cpath c)
      else bindS (set_meta (\<lambda>m. if first_leaf_page_id m = p then m\<lparr>first_leaf_page_id := q\<rparr> else m)) (\<lambda>_.
        bindS (write_node (leaf_node q (nxt_of rs (cnx c)) (kv1 @ kvs))) (\<lambda>_.
        handle_internal_after_child_removed (new_internal pp ks' (roots ls @ q # roots rs)) (pp # cpath c)))) ix)"
proof -
  have e: "env ix ((pp, ls @ [PL q kv1], rs) # c) p p k 0 {p}" and n: "length kvs < min_leaf_key_count (kind_of ix)"
    and w: "\<forall>kv \<in> set kvs. key_ok (kind_of ix) (fst kv)" and s: "ksorted (cl c @ conts ls @ kv1 @ kvs @ conts rs @ cr c)"
    using sm by (simp_all add: small_leaf_def)
  obtain S' where b: "kv1 \<noteq> []" "length kv1 \<le> max_leaf_key_count (kind_of ix)"
    "\<forall>kv \<in> set kv1. key_ok (kind_of ix) (fst kv)" "nodes ix q = Some (leaf_node q p kv1)"
    "pair ix c pp ls (PL q kv1) (PL p kvs) rs (lmk ls (fst (hd kv1))) 0 S'"
    using leaf_left [OF e, of kvs] by auto
  then show "nodes ix q = Some (leaf_node q p kv1)" "kv1 \<noteq> []" by blast+
  obtain xs x where kv1: "kv1 = xs @ [x]" using b(1) by (cases kv1 rule: rev_cases) auto
  note mm = min_le(1,3) [of "kind_of ix"]
  have w2: "\<forall>kv \<in> set (kv1 @ kvs). key_ok (kind_of ix) (fst kv)" using w b(3) by auto
  show "yields ix 0 X (borrow_entry (leaf_node q p (butlast kv1)) (leaf_node p (nxt_of rs (cnx c)) (last kv1 # kvs))
        (new_internal pp ks (roots ls @ q # p # roots rs)) (pp # cpath c) ix)"
    if "min_leaf_key_count (kind_of ix) < length kv1"
  proof -
    have "xs \<noteq> []" using that mm kv1 by auto
    with leaf_pair_propagated [OF b(5), of xs "x # kvs" ks] show ?thesis
      using n mm b(2) w2 kv1 X by auto
  qed
  have "ksorted (kv1 @ kvs)" using s by (simp add: ksorted_append)
  moreover have "kv1 @ kvs \<noteq> []" "length (kv1 @ kvs) \<le> 2 * max_leaf_key_count (kind_of ix)"
    using b(1,2) n mm by simp_all
  ultimately show "yields ix 0 X
    (bindS (askE (node_fits_page (leaf_node q (nxt_of rs (cnx c)) (kv1 @ kvs)))) (\<lambda>fits.
      if \<not> fits then redistribute_leaf_pair (leaf_node q p kv1) (leaf_node p (nxt_of rs (cnx c)) kvs)
        (new_internal pp ks (roots ls @ q # p # roots rs)) (pp # cpath c)
      else bindS (set_meta (\<lambda>m. if first_leaf_page_id m = p then m\<lparr>first_leaf_page_id := q\<rparr> else m)) (\<lambda>_.
        bindS (write_node (leaf_node q (nxt_of rs (cnx c)) (kv1 @ kvs))) (\<lambda>_.
        handle_internal_after_child_removed (new_internal pp ks' (roots ls @ q # roots rs)) (pp # cpath c)))) ix)"
    using merge_leaf_ok [OF b(5) _ w2] unfolding X by blast
qed

lemma small_leaf_reads:
  assumes sm: "small_leaf ix ((pp, ls, rs) # c) p kvs k"
  shows "\<exists>ks. read_node pp ix = Inr (new_internal pp ks (roots ls @ p # roots rs))"
    and "index_of p (roots ls @ p # roots rs) = Some (length ls)"
    and "root_page_id (bx_meta ix) \<noteq> p"
    and "ls \<noteq> [] \<or> rs \<noteq> []"
    and "\<forall>t \<in> set ls \<union> set rs. \<exists>q kvs. t = PL q kvs"
proof -
  have e: "env ix ((pp, ls, rs) # c) p p k 0 {p}" using sm by (simp add: small_leaf_def)
  note pop = env_pop [OF e]
  show "\<exists>ks. read_node pp ix = Inr (new_internal pp ks (roots ls @ p # roots rs))"
    using read_node_nodes [OF pop(2)] by blast
  have "p \<notin> set (roots ls)" using pop(10) roots_in_pidl [of ls] by auto
  then show "index_of p (roots ls @ p # roots rs) = Some (length ls)" by (metis index_of_middle length_map)
  have "root_page_id (bx_meta ix) = last (p # cpath ((pp, ls, rs) # c))" using e unfolding env_def by blast
  then have "root_page_id (bx_meta ix) \<in> set (cpath ((pp, ls, rs) # c))"
    using last_in_set [of "pp # cpath c"] by simp
  then have "root_page_id (bx_meta ix) \<in> set (cpids ((pp, ls, rs) # c))" using wfc_cpath_in by blast
  then show "root_page_id (bx_meta ix) \<noteq> p" using env_disjoint [OF e] by blast
  show "ls \<noteq> [] \<or> rs \<noteq> []" using pop(7) by auto
  have "wft (kind_of ix) 0 t \<Longrightarrow> \<exists>q kvs. t = PL q kvs" for t by (cases t) auto
  then show "\<forall>t \<in> set ls \<union> set rs. \<exists>q kvs. t = PL q kvs" using pop(5,6) by blast
qed

lemma leaf_node_entries:
  "leaf_node p nx kvs\<lparr>keys := map fst kvs @ [fst x], records := map snd kvs @ [snd x]\<rparr> = leaf_node p nx (kvs @ [x])"
  "leaf_node p nx kvs\<lparr>keys := fst x # map fst kvs, records := snd x # map snd kvs\<rparr> = leaf_node p nx (x # kvs)"
  "leaf_node p nx kvs\<lparr>keys := butlast (map fst kvs), records := butlast (map snd kvs)\<rparr> = leaf_node p nx (butlast kvs)"
  "leaf_node p nx kvs\<lparr>keys := tl (map fst kvs), records := tl (map snd kvs)\<rparr> = leaf_node p nx (tl kvs)"
  by (simp_all add: leaf_node_def new_leaf_def map_butlast map_tl)

lemma fix_leaf_ok:
  assumes sm: "small_leaf ix ((pp, ls, rs) # c) p kvs k"
  shows "yields ix 0 (cl c @ conts ls @ kvs @ conts rs @ cr c)
    (fix_leaf_underflow (leaf_node p (nxt_of rs (cnx c)) kvs) (p # pp # cpath c) ix)"
proof -
  note r = small_leaf_reads [OF sm]
  obtain ks where rd: "read_node pp ix = Inr (new_internal pp ks (roots ls @ p # roots rs))" using r(1) by blast
  have kk: "meta_key_kind (bx_meta ix) = kind_of ix" by (simp add: kind_of_def)
  note run = fix_leaf_underflow_def bindS_askE [where h = "read_node pp"] r(3) [symmetric] kk Let_def
    nth_append append_leaf_eq
  show ?thesis
  proof (cases ls rule: rev_cases)
    case Nil
    then obtain q kv2 rs' where rs: "rs = PL q kv2 # rs'" using r(4,5) by (cases rs) auto
    note ro = leaf_right_ok [OF sm [unfolded rs Nil] refl]
    show ?thesis
      using ro(2) ro(3) [of ks] ro(4) [of ks] rd [unfolded Nil rs] r(2) [unfolded Nil rs] unfolding Nil rs
      by (simp add: run bindS_askE [where h = "read_node q", OF read_node_nodes [OF ro(1)]] leaf_node_entries hd_map
          erase_child_left [of "[]", simplified] cong: if_cong)
  next
    case (snoc ls' b)
    obtain q kv1 where b: "b = PL q kv1" using r(5) snoc by auto
    note lo = leaf_left_ok [OF sm [unfolded snoc b] refl]
    show ?thesis
    proof (cases rs)
      case Nil
      show ?thesis
        using lo(2) lo(3) [of ks] lo(4) [of ks] rd [unfolded snoc b Nil] r(2) [unfolded snoc b Nil] unfolding snoc b Nil
        by (simp add: run bindS_askE [where h = "read_node q", OF read_node_nodes [OF lo(1)]]
            leaf_node_entries last_map erase_child_left cong: if_cong)
    next
      case (Cons d rs')
      obtain q2 kv2 where d: "d = PL q2 kv2" using r(5) Cons by auto
      note ro = leaf_right_ok [OF sm [unfolded snoc b Cons d] refl]
      show ?thesis
        using lo(2) lo(3) [of ks] lo(4) [of ks] ro(2) ro(3) [of ks]
          rd [unfolded snoc b Cons d] r(2) [unfolded snoc b Cons d]
        unfolding snoc b Cons d
        by (simp add: run bindS_askE [where h = "read_node q", OF read_node_nodes [OF lo(1)]]
            bindS_askE [where h = "read_node q2", OF read_node_nodes [OF ro(1)]]
            leaf_node_entries last_map hd_map erase_child_left cong: if_cong)
    qed
  qed
qed

subsection \<open>The operation\<close>

definition del :: "index_key \<Rightarrow> (index_key \<times> 64 word) list \<Rightarrow> (index_key \<times> 64 word) list" where
  "del k kvs = filter (\<lambda>kv. fst kv \<noteq> k) kvs"

lemma del_split:
  assumes "below as k" and "above k bs" shows "del k (as @ (k, v) # bs) = as @ bs"
proof -
  have "filter (\<lambda>kv. fst kv \<noteq> k) as = as" "filter (\<lambda>kv. fst kv \<noteq> k) bs = bs"
    using assms by (auto simp: filter_id_conv)
  then show ?thesis by (simp add: del_def)
qed

text \<open>The leaf of a key that is there, cut at its entry.\<close>

lemma find_entry:
  assumes g: "good ix h t" and s: "ksorted (cont t)" and hit: "key \<in> fst ` set (cont t)"
  shows "\<exists>c p as v bs. t = plug c (PL p (as @ (key, v) # bs)) \<and> length c = h
    \<and> find_leaf key ix = Inr (leaf_node p (cnx c) (as @ (key, v) # bs), p # cpath c)
    \<and> lower_bound (map fst (as @ (key, v) # bs)) key = length as
    \<and> below (cl c @ as) key \<and> above key (bs @ cr c)
    \<and> env ix c p p (fst (hd (as @ (key, v) # bs))) 0 {p}
    \<and> Suc (length (as @ bs)) \<le> max_leaf_key_count (kind_of ix)
    \<and> (\<forall>kv \<in> set (as @ bs). key_ok (kind_of ix) (fst kv))"
proof -
  obtain c p kvs where c: "t = plug c (PL p kvs)" "length c = h"
    "find_leaf key ix = Inr (leaf_node p (cnx c) kvs, p # cpath c)" "below (cl c) key" "above key (cr c)"
    using find_leaf_good [OF g s] by blast
  have "good ix (0 + length c) (plug c (PL p kvs))" using g c by simp
  note eg = env_of_good [OF this]
  have e: "env ix c p p (fst (hd kvs)) 0 {p}" and wf: "length kvs \<le> max_leaf_key_count (kind_of ix)"
    "\<forall>kv \<in> set kvs. key_ok (kind_of ix) (fst kv)" using eg by (simp_all add: mink_def)
  have sk: "ksorted kvs" using s c(1) by (simp add: cont_plug ksorted_append)
  then obtain as bs0 where ab: "kvs = as @ bs0" "lower_bound (map fst kvs) key = length as" "below as key"
    "\<forall>kv \<in> set bs0. key \<le> fst kv" using lower_bound_split by blast
  have "key \<in> fst ` set kvs" using hit c(1,4,5) by (auto simp: cont_plug)
  then have "key \<in> fst ` set bs0" using ab(1,3) by auto
  then obtain b bs where b: "bs0 = b # bs" by (cases bs0) auto
  have "above (fst b) bs" using sk ab(1) b by (simp add: ksorted_append)
  moreover have "key \<le> fst b" using ab(4) b by simp
  ultimately have "fst b = key" "above key bs" using \<open>key \<in> fst ` set bs0\<close> b by fastforce+
  then obtain v where "b = (key, v)" by (cases b) auto
  then show ?thesis using c e wf ab(1-3) b \<open>above key bs\<close>
    by (intro exI [of _ c] exI [of _ p] exI [of _ as] exI [of _ v] exI [of _ bs]) auto
qed

lemma leaf_erased:
  assumes e: "env ix c p p (fst (hd (as @ x # bs))) 0 {p}" and ne: "as @ bs \<noteq> []"
    and n: "length (as @ bs) \<le> max_leaf_key_count (kind_of ix)"
    and w: "\<forall>kv \<in> set (as @ bs). key_ok (kind_of ix) (fst kv)"
  shows "yields ix 0 (cl c @ (as @ bs) @ cr c)
    (bindS (write_node (leaf_node p (cnx c) (as @ bs)))
      (\<lambda>_. if as = [] then propagate_subtree_min_change p (p # cpath c) else retS ()) ix)"
proof -
  let ?N = "leaf_node p (cnx c) (as @ bs)" and ?t = "PL p (as @ bs)"
  obtain ix1 where i1: "write_node ?N ix = (Inr (), ix1)" "same ix ix1" "nodes ix1 = (nodes ix)(p \<mapsto> ?N)"
    using write_node_ok [OF env_disk [OF e], of ?N] env_count [OF e] node_ok_leaf [OF w n] by auto
  have e1: "env ix1 c (root_of ?t) (fl ?t) (fst (hd (as @ x # bs))) 0 {p}"
    using env_write [OF e i1(2,3)] by simp
  have st: "stored (nodes ix1) ?t (cnx c)" using i1(3) by simp
  have wf: "wft (kind_of ix1) 0 ?t" using ne n w same_kind [OF i1(2)] by simp
  show ?thesis
  proof (cases "as = []")
    case True
    obtain ix2 where i2: "propagate_subtree_min_change p (p # cpath c) ix1 = (Inr (), ix2)" "same ix1 ix2"
      "good ix2 (0 + length c) (plug c ?t)"
      using propagate_ok [OF e1 st wf] by auto
    have "yields ix 0 (cl c @ (as @ bs) @ cr c) (Inr (), ix2)"
      by (rule yieldsI [OF i2(3) _ same_reach [OF same_trans [OF i1(2) i2(2)]]]) (simp add: cont_plug)
    then show ?thesis using True i2(1) by (simp add: bindS_Inr [where m = "write_node _", OF i1(1), unfolded True append_Nil])
  next
    case False
    then have e2: "env ix1 c (root_of ?t) (fl ?t) (mink ?t) 0 {p}" using e1 by (simp add: mink_def)
    have g: "good ix1 (0 + length c) (plug c ?t)" using st wf by (intro good_of_env [OF e2]) simp_all
    have "yields ix 0 (cl c @ (as @ bs) @ cr c) (Inr (), ix1)"
      by (rule yieldsI [OF g _ same_reach [OF i1(2)]]) (simp add: cont_plug)
    then show ?thesis using False by (simp add: bindS_Inr [where m = "write_node _", OF i1(1)])
  qed
qed

text \<open>What \<open>erase\<close> runs once the entry has been found and counted off.\<close>

definition erase_rest :: "64 word \<Rightarrow> frame list \<Rightarrow> (index_key \<times> 64 word) list \<Rightarrow> (index_key \<times> 64 word) list
    \<Rightarrow> (bindex, unit) sx" where
  "erase_rest p c as bs ix =
     (if p = root_page_id (bx_meta ix) \<or> min_leaf_key_count (kind_of ix) \<le> length (as @ bs)
      then bindS (write_node (leaf_node p (cnx c) (as @ bs)))
        (\<lambda>_. if as = [] then propagate_subtree_min_change p (p # cpath c) else retS ())
      else fix_leaf_underflow (leaf_node p (cnx c) (as @ bs)) (p # cpath c)) ix"

lemma erase_rest_ok:
  assumes e: "env ix c p p (fst (hd (as @ x # bs))) 0 {p}" and ne: "c = [] \<Longrightarrow> as @ bs \<noteq> []"
    and n: "length (as @ bs) \<le> max_leaf_key_count (kind_of ix)"
    and w: "\<forall>kv \<in> set (as @ bs). key_ok (kind_of ix) (fst kv)" and s: "ksorted (cl c @ (as @ bs) @ cr c)"
  shows "yields ix 0 (cl c @ (as @ bs) @ cr c) (erase_rest p c as bs ix)"
proof (cases "p = root_page_id (bx_meta ix) \<or> min_leaf_key_count (kind_of ix) \<le> length (as @ bs)")
  case True
  have r: "root_page_id (bx_meta ix) = last (p # cpath c)" using e by (simp add: env_def)
  have "as @ bs \<noteq> []"
  proof (cases "c = []")
    case False
    then have "last (p # cpath c) \<in> set (cpath c)" using last_in_set [of "cpath c"] by simp
    then have "last (p # cpath c) \<noteq> p" using wfc_cpath_in [of c] env_disjoint [OF e] by auto
    then show ?thesis using True r min_le(3) [of "kind_of ix"] by auto
  qed (use ne in blast)
  from leaf_erased [OF e this n w] True show ?thesis by (simp add: erase_rest_def)
next
  case False
  have r: "root_page_id (bx_meta ix) = last (p # cpath c)" using e by (simp add: env_def)
  with False obtain fr d where c: "c = fr # d" by (cases c) auto
  obtain pp ls rs where fr: "fr = (pp, ls, rs)" by (cases fr)
  have "small_leaf ix ((pp, ls, rs) # d) p (as @ bs) (fst (hd (as @ x # bs)))"
    using e False w s c fr by (simp add: small_leaf_def)
  from fix_leaf_ok [OF this] False show ?thesis by (simp add: erase_rest_def c fr)
qed

lemma erase_key_run:
  assumes g: "good ix h t" and k: "key_matches_kind key (kind_of ix)"
    and f: "find_leaf key ix = Inr (leaf_node p (cnx c) (as @ (key, v) # bs), p # cpath c)"
    and lb: "lower_bound (map fst (as @ (key, v) # bs)) key = length as"
    and kt: "1 < key_total (bx_meta ix)" and ne: "p = root_page_id (bx_meta ix) \<Longrightarrow> as @ bs \<noteq> []"
  shows "erase_key key ix = bindS (erase_rest p c as bs) (\<lambda>_. bindS save_meta (\<lambda>_. retS True))
    (ix\<lparr>bx_meta := (bx_meta ix)\<lparr>key_total := key_total (bx_meta ix) - 1\<rparr>\<rparr>)"
proof -
  let ?ix = "ix\<lparr>bx_meta := (bx_meta ix)\<lparr>key_total := key_total (bx_meta ix) - 1\<rparr>\<rparr>"
  have v: "validate_key_kind key (kind_of ix) = Inr ()" using k by (simp add: validate_key_kind_def)
  have ea: "erase_at (length as) (map fst as @ key # map fst bs) = map fst as @ map fst bs"
    "erase_at (length as) (map snd as @ v # map snd bs) = map snd as @ map snd bs"
    using erase_at_append [of "map fst as" key "map fst bs"] erase_at_append [of "map snd as" v "map snd bs"] by simp_all
  have e: "leaf_node p (cnx c) (as @ (key, v) # bs)\<lparr>keys := map fst as @ map fst bs, records := map snd as @ map snd bs\<rparr>
      = leaf_node p (cnx c) (as @ bs)" by (simp add: leaf_node_def new_leaf_def)
  have kt': "0 < key_total (bx_meta ix)" "key_total (bx_meta ix) \<noteq> 1" using kt by (auto simp: word_less_nat_alt)
  have hit: "(map fst as @ key # map fst bs) ! length as = key" by (simp add: nth_append)
  have km: "meta_key_kind (bx_meta ix) = kind_of ix" "kind_of ?ix = kind_of ix" by (simp_all add: kind_of_def)
  have lb': "lower_bound (map fst as @ key # map fst bs) key = length as" using lb by simp
  note run = erase_key_def bindS_askE [where h = "\<lambda>ix. validate_key_kind key (kind_of ix)", OF v]
    good_not_empty [OF g] bindS_askE [where h = "find_leaf _", OF f] Let_def lb' hit e ea kt' set_meta_def km
  have same: "bindS m f s = bindS m' f s" if "m s = m' s" for m m' :: "(bindex, unit) sx"
      and f :: "unit \<Rightarrow> (bindex, bool) sx" and s
    using that by (simp add: bindS_def)
  show ?thesis
  proof (cases "p = root_page_id (bx_meta ix) \<or> min_leaf_key_count (kind_of ix) \<le> length (as @ bs)")
    case True
    then have "as @ bs \<noteq> []" using ne min_le(3) [of "kind_of ix"] by auto
    have "erase_rest p c as bs ?ix = bindS (write_node (leaf_node p (cnx c) (as @ bs)))
        (\<lambda>_. if as = [] then propagate_subtree_min_change p (p # cpath c) else retS ()) ?ix"
      using True by (simp add: erase_rest_def km)
    then have "bindS (erase_rest p c as bs) (\<lambda>_. bindS save_meta (\<lambda>_. retS True)) ?ix
      = bindS (bindS (write_node (leaf_node p (cnx c) (as @ bs)))
        (\<lambda>_. if as = [] then propagate_subtree_min_change p (p # cpath c) else retS ()))
        (\<lambda>_. bindS save_meta (\<lambda>_. retS True)) ?ix" by (rule same)
    then show ?thesis using True \<open>as @ bs \<noteq> []\<close> by (simp add: run bindS_assoc cong: if_cong)
  next
    case False
    then have "erase_rest p c as bs ?ix = fix_leaf_underflow (leaf_node p (cnx c) (as @ bs)) (p # cpath c) ?ix"
      by (simp add: erase_rest_def km)
    then have "bindS (erase_rest p c as bs) (\<lambda>_. bindS save_meta (\<lambda>_. retS True)) ?ix
      = bindS (fix_leaf_underflow (leaf_node p (cnx c) (as @ bs)) (p # cpath c))
        (\<lambda>_. bindS save_meta (\<lambda>_. retS True)) ?ix" by (rule same)
    then show ?thesis using False by (simp add: run)
  qed
qed

lemma erase_key_good:
  assumes g: "good ix h t" and s: "ksorted (cont t)" and k: "key_matches_kind key (kind_of ix)"
    and st: "kind_storable (kind_of ix)" and hit: "key \<in> fst ` set (cont t)"
    and kt: "unat (key_total (bx_meta ix)) = length (cont t)" "2 \<le> length (cont t)"
  shows "\<exists>ix' h' t'. erase_key key ix = (Inr True, ix') \<and> good ix' h' t' \<and> cont t' = del key (cont t)
    \<and> kind_of ix' = kind_of ix \<and> key_total (bx_meta ix') = key_total (bx_meta ix) - 1
    \<and> read_metadata (bx_disk ix') = bx_meta ix' \<and> pcount ix' = pcount ix"
proof -
  obtain c p as v bs where c: "t = plug c (PL p (as @ (key, v) # bs))" "length c = h"
    "find_leaf key ix = Inr (leaf_node p (cnx c) (as @ (key, v) # bs), p # cpath c)"
    "lower_bound (map fst (as @ (key, v) # bs)) key = length as"
    "below (cl c @ as) key" "above key (bs @ cr c)" "env ix c p p (fst (hd (as @ (key, v) # bs))) 0 {p}"
    "Suc (length (as @ bs)) \<le> max_leaf_key_count (kind_of ix)" "\<forall>kv \<in> set (as @ bs). key_ok (kind_of ix) (fst kv)"
    using find_entry [OF g s hit] by blast
  let ?ix = "ix\<lparr>bx_meta := (bx_meta ix)\<lparr>key_total := key_total (bx_meta ix) - 1\<rparr>\<rparr>"
  have ct: "cont t = (cl c @ as) @ (key, v) # (bs @ cr c)" using c(1) by (simp add: cont_plug)
  have dl: "del key (cont t) = cl c @ (as @ bs) @ cr c" unfolding ct del_split [OF c(5,6)] by simp
  have e: "env ?ix c p p (fst (hd (as @ (key, v) # bs))) 0 {p}"
    using c(7) by (simp add: env_def nodes_def kind_of_def pcount_def)
  have ne: "as @ bs \<noteq> []" if "c = []" using that kt(2) ct by auto
  have "p = root_page_id (bx_meta ix) \<Longrightarrow> c = []"
  proof (rule ccontr)
    assume "p = root_page_id (bx_meta ix)" "c \<noteq> []"
    then have "p \<in> set (cpath c)" using c(7) last_in_set [of "cpath c"] by (simp add: env_def)
    then show False using wfc_cpath_in [of c] env_disjoint [OF c(7)] by blast
  qed
  then have ne': "p = root_page_id (bx_meta ix) \<Longrightarrow> as @ bs \<noteq> []" using ne by blast
  have "ksorted (cl c @ (as @ bs) @ cr c)" using s unfolding ct by (auto simp: ksorted_append)
  with ne c(8,9) have "yields ?ix 0 (del key (cont t)) (erase_rest p c as bs ?ix)"
    unfolding dl by (intro erase_rest_ok [OF e]) (simp_all add: kind_of_def)
  then obtain ix1 h1 t1 where i1: "erase_rest p c as bs ?ix = (Inr (), ix1)" "good ix1 h1 t1"
    "cont t1 = del key (cont t)" "reach ?ix 0 ix1" by (auto simp: yields_def)
  have kk: "kind_of ix1 = kind_of ix" using i1(4) by (simp add: reach_def kind_of_def)
  obtain ix2 where i2: "save_meta ix1 = (Inr (), ix2)" "good ix2 h1 t1" "same ix1 ix2"
    "read_metadata (bx_disk ix2) = bx_meta ix2" using save_good [OF i1(2)] st kk by metis
  have "1 < key_total (bx_meta ix)" using kt by (simp add: word_less_nat_alt)
  from erase_key_run [OF g k c(3,4) this ne'] i1(1) i2(1) have "erase_key key ix = (Inr True, ix2)"
    by (simp add: bindS_def)
  moreover have "key_total (bx_meta ix2) = key_total (bx_meta ix) - 1" "kind_of ix2 = kind_of ix" "pcount ix2 = pcount ix"
    using i2(3) i1(4) same_kind [OF i2(3)] kk by (simp_all add: same_def reach_def pcount_def)
  ultimately show ?thesis using i1(3) i2 by blast
qed

text \<open>The last entry: the leaf is emptied and the index becomes the empty index.\<close>

lemma erase_key_last:
  assumes g: "good ix h t" and k: "key_matches_kind key (kind_of ix)"
    and st: "kind_storable (kind_of ix)" and ct: "cont t = [(key, v)]" and kt: "key_total (bx_meta ix) = 1"
  shows "\<exists>ix'. erase_key key ix = (Inr True, ix') \<and> disk_ok (bx_disk ix')
    \<and> bx_meta ix' = (bx_meta ix)\<lparr>key_total := 0, root_page_id := INVALID_PAGE_ID,
         first_leaf_page_id := INVALID_PAGE_ID, tree_height := 0\<rparr>
    \<and> read_metadata (bx_disk ix') = bx_meta ix' \<and> pcount ix' = pcount ix"
proof -
  have s: "ksorted (cont t)" and hit: "key \<in> fst ` set (cont t)" unfolding ct by simp_all
  obtain c p as w bs where c: "t = plug c (PL p (as @ (key, w) # bs))"
    "find_leaf key ix = Inr (leaf_node p (cnx c) (as @ (key, w) # bs), p # cpath c)"
    "lower_bound (map fst (as @ (key, w) # bs)) key = length as" "env ix c p p (fst (hd (as @ (key, w) # bs))) 0 {p}"
    using find_entry [OF g s hit] by blast
  have "as = []" "bs = []" using c(1) ct by (auto simp: cont_plug append_eq_Cons_conv Cons_eq_append_conv)
  let ?ix = "ix\<lparr>bx_meta := (bx_meta ix)\<lparr>key_total := 0\<rparr>\<rparr>" and ?N = "leaf_node p (cnx c) []"
  have d: "disk_ok (bx_disk ?ix)" "unat p < pcount ?ix" using c(4) by (simp_all add: env_def pcount_def)
  have "node_ok (kind_of ?ix) ?N" by (simp add: node_ok_def shape_ok_def)
  then obtain ix1 where i1: "write_node ?N ?ix = (Inr (), ix1)" "same ?ix ix1"
    using write_node_ok [OF d(1), of ?N] d(2) by auto
  let ?m = "(bx_meta ix)\<lparr>key_total := 0, root_page_id := INVALID_PAGE_ID,
         first_leaf_page_id := INVALID_PAGE_ID, tree_height := 0\<rparr>"
  have m1: "bx_meta ix1 = (bx_meta ix)\<lparr>key_total := 0\<rparr>" using i1(2) by (simp add: same_def)
  let ?ix1 = "ix1\<lparr>bx_meta := ?m\<rparr>"
  have "disk_ok (bx_disk ?ix1)" "metadata_ok (bx_meta ?ix1)"
    using i1(2) st by (simp_all add: same_def metadata_ok_def kind_of_def)
  from save_meta_ok [OF this] obtain ix2 where i2: "save_meta ?ix1 = (Inr (), ix2)" "same ?ix1 ix2"
    "read_metadata (bx_disk ix2) = ?m" by auto
  have v: "validate_key_kind key (kind_of ix) = Inr ()" using k by (simp add: validate_key_kind_def)
  have nd: "leaf_node p (cnx c) kvs\<lparr>keys := [], records := []\<rparr> = ?N" "erase_at 0 [x] = []" for kvs and x :: 'x
    by (simp_all add: leaf_node_def new_leaf_def erase_at_def)
  have "erase_key key ix = (Inr True, ix2)"
    using c(2,3) i2(1) m1 unfolding \<open>as = []\<close> \<open>bs = []\<close>
    by (simp add: erase_key_def bindS_askE [where h = "\<lambda>ix. validate_key_kind key (kind_of ix)", OF v]
        good_not_empty [OF g] bindS_askE [where h = "find_leaf _"] Let_def kt set_meta_def erase_at_def nd
        bindS_Inr [where m = "write_node _", OF i1(1)] bindS_Inr [where m = save_meta])
  moreover have "bx_meta ix2 = ?m" "disk_ok (bx_disk ix2)" "pcount ix2 = pcount ix"
    using i2(2) i1(2) by (simp_all add: same_def pcount_def)
  ultimately show ?thesis using i2(3) by auto
qed

lemma erase_key_absent:
  assumes g: "good ix h t" and s: "ksorted (cont t)" and k: "key_matches_kind key (kind_of ix)"
    and miss: "key \<notin> fst ` set (cont t)"
  shows "erase_key key ix = (Inr False, ix)"
proof -
  obtain c p as bs where c: "find_leaf key ix = Inr (leaf_node p (cnx c) (as @ bs), p # cpath c)"
    "lower_bound (map fst (as @ bs)) key = length as" "above key (bs @ cr c)"
    using find_slot [OF g s miss] by blast
  have nodup: "bs \<noteq> [] \<Longrightarrow> (map fst as @ map fst bs) ! length as \<noteq> key"
    using c(3) by (cases bs) (auto simp: nth_append)
  have v: "validate_key_kind key (kind_of ix) = Inr ()" using k by (simp add: validate_key_kind_def)
  show ?thesis using c(2) nodup
    by (simp add: erase_key_def bindS_askE [where h = "\<lambda>ix. validate_key_kind key (kind_of ix)", OF v]
        good_not_empty [OF g] bindS_askE [where h = "find_leaf _", OF c(1)] Let_def)
qed

end
