(* ===== verification/BStar_Index.thy ===== *)
theory BStar_Index
  imports BStar_Erase
begin

section \<open>What the index promises\<close>

text \<open>
  The contract of \<open>class BStarPlusIndex\<close>. \<open>index_rep ix kvs\<close> says that the file and the metadata of
  \<open>ix\<close> hold exactly the entries \<open>kvs\<close>, in key order, in a well-formed tree whose metadata has been
  saved. Every operation is described by what it does to that list; the contract is then stated
  once more over finite maps as the interface \<open>unique_index\<close> that tables rely on.
\<close>

definition index_rep :: "bindex \<Rightarrow> (index_key \<times> 64 word) list \<Rightarrow> bool" where
  "index_rep ix kvs \<longleftrightarrow> disk_ok (bx_disk ix) \<and> kind_of ix \<in> {KindInt64, KindString}
     \<and> read_metadata (bx_disk ix) = bx_meta ix \<and> ksorted kvs
     \<and> unat (key_total (bx_meta ix)) = length kvs
     \<and> (if kvs = [] then root_page_id (bx_meta ix) = INVALID_PAGE_ID
          \<and> first_leaf_page_id (bx_meta ix) = INVALID_PAGE_ID \<and> tree_height (bx_meta ix) = 0
        else \<exists>h t. good ix h t \<and> cont t = kvs)"

definition index_room :: "bindex \<Rightarrow> bool" where
  \<comment> \<open>the file is at least 53 pages short of the largest file the offsets can address\<close>
  "index_room ix \<longleftrightarrow> pcount ix + 53 \<le> PAGE_LIMIT"

lemma rep_storable: "index_rep ix kvs \<Longrightarrow> kind_storable (kind_of ix)"
  by (auto simp: index_rep_def)

lemma ksorted_ins: "ksorted kvs \<Longrightarrow> ksorted (ins k v kvs)"
proof -
  assume s: "ksorted kvs"
  have f: "ksorted (filter P kvs)" for P
    using s by (induction kvs) auto
  show ?thesis unfolding ins_def ksorted_append using f by auto
qed

lemma ksorted_del: "ksorted kvs \<Longrightarrow> ksorted (del k kvs)"
  unfolding del_def by (induction kvs) auto

lemma length_ins: "k \<notin> fst ` set kvs \<Longrightarrow> length (ins k v kvs) = Suc (length kvs)"
proof -
  assume "k \<notin> fst ` set kvs"
  then have "length (filter (\<lambda>kv. fst kv < k) kvs) + length (filter (\<lambda>kv. k < fst kv) kvs) = length kvs"
    by (induction kvs) auto
  then show ?thesis by (simp add: ins_def)
qed

lemma length_del: "ksorted kvs \<Longrightarrow> k \<in> fst ` set kvs \<Longrightarrow> Suc (length (del k kvs)) = length kvs"
proof (induction kvs)
  case (Cons kv kvs)
  show ?case
  proof (cases "fst kv = k")
    case True
    then have "\<forall>x \<in> set kvs. fst x \<noteq> k" using Cons.prems(1) by auto
    then have "filter (\<lambda>x. fst x \<noteq> k) kvs = kvs" by (simp add: filter_id_conv)
    with True show ?thesis by (simp add: del_def)
  next
    case False
    then have "k \<in> fst ` set kvs" using Cons.prems(2) by auto
    with Cons False show ?thesis by (simp add: del_def)
  qed
qed simp

lemma map_of_ins: "map_of (ins k v kvs) = (map_of kvs)(k \<mapsto> v)" if "ksorted kvs"
proof
  fix x
  have above: "map_of (filter (\<lambda>kv. k < fst kv) kvs) x = (if k < x then map_of kvs x else None)"
    and below: "map_of (filter (\<lambda>kv. fst kv < k) kvs) x = (if x < k then map_of kvs x else None)"
    by (induction kvs) auto
  show "map_of (ins k v kvs) x = ((map_of kvs)(k \<mapsto> v)) x"
    unfolding ins_def map_of_append map_add_def using above below by (auto split: option.splits)
qed

lemma map_of_del: "map_of (del k kvs) = (map_of kvs)(k := None)"
  unfolding del_def by (induction kvs) auto

lemma fst_dom: "k \<in> fst ` set kvs \<longleftrightarrow> map_of kvs k \<noteq> None"
  by (simp add: map_of_eq_None_iff)

subsection \<open>The operations\<close>

lemma rep_empty: "index_rep ix [] \<Longrightarrow> meta_empty (bx_meta ix)"
  by (simp add: index_rep_def meta_empty_def)

lemma rep_good: "index_rep ix kvs \<Longrightarrow> kvs \<noteq> [] \<Longrightarrow> \<exists>h t. good ix h t \<and> cont t = kvs"
  by (simp add: index_rep_def)

lemma rep_total_bound:
  assumes "index_rep ix kvs" shows "length kvs < 2 ^ 60"
proof (cases "kvs = []")
  case False
  then obtain h t where g: "good ix h t" "cont t = kvs" using rep_good [OF assms] by blast
  have "length kvs \<le> 253 * length (pids t)" using g cont_bound by (auto simp: good_def)
  also have "\<dots> \<le> 253 * PAGE_LIMIT"
    using good_pids_bound(1) [OF g(1)] disk_ok_pcount [of ix] g(1) by (auto simp: good_def)
  finally show ?thesis by (simp add: PAGE_LIMIT_def)
qed simp

lemma find_key_rep:
  assumes "index_rep ix kvs" and "key_matches_kind k (kind_of ix)"
  shows "find_key k ix = Inr (map_of kvs k)"
proof (cases "kvs = []")
  case True
  then show ?thesis using assms rep_empty by (simp add: find_key_def validate_key_kind_def)
next
  case False
  then obtain h t where "good ix h t" "cont t = kvs" using rep_good [OF assms(1)] by blast
  then show ?thesis using find_key_good [of ix h t k] assms by (simp add: index_rep_def)
qed

lemma range_search_rep:
  assumes "index_rep ix kvs" and "key_matches_kind b (kind_of ix)" and "key_matches_kind e (kind_of ix)"
  shows "range_search b e ix = Inr (in_range b e kvs)"
proof (cases "kvs = []")
  case True
  then show ?thesis using assms rep_empty
    by (simp add: range_search_def validate_key_kind_def in_range_def)
next
  case False
  then obtain h t where "good ix h t" "cont t = kvs" using rep_good [OF assms(1)] by blast
  then show ?thesis using range_search_good [of ix h t b e] assms by (simp add: index_rep_def)
qed

lemma first_insert:
  assumes r: "index_rep ix []" and k: "key_ok (kind_of ix) k" and room: "index_room ix"
  shows "\<exists>ix'. insert_key k v ix = (Inr (), ix') \<and> index_rep ix' [(k, v)] \<and> kind_of ix' = kind_of ix
    \<and> pcount ix' = Suc (pcount ix) \<and> (\<exists>p. good ix' 0 (PL p [(k, v)]))"
proof -
  have d: "disk_ok (bx_disk ix)" and lim: "pcount ix < PAGE_LIMIT"
    using r room by (simp_all add: index_rep_def index_room_def)
  obtain p ix1 where i1: "on_disk allocate_page ix = (Inr p, ix1)" "bx_meta ix1 = bx_meta ix"
    "disk_ok (bx_disk ix1)" "unat p = pcount ix" "pcount ix1 = Suc (pcount ix)"
    using allocate_ok [OF d lim] by blast
  have k1: "kind_of ix1 = kind_of ix" using i1(2) by (simp add: kind_of_def)
  let ?N = "leaf_node p INVALID_PAGE_ID [(k, v)]"
  have "node_ok (kind_of ix1) ?N" using k k1 max_ge(1) [of "kind_of ix"] by (intro node_ok_leaf) simp_all
  then obtain ix2 where i2: "write_node ?N ix1 = (Inr (), ix2)" "same ix1 ix2" "nodes ix2 = (nodes ix1)(p \<mapsto> ?N)"
    using write_node_ok [OF i1(3), of ?N] i1(4,5) by auto
  let ?ix2 = "ix2\<lparr>bx_meta := (bx_meta ix2)\<lparr>root_page_id := p, first_leaf_page_id := p, tree_height := 1, key_total := 1\<rparr>\<rparr>"
  have k2: "kind_of ix2 = kind_of ix" "kind_of ?ix2 = kind_of ix" using same_kind [OF i2(2)] k1 by (simp_all add: kind_of_def)
  have g: "good ?ix2 0 (PL p [(k, v)])"
    using i2(2,3) i1(4,5) k k2 max_ge(1) [of "kind_of ix"]
    by (simp add: good_def same_def nodes_def kind_of_def pcount_def)
  obtain ix3 where i3: "save_meta ?ix2 = (Inr (), ix3)" "good ix3 0 (PL p [(k, v)])" "same ?ix2 ix3"
    "read_metadata (bx_disk ix3) = bx_meta ix3"
    using save_good [OF g] rep_storable [OF r] k2 by metis
  have vk: "validate_key_kind k (kind_of ix) = Inr ()" using k by (rule key_ok_validate)
  have nl: "new_leaf p INVALID_PAGE_ID [k] [v] = ?N" by (simp add: leaf_node_def)
  have "insert_key k v ix = (Inr (), ix3)"
    using i3(1) by (simp add: insert_key_def bindS_askE [where h = "\<lambda>ix. validate_key_kind k (kind_of ix)", OF vk]
        rep_empty [OF r] bindS_Inr [where m = "on_disk _", OF i1(1)] nl bindS_Inr [where m = "write_node _", OF i2(1)]
        set_meta_def)
  moreover have "index_rep ix3 [(k, v)]"
    unfolding index_rep_def
    using i3 r same_kind [OF i3(3)] k2
    by (auto simp: index_rep_def same_def good_def intro!: exI [of _ 0] exI [of _ "PL p [(k, v)]"])
  moreover have "kind_of ix3 = kind_of ix" "pcount ix3 = Suc (pcount ix)"
    using same_kind [OF i3(3)] k2 i3(3) i2(2) i1(5) by (simp_all add: same_def pcount_def)
  ultimately show ?thesis using i3(2) by blast
qed

lemma insert_key_rep:
  assumes r: "index_rep ix kvs" and k: "key_ok (kind_of ix) k" and new: "map_of kvs k = None"
    and room: "index_room ix"
  shows "\<exists>ix'. insert_key k v ix = (Inr (), ix') \<and> index_rep ix' (ins k v kvs) \<and> kind_of ix' = kind_of ix
    \<and> pcount ix' \<le> pcount ix + 53"
proof (cases "kvs = []")
  case True
  with first_insert [of ix k v] assms show ?thesis by (auto simp: ins_def)
next
  case False
  then obtain h t where g: "good ix h t" "cont t = kvs" using rep_good [OF r] by blast
  have s: "ksorted kvs" and kt: "unat (key_total (bx_meta ix)) = length kvs" using r by (simp_all add: index_rep_def)
  have nw: "k \<notin> fst ` set (cont t)" using new g(2) by (simp add: map_of_eq_None_iff)
  have "pcount ix + h + 2 \<le> PAGE_LIMIT" using room good_height [OF g(1)] by (simp add: index_room_def)
  then obtain ix' h' t' where i: "insert_key k v ix = (Inr (), ix')" "good ix' h' t'" "cont t' = ins k v kvs"
    "kind_of ix' = kind_of ix" "key_total (bx_meta ix') = key_total (bx_meta ix) + 1"
    "read_metadata (bx_disk ix') = bx_meta ix'" "pcount ix' \<le> pcount ix + (h + 2)"
    using insert_key_good [OF g(1) s [folded g(2)] k rep_storable [OF r] nw, of v] unfolding g(2) by blast
  have "unat (key_total (bx_meta ix) + 1) = Suc (length kvs)"
    using kt rep_total_bound [OF r] by (simp add: unat_word_ariths)
  then have "index_rep ix' (ins k v kvs)"
    unfolding index_rep_def using i r nw g(2) ksorted_ins [OF s] length_ins [of k kvs v]
    by (auto simp: index_rep_def good_def ins_def)
  moreover have "pcount ix' \<le> pcount ix + 53" using i(7) good_height [OF g(1)] by simp
  ultimately show ?thesis using i(1,4) by blast
qed

lemma insert_key_rep_duplicate:
  assumes r: "index_rep ix kvs" and k: "key_matches_kind k (kind_of ix)" and dup: "map_of kvs k \<noteq> None"
  shows "insert_key k v ix = (Inl (InvalidArgument ''Duplicate index key''), ix)"
proof -
  have "kvs \<noteq> []" using dup by auto
  then obtain h t where g: "good ix h t" "cont t = kvs" using rep_good [OF r] by blast
  have "ksorted (cont t)" using r g(2) by (simp add: index_rep_def)
  moreover have "k \<in> fst ` set (cont t)" unfolding g(2) fst_dom by (rule dup)
  ultimately have "ksorted (cont t)" "k \<in> fst ` set (cont t)" by blast+
  from insert_key_duplicate [OF g(1) this(1) k this(2)] show ?thesis .
qed

lemma erase_key_rep:
  assumes r: "index_rep ix kvs" and k: "key_matches_kind k (kind_of ix)"
  shows "\<exists>ix'. erase_key k ix = (Inr (map_of kvs k \<noteq> None), ix') \<and> index_rep ix' (del k kvs)
    \<and> kind_of ix' = kind_of ix \<and> pcount ix' = pcount ix"
proof (cases "k \<in> fst ` set kvs")
  case False
  then have n: "map_of kvs k = None" by (simp add: map_of_eq_None_iff)
  have "del k kvs = kvs" using False by (auto simp: del_def filter_id_conv)
  moreover have "erase_key k ix = (Inr False, ix)"
  proof (cases "kvs = []")
    case True
    have v: "validate_key_kind k (kind_of ix) = Inr ()" using k by (simp add: validate_key_kind_def)
    have "meta_empty (bx_meta ix)" using r True rep_empty by blast
    then show ?thesis
      by (simp add: erase_key_def bindS_askE [where h = "\<lambda>ix. validate_key_kind k (kind_of ix)", OF v])
  next
    case ne: False
    then obtain h t where g: "good ix h t" "cont t = kvs" using rep_good [OF r] by blast
    then show ?thesis using erase_key_absent [OF g(1) _ k] False r by (auto simp: index_rep_def)
  qed
  ultimately show ?thesis using n r by simp
next
  case True
  then have ne: "kvs \<noteq> []" and hit: "map_of kvs k \<noteq> None" by (auto simp: fst_dom)
  then obtain h t where g: "good ix h t" "cont t = kvs" using rep_good [OF r] by blast
  have s: "ksorted (cont t)" and kt: "unat (key_total (bx_meta ix)) = length (cont t)" using r g(2)
    by (simp_all add: index_rep_def)
  note ld = length_del [OF s [unfolded g(2)] True]
  show ?thesis
  proof (cases "2 \<le> length kvs")
    case two: True
    obtain ix' h' t' where i: "erase_key k ix = (Inr True, ix')" "good ix' h' t'" "cont t' = del k kvs"
      "kind_of ix' = kind_of ix" "key_total (bx_meta ix') = key_total (bx_meta ix) - 1"
      "read_metadata (bx_disk ix') = bx_meta ix'" "pcount ix' = pcount ix"
      using erase_key_good [OF g(1) s k rep_storable [OF r] _ kt] True two unfolding g(2) by blast
    have "1 \<le> key_total (bx_meta ix)" using kt ne g(2) by (cases kvs) (simp_all add: word_le_nat_alt)
    then have "unat (key_total (bx_meta ix) - 1) = length (del k kvs)"
      using kt ld g(2) by (simp add: unat_sub)
    moreover have "del k kvs \<noteq> []" using ld two by auto
    ultimately have "index_rep ix' (del k kvs)"
      unfolding index_rep_def using i r ksorted_del [of kvs k] s g(2) by (auto simp: index_rep_def good_def)
    then show ?thesis using i hit by auto
  next
    case one: False
    then obtain v where kv: "kvs = [(k, v)]" using ne True by (cases kvs; cases "tl kvs") auto
    have "key_total (bx_meta ix) = 1" using kt g(2) kv by (simp add: word_unat_eq_iff)
    then obtain ix' where i: "erase_key k ix = (Inr True, ix')" "disk_ok (bx_disk ix')"
      "bx_meta ix' = (bx_meta ix)\<lparr>key_total := 0, root_page_id := INVALID_PAGE_ID,
         first_leaf_page_id := INVALID_PAGE_ID, tree_height := 0\<rparr>"
      "read_metadata (bx_disk ix') = bx_meta ix'" "pcount ix' = pcount ix"
      using erase_key_last [OF g(1) k rep_storable [OF r]] kv g(2) by blast
    have "del k kvs = []" using kv by (simp add: del_def)
    moreover have "index_rep ix' []" using i r by (simp add: index_rep_def kind_of_def)
    ultimately show ?thesis using i kv by (auto simp: kind_of_def)
  qed
qed

text \<open>A key of the other kind is refused by every operation, and nothing changes.\<close>

lemma wrong_kind_refused:
  assumes "\<not> key_matches_kind k (kind_of ix)"
  shows "find_key k ix = Inl (InvalidArgument ''Index key type does not match index key kind'')"
    and "range_search k e ix = Inl (InvalidArgument ''Index key type does not match index key kind'')"
    and "insert_key k v ix = (Inl (InvalidArgument ''Index key type does not match index key kind''), ix)"
    and "erase_key k ix = (Inl (InvalidArgument ''Index key type does not match index key kind''), ix)"
  using assms by (simp_all add: find_key_def range_search_def insert_key_def erase_key_def
      validate_key_kind_def guardE_cases bindS_askE_Inl)

subsection \<open>Opening and reopening\<close>

lemma open_new_index:
  assumes "kk \<in> {KindInt64, KindString}"
  shows "\<exists>ix. open_index None kk = Inr ix \<and> index_rep ix [] \<and> kind_of ix = kk \<and> index_room ix"
proof -
  let ?d = "\<lparr>disk_file = new_file, disk_page_count = 0\<rparr>" and ?m = "empty_metadata\<lparr>meta_key_kind := kk\<rparr>"
  have "metadata_ok ?m" using assms by (auto simp: metadata_ok_def)
  then obtain d' where d': "write_metadata ?m ?d = (Inr (), d')" "disk_ok d'" "page_count d' = page_count ?d"
    "read_metadata d' = ?m"
    using write_metadata_law [OF open_new_disk(2)] by blast
  let ?ix = "\<lparr>bx_disk = d', bx_meta = ?m\<rparr>"
  have "meta_key_kind empty_metadata = KindUnknown" by (simp add: empty_metadata_def)
  then have "open_index None kk = Inr ?ix"
    using assms d'(1) by (auto simp: open_index_def open_new_disk Let_def)
  moreover have "index_rep ?ix []"
    using d' assms by (auto simp: index_rep_def kind_of_def empty_metadata_def)
  moreover have "kind_of ?ix = kk" "index_room ?ix"
    using d'(3) by (simp_all add: kind_of_def index_room_def pcount_def page_count_def PAGE_LIMIT_def)
  ultimately show ?thesis by blast
qed

text \<open>Closing and opening the file again gives the same index, whatever kind the caller asks for.\<close>

lemma reopen_index:
  assumes "index_rep ix kvs"
  shows "open_index (Some (disk_file (bx_disk ix))) kk = Inr ix"
proof -
  have "disk_ok (bx_disk ix)" "read_metadata (bx_disk ix) = bx_meta ix" "meta_key_kind (bx_meta ix) \<noteq> KindUnknown"
    using assms by (auto simp: index_rep_def kind_of_def)
  then show ?thesis by (simp add: open_index_def reopen_disk Let_def)
qed

subsection \<open>The interface of a unique index\<close>

text \<open>
  What a client relies on (\<open>IIndex\<close> of \<open>storage/include/index/index.h\<close>), over maps from keys
  of any type: what a lookup returns, what an insertion and a deletion do to the map, and that a refused insertion
  leaves the index as it is.
\<close>

locale unique_index =
  fixes rep :: "'ix \<Rightarrow> ('k \<rightharpoonup> 64 word) \<Rightarrow> bool"
    and keyed :: "'ix \<Rightarrow> 'k \<Rightarrow> bool"
    and storable :: "'ix \<Rightarrow> 'k \<Rightarrow> bool"
    and room :: "nat \<Rightarrow> 'ix \<Rightarrow> bool"
    and look :: "'k \<Rightarrow> 'ix \<Rightarrow> exn + 64 word option"
    and add :: "'k \<Rightarrow> 64 word \<Rightarrow> ('ix, unit) sx"
    and rem :: "'k \<Rightarrow> ('ix, bool) sx"
  assumes storable_keyed: "storable ix k \<Longrightarrow> keyed ix k"
    and look_law: "rep ix m \<Longrightarrow> keyed ix k \<Longrightarrow> look k ix = Inr (m k)"
    and add_law: "rep ix m \<Longrightarrow> storable ix k \<Longrightarrow> m k = None \<Longrightarrow> room (Suc n) ix \<Longrightarrow>
      \<exists>ix'. add k v ix = (Inr (), ix') \<and> rep ix' (m(k \<mapsto> v)) \<and> keyed ix' = keyed ix \<and> storable ix' = storable ix
        \<and> room n ix'"
    and dup_law: "rep ix m \<Longrightarrow> keyed ix k \<Longrightarrow> m k \<noteq> None \<Longrightarrow>
      add k v ix = (Inl (InvalidArgument ''Duplicate index key''), ix)"
    and rem_law: "rep ix m \<Longrightarrow> keyed ix k \<Longrightarrow>
      \<exists>ix'. rem k ix = (Inr (m k \<noteq> None), ix') \<and> rep ix' (m(k := None)) \<and> keyed ix' = keyed ix
        \<and> storable ix' = storable ix \<and> (\<forall>n. room n ix \<longrightarrow> room n ix')"
begin

lemma look_after_add:
  assumes "rep ix m" and "storable ix k" and "m k = None" and "room (Suc n) ix"
  shows "\<exists>ix'. add k v ix = (Inr (), ix') \<and> look k ix' = Inr (Some v)
    \<and> (\<forall>k'. k' \<noteq> k \<longrightarrow> keyed ix k' \<longrightarrow> look k' ix' = look k' ix)"
proof -
  obtain ix' where ix': "add k v ix = (Inr (), ix')" "rep ix' (m(k \<mapsto> v))" "keyed ix' = keyed ix"
    using add_law [OF assms] by blast
  then show ?thesis using look_law [OF ix'(2)] look_law [OF assms(1)] storable_keyed [OF assms(2)]
    by (intro exI [of _ ix']) auto
qed

lemma look_after_rem:
  assumes "rep ix m" and "keyed ix k"
  shows "\<exists>ix'. rem k ix = (Inr (m k \<noteq> None), ix') \<and> look k ix' = Inr None
    \<and> (\<forall>k'. k' \<noteq> k \<longrightarrow> keyed ix k' \<longrightarrow> look k' ix' = look k' ix)"
proof -
  obtain ix' where ix': "rem k ix = (Inr (m k \<noteq> None), ix')" "rep ix' (m(k := None))" "keyed ix' = keyed ix"
    using rem_law [OF assms] by blast
  then show ?thesis using look_law [OF ix'(2)] look_law [OF assms(1)] assms(2)
    by (intro exI [of _ ix']) auto
qed

text \<open>Moving an entry to another key, which is how a changed cell is reindexed.\<close>

lemma move_key:
  assumes "rep ix m" and "keyed ix k" and "storable ix k'" and "(m(k := None)) k' = None" and "room (Suc n) ix"
  shows "\<exists>ix'. bindS (rem k) (\<lambda>_. add k' v) ix = (Inr (), ix') \<and> rep ix' ((m(k := None))(k' \<mapsto> v))
    \<and> keyed ix' = keyed ix \<and> storable ix' = storable ix \<and> room n ix'"
proof -
  obtain ix1 where 1: "rem k ix = (Inr (m k \<noteq> None), ix1)" "rep ix1 (m(k := None))" "keyed ix1 = keyed ix"
    "storable ix1 = storable ix" "room (Suc n) ix1" using rem_law [OF assms(1,2)] assms(5) by blast
  obtain ix2 where "add k' v ix1 = (Inr (), ix2)" "rep ix2 ((m(k := None))(k' \<mapsto> v))" "keyed ix2 = keyed ix1"
    "storable ix2 = storable ix1" "room n ix2" using add_law [OF 1(2) _ assms(4) 1(5)] assms(3) 1(4) by metis
  then show ?thesis using 1 by (simp add: bindS_Inr)
qed

end

definition room_for :: "nat \<Rightarrow> bindex \<Rightarrow> bool" where
  \<comment> \<open>the file can take \<open>n\<close> more insertions\<close>
  "room_for n ix \<longleftrightarrow> pcount ix + 53 * n \<le> PAGE_LIMIT"

lemma room_for_1: "room_for (Suc n) ix \<Longrightarrow> index_room ix"
  by (simp add: room_for_def index_room_def)

definition index_map :: "bindex \<Rightarrow> (index_key \<rightharpoonup> 64 word) \<Rightarrow> bool" where
  "index_map ix m \<longleftrightarrow> (\<exists>kvs. index_rep ix kvs \<and> m = map_of kvs)"

interpretation bp: unique_index index_map "\<lambda>ix k. key_matches_kind k (kind_of ix)"
  "\<lambda>ix. key_ok (kind_of ix)" room_for find_key insert_key erase_key
proof unfold_locales
  fix ix :: bindex and k :: index_key and v :: "64 word" and n :: nat and m
  show "key_ok (kind_of ix) k \<Longrightarrow> key_matches_kind k (kind_of ix)" by (rule key_okD)
  assume "index_map ix m"
  then obtain kvs where r: "index_rep ix kvs" "m = map_of kvs" by (auto simp: index_map_def)
  then have s: "ksorted kvs" by (simp add: index_rep_def)
  show "find_key k ix = Inr (m k)" if "key_matches_kind k (kind_of ix)"
    using find_key_rep [OF r(1) that] r(2) by simp
  show "\<exists>ix'. insert_key k v ix = (Inr (), ix') \<and> index_map ix' (m(k \<mapsto> v))
      \<and> (\<lambda>k. key_matches_kind k (kind_of ix')) = (\<lambda>k. key_matches_kind k (kind_of ix))
      \<and> key_ok (kind_of ix') = key_ok (kind_of ix) \<and> room_for n ix'"
    if ko: "key_ok (kind_of ix) k" and nk: "m k = None" and rm: "room_for (Suc n) ix"
  proof -
    have new: "map_of kvs k = None" using nk r(2) by simp
    obtain ix' where i: "insert_key k v ix = (Inr (), ix')" "index_rep ix' (ins k v kvs)" "kind_of ix' = kind_of ix"
      "pcount ix' \<le> pcount ix + 53" using insert_key_rep [OF r(1) ko new room_for_1 [OF rm]] by blast
    have "room_for n ix'" using i(4) rm by (simp add: room_for_def)
    moreover have "index_map ix' (m(k \<mapsto> v))" using i(2) r(2) map_of_ins [OF s, of k v] by (auto simp: index_map_def)
    ultimately show ?thesis using i by auto
  qed
  show "insert_key k v ix = (Inl (InvalidArgument ''Duplicate index key''), ix)"
    if "key_matches_kind k (kind_of ix)" "m k \<noteq> None"
    using insert_key_rep_duplicate [OF r(1) that(1)] that(2) r(2) by simp
  show "\<exists>ix'. erase_key k ix = (Inr (m k \<noteq> None), ix') \<and> index_map ix' (m(k := None))
      \<and> (\<lambda>k. key_matches_kind k (kind_of ix')) = (\<lambda>k. key_matches_kind k (kind_of ix))
      \<and> key_ok (kind_of ix') = key_ok (kind_of ix) \<and> (\<forall>n. room_for n ix \<longrightarrow> room_for n ix')"
    if "key_matches_kind k (kind_of ix)"
    using erase_key_rep [OF r(1) that] r(2) map_of_del [of k kvs]
    unfolding index_map_def room_for_def by metis
qed

end
