(* ===== verification/BStar_Overlong.thy ===== *)
theory BStar_Overlong
  imports BStar_Index
begin

section \<open>A key that is too long destroys entries\<close>

text \<open>
  \<open>insert\<close> checks the kind of a key but not its length. A string key of more than 256 bytes makes
  \<open>serialize_node\<close> throw \<open>length_error\<close>, which \<open>node_fits_page\<close> takes for a full page; the leaf is
  then split, its left half is written, and writing the right half throws. The caller gets the
  exception, and the right half of the leaf is gone.
\<close>

lemma serialize_overlong:
  assumes "shape_ok n" and ks: "keys n = ks @ [KStr s]" and ok: "\<forall>k \<in> set ks. key_ok KindString k"
    and s: "INDEX_STRING_KEY_SIZE < length s" and n: "length (keys n) < UINT32_MAX"
  shows "serialize_node n KindString = Inl (LengthError ''Index string key is too long'')"
proof -
  have sh: "validate_node_shape n = Inr ()" using assms(1) n by (simp add: validate_node_shape_ok)
  have "foldE (\<lambda>k _. validate_key_kind k KindString) ks () = Inr ()"
    using ok by (induction ks) (auto simp: key_ok_validate)
  then have vk: "validate_node_keys n KindString = Inr ()"
    by (simp add: validate_node_keys_def ks foldE_append validate_key_kind_def)
  have "\<exists>sz. foldE (\<lambda>k size. bindE (validate_key_kind k KindString) (\<lambda>_.
      bindE (serialized_key_size k) (\<lambda>m. Inr (size + m)))) ks b = Inr sz" for b
    using ok by (induction ks arbitrary: b) (auto simp: key_ok_validate key_ok_size)
  then obtain sz where sz: "foldE (\<lambda>k size. bindE (validate_key_kind k KindString) (\<lambda>_.
      bindE (serialized_key_size k) (\<lambda>m. Inr (size + m)))) ks INDEX_NODE_HEADER_SIZE = Inr sz" by blast
  have bad: "serialized_key_size (KStr s) = Inl (LengthError ''Index string key is too long'')"
    using s by (simp add: validate_string_key_def)
  have "(if is_leaf n then length (records n) else length (children n)) \<le> UINT32_MAX"
    using assms(1) n by (auto simp: shape_ok_def)
  then have "serialized_node_size n KindString = Inl (LengthError ''Index string key is too long'')"
    using sz bad by (simp add: serialized_node_size_def ks foldE_append validate_key_kind_def Let_def)
  with sh vk show ?thesis by (simp add: serialize_node_def)
qed

text \<open>The situation: a leaf that is the root, and a key larger than all of its keys.\<close>

lemma insert_overlong:
  assumes g: "good ix 0 (PL p kvs)" and k: "kind_of ix = KindString" and s: "ksorted kvs"
    and big: "INDEX_STRING_KEY_SIZE < length s" "below kvs (KStr s)" and n: "2 \<le> length kvs"
    and room: "index_room ix"
  shows "\<exists>ix'. insert_key (KStr s) v ix = (Inl (LengthError ''Index string key is too long''), ix')
    \<and> bx_meta ix' = bx_meta ix \<and> disk_ok (bx_disk ix')
    \<and> (\<exists>q. nodes ix' p = Some (leaf_node p q (take (Suc (length kvs) div 2) kvs)))"
proof -
  let ?e = "LengthError ''Index string key is too long''" and ?kvs = "kvs @ [(KStr s, v)]"
  define i where "i = Suc (length kvs) div 2"
  have i: "i \<le> length kvs" "1 \<le> i" "i < Suc (length kvs)" using n by (simp_all add: i_def)
  have e: "env ix [] p p (fst (hd kvs)) 0 {p}" and w: "\<forall>kv \<in> set kvs. key_ok KindString (fst kv)"
    and len: "length kvs \<le> max_leaf_key_count KindString" "length kvs < 1000"
    using env_of_good [of ix 0 "[]" "PL p kvs"] g k max_le(1) [of KindString] by (auto simp: mink_def)
  have st: "nodes ix p = Some (leaf_node p INVALID_PAGE_ID kvs)" "root_page_id (bx_meta ix) = p"
    using g by (simp_all add: good_def)
  have pv: "p \<noteq> INVALID_PAGE_ID" using g pid_valid by (auto simp: good_def)
  have fl: "find_leaf (KStr s) ix = Inr (leaf_node p INVALID_PAGE_ID kvs, [p])"
    using st pv by (simp add: find_leaf_def walk_bound_def read_node_nodes)
  have "takeWhile (\<lambda>x. x < KStr s) (map fst kvs) = map fst kvs"
    unfolding takeWhile_eq_all_conv using big(2) by auto
  then have lb: "lower_bound (map fst kvs) (KStr s) = length kvs" unfolding lower_bound_def by (simp only: length_map)
  have nd: "leaf_node p INVALID_PAGE_ID kvs\<lparr>keys := insert_at (length kvs) (KStr s) (map fst kvs),
      records := insert_at (length kvs) v (map snd kvs)\<rparr> = leaf_node p INVALID_PAGE_ID ?kvs"
    by (simp add: leaf_node_def new_leaf_def insert_at_def)
  have over: "serialize_node (leaf_node q nx (xs @ [(KStr s, v)])) KindString = Inl ?e"
    if "set xs \<subseteq> set kvs" "length xs \<le> length kvs" for q nx xs
  proof (rule serialize_overlong [OF _ _ _ big(1)])
    show "\<forall>k \<in> set (map fst xs). key_ok KindString k" using that(1) w by force
  qed (use that(2) len in \<open>auto simp: shape_ok_def UINT32_MAX_def\<close>)
  have nofit: "node_fits_page (leaf_node p INVALID_PAGE_ID ?kvs) ix = Inr False"
    using over [of kvs] k by (simp add: node_fits_page_def)
  have lim: "pcount ix < PAGE_LIMIT" using room by (simp add: index_room_def)
  obtain q ix1 where i1: "on_disk allocate_page ix = (Inr q, ix1)" "bx_meta ix1 = bx_meta ix"
    "disk_ok (bx_disk ix1)" "pcount ix1 = Suc (pcount ix)" using allocate_ok [OF env_disk [OF e] lim] by blast
  have lim1: "pcount ix1 < PAGE_LIMIT" using room i1(4) by (simp add: index_room_def)
  obtain r ix2 where i2: "on_disk allocate_page ix1 = (Inr r, ix2)" "bx_meta ix2 = bx_meta ix1"
    "disk_ok (bx_disk ix2)" "pcount ix2 = Suc (pcount ix1)" using allocate_ok [OF i1(3) lim1] by blast
  have k2: "kind_of ix2 = KindString" using i1(2) i2(2) k by (simp add: kind_of_def)
  let ?L = "leaf_node p q (take i kvs)" and ?R = "leaf_node q INVALID_PAGE_ID (drop i kvs @ [(KStr s, v)])"
  have "\<forall>kv \<in> set (take i kvs). key_ok (kind_of ix2) (fst kv)" using w k2 in_set_takeD by fastforce
  then have "node_ok (kind_of ix2) ?L" using len(1) k2 by (intro node_ok_leaf) simp_all
  moreover have "unat p < pcount ix2" using env_count [OF e] i1(4) i2(4) by simp
  ultimately obtain ix3 where i3: "write_node ?L ix2 = (Inr (), ix3)" "same ix2 ix3" "nodes ix3 = (nodes ix2)(p \<mapsto> ?L)"
    using write_node_ok [OF i2(3), of ?L] by auto
  have "serialize_node ?R KindString = Inl ?e"
    by (rule over) (use set_drop_subset in \<open>auto dest: in_set_dropD\<close>)
  then have wr: "write_node ?R ix3 = (Inl ?e, ix3)"
    using same_kind [OF i3(2)] k2 by (simp add: write_node_def bindS_askE_Inl)
  have cut: "take i ?kvs = take i kvs" "drop i ?kvs = drop i kvs @ [(KStr s, v)]" using i(1) by simp_all
  have ne: "drop i ?kvs \<noteq> []" using i(1) by simp
  have keq: "map fst kvs @ [KStr s] = map fst ?kvs" "map snd kvs @ [v] = map snd ?kvs" by simp_all
  have tr: "leaf_node p INVALID_PAGE_ID ?kvs\<lparr>keys := take i (map fst ?kvs), records := take i (map snd ?kvs),
      next_leaf_page_id := q\<rparr> = ?L"
    "new_leaf q INVALID_PAGE_ID (drop i (map fst ?kvs)) (drop i (map snd ?kvs)) = ?R"
    unfolding take_map drop_map cut by (simp_all del: map_append)
  have halves: "split_leaf (leaf_node p INVALID_PAGE_ID ?kvs) [p] ix = insert_into_parent ?L (hd (keys ?R)) ?R [p] ix1"
  proof -
    have "split_leaf (leaf_node p INVALID_PAGE_ID ?kvs) [p] ix = split_leaf_alone (leaf_node p INVALID_PAGE_ID ?kvs) [p] ix"
      by (simp add: split_leaf_def)
    also have "\<dots> = insert_into_parent ?L (hd (keys ?R)) ?R [p] ix1"
      unfolding split_leaf_alone_def bindS_Inr [where m = "on_disk _", OF i1(1)] Let_def node_field_simps length_map
      by (simp only: length_append list.size add_Suc_right add_0_right i_def [symmetric] tr node_field_simps)
        (simp add: ne)
    finally show ?thesis .
  qed
  have "insert_into_parent ?L (hd (keys ?R)) ?R [p] ix1 = (Inl ?e, ix3)"
    by (simp add: insert_into_parent.simps bindS_Inr [where m = "on_disk _", OF i2(1)]
        bindS_Inr [where m = "write_node _", OF i3(1)] bindS_Inl [where m = "write_node _", OF wr])
  then have sp: "split_leaf (leaf_node p INVALID_PAGE_ID ?kvs) [p] ix = (Inl ?e, ix3)" using halves by simp
  have v: "validate_key_kind (KStr s) (kind_of ix) = Inr ()" using k by (simp add: validate_key_kind_def)
  have "insert_key (KStr s) v ix = (Inl ?e, ix3)"
    by (simp add: insert_key_def bindS_askE [where h = "\<lambda>ix. validate_key_kind _ (kind_of ix)", OF v]
        good_not_empty [OF g] bindS_askE [where h = "find_leaf _", OF fl] Let_def lb nd
        bindS_askE [where h = "node_fits_page _", OF nofit] bindS_Inl [where m = "split_leaf _ _", OF sp])
  then show ?thesis using i1(2) i2(2) i3(2,3) unfolding i_def [symmetric] by (auto simp: same_def)
qed

lemma find_in_root_leaf:
  assumes "nodes ix p = Some (leaf_node p q kvs)" and "root_page_id (bx_meta ix) = p" and "p \<noteq> INVALID_PAGE_ID"
    and "ksorted kvs" and "\<not> meta_empty (bx_meta ix)" and "key_matches_kind k (kind_of ix)"
  shows "find_key k ix = Inr (map_of kvs k)"
  using assms leaf_lookup [OF assms(4), of k]
  by (simp add: find_key_def validate_key_kind_def walk_bound_def read_node_nodes Let_def cong: if_cong)

lemma overlong_key_loses_entry:
  assumes g: "good ix 0 (PL p kvs)" and k: "kind_of ix = KindString" and s: "ksorted kvs"
    and big: "INDEX_STRING_KEY_SIZE < length s" "below kvs (KStr s)" and n: "2 \<le> length kvs"
    and room: "index_room ix"
  shows "\<exists>ix'. insert_key (KStr s) v ix = (Inl (LengthError ''Index string key is too long''), ix')
    \<and> find_key (fst (last kvs)) ix = Inr (Some (snd (last kvs))) \<and> find_key (fst (last kvs)) ix' = Inr None"
proof -
  obtain xs x where kvs: "kvs = xs @ [x]" using n by (cases kvs rule: rev_cases) auto
  obtain ix' q where i: "insert_key (KStr s) v ix = (Inl (LengthError ''Index string key is too long''), ix')"
    "bx_meta ix' = bx_meta ix" "nodes ix' p = Some (leaf_node p q (take (Suc (length kvs) div 2) kvs))"
    using insert_overlong [OF assms, of v] by blast
  have t: "take (Suc (length kvs) div 2) kvs = take (Suc (length kvs) div 2) xs" using n kvs by simp
  have st: "nodes ix p = Some (leaf_node p INVALID_PAGE_ID kvs)" "root_page_id (bx_meta ix) = p"
    using g by (simp_all add: good_def)
  have pv: "p \<noteq> INVALID_PAGE_ID" using g pid_valid by (auto simp: good_def)
  have kk: "key_matches_kind (fst x) (kind_of ix)" "kind_of ix' = kind_of ix"
    using g kvs i(2) by (auto simp: good_def kind_of_def)
  have so: "ksorted (take j xs)" for j using s kvs by (metis append_take_drop_id ksorted_append)
  have "fst x \<notin> fst ` set (take j xs)" for j
    using s kvs by (auto simp: ksorted_append dest!: in_set_takeD)
  then have none: "map_of (take j xs) (fst x) = None" for j by (simp add: map_of_eq_None_iff)
  have "map_of xs (fst x) = None" using none [of "length xs"] by simp
  then have some: "map_of kvs (fst x) = Some (snd x)" by (simp add: kvs map_add_def)
  have "find_key (fst x) ix = Inr (map_of kvs (fst x))"
    by (rule find_in_root_leaf [OF st pv s good_not_empty [OF g] kk(1)])
  moreover have "find_key (fst x) ix' = Inr (map_of (take (Suc (length kvs) div 2) xs) (fst x))"
    using i(2,3) st(2) good_not_empty [OF g] kk so unfolding t by (intro find_in_root_leaf [OF _ _ pv]) simp_all
  ultimately show ?thesis using i(1) none some kvs by auto
qed

text \<open>Two insertions into a new index make such a leaf.\<close>

lemma insert_root_leaf:
  assumes g: "good ix 0 (PL p kvs)" and s: "ksorted kvs" and ko: "key_ok (kind_of ix) key"
    and st: "kind_storable (kind_of ix)" and new: "key \<notin> fst ` set kvs"
    and n: "Suc (length kvs) \<le> max_leaf_key_count (kind_of ix)"
  shows "\<exists>ix'. insert_key key r ix = (Inr (), ix') \<and> good ix' 0 (PL p (ins key r kvs))
    \<and> kind_of ix' = kind_of ix \<and> pcount ix' = pcount ix"
proof -
  have s': "ksorted (cont (PL p kvs))" and new': "key \<notin> fst ` set (cont (PL p kvs))" using s new by simp_all
  obtain c q as bs where c: "PL p kvs = plug c (PL q (as @ bs))" "length c = 0"
    "find_leaf key ix = Inr (leaf_node q (cnx c) (as @ bs), q # cpath c)"
    "lower_bound (map fst (as @ bs)) key = length as" "below (cl c @ as) key" "above key (bs @ cr c)"
    "env ix c q q (fst (hd (as @ (key, r) # bs))) 0 {q}"
    "\<forall>kv \<in> set (as @ bs). key_ok (kind_of ix) (fst kv)"
    using find_slot [OF g s' new'] by blast
  have [simp]: "c = []" "q = p" "kvs = as @ bs" using c(1,2) by simp_all
  let ?kvs = "as @ (key, r) # bs"
  have kv: "ins key r kvs = ?kvs" using ins_split [of as key bs r] c(5,6) by simp
  have w: "\<forall>kv \<in> set ?kvs. key_ok (kind_of ix) (fst kv)" using c(8) ko by auto
  obtain ix1 where i1: "write_node (leaf_node p INVALID_PAGE_ID ?kvs) ix = (Inr (), ix1)" "same ix ix1"
    "good ix1 0 (PL p ?kvs)" using write_leaf_good [OF c(7) _ _ w] n by auto
  let ?ix = "ix1\<lparr>bx_meta := (bx_meta ix1)\<lparr>key_total := key_total (bx_meta ix1) + 1\<rparr>\<rparr>"
  have kk: "kind_of ?ix = kind_of ix" using same_kind [OF i1(2)] by (simp add: kind_of_def)
  obtain ix2 where i2: "save_meta ?ix = (Inr (), ix2)" "good ix2 0 (PL p ?kvs)" "same ?ix ix2"
    using save_good [OF good_key_total [OF i1(3)]] st kk by metis
  have "above key bs" "length (as @ bs) < 999" using c(6) n max_le(1) [of "kind_of ix"] by auto
  from insert_key_run [OF g ko c(3,4) this(1) c(8) this(2), of r] n
  have "insert_key key r ix = bindS (write_node (leaf_node p INVALID_PAGE_ID ?kvs))
      (\<lambda>_. bindS (set_meta (\<lambda>m. m\<lparr>key_total := key_total m + 1\<rparr>)) (\<lambda>_. save_meta)) ix" by simp
  also have "\<dots> = (Inr (), ix2)"
    using i2(1) by (simp add: bindS_Inr [where m = "write_node _", OF i1(1)] set_meta_def)
  finally show ?thesis using i2(2,3) i1(2) kv same_kind [OF i2(3)] kk by (auto simp: same_def pcount_def)
qed

end
