(* ===== verification/BStar_Contract.thy ===== *)
theory BStar_Contract
  imports BStar_Overlong
begin

section \<open>The contract of the index, operation by operation\<close>

text \<open>
  The properties of \<open>class BStarPlusIndex\<close>. \<open>index_rep ix kvs\<close> (\<open>BStar_Index\<close>) relates the bytes of
  the index file to the sorted list of entries it stores. A run of many operations is compared
  with the same run on the list.
\<close>

subsection \<open>Runs of operations\<close>

datatype index_op = OpInsert index_key "64 word" | OpErase index_key | OpFind index_key
  | OpRange index_key index_key

datatype index_res = ResError exn | ResDone | ResErased bool | ResFound "64 word option"
  | ResRange "64 word list"

fun result_of :: "('a \<Rightarrow> index_res) \<Rightarrow> exn + 'a \<Rightarrow> index_res" where
  "result_of f (Inl e) = ResError e"
| "result_of f (Inr x) = f x"

fun run_op :: "index_op \<Rightarrow> bindex \<Rightarrow> index_res \<times> bindex" where
  "run_op (OpInsert k v) ix = (case insert_key k v ix of (r, ix') \<Rightarrow> (result_of (\<lambda>_. ResDone) r, ix'))"
| "run_op (OpErase k) ix = (case erase_key k ix of (r, ix') \<Rightarrow> (result_of ResErased r, ix'))"
| "run_op (OpFind k) ix = (result_of ResFound (find_key k ix), ix)"
| "run_op (OpRange b e) ix = (result_of ResRange (range_search b e ix), ix)"

fun run_ops :: "index_op list \<Rightarrow> bindex \<Rightarrow> index_res list \<times> bindex" where
  "run_ops [] ix = ([], ix)"
| "run_ops (x # xs) ix =
     (case run_op x ix of (r, ix1) \<Rightarrow> case run_ops xs ix1 of (rs, ix2) \<Rightarrow> (r # rs, ix2))"

text \<open>The same operations on a sorted list of entries.\<close>

fun spec_op :: "index_op \<Rightarrow> (index_key \<times> 64 word) list \<Rightarrow> index_res \<times> (index_key \<times> 64 word) list" where
  "spec_op (OpInsert k v) kvs =
     (if map_of kvs k = None then (ResDone, ins k v kvs)
      else (ResError (InvalidArgument ''Duplicate index key''), kvs))"
| "spec_op (OpErase k) kvs = (ResErased (map_of kvs k \<noteq> None), del k kvs)"
| "spec_op (OpFind k) kvs = (ResFound (map_of kvs k), kvs)"
| "spec_op (OpRange b e) kvs = (ResRange (in_range b e kvs), kvs)"

fun spec_ops :: "index_op list \<Rightarrow> (index_key \<times> 64 word) list
    \<Rightarrow> index_res list \<times> (index_key \<times> 64 word) list" where
  "spec_ops [] kvs = ([], kvs)"
| "spec_ops (x # xs) kvs =
     (case spec_op x kvs of (r, kvs1) \<Rightarrow> case spec_ops xs kvs1 of (rs, kvs2) \<Rightarrow> (r # rs, kvs2))"

fun op_ok :: "key_kind \<Rightarrow> index_op \<Rightarrow> bool" where
  "op_ok kk (OpInsert k v) = key_ok kk k"
| "op_ok kk (OpErase k) = key_matches_kind k kk"
| "op_ok kk (OpFind k) = key_matches_kind k kk"
| "op_ok kk (OpRange b e) = (key_matches_kind b kk \<and> key_matches_kind e kk)"

lemma run_op_rep:
  assumes r: "index_rep ix kvs" and ok: "op_ok (kind_of ix) x" and room: "pcount ix + 53 \<le> PAGE_LIMIT"
  shows "\<exists>ix'. run_op x ix = (fst (spec_op x kvs), ix') \<and> index_rep ix' (snd (spec_op x kvs))
    \<and> kind_of ix' = kind_of ix \<and> pcount ix' \<le> pcount ix + 53"
proof (cases x)
  case (OpInsert k v)
  with ok have k: "key_ok (kind_of ix) k" by simp
  show ?thesis
  proof (cases "map_of kvs k = None")
    case True
    with insert_key_rep [OF r k True, of v] room OpInsert show ?thesis by (auto simp: index_room_def)
  next
    case False
    with insert_key_rep_duplicate [OF r key_okD [OF k] False] r OpInsert show ?thesis by simp
  qed
next
  case (OpErase k)
  with ok have "key_matches_kind k (kind_of ix)" by simp
  from erase_key_rep [OF r this] OpErase show ?thesis by auto
next
  case (OpFind k)
  with ok have "key_matches_kind k (kind_of ix)" by simp
  from find_key_rep [OF r this] OpFind r show ?thesis by simp
next
  case (OpRange b e)
  with ok have "key_matches_kind b (kind_of ix)" "key_matches_kind e (kind_of ix)" by simp_all
  from range_search_rep [OF r this] OpRange r show ?thesis by simp
qed

lemma run_ops_rep:
  "index_rep ix kvs \<Longrightarrow> \<forall>x \<in> set xs. op_ok (kind_of ix) x \<Longrightarrow> pcount ix + 53 * length xs \<le> PAGE_LIMIT \<Longrightarrow>
   \<exists>ix'. run_ops xs ix = (fst (spec_ops xs kvs), ix') \<and> index_rep ix' (snd (spec_ops xs kvs))"
proof (induction xs arbitrary: ix kvs)
  case (Cons x xs)
  then obtain ix1 where i: "run_op x ix = (fst (spec_op x kvs), ix1)" "index_rep ix1 (snd (spec_op x kvs))"
    "kind_of ix1 = kind_of ix" "pcount ix1 \<le> pcount ix + 53"
    using run_op_rep [of ix kvs x] by auto
  then obtain ix2 where "run_ops xs ix1 = (fst (spec_ops xs (snd (spec_op x kvs))), ix2)"
    "index_rep ix2 (snd (spec_ops xs (snd (spec_op x kvs))))"
    using Cons.IH [OF i(2)] Cons.prems by auto
  with i show ?case by (auto split: prod.split)
qed simp

text \<open>A new index, for the witnesses.\<close>

lemma new_int_index:
  obtains ix where "open_index None KindInt64 = Inr ix" "index_rep ix []" "kind_of ix = KindInt64"
    "index_room ix" "pcount ix = 0"
proof -
  obtain ix where ix: "open_index None KindInt64 = Inr ix" "index_rep ix []" "kind_of ix = KindInt64" "index_room ix"
    using open_new_index [of KindInt64] by auto
  moreover have "pcount ix = 0"
    using ix(1) write_metadata_law [OF open_new_disk(2), of "empty_metadata\<lparr>meta_key_kind := KindInt64\<rparr>"]
    by (auto simp: open_index_def open_new_disk Let_def empty_metadata_def metadata_ok_def pcount_def page_count_def)
  ultimately show thesis using that by blast
qed

subsection \<open>The properties\<close>

text \<open>
  C1: Index operations refine sorted lists. Any run of insertions, deletions, lookups and range searches on an
  index that stores \<open>kvs\<close> returns, operation by operation, what the same run returns on the sorted
  list, duplicates refused included, and leaves an index that stores the resulting list. The room
  needed is at most 53 pages for every operation.
\<close>

theorem index_run_refines_list:
  assumes "index_rep ix kvs" and "\<forall>x \<in> set xs. op_ok (kind_of ix) x"
    and "pcount ix + 53 * length xs \<le> PAGE_LIMIT"
  shows "\<exists>ix'. run_ops xs ix = (fst (spec_ops xs kvs), ix') \<and> index_rep ix' (snd (spec_ops xs kvs))"
  using assms by (rule run_ops_rep)

theorem index_run_refines_list_witness:
  "\<exists>ix ix'. open_index None KindInt64 = Inr ix
    \<and> run_ops [OpInsert (KInt 5) 50, OpInsert (KInt 3) 30, OpInsert (KInt 5) 1, OpFind (KInt 3),
         OpErase (KInt 5), OpRange (KInt 0) (KInt 9)] ix
      = ([ResDone, ResDone, ResError (InvalidArgument ''Duplicate index key''), ResFound (Some 30),
          ResErased True, ResRange [30]], ix')"
proof -
  obtain ix where ix: "open_index None KindInt64 = Inr ix" "index_rep ix []" "kind_of ix = KindInt64"
    "index_room ix" "pcount ix = 0" by (rule new_int_index)
  let ?xs = "[OpInsert (KInt 5) 50, OpInsert (KInt 3) 30, OpInsert (KInt 5) 1, OpFind (KInt 3),
         OpErase (KInt 5), OpRange (KInt 0) (KInt 9)]"
  have "\<forall>x \<in> set ?xs. op_ok (kind_of ix) x" "pcount ix + 53 * length ?xs \<le> PAGE_LIMIT"
    using ix(3,5) by (simp_all add: PAGE_LIMIT_def)
  from index_run_refines_list [OF ix(2) this] ix(1) show ?thesis
    by (auto simp: ins_def del_def in_range_def)
qed

text \<open>
  C2: Inserting a new key succeeds and adds exactly that entry at its place in the key order,
  through every leaf and internal split up to a new root; it allocates at most 53 pages.
\<close>

theorem insert_adds_entry:
  assumes "index_rep ix kvs" and "key_ok (kind_of ix) k" and "map_of kvs k = None" and "index_room ix"
  shows "\<exists>ix'. insert_key k v ix = (Inr (), ix') \<and> index_rep ix' (ins k v kvs) \<and> kind_of ix' = kind_of ix
    \<and> pcount ix' \<le> pcount ix + 53"
  using assms by (rule insert_key_rep)

theorem insert_adds_entry_witness:
  "\<exists>ix ix'. open_index None KindInt64 = Inr ix \<and> insert_key (KInt 5) 50 ix = (Inr (), ix')
    \<and> index_rep ix' [(KInt 5, 50)]"
proof -
  obtain ix where ix: "open_index None KindInt64 = Inr ix" "index_rep ix []" "kind_of ix = KindInt64"
    "index_room ix" "pcount ix = 0" by (rule new_int_index)
  have "key_ok (kind_of ix) (KInt 5)" "map_of [] (KInt 5) = None" using ix(3) by simp_all
  from insert_adds_entry [OF ix(2) this ix(4), of 50] ix(1) show ?thesis by (auto simp: ins_def)
qed

text \<open>
  C3: Deleting a key reports whether it was there and removes exactly that entry, through every
  borrow, merge and redistribution down to a root with one child or an empty index; it allocates
  no page.
\<close>

theorem erase_removes_entry:
  assumes "index_rep ix kvs" and "key_matches_kind k (kind_of ix)"
  shows "\<exists>ix'. erase_key k ix = (Inr (map_of kvs k \<noteq> None), ix') \<and> index_rep ix' (del k kvs)
    \<and> kind_of ix' = kind_of ix \<and> pcount ix' = pcount ix"
  using assms by (rule erase_key_rep)

theorem erase_removes_entry_witness:
  "\<exists>ix ix'. open_index None KindInt64 = Inr ix \<and> erase_key (KInt 5) ix = (Inr False, ix') \<and> index_rep ix' []"
proof -
  obtain ix where ix: "open_index None KindInt64 = Inr ix" "index_rep ix []" "kind_of ix = KindInt64"
    "index_room ix" "pcount ix = 0" by (rule new_int_index)
  have "key_matches_kind (KInt 5) (kind_of ix)" using ix(3) by simp
  from erase_removes_entry [OF ix(2) this] ix(1) show ?thesis by (auto simp: del_def)
qed

text \<open>
  A lookup terminates, follows the separators to the right leaf and returns the record stored
  under the key, or nothing if there is none.
\<close>

lemma find_returns_entry:
  assumes "index_rep ix kvs" and "key_matches_kind k (kind_of ix)"
  shows "find_key k ix = Inr (map_of kvs k)"
  using assms by (rule find_key_rep)

lemma find_returns_entry_witness:
  "\<exists>ix. open_index None KindInt64 = Inr ix \<and> find_key (KInt 5) ix = Inr None"
proof -
  obtain ix where ix: "open_index None KindInt64 = Inr ix" "index_rep ix []" "kind_of ix = KindInt64"
    "index_room ix" "pcount ix = 0" by (rule new_int_index)
  have "key_matches_kind (KInt 5) (kind_of ix)" using ix(3) by simp
  from find_returns_entry [OF ix(2) this] ix(1) show ?thesis by auto
qed

text \<open>
  C4: A range search returns the records of exactly the keys between the two bounds, both
  included, in key order, by following the links between the leaves.
\<close>

theorem range_returns_entries:
  assumes "index_rep ix kvs" and "key_matches_kind b (kind_of ix)" and "key_matches_kind e (kind_of ix)"
  shows "range_search b e ix = Inr (map snd (filter (\<lambda>kv. b \<le> fst kv \<and> fst kv \<le> e) kvs))"
  using range_search_rep [OF assms] by (simp add: in_range_def)

theorem range_returns_entries_witness:
  "\<exists>ix ix'. open_index None KindInt64 = Inr ix \<and> insert_key (KInt 5) 50 ix = (Inr (), ix')
    \<and> range_search (KInt 0) (KInt 9) ix' = Inr [50]"
proof -
  obtain ix where ix: "open_index None KindInt64 = Inr ix" "index_rep ix []" "kind_of ix = KindInt64"
    "index_room ix" "pcount ix = 0" by (rule new_int_index)
  have "key_ok (kind_of ix) (KInt 5)" using ix(3) by simp
  then obtain ix' where i: "insert_key (KInt 5) 50 ix = (Inr (), ix')" "index_rep ix' [(KInt 5, 50)]"
    "kind_of ix' = kind_of ix" using insert_key_rep [OF ix(2) _ _ ix(4), of "KInt 5" 50] by (auto simp: ins_def)
  have "key_matches_kind (KInt 0) (kind_of ix')" "key_matches_kind (KInt 9) (kind_of ix')" using i(3) ix(3) by simp_all
  from range_returns_entries [OF i(2) this] ix(1) i(1) show ?thesis by auto
qed

text \<open>
  C5: An index survives being closed: opening its file again gives the same state, metadata
  included, whatever key kind the caller asks for.
\<close>

theorem reopen_keeps_index:
  assumes "index_rep ix kvs"
  shows "open_index (Some (disk_file (bx_disk ix))) kk = Inr ix"
  using assms by (rule reopen_index)

theorem reopen_keeps_index_witness:
  "\<exists>ix. open_index None KindInt64 = Inr ix \<and> open_index (Some (disk_file (bx_disk ix))) KindString = Inr ix"
proof -
  obtain ix where ix: "open_index None KindInt64 = Inr ix" "index_rep ix []" "kind_of ix = KindInt64"
    "index_room ix" "pcount ix = 0" by (rule new_int_index)
  from reopen_keeps_index [OF ix(2), of KindString] ix(1) show ?thesis by blast
qed



text \<open>
  C7: Serialising a node and reading the page back gives the same node: the page has exactly 4096
  bytes, for both kinds of key and both kinds of node.
\<close>

theorem node_page_roundtrip:
  assumes "node_ok kk n"
  shows "\<exists>pg. serialize_node n kk = Inr pg \<and> length pg = PAGE_SIZE \<and> deserialize_node pg kk = Inr n"
  using serialize_node_ok [OF assms] length_node_image [OF assms] deserialize_node_image [OF assms] by blast

theorem node_page_roundtrip_witness:
  "\<exists>pg. serialize_node (new_leaf 3 4 [KStr ''ab'', KStr ''c''] [7, 8]) KindString = Inr pg
    \<and> deserialize_node pg KindString = Inr (new_leaf 3 4 [KStr ''ab'', KStr ''c''] [7, 8])"
proof -
  have "node_ok KindString (new_leaf 3 4 [KStr ''ab'', KStr ''c''] [7, 8])"
    by (simp add: node_ok_def shape_ok_def new_leaf_def capacity_def capacities INDEX_STRING_KEY_SIZE_def)
  from node_page_roundtrip [OF this] show ?thesis by blast
qed

text \<open>
  C8: A well-shaped node with storable keys fits a page exactly up to its capacity (225 or 15 keys
  in a leaf, 253 or 15 in an internal node); one key more is the \<open>length_error\<close> that
  \<open>node_fits_page\<close> turns into a split.
\<close>

theorem node_fits_iff_capacity:
  assumes "shape_ok n" and "\<forall>k \<in> set (keys n). key_ok kk k" and "length (keys n) < UINT32_MAX"
  shows "if length (keys n) \<le> capacity kk (is_leaf n)
    then \<exists>pg. serialize_node n kk = Inr pg \<and> length pg = PAGE_SIZE
    else serialize_node n kk = Inl (LengthError ''Index node does not fit into page'')"
  using serialize_node_cases [OF assms] length_node_image [of kk n] assms by (simp add: node_ok_def)

theorem node_fits_iff_capacity_witness:
  "serialize_node (new_leaf 0 0 (replicate 226 (KInt 1)) (replicate 226 2)) KindInt64
    = Inl (LengthError ''Index node does not fit into page'')"
  using node_fits_iff_capacity [of "new_leaf 0 0 (replicate 226 (KInt 1)) (replicate 226 2)" KindInt64]
  by (simp add: shape_ok_def new_leaf_def UINT32_MAX_def capacity_def capacities)





end
