(* ===== verification/C_Runtime.thy ===== *)
theory C_Runtime
  imports Prelude
begin

section \<open>Character classes, text and binary streams of the C++ library\<close>

text \<open>
  What the storage, the parser and the executor use of the C++ standard library: the character
  classes of \<open><cctype>\<close> in the "C" locale, in which the server runs, and \<open>std::istream::read\<close> on a
  binary stream. A stream is what is left to read and whether it is still good: a short read
  delivers what there is and sets the fail bit, after which every read delivers nothing.
\<close>

subsection \<open>\<open><cctype>\<close>\<close>

definition is_digit :: "char \<Rightarrow> bool" where
  "is_digit c \<longleftrightarrow> CHR ''0'' \<le> c \<and> c \<le> CHR ''9''"

definition is_lower :: "char \<Rightarrow> bool" where
  "is_lower c \<longleftrightarrow> CHR ''a'' \<le> c \<and> c \<le> CHR ''z''"

definition is_upper :: "char \<Rightarrow> bool" where
  "is_upper c \<longleftrightarrow> CHR ''A'' \<le> c \<and> c \<le> CHR ''Z''"

definition is_alpha :: "char \<Rightarrow> bool" where
  "is_alpha c \<longleftrightarrow> is_lower c \<or> is_upper c"

definition is_alnum :: "char \<Rightarrow> bool" where
  "is_alnum c \<longleftrightarrow> is_alpha c \<or> is_digit c"

definition is_space :: "char \<Rightarrow> bool" where
  "is_space c \<longleftrightarrow> c = CHR '' '' \<or> (CHR 0x09 \<le> c \<and> c \<le> CHR 0x0D)"

definition to_lower :: "char \<Rightarrow> char" where
  "to_lower c = (if is_upper c then char_of (of_char c + 32 :: nat) else c)"

definition to_upper :: "char \<Rightarrow> char" where
  "to_upper c = (if is_lower c then char_of (of_char c - 32 :: nat) else c)"

lemma char_le_iff: "c \<le> d \<longleftrightarrow> (of_char c :: nat) \<le> of_char d"
  by (rule less_eq_char_def)

lemma of_char_range: "of_char (CHR ''0'') = (48 :: nat)" "of_char (CHR ''9'') = (57 :: nat)"
  "of_char (CHR ''A'') = (65 :: nat)" "of_char (CHR ''Z'') = (90 :: nat)"
  "of_char (CHR ''a'') = (97 :: nat)" "of_char (CHR ''z'') = (122 :: nat)"
  by simp_all

lemma of_char_char_of_small: "n < 256 \<Longrightarrow> of_char (char_of n) = (n :: nat)"
  by simp

lemma to_lower_upper: "is_lower (to_upper c) = False" "is_upper (to_lower c) = False"
  by (auto simp: to_upper_def to_lower_def is_lower_def is_upper_def char_le_iff of_char_range
      of_char_char_of_small)

lemma to_upper_idem [simp]: "to_upper (to_upper c) = to_upper c"
  using to_lower_upper(1) [of c] by (simp add: to_upper_def [of "to_upper c"])

lemma to_lower_idem [simp]: "to_lower (to_lower c) = to_lower c"
  using to_lower_upper(2) [of c] by (simp add: to_lower_def [of "to_lower c"])

subsection \<open>Decimal numerals\<close>

definition digit_val :: "char \<Rightarrow> nat" where
  "digit_val c = of_char c - 48"

definition nat_of_digits :: "string \<Rightarrow> nat" where
  "nat_of_digits cs = foldl (\<lambda>n c. 10 * n + digit_val c) 0 cs"

fun digits_of_nat :: "nat \<Rightarrow> string" where
  "digits_of_nat n = (if n < 10 then [char_of (48 + n)] else digits_of_nat (n div 10) @ [char_of (48 + n mod 10)])"

declare digits_of_nat.simps [simp del]

definition decimal :: "int \<Rightarrow> string" where
  \<comment> \<open>\<open>std::to_string\<close>\<close>
  "decimal i = (if i < 0 then CHR ''-'' # digits_of_nat (nat (- i)) else digits_of_nat (nat i))"

lemma digit_char [simp]: "n < 10 \<Longrightarrow> is_digit (char_of (48 + n)) \<and> digit_val (char_of (48 + n)) = n"
  by (simp add: is_digit_def digit_val_def char_le_iff of_char_range)

lemma digits_of_nat_digits: "list_all is_digit (digits_of_nat n) \<and> digits_of_nat n \<noteq> []"
proof (induction n rule: digits_of_nat.induct)
  case (1 n)
  then show ?case by (cases "n < 10") (auto simp: digits_of_nat.simps [of n])
qed

lemma nat_of_digits_of_nat [simp]: "nat_of_digits (digits_of_nat n) = n"
proof (induction n rule: digits_of_nat.induct)
  case (1 n)
  then show ?case
    by (cases "n < 10") (auto simp: digits_of_nat.simps [of n] nat_of_digits_def)
qed

text \<open>
  \<open>std::stoi\<close> and \<open>std::stoll\<close> in base 10: leading spaces and a sign are accepted, what follows the
  digits is not read. The result is the number with the count of characters read.
\<close>

definition split_sign :: "string \<Rightarrow> bool \<times> string" where
  "split_sign s =
     (case s of [] \<Rightarrow> (False, [])
      | c # s' \<Rightarrow> if c = CHR ''-'' then (True, s') else if c = CHR ''+'' then (False, s') else (False, s))"

definition scan_int :: "string \<Rightarrow> (int \<times> nat) option" where
  "scan_int s =
     (case split_sign (dropWhile is_space s) of (neg, rest) \<Rightarrow>
        let ds = takeWhile is_digit rest in
        if ds = [] then None
        else Some ((if neg then - int (nat_of_digits ds) else int (nat_of_digits ds)),
                   length s - length (dropWhile is_digit rest)))"

definition string_to_int :: "string \<Rightarrow> nat \<Rightarrow> string \<Rightarrow> exn + int \<times> nat" where
  \<comment> \<open>the name of the function, which is the text of its exceptions, and the width of its result\<close>
  "string_to_int fn w s =
     (case scan_int s of
        None \<Rightarrow> Inl (InvalidArgument fn)
      | Some (i, n) \<Rightarrow> if - (2 ^ (w - 1)) \<le> i \<and> i < 2 ^ (w - 1) then Inr (i, n) else Inl (OutOfRange fn))"

definition stoi :: "string \<Rightarrow> exn + 32 word" where
  "stoi s = bindE (string_to_int ''stoi'' 32 s) (\<lambda>(i, _). Inr (word_of_int i))"

definition stoll :: "string \<Rightarrow> exn + 64 word \<times> nat" where
  "stoll s = bindE (string_to_int ''stoll'' 64 s) (\<lambda>(i, n). Inr (word_of_int i, n))"

lemma digit_not_sign: "is_digit c \<Longrightarrow> \<not> is_space c \<and> c \<noteq> CHR ''-'' \<and> c \<noteq> CHR ''+''"
  by (auto simp: is_digit_def is_space_def char_le_iff)

lemma scan_int_digits:
  assumes "list_all is_digit s" and "s \<noteq> []"
  shows "scan_int s = Some (int (nat_of_digits s), length s)"
proof -
  obtain c s' where s: "s = c # s'" using assms(2) by (cases s) auto
  with assms(1) digit_not_sign [of c] have "dropWhile is_space s = s" "split_sign s = (False, s)"
    by (simp_all add: split_sign_def)
  moreover have digits: "takeWhile is_digit s = s" "dropWhile is_digit s = []"
    using assms(1) by (simp_all add: list_all_iff)
  ultimately show ?thesis using assms(2) by (simp add: scan_int_def Let_def digits)
qed

lemma string_to_int_digits:
  "list_all is_digit s \<Longrightarrow> s \<noteq> [] \<Longrightarrow> nat_of_digits s < 2 ^ (w - 1)
    \<Longrightarrow> string_to_int fn w s = Inr (int (nat_of_digits s), length s)"
  by (simp add: string_to_int_def scan_int_digits of_nat_less_iff [symmetric] del: of_nat_less_iff)
    (metis neg_le_0_iff_le of_nat_0_le_iff order_trans zero_le_numeral zero_le_power)

subsection \<open>Text in error messages\<close>

definition quoted :: "string \<Rightarrow> string" where
  \<comment> \<open>\<open>"'" + s + "'"\<close>\<close>
  "quoted s = CHR 0x27 # s @ [CHR 0x27]"

definition double_quoted :: "string \<Rightarrow> string" where
  "double_quoted s = CHR 0x22 # s @ [CHR 0x22]"

definition VECTOR_AT :: exn where
  \<comment> \<open>what \<open>vector::at\<close> throws\<close>
  "VECTOR_AT = OutOfRange ''vector::_M_range_check''"

subsection \<open>Binary streams\<close>

type_synonym istream = "char list \<times> bool"

fun stream_read :: "nat \<Rightarrow> istream \<Rightarrow> char list \<times> istream" where
  \<comment> \<open>\<open>in.read(buf, n)\<close>: the bytes stored into \<open>buf\<close> and the stream afterwards\<close>
  "stream_read n (bs, good) =
     (if good then (take n bs, drop n bs, n \<le> length bs) else ([], bs, False))"

lemma stream_read_append [simp]: "length xs = n \<Longrightarrow> stream_read n (xs @ ys, True) = (xs, ys, True)"
  by simp

declare stream_read.simps [simp del]

definition zero_filled :: "nat \<Rightarrow> char list \<Rightarrow> char list" where
  \<comment> \<open>a buffer of \<open>n\<close> zero bytes that a read filled from the front\<close>
  "zero_filled n cs = cs @ replicate (n - length cs) CHR 0x00"

lemma zero_filled_full [simp]: "length cs = n \<Longrightarrow> zero_filled n cs = cs"
  by (simp add: zero_filled_def)

end
