(* ===== verification/String_Pool.thy ===== *)
theory String_Pool
  imports C_Runtime
begin

section \<open>The string pool\<close>

text \<open>
  \<open>class StringPool\<close> (\<open>storage/src/string_pool.cpp\<close>): every string value of the database is stored
  once and referred to by a 32-bit id; id 0 is reserved. The code keeps one instance behind a
  mutex; here the pool is a state passed explicitly, since every method runs under the lock.
\<close>

record pool =
  by_value :: "string \<rightharpoonup> 32 word"
  by_id :: "string list"

definition new_pool :: pool where
  "new_pool = \<lparr>by_value = Map.empty, by_id = [[]]\<rparr>"

definition intern :: "string \<Rightarrow> pool \<Rightarrow> 32 word \<times> pool" where
  "intern s p =
     (case by_value p s of
        Some i \<Rightarrow> (i, p)
      | None \<Rightarrow>
          let i = of_nat (length (by_id p)) in
          (i, p\<lparr>by_id := by_id p @ [s], by_value := (by_value p)(s \<mapsto> i)\<rparr>))"

definition pool_get :: "32 word \<Rightarrow> pool \<Rightarrow> exn + string" where
  "pool_get i p =
     (if i = 0 \<or> unat i \<ge> length (by_id p) then Inl (RuntimeError ''StringPool: invalid id'')
      else Inr (by_id p ! unat i))"

definition string_entry :: "string \<Rightarrow> char list" where
  \<comment> \<open>the length of a string is cut to 32 bits, and that many bytes of it are written\<close>
  "string_entry s = (let n = length s mod 2 ^ 32 in le_bytes 4 n @ take n s)"

definition serialize_pool :: "pool \<Rightarrow> exn + char list" where
  \<comment> \<open>the counter of the loop is 32 bits wide too: it never exceeds \<open>2 ^ 32 - 1\<close> entries\<close>
  "serialize_pool p =
     (let count = (if by_id p = [] then 0 else length (by_id p) - 1) mod 2 ^ 32 in
      bindE (guardE (count < 2 ^ 32 - 1) NoReturn) (\<lambda>_.
      Inr (le_bytes 4 count @ concat (map string_entry (take count (tl (by_id p)))))))"

fun restore_entries :: "nat \<Rightarrow> istream \<Rightarrow> pool \<Rightarrow> istream \<times> pool" where
  "restore_entries 0 st p = (st, p)"
| "restore_entries (Suc n) st p =
     (let (lb, st1) = stream_read 4 st;
          len = le_nat lb;
          (cs, st2) = stream_read len st1;
          s = zero_filled len cs;
          i = of_nat (length (by_id p)) in
      restore_entries n st2
        (p\<lparr>by_id := by_id p @ [s],
           by_value := (case by_value p s of None \<Rightarrow> (by_value p)(s \<mapsto> i) | Some _ \<Rightarrow> by_value p)\<rparr>))"

definition deserialize_pool :: "istream \<Rightarrow> istream \<times> pool" where
  "deserialize_pool st = (let (cb, st1) = stream_read 4 st in restore_entries (le_nat cb) st1 new_pool)"

subsection \<open>The pool invariant\<close>

definition pool_ok :: "pool \<Rightarrow> bool" where
  "pool_ok p \<longleftrightarrow> by_id p \<noteq> [] \<and> hd (by_id p) = [] \<and> length (by_id p) \<le> 2 ^ 32
     \<and> (\<forall>s i. by_value p s = Some i \<longleftrightarrow> i \<noteq> 0 \<and> unat i < length (by_id p) \<and> by_id p ! unat i = s)"

definition pool_room :: "nat \<Rightarrow> pool \<Rightarrow> bool" where
  "pool_room n p \<longleftrightarrow> length (by_id p) + n \<le> 2 ^ 32"

definition extends :: "pool \<Rightarrow> pool \<Rightarrow> bool" where
  \<comment> \<open>ids handed out earlier keep their strings\<close>
  "extends p p' \<longleftrightarrow> (\<forall>i s. pool_get i p = Inr s \<longrightarrow> pool_get i p' = Inr s)"

lemma extends_refl [simp]: "extends p p"
  by (simp add: extends_def)

lemma extends_trans: "extends p q \<Longrightarrow> extends q r \<Longrightarrow> extends p r"
  by (simp add: extends_def)

lemma new_pool_ok: "pool_ok new_pool"
  by (auto simp: pool_ok_def new_pool_def word_unat_eq_iff)

lemma pool_get_Inr: "pool_get i p = Inr s \<longleftrightarrow> i \<noteq> 0 \<and> unat i < length (by_id p) \<and> by_id p ! unat i = s"
  by (auto simp: pool_get_def)

lemma pool_by_value:
  assumes "pool_ok p" shows "by_value p s = Some i \<longleftrightarrow> pool_get i p = Inr s"
  using assms by (simp add: pool_ok_def pool_get_Inr)

lemma pool_get_inj:
  assumes "pool_ok p" and "pool_get i p = Inr s" and "pool_get j p = Inr s"
  shows "i = j"
  using assms pool_by_value [OF assms(1)] by (metis option.inject)

lemma unat_next_id:
  "pool_ok p \<Longrightarrow> pool_room 1 p \<Longrightarrow> unat (of_nat (length (by_id p)) :: 32 word) = length (by_id p)"
  by (simp add: pool_room_def unat_of_nat)

lemma push_ok:
  assumes ok: "pool_ok p" and room: "pool_room 1 p" and new: "by_value p s = None"
  defines "i \<equiv> of_nat (length (by_id p))"
  defines "p' \<equiv> p\<lparr>by_id := by_id p @ [s], by_value := (by_value p)(s \<mapsto> i)\<rparr>"
  shows "pool_ok p'" and "extends p p'" and "pool_get i p' = Inr s"
proof -
  have u: "unat i = length (by_id p)" unfolding i_def by (rule unat_next_id [OF ok room])
  have pos: "by_id p \<noteq> []" using ok by (simp add: pool_ok_def)
  have i0: "i \<noteq> 0"  using u pos by (metis length_0_conv unat_0)
  have old: "by_value p t = Some j \<longleftrightarrow> j \<noteq> 0 \<and> unat j < length (by_id p) \<and> by_id p ! unat j = t" for t j
    using ok by (simp add: pool_ok_def)
  have "(by_value p') t = Some j \<longleftrightarrow> j \<noteq> 0 \<and> unat j < length (by_id p') \<and> by_id p' ! unat j = t" for t j
  proof (cases "t = s")
    case True
    have "\<not> (j \<noteq> 0 \<and> unat j < length (by_id p) \<and> by_id p ! unat j = s)" using old [of s j] new by simp
    moreover obtain n where "length (by_id p) = Suc n" using pos by (cases "by_id p") simp_all
    ultimately show ?thesis using True u i0 by (auto simp: p'_def nth_append less_Suc_eq word_unat_eq_iff)
  next
    case False
    then show ?thesis using old [of t j] by (auto simp: p'_def nth_append less_Suc_eq)
  qed
  then show "pool_ok p'" using ok room pos by (auto simp: pool_ok_def p'_def pool_room_def)
  show "extends p p'" by (auto simp: extends_def pool_get_Inr p'_def nth_append)
  show "pool_get i p' = Inr s" using u i0 by (simp add: pool_get_Inr p'_def)
qed

lemma intern_ok:
  assumes ok: "pool_ok p" and room: "pool_room 1 p" and "intern s p = (i, p')"
  shows "pool_ok p'" and "extends p p'" and "pool_get i p' = Inr s" and "length (by_id p') \<le> Suc (length (by_id p))"
proof -
  have "pool_ok p' \<and> extends p p' \<and> pool_get i p' = Inr s \<and> length (by_id p') \<le> Suc (length (by_id p))"
  proof (cases "by_value p s")
    case None
    then show ?thesis using push_ok [OF ok room None] assms(3) by (auto simp: intern_def Let_def)
  next
    case (Some j)
    then have "i = j" "p' = p" using assms(3) by (simp_all add: intern_def)
    moreover have "pool_get j p = Inr s" using Some pool_by_value [OF ok] by simp
    ultimately show ?thesis using ok by simp
  qed
  then show "pool_ok p'" "extends p p'" "pool_get i p' = Inr s" "length (by_id p') \<le> Suc (length (by_id p))"
    by simp_all
qed

lemma intern_known: "pool_ok p \<Longrightarrow> pool_get i p = Inr s \<Longrightarrow> intern s p = (i, p)"
  using pool_by_value [of p s i] by (simp add: intern_def)

subsection \<open>Saving and restoring the pool\<close>

definition strings_short :: "pool \<Rightarrow> bool" where
  "strings_short p \<longleftrightarrow> (\<forall>s \<in> set (by_id p). length s < 2 ^ 32)"

lemma read_entry:
  assumes "length s < 2 ^ 32"
  shows "stream_read 4 (string_entry s @ rest, True) = (le_bytes 4 (length s), s @ rest, True)"
proof -
  have "string_entry s @ rest = le_bytes 4 (length s) @ (s @ rest)"
    using assms by (simp add: string_entry_def Let_def)
  then show ?thesis by (simp only: stream_read_append length_le_bytes)
qed

lemma restore_entries_ok:
  assumes "pool_ok p" and "pool_room (length ss) p"
    and "\<forall>s \<in> set ss. length s < 2 ^ 32" and "distinct ss" and "\<forall>s \<in> set ss. by_value p s = None"
  shows "\<exists>p'. restore_entries (length ss) (concat (map string_entry ss) @ rest, True) p = ((rest, True), p')
    \<and> by_id p' = by_id p @ ss \<and> pool_ok p'"
  using assms
proof (induction ss arbitrary: p)
  case (Cons s ss)
  let ?i = "of_nat (length (by_id p)) :: 32 word"
  let ?q = "p\<lparr>by_id := by_id p @ [s], by_value := (by_value p)(s \<mapsto> ?i)\<rparr>"
  have room: "pool_room 1 p" using Cons.prems(2) by (simp add: pool_room_def)
  have new: "by_value p s = None" using Cons.prems(5) by simp
  have len: "length s < 256 ^ 4" using Cons.prems(3) by simp
  have "\<forall>t \<in> set ss. by_value ?q t = None" using Cons.prems(4,5) by auto
  then obtain p' where p': "restore_entries (length ss) (concat (map string_entry ss) @ rest, True) ?q = ((rest, True), p')"
    "by_id p' = by_id ?q @ ss" "pool_ok p'"
    using Cons.IH [OF push_ok(1) [OF Cons.prems(1) room new]] Cons.prems by (auto simp: pool_room_def)
  have r4: "stream_read 4 (string_entry s @ concat (map string_entry ss) @ rest, True)
      = (le_bytes 4 (length s), s @ concat (map string_entry ss) @ rest, True)"
    using read_entry Cons.prems(3) by simp
  have "restore_entries (length (s # ss)) (concat (map string_entry (s # ss)) @ rest, True) p
      = restore_entries (length ss) (concat (map string_entry ss) @ rest, True) ?q"
    using r4 new le_nat_bytes [OF len] by (simp add: Let_def)
  with p' show ?case by simp
qed simp

lemma pool_tl_new:
  assumes "pool_ok p"
  shows "distinct (tl (by_id p))"
proof (subst distinct_conv_nth, intro allI impI)
  fix a b assume ab: "a < length (tl (by_id p))" "b < length (tl (by_id p))" "a \<noteq> b"
  let ?w = "\<lambda>n. of_nat (Suc n) :: 32 word"
  have l: "length (by_id p) \<le> 2 ^ 32" using assms by (simp add: pool_ok_def)
  have u: "unat (?w n) = Suc n" if "n < length (tl (by_id p))" for n
  proof -
    have "Suc n < 2 ^ 32" using that l by simp
    then show ?thesis by (simp add: unat_of_nat del: of_nat_Suc)
  qed
  have g: "pool_get (?w n) p = Inr (tl (by_id p) ! n)" if "n < length (tl (by_id p))" for n
  proof -
    have "?w n \<noteq> 0" using u [OF that] by (metis nat.distinct(1) unat_0)
    then show ?thesis using u [OF that] that by (simp add: pool_get_Inr nth_tl del: of_nat_Suc)
  qed
  show "tl (by_id p) ! a \<noteq> tl (by_id p) ! b"
  proof
    assume "tl (by_id p) ! a = tl (by_id p) ! b"
    then have "?w a = ?w b" using pool_get_inj [OF assms g [OF ab(1)]] g [OF ab(2)] by metis
    then show False using u ab by (metis nat.inject)
  qed
qed

lemma pool_eqI:
  assumes "pool_ok p" "pool_ok q" "by_id p = by_id q" shows "p = (q :: pool)"
proof -
  have "by_value p s = Some i \<longleftrightarrow> by_value q s = Some i" for s i
    using assms by (simp add: pool_ok_def)
  then have "by_value p s = by_value q s" for s by (metis option.exhaust)
  then show ?thesis using assms(3) by (simp add: fun_eq_iff)
qed

lemma serialize_pool_bytes:
  assumes "pool_ok p" and "length (by_id p) < 2 ^ 32"
  shows "serialize_pool p = Inr (le_bytes 4 (length (tl (by_id p))) @ concat (map string_entry (tl (by_id p))))"
proof -
  have "length (by_id p) - 1 < 2 ^ 32 - 1" "length (by_id p) - 1 < 2 ^ 32" "by_id p \<noteq> []"
    using assms by (cases "by_id p"; simp add: pool_ok_def)+
  then show ?thesis by (simp add: serialize_pool_def Let_def)
qed

lemma pool_roundtrip:
  assumes ok: "pool_ok p" and len: "length (by_id p) < 2 ^ 32" and short: "strings_short p"
  shows "\<exists>bs. serialize_pool p = Inr bs \<and> deserialize_pool (bs @ rest, True) = ((rest, True), p)"
proof -
  let ?ss = "tl (by_id p)"
  have ss: "\<forall>s \<in> set ?ss. length s < 2 ^ 32"
    using short by (cases "by_id p") (auto simp: strings_short_def)
  have "pool_room (length ?ss) new_pool" "\<forall>s \<in> set ?ss. by_value new_pool s = None"
    using len by (auto simp: pool_room_def new_pool_def)
  from restore_entries_ok [OF new_pool_ok this(1) ss pool_tl_new [OF ok] this(2), of rest]
  obtain p' where p': "restore_entries (length ?ss) (concat (map string_entry ?ss) @ rest, True) new_pool = ((rest, True), p')"
    "by_id p' = by_id new_pool @ ?ss" "pool_ok p'" by blast
  have "by_id p' = by_id p" using p'(2) ok by (cases "by_id p") (auto simp: new_pool_def pool_ok_def)
  then have "p' = p" by (rule pool_eqI [OF p'(3) ok])
  moreover have "length ?ss < 256 ^ 4" using len by simp
  then have "deserialize_pool (le_bytes 4 (length ?ss) @ concat (map string_entry ?ss) @ rest, True)
      = restore_entries (length ?ss) (concat (map string_entry ?ss) @ rest, True) new_pool"
    using le_nat_bytes [of "length ?ss" 4] by (simp add: deserialize_pool_def)
  ultimately show ?thesis using p'(1) serialize_pool_bytes [OF ok len] by simp
qed

end
