(* ===== verification/Values.thy ===== *)
theory Values
  imports String_Pool
begin

section \<open>Values and schemas\<close>

text \<open>
  \<open>class Value\<close> and \<open>enum class DataType\<close> (\<open>storage/src/value.cpp\<close>) and \<open>class TableSchema\<close>
  (\<open>storage/include/sql/schema.h\<close>). A string value is an id of the string pool, so what it means
  depends on the pool: \<open>denote p v\<close> is the SQL datum that \<open>v\<close> stands for.
\<close>

datatype data_type = IntType | StrType

datatype sql_value = Null | VInt "64 word" | VStr "32 word"

definition type_name :: "data_type \<Rightarrow> string" where
  "type_name t = (case t of IntType \<Rightarrow> ''int'' | StrType \<Rightarrow> ''string'')"

definition parse_type :: "string \<Rightarrow> data_type option" where
  "parse_type s =
     (let low = map to_lower s in
      if low = ''int'' \<or> low = ''integer'' then Some IntType
      else if low = ''string'' \<or> low = ''str'' \<or> low = ''text'' then Some StrType
      else None)"

definition of_str :: "string \<Rightarrow> pool \<Rightarrow> sql_value \<times> pool" where
  "of_str s p = (case intern s p of (i, p') \<Rightarrow> (VStr i, p'))"

fun as_str :: "pool \<Rightarrow> sql_value \<Rightarrow> exn + string" where
  \<comment> \<open>only called on string values: the id of another value is not in the union\<close>
  "as_str p (VStr i) = pool_get i p"
| "as_str p _ = Inl Undefined"

fun matches :: "sql_value \<Rightarrow> data_type \<Rightarrow> bool" where
  "matches Null _ = True"
| "matches (VInt _) t = (t = IntType)"
| "matches (VStr _) t = (t = StrType)"

definition three_way :: "bool \<Rightarrow> bool \<Rightarrow> int" where
  "three_way lt gt = (if lt then -1 else if gt then 1 else 0)"

fun compare_values :: "pool \<Rightarrow> sql_value \<Rightarrow> sql_value \<Rightarrow> exn + (int \<times> bool)" where
  \<comment> \<open>the result and the flag \<open>valid\<close>; \<open>as_str\<close> throwing inside the \<open>noexcept\<close> function ends the process\<close>
  "compare_values p Null _ = Inr (0, False)"
| "compare_values p _ Null = Inr (0, False)"
| "compare_values p (VInt a) (VInt b) = Inr (three_way (sint a < sint b) (sint a > sint b), True)"
| "compare_values p (VStr i) (VStr j) =
     (if i = j then Inr (0, True)
      else case (pool_get i p, pool_get j p) of
        (Inr a, Inr b) \<Rightarrow> Inr (three_way (a < b) (a > b), True)
      | _ \<Rightarrow> Inl Terminated)"
| "compare_values p _ _ = Inr (0, False)"

fun value_equal :: "sql_value \<Rightarrow> sql_value \<Rightarrow> bool" where
  \<comment> \<open>\<open>operator==\<close>\<close>
  "value_equal Null Null = True"
| "value_equal (VInt a) (VInt b) = (a = b)"
| "value_equal (VStr i) (VStr j) = (i = j)"
| "value_equal _ _ = False"

text \<open>The data that values stand for, and their comparison.\<close>

datatype datum = NullD | IntD int | StrD string

fun denote :: "pool \<Rightarrow> sql_value \<Rightarrow> datum option" where
  "denote p Null = Some NullD"
| "denote p (VInt w) = Some (IntD (sint w))"
| "denote p (VStr i) = (case pool_get i p of Inl _ \<Rightarrow> None | Inr s \<Rightarrow> Some (StrD s))"

fun compare_data :: "datum \<Rightarrow> datum \<Rightarrow> int \<times> bool" where
  "compare_data (IntD i) (IntD j) = (three_way (i < j) (i > j), True)"
| "compare_data (StrD s) (StrD t) = (three_way (s < t) (s > t), True)"
| "compare_data _ _ = (0, False)"

definition value_ok :: "pool \<Rightarrow> sql_value \<Rightarrow> bool" where
  "value_ok p v \<longleftrightarrow> denote p v \<noteq> None"

lemma three_way_simps [simp]:
  "three_way lt gt = 0 \<longleftrightarrow> \<not> lt \<and> \<not> gt"
  by (simp add: three_way_def)

lemma denote_Str: "denote p (VStr i) = Some d \<longleftrightarrow> (\<exists>s. d = StrD s \<and> pool_get i p = Inr s)"
  by (auto split: sum.splits)

lemma value_ok_simps [simp]: "value_ok p Null" "value_ok p (VInt w)"
  "value_ok p (VStr i) \<longleftrightarrow> (\<exists>s. pool_get i p = Inr s)"
  by (auto simp: value_ok_def split: sum.splits)

lemma denote_extends: "extends p p' \<Longrightarrow> denote p v = Some d \<Longrightarrow> denote p' v = Some d"
  by (cases v) (auto simp: extends_def split: sum.splits)

lemma value_ok_extends: "extends p p' \<Longrightarrow> value_ok p v \<Longrightarrow> value_ok p' v"
  using denote_extends by (fastforce simp: value_ok_def)

lemma sint_inject: "sint a = sint b \<longleftrightarrow> a = (b :: 64 word)"
  by (auto dest: arg_cong [where f = "\<lambda>i. of_int i :: 64 word"])

lemma denote_inject:
  assumes "pool_ok p" and "denote p a = Some d" and "denote p b = Some d"
  shows "a = b"
proof (cases a)
  case (VStr i)
  then obtain s where "d = StrD s" "pool_get i p = Inr s" using assms(2) by (auto split: sum.splits)
  with VStr assms(1,3) show ?thesis by (cases b) (auto split: sum.splits dest: pool_get_inj)
next
  case Null
  then show ?thesis using assms(2,3) by (cases b) (auto split: sum.splits)
next
  case (VInt w)
  then show ?thesis using assms(2,3) sint_inject by (cases b) (auto split: sum.splits)
qed

lemma value_equal_denotes:
  assumes "pool_ok p" and "denote p a = Some x" and "denote p b = Some y"
  shows "value_equal a b \<longleftrightarrow> x = y"
proof -
  have "value_equal a b \<longleftrightarrow> a = b" by (induction a b rule: value_equal.induct) auto
  moreover have "x = y \<Longrightarrow> a = b" using denote_inject [OF assms(1,2), of b] assms(3) by simp
  moreover have "a = b \<Longrightarrow> x = y" using assms(2,3) by simp
  ultimately show ?thesis by blast
qed

lemma compare_denotes:
  assumes "denote p a = Some x" and "denote p b = Some y"
  shows "compare_values p a b = Inr (compare_data x y)"
  using assms by (cases a; cases b; auto simp: three_way_def split: sum.splits)

lemma compare_data_eq: "compare_data x y = (r, v) \<Longrightarrow> r = 0 \<and> v \<longleftrightarrow> x = y \<and> x \<noteq> NullD"
  by (cases x; cases y) auto

lemma compare_equal:
  assumes "pool_ok p" and "value_ok p a" and "value_ok p b"
  shows "\<exists>r v. compare_values p a b = Inr (r, v) \<and> (r = 0 \<and> v \<longleftrightarrow> a = b \<and> a \<noteq> Null)"
proof -
  obtain x y where xy: "denote p a = Some x" "denote p b = Some y" using assms by (auto simp: value_ok_def)
  obtain r v where rv: "compare_data x y = (r, v)" by (cases "compare_data x y")
  have "x = y \<longleftrightarrow> a = b" using denote_inject [OF assms(1) xy(1), of b] xy by auto
  moreover have "x \<noteq> NullD \<longleftrightarrow> a \<noteq> Null" using xy(1) by (cases a) (auto split: sum.splits)
  ultimately show ?thesis using compare_denotes [OF xy] compare_data_eq [OF rv] rv by simp
qed

subsection \<open>Schemas\<close>

record column_def =
  col_name :: string
  col_type :: data_type
  col_not_null :: bool
  col_indexed :: bool
  col_default :: "sql_value option"

record schema =
  sch_columns :: "column_def list"
  sch_index :: "string \<rightharpoonup> nat"

definition empty_schema :: schema where
  "empty_schema = \<lparr>sch_columns = [], sch_index = Map.empty\<rparr>"

fun add_columns :: "nat \<Rightarrow> column_def list \<Rightarrow> schema \<Rightarrow> exn + schema" where
  "add_columns i [] s = Inr s"
| "add_columns i (c # cs) s =
     bindE (guardE (col_name c \<noteq> []) (InvalidArgument ''TableSchema: column name must not be empty'')) (\<lambda>_.
     bindE (guardE (sch_index s (col_name c) = None)
              (InvalidArgument (''TableSchema: duplicate column '' @ quoted (col_name c)))) (\<lambda>_.
     add_columns (i + 1) cs
       \<lparr>sch_columns = sch_columns s @ [c], sch_index = (sch_index s)(col_name c \<mapsto> i)\<rparr>))"

definition make_schema :: "column_def list \<Rightarrow> exn + schema" where
  \<comment> \<open>\<open>set_columns\<close>\<close>
  "make_schema cs = add_columns 0 cs empty_schema"

definition column_count :: "schema \<Rightarrow> nat" where
  "column_count s = length (sch_columns s)"

definition find_index :: "schema \<Rightarrow> string \<Rightarrow> nat option" where
  "find_index s n = sch_index s n"

definition column_index :: "schema \<Rightarrow> string \<Rightarrow> exn + nat" where
  "column_index s n =
     (case find_index s n of
        None \<Rightarrow> Inl (OutOfRange (''TableSchema: unknown column '' @ quoted n))
      | Some i \<Rightarrow> Inr i)"

definition column_at :: "schema \<Rightarrow> nat \<Rightarrow> exn + column_def" where
  "column_at s i = (if i < length (sch_columns s) then Inr (sch_columns s ! i) else Inl VECTOR_AT)"

definition column_named :: "schema \<Rightarrow> string \<Rightarrow> exn + column_def" where
  "column_named s n = bindE (column_index s n) (column_at s)"

definition schema_ok :: "schema \<Rightarrow> bool" where
  "schema_ok s \<longleftrightarrow> (\<forall>c \<in> set (sch_columns s). col_name c \<noteq> [])
     \<and> (\<forall>n i. sch_index s n = Some i \<longleftrightarrow> i < length (sch_columns s) \<and> col_name (sch_columns s ! i) = n)"

lemma empty_schema_ok: "schema_ok empty_schema"
  by (simp add: schema_ok_def empty_schema_def)

lemma schema_ok_push:
  assumes ok: "schema_ok s" and "col_name c \<noteq> []" and new: "sch_index s (col_name c) = None"
  shows "schema_ok \<lparr>sch_columns = sch_columns s @ [c], sch_index = (sch_index s)(col_name c \<mapsto> length (sch_columns s))\<rparr>"
proof -
  have "\<not> (i < length (sch_columns s) \<and> col_name (sch_columns s ! i) = col_name c)" for i
    using ok new unfolding schema_ok_def by (metis option.distinct(1))
  then show ?thesis using ok assms(2) by (auto simp: schema_ok_def nth_append less_Suc_eq)
qed

lemma schema_index_Some:
  "schema_ok s \<Longrightarrow> sch_index s n = Some i \<longleftrightarrow> i < length (sch_columns s) \<and> col_name (sch_columns s ! i) = n"
  by (simp add: schema_ok_def)

lemma schema_index_at: "schema_ok s \<Longrightarrow> i < length (sch_columns s) \<Longrightarrow> sch_index s (col_name (sch_columns s ! i)) = Some i"
  by (simp add: schema_ok_def)

lemma schema_ok_distinct:
  assumes "schema_ok s" shows "distinct (map col_name (sch_columns s))"
proof (subst distinct_conv_nth, intro allI impI notI)
  fix i j assume ij: "i < length (map col_name (sch_columns s))" "j < length (map col_name (sch_columns s))" "i \<noteq> j"
    and eq: "map col_name (sch_columns s) ! i = map col_name (sch_columns s) ! j"
  then have "sch_index s (col_name (sch_columns s ! i)) = Some i" "sch_index s (col_name (sch_columns s ! i)) = Some j"
    using schema_index_at [OF assms, of i] schema_index_at [OF assms, of j] by simp_all
  with ij(3) show False by simp
qed

lemma schema_index_None:
  assumes "schema_ok s" shows "sch_index s n = None \<longleftrightarrow> n \<notin> col_name ` set (sch_columns s)"
proof (cases "sch_index s n")
  case None
  then have "\<not> (i < length (sch_columns s) \<and> col_name (sch_columns s ! i) = n)" for i
    using schema_index_Some [OF assms, of n i] by simp
  then have "n \<notin> col_name ` set (sch_columns s)" by (metis image_iff in_set_conv_nth)
  with None show ?thesis by simp
next
  case (Some i)
  then show ?thesis using schema_index_Some [OF assms, of n i] by auto
qed

text \<open>
  Building a schema succeeds exactly on non-empty, distinct names, and the map it builds inverts
  the list of names.
\<close>

lemma add_columns_ok:
  assumes "schema_ok s"
  shows "case add_columns (length (sch_columns s)) cs s of
      Inl e \<Rightarrow> (\<exists>c \<in> set cs. col_name c = []) \<or> \<not> distinct (map col_name (sch_columns s @ cs))
    | Inr s' \<Rightarrow> sch_columns s' = sch_columns s @ cs \<and> schema_ok s'"
  using assms
proof (induction cs arbitrary: s)
  case (Cons c cs)
  let ?s = "\<lparr>sch_columns = sch_columns s @ [c], sch_index = (sch_index s)(col_name c \<mapsto> length (sch_columns s))\<rparr>"
  show ?case
  proof (cases "col_name c \<noteq> [] \<and> sch_index s (col_name c) = None")
    case True
    then have "schema_ok ?s" using schema_ok_push Cons.prems by simp
    from Cons.IH [OF this] True show ?thesis by (auto split: sum.splits)
  next
    case False
    then show ?thesis using schema_index_None [OF Cons.prems, of "col_name c"]
      by (cases "col_name c = []") (auto split: sum.splits)
  qed
qed (simp add: assms)

lemma make_schema_iff:
  "make_schema cs = Inr s \<longleftrightarrow>
     (\<forall>c \<in> set cs. col_name c \<noteq> []) \<and> distinct (map col_name cs) \<and> sch_columns s = cs \<and> schema_ok s"
proof -
  have a: "case make_schema cs of
      Inl e \<Rightarrow> (\<exists>c \<in> set cs. col_name c = []) \<or> \<not> distinct (map col_name cs)
    | Inr s' \<Rightarrow> sch_columns s' = cs \<and> schema_ok s'"
    using add_columns_ok [OF empty_schema_ok, of cs]
    by (cases "add_columns 0 cs empty_schema") (simp_all add: make_schema_def empty_schema_def)
  have u: "s = s'" if "schema_ok s" "schema_ok s'" "sch_columns s = sch_columns s'" for s' :: schema
  proof -
    have "sch_index s n = Some i \<longleftrightarrow> sch_index s' n = Some i" for n i
      using that by (simp add: schema_ok_def)
    then have "sch_index s n = sch_index s' n" for n by (metis option.exhaust)
    then show ?thesis using that(3) by (simp add: fun_eq_iff)
  qed
  show ?thesis
  proof (cases "make_schema cs")
    case (Inl e)
    then show ?thesis using a by auto
  next
    case (Inr s')
    then have s': "sch_columns s' = cs" "schema_ok s'" using a by simp_all
    have n: "\<forall>c \<in> set cs. col_name c \<noteq> []" using s' by (simp add: schema_ok_def)
    show ?thesis using Inr u [OF _ s'(2)] schema_ok_distinct [OF s'(2)] s' n by auto
  qed
qed

end
