(* ===== verification/Table_Model.thy ===== *)
theory Table_Model
  imports Values BStar_Index "HOL-Library.AList"
begin

section \<open>Tables\<close>

text \<open>
  \<open>class Table\<close> (\<open>storage/src/table.cpp\<close>) and the adapter that lets it use a B*+-tree as the index
  of a column (\<open>storage/src/bstarplus_adapter.cpp\<close>). Every operation is given with all its guards
  and the order of its effects, so that what an exception leaves behind can be seen.

  The rows are an association list from row ids to rows, and the attached indexes one from column
  numbers to indexes. Both are \<open>unordered_map\<close>s in the code: the lists stand for one of the orders
  in which the code may iterate over them, and the theorems hold for every order.
\<close>

type_synonym row = "sql_value list"

record table =
  tb_name :: string
  tb_schema :: schema
  tb_rows :: "(64 word \<times> row) list"
  tb_order :: "64 word list"
  tb_indexes :: "(nat \<times> bindex) list"
  tb_next :: "64 word"

definition new_table :: "string \<Rightarrow> schema \<Rightarrow> table" where
  "new_table n s = \<lparr>tb_name = n, tb_schema = s, tb_rows = [], tb_order = [], tb_indexes = [], tb_next = 1\<rparr>"

abbreviation columns_of :: "table \<Rightarrow> column_def list" where
  "columns_of t \<equiv> sch_columns (tb_schema t)"

subsection \<open>The index adapter\<close>

fun to_index_key :: "pool \<Rightarrow> sql_value \<Rightarrow> exn + index_key" where
  "to_index_key p (VInt w) = Inr (KInt w)"
| "to_index_key p (VStr i) = bindE (pool_get i p) (\<lambda>s. Inr (KStr s))"
| "to_index_key p Null = Inl (InvalidArgument ''BStarPlusIndexAdapter: NULL cannot be used as index key'')"

definition adapter_find :: "pool \<Rightarrow> sql_value \<Rightarrow> bindex \<Rightarrow> exn + 64 word option" where
  "adapter_find p v ix = bindE (to_index_key p v) (\<lambda>k. find_key k ix)"

definition adapter_range :: "pool \<Rightarrow> sql_value \<Rightarrow> sql_value \<Rightarrow> bindex \<Rightarrow> exn + 64 word list" where
  "adapter_range p b e ix =
     bindE (to_index_key p b) (\<lambda>kb. bindE (to_index_key p e) (\<lambda>ke. range_search kb ke ix))"

definition adapter_insert :: "pool \<Rightarrow> sql_value \<Rightarrow> 64 word \<Rightarrow> (bindex, unit) sx" where
  "adapter_insert p v row_id = bindS (liftE (to_index_key p v)) (\<lambda>k. insert_key k row_id)"

definition adapter_erase :: "pool \<Rightarrow> sql_value \<Rightarrow> (bindex, bool) sx" where
  "adapter_erase p v = bindS (liftE (to_index_key p v)) erase_key"

subsection \<open>Reading a table\<close>

definition require_column :: "string \<Rightarrow> table \<Rightarrow> exn + int" where
  "require_column n t =
     (case find_index (tb_schema t) n of
        None \<Rightarrow> Inl (RuntimeError (''Table::require_column: unknown column '' @ quoted n))
      | Some i \<Rightarrow> Inr (int i))"

definition row_count :: "table \<Rightarrow> nat" where
  "row_count t = length (tb_order t)"

definition row_at :: "64 word \<Rightarrow> table \<Rightarrow> exn + row" where
  "row_at i t = (case map_of (tb_rows t) i of None \<Rightarrow> Inl (OutOfRange ''_Map_base::at'') | Some r \<Rightarrow> Inr r)"

definition get_row :: "nat \<Rightarrow> table \<Rightarrow> exn + row" where
  "get_row i t = (if i < length (tb_order t) then row_at (tb_order t ! i) t else Inl VECTOR_AT)"

definition has_index :: "nat \<Rightarrow> table \<Rightarrow> bool" where
  "has_index c t = (map_of (tb_indexes t) c \<noteq> None)"

definition index_for :: "nat \<Rightarrow> table \<Rightarrow> bindex option" where
  "index_for c t = map_of (tb_indexes t) c"

fun assign_values :: "int list \<Rightarrow> sql_value list \<Rightarrow> bool list \<Rightarrow> row \<Rightarrow> exn + row" where
  "assign_values (pos # ps) (v # vs) assigned row =
     bindE (guardE (\<not> (pos < 0 \<or> nat pos \<ge> length assigned))
              (OutOfRange ''Table::materialize: column index out of range'')) (\<lambda>_.
     bindE (guardE (\<not> assigned ! nat pos)
              (InvalidArgument ''Table::materialize: duplicate column index'')) (\<lambda>_.
     assign_values ps vs (assigned[nat pos := True]) (row[nat pos := v])))"
| "assign_values _ _ assigned row = Inr row"

definition materialize :: "int list \<Rightarrow> sql_value list \<Rightarrow> table \<Rightarrow> exn + row" where
  "materialize positions vs t =
     bindE (guardE (length positions = length vs)
              (InvalidArgument ''Table::materialize: columns and values count mismatch'')) (\<lambda>_.
     let n = column_count (tb_schema t) in
     assign_values positions vs (replicate n False) (replicate n Null))"

fun rows_contain :: "pool \<Rightarrow> nat \<Rightarrow> sql_value \<Rightarrow> 64 word option \<Rightarrow> (64 word \<times> row) list \<Rightarrow> exn + bool" where
  "rows_contain p c v excl [] = Inr False"
| "rows_contain p c v excl ((row_id, row) # rs) =
     (if excl = Some row_id then rows_contain p c v excl rs
      else
        bindE (guardE (c < length row) VECTOR_AT) (\<lambda>_.
        bindE (compare_values p (row ! c) v) (\<lambda>(r, valid).
        if r = 0 \<and> valid then Inr True else rows_contain p c v excl rs)))"

definition value_exists_in_column :: "pool \<Rightarrow> nat \<Rightarrow> sql_value \<Rightarrow> 64 word option \<Rightarrow> table \<Rightarrow> exn + bool" where
  "value_exists_in_column p c v excl t =
     (case map_of (tb_indexes t) c of
        Some ix \<Rightarrow>
          bindE (adapter_find p v ix) (\<lambda>found.
          Inr (case found of None \<Rightarrow> False | Some i \<Rightarrow> excl = None \<or> excl \<noteq> Some i))
      | None \<Rightarrow> rows_contain p c v excl (tb_rows t))"

fun validate_columns :: "pool \<Rightarrow> 64 word option \<Rightarrow> table \<Rightarrow> nat \<Rightarrow> column_def list \<Rightarrow> row \<Rightarrow> exn + unit" where
  "validate_columns p excl t i (col # cols) (v # vs) =
     (if v = Null then
        bindE (guardE (\<not> (col_not_null col \<or> col_indexed col))
                 (InvalidArgument (''Table::validate: NULL not allowed in column '' @ quoted (col_name col)))) (\<lambda>_.
        validate_columns p excl t (i + 1) cols vs)
      else
        bindE (guardE (matches v (col_type col))
                 (InvalidArgument (''Table::validate: type mismatch for column '' @ quoted (col_name col)))) (\<lambda>_.
        bindE (if col_indexed col then value_exists_in_column p i v excl t else Inr False) (\<lambda>dup.
        bindE (guardE (\<not> dup)
                 (InvalidArgument (''Table::validate: duplicate value in indexed column '' @ quoted (col_name col)))) (\<lambda>_.
        validate_columns p excl t (i + 1) cols vs))))"
| "validate_columns p excl t i _ _ = Inr ()"

definition validate_row :: "pool \<Rightarrow> row \<Rightarrow> 64 word option \<Rightarrow> table \<Rightarrow> exn + unit" where
  "validate_row p row existing t =
     bindE (guardE (length row = column_count (tb_schema t))
              (InvalidArgument ''Table::validate: row arity mismatch'')) (\<lambda>_.
     validate_columns p existing t 0 (columns_of t) row)"

subsection \<open>Keeping the indexes up to date\<close>

fun for_indexes :: "nat \<Rightarrow> (nat \<Rightarrow> (bindex, 'a) sx) \<Rightarrow> ((nat \<times> bindex) list, unit) sx" where
  \<comment> \<open>the loop over the attached indexes, for the columns the row has\<close>
  "for_indexes n f [] = (Inr (), [])"
| "for_indexes n f ((c, ix) # bs) =
     (if c < n then
        (case f c ix of
           (Inl e, ix') \<Rightarrow> (Inl e, (c, ix') # bs)
         | (Inr _, ix') \<Rightarrow> (case for_indexes n f bs of (r, bs') \<Rightarrow> (r, (c, ix') # bs')))
      else (case for_indexes n f bs of (r, bs') \<Rightarrow> (r, (c, ix) # bs')))"

definition on_indexes :: "((nat \<times> bindex) list, 'a) sx \<Rightarrow> (table, 'a) sx" where
  "on_indexes m t = (case m (tb_indexes t) of (r, bs) \<Rightarrow> (r, t\<lparr>tb_indexes := bs\<rparr>))"

definition notify_indexes_insert :: "pool \<Rightarrow> 64 word \<Rightarrow> row \<Rightarrow> (table, unit) sx" where
  "notify_indexes_insert p row_id row =
     on_indexes (for_indexes (length row) (\<lambda>c. adapter_insert p (row ! c) row_id))"

definition notify_indexes_erase :: "pool \<Rightarrow> row \<Rightarrow> (table, unit) sx" where
  "notify_indexes_erase p row = on_indexes (for_indexes (length row) (\<lambda>c. adapter_erase p (row ! c)))"

definition notify_indexes_update :: "pool \<Rightarrow> 64 word \<Rightarrow> nat \<Rightarrow> sql_value \<Rightarrow> sql_value \<Rightarrow> (table, unit) sx" where
  "notify_indexes_update p row_id c old new t =
     (case map_of (tb_indexes t) c of
        None \<Rightarrow> (Inr (), t)
      | Some ix \<Rightarrow>
          (case bindS (adapter_erase p old) (\<lambda>_. adapter_insert p new row_id) ix of
             (r, ix') \<Rightarrow> (r, t\<lparr>tb_indexes := AList.update c ix' (tb_indexes t)\<rparr>)))"

subsection \<open>Changing a table\<close>

definition emplace_row :: "64 word \<Rightarrow> row \<Rightarrow> (64 word \<times> row) list \<Rightarrow> (64 word \<times> row) list" where
  \<comment> \<open>\<open>unordered_map::emplace\<close> keeps an entry that is there already\<close>
  "emplace_row i r rows = (if map_of rows i = None then rows @ [(i, r)] else rows)"

definition insert_full_row :: "pool \<Rightarrow> row \<Rightarrow> (table, 64 word) sx" where
  "insert_full_row p row =
     bindS (askE (validate_row p row None)) (\<lambda>_.
     bindS (getS tb_next) (\<lambda>row_id.
     bindS (modS (\<lambda>t. t\<lparr>tb_next := row_id + 1, tb_rows := emplace_row row_id row (tb_rows t),
                        tb_order := tb_order t @ [row_id]\<rparr>)) (\<lambda>_.
     bindS (askE (row_at row_id)) (\<lambda>stored.
     bindS (notify_indexes_insert p row_id stored) (\<lambda>_.
     retS row_id)))))"

definition update_cell :: "pool \<Rightarrow> 64 word \<Rightarrow> nat \<Rightarrow> sql_value \<Rightarrow> (table, unit) sx" where
  "update_cell p i c new =
     bindS (askE (\<lambda>t. case map_of (tb_rows t) i of
       None \<Rightarrow> Inl (OutOfRange ''Table::update: row id not found'') | Some r \<Rightarrow> Inr r)) (\<lambda>row.
     bindS (askE (\<lambda>t. guardE (c < column_count (tb_schema t))
                         (OutOfRange ''Table::update: column out of range''))) (\<lambda>_.
     bindS (guardS (c < length row) VECTOR_AT) (\<lambda>_.
     let old = row ! c; updated = row[c := new] in
     bindS (askE (validate_row p updated (Some i))) (\<lambda>_.
     bindS (notify_indexes_update p i c old new) (\<lambda>_.
     modS (\<lambda>t. t\<lparr>tb_rows := AList.update i updated (tb_rows t)\<rparr>))))))"

definition erase_row :: "pool \<Rightarrow> 64 word \<Rightarrow> (table, unit) sx" where
  "erase_row p i =
     bindS (askE (\<lambda>t. case map_of (tb_rows t) i of
       None \<Rightarrow> Inl (OutOfRange ''Table::erase: row id not found'') | Some r \<Rightarrow> Inr r)) (\<lambda>row.
     bindS (notify_indexes_erase p row) (\<lambda>_.
     modS (\<lambda>t. t\<lparr>tb_rows := AList.delete i (tb_rows t), tb_order := remove1 i (tb_order t)\<rparr>)))"

fun fill_defaults :: "column_def list \<Rightarrow> sql_value option list \<Rightarrow> exn + row" where
  "fill_defaults [] vs = Inr []"
| "fill_defaults (col # cols) vs =
     (let rest = fill_defaults cols (tl vs) in
      case (if vs = [] then None else hd vs) of
        Some v \<Rightarrow> bindE rest (\<lambda>row. Inr (v # row))
      | None \<Rightarrow>
          (case col_default col of
             Some d \<Rightarrow> bindE rest (\<lambda>row. Inr (d # row))
           | None \<Rightarrow>
               bindE (guardE (\<not> col_not_null col)
                 (InvalidArgument (''Table::insert_row: missing NOT_NULL value for column '' @ quoted (col_name col)))) (\<lambda>_.
               bindE rest (\<lambda>row. Inr (Null # row)))))"

definition insert_row :: "pool \<Rightarrow> sql_value option list \<Rightarrow> (table, unit) sx" where
  "insert_row p vs =
     bindS (askE (\<lambda>t. guardE (length vs \<le> column_count (tb_schema t))
                         (InvalidArgument ''Table::insert_row: too many values''))) (\<lambda>_.
     bindS (askE (\<lambda>t. fill_defaults (columns_of t) vs)) (\<lambda>row.
     bindS (insert_full_row p row) (\<lambda>_. retS ())))"

fun rebuild_index :: "pool \<Rightarrow> nat \<Rightarrow> 64 word list \<Rightarrow> table \<Rightarrow> (bindex, unit) sx" where
  "rebuild_index p c [] t = retS ()"
| "rebuild_index p c (i # is) t =
     bindS (liftE (row_at i t)) (\<lambda>row.
     bindS (guardS (c < length row) VECTOR_AT) (\<lambda>_.
     bindS (adapter_insert p (row ! c) i) (\<lambda>_. rebuild_index p c is t)))"

definition attach_index :: "pool \<Rightarrow> nat \<Rightarrow> bindex option \<Rightarrow> bool \<Rightarrow> (table, unit) sx" where
  "attach_index p c index rebuild t =
     (if c \<ge> column_count (tb_schema t) then (Inl (OutOfRange ''Table::attach_index: column out of range''), t)
      else case index of
        None \<Rightarrow> (Inl (InvalidArgument ''Table::attach_index: index must not be null''), t)
      | Some ix \<Rightarrow>
          (case (if rebuild then rebuild_index p c (tb_order t) t ix else (Inr (), ix)) of
             (r, ix') \<Rightarrow> (r, t\<lparr>tb_indexes := AList.update c ix' (tb_indexes t)\<rparr>)))"

definition detach_index :: "nat \<Rightarrow> table \<Rightarrow> table" where
  "detach_index c t = t\<lparr>tb_indexes := AList.delete c (tb_indexes t)\<rparr>"

end
