(* ===== verification/Table_Index.thy ===== *)
theory Table_Index
  imports Table_Model
begin

section \<open>The index of a column\<close>

text \<open>
  The adapter gives a table the interface \<open>unique_index\<close> once more, now with values as keys: what
  the B*+-tree promises for keys holds for the values they come from, because distinct values of a
  well-formed pool have distinct keys. Then the facts about lists of rows and of attached indexes
  that the operations on tables share.
\<close>

subsection \<open>Values as keys\<close>

lemma to_index_key_ok: "value_ok p v \<Longrightarrow> v \<noteq> Null \<Longrightarrow> \<exists>k. to_index_key p v = Inr k"
  by (cases v) auto

lemma to_index_key_value: "to_index_key p v = Inr k \<Longrightarrow> value_ok p v \<and> v \<noteq> Null"
  by (cases v) (auto simp: bindE_eq_Inr)

lemma to_index_key_inject:
  assumes "pool_ok p" and "to_index_key p v = Inr k" and "to_index_key p w = Inr k"
  shows "v = w"
  using assms by (cases v; cases w) (auto simp: bindE_eq_Inr dest: pool_get_inj)

definition adapter_map :: "pool \<Rightarrow> bindex \<Rightarrow> (sql_value \<rightharpoonup> 64 word) \<Rightarrow> bool" where
  "adapter_map p ix m \<longleftrightarrow> pool_ok p \<and> (\<exists>km. index_map ix km
     \<and> (\<forall>v k. to_index_key p v = Inr k \<longrightarrow> m v = km k) \<and> (\<forall>v e. to_index_key p v = Inl e \<longrightarrow> m v = None)
     \<and> (\<forall>k. km k \<noteq> None \<longrightarrow> (\<exists>v. to_index_key p v = Inr k)))"

definition value_keyed :: "pool \<Rightarrow> bindex \<Rightarrow> sql_value \<Rightarrow> bool" where
  "value_keyed p ix v \<longleftrightarrow> (\<exists>k. to_index_key p v = Inr k \<and> key_matches_kind k (kind_of ix))"

definition value_storable :: "pool \<Rightarrow> bindex \<Rightarrow> sql_value \<Rightarrow> bool" where
  "value_storable p ix v \<longleftrightarrow> (\<exists>k. to_index_key p v = Inr k \<and> key_ok (kind_of ix) k)"

interpretation ad: unique_index "adapter_map p" "value_keyed p" "value_storable p" room_for
  "adapter_find p" "adapter_insert p" "adapter_erase p"
  for p :: pool
proof unfold_locales
  fix ix :: bindex and v :: sql_value and r :: "64 word" and n :: nat and m
  show "value_storable p ix v \<Longrightarrow> value_keyed p ix v"
    using bp.storable_keyed by (auto simp: value_storable_def value_keyed_def)
  assume rep: "adapter_map p ix m"
  then obtain km where km: "index_map ix km" "\<And>v k. to_index_key p v = Inr k \<Longrightarrow> m v = km k"
    "\<And>v e. to_index_key p v = Inl e \<Longrightarrow> m v = None" "\<And>k. km k \<noteq> None \<Longrightarrow> \<exists>v. to_index_key p v = Inr k"
    and ok: "pool_ok p"
    unfolding adapter_map_def by blast
  have upd: "adapter_map p ix' (m(v := x))" if "index_map ix' (km(k := x))" "to_index_key p v = Inr k" for ix' k x
    unfolding adapter_map_def
  proof (intro conjI exI [of _ "km(k := x)"] allI impI)
    fix w k' assume "to_index_key p w = Inr k'"
    moreover from this have "w = v \<longleftrightarrow> k' = k" using that(2) to_index_key_inject [OF ok that(2), of w] by auto
    ultimately show "(m(v := x)) w = (km(k := x)) k'" using km(2) by simp
  next
    fix w e assume "to_index_key p w = Inl e"
    then show "(m(v := x)) w = None" using km(3) that(2) by auto
  next
    fix k' assume "(km(k := x)) k' \<noteq> None"
    then show "\<exists>w. to_index_key p w = Inr k'" using km(4) [of k'] that(2) by (cases "k' = k") auto
  qed (use ok that(1) in simp_all)
  have kinds: "value_keyed p ix' = value_keyed p ix" "value_storable p ix' = value_storable p ix"
    if "(\<lambda>k. key_matches_kind k (kind_of ix')) = (\<lambda>k. key_matches_kind k (kind_of ix))"
      "key_ok (kind_of ix') = key_ok (kind_of ix)" for ix'
    using that by (auto simp: value_keyed_def value_storable_def fun_eq_iff)
  show "adapter_find p v ix = Inr (m v)" if "value_keyed p ix v"
    using that bp.look_law [OF km(1)] km(2) by (auto simp: value_keyed_def adapter_find_def)
  show "\<exists>ix'. adapter_insert p v r ix = (Inr (), ix') \<and> adapter_map p ix' (m(v \<mapsto> r))
      \<and> value_keyed p ix' = value_keyed p ix \<and> value_storable p ix' = value_storable p ix
      \<and> room_for n ix'"
    if st: "value_storable p ix v" and new: "m v = None" and rm: "room_for (Suc n) ix"
  proof -
    obtain k where k: "to_index_key p v = Inr k" "key_ok (kind_of ix) k" using st by (auto simp: value_storable_def)
    then have "km k = None" using km(2) new by simp
    from bp.add_law [OF km(1) k(2) this rm, of r] obtain ix' where
      i: "insert_key k r ix = (Inr (), ix')" "index_map ix' (km(k \<mapsto> r))"
        "(\<lambda>k. key_matches_kind k (kind_of ix')) = (\<lambda>k. key_matches_kind k (kind_of ix))"
        "key_ok (kind_of ix') = key_ok (kind_of ix)" "room_for n ix'" by blast
    moreover from this have "adapter_insert p v r ix = (Inr (), ix')" using k(1) by (simp add: adapter_insert_def)
    ultimately show ?thesis using upd [OF i(2) k(1)] kinds [OF i(3,4)] i(5) by blast
  qed
  show "adapter_insert p v r ix = (Inl (InvalidArgument ''Duplicate index key''), ix)"
    if "value_keyed p ix v" "m v \<noteq> None"
    using that bp.dup_law [OF km(1)] km(2) by (auto simp: value_keyed_def adapter_insert_def)
  show "\<exists>ix'. adapter_erase p v ix = (Inr (m v \<noteq> None), ix') \<and> adapter_map p ix' (m(v := None))
      \<and> value_keyed p ix' = value_keyed p ix \<and> value_storable p ix' = value_storable p ix
      \<and> (\<forall>n. room_for n ix \<longrightarrow> room_for n ix')"
    if kd: "value_keyed p ix v"
  proof -
    obtain k where k: "to_index_key p v = Inr k" "key_matches_kind k (kind_of ix)" using kd by (auto simp: value_keyed_def)
    from bp.rem_law [OF km(1) k(2)] obtain ix' where
      i: "erase_key k ix = (Inr (km k \<noteq> None), ix')" "index_map ix' (km(k := None))"
        "(\<lambda>k. key_matches_kind k (kind_of ix')) = (\<lambda>k. key_matches_kind k (kind_of ix))"
        "key_ok (kind_of ix') = key_ok (kind_of ix)" "\<forall>n. room_for n ix \<longrightarrow> room_for n ix'" by blast
    moreover from this have "adapter_erase p v ix = (Inr (m v \<noteq> None), ix')"
      using k(1) km(2) [OF k(1)] by (simp add: adapter_erase_def)
    ultimately show ?thesis using upd [OF i(2) k(1)] kinds [OF i(3,4)] i(5) by blast
  qed
qed

text \<open>An index does not depend on strings that are interned later.\<close>

lemma to_index_key_extends: "extends p p' \<Longrightarrow> to_index_key p v = Inr k \<Longrightarrow> to_index_key p' v = Inr k"
  by (cases v) (auto simp: extends_def bindE_eq_Inr)

lemma adapter_map_extends:
  assumes "adapter_map p ix m" and ext: "extends p p'" and ok: "pool_ok p'"
  shows "adapter_map p' ix m"
proof -
  obtain km where km: "index_map ix km" "\<And>v k. to_index_key p v = Inr k \<Longrightarrow> m v = km k"
    "\<And>v e. to_index_key p v = Inl e \<Longrightarrow> m v = None" "\<And>k. km k \<noteq> None \<Longrightarrow> \<exists>v. to_index_key p v = Inr k"
    using assms(1) unfolding adapter_map_def by blast
  note later = to_index_key_extends [OF ext]
  show ?thesis
    unfolding adapter_map_def
  proof (intro conjI exI [of _ km] allI impI)
    fix v k assume v: "to_index_key p' v = Inr k"
    show "m v = km k"
    proof (cases "to_index_key p v")
      case (Inl e)
      have "km k = None"
      proof (rule ccontr)
        assume "km k \<noteq> None"
        then obtain w where w: "to_index_key p w = Inr k" using km(4) by blast
        then have "w = v" using to_index_key_inject [OF ok later [OF w] v] by simp
        then show False using w Inl by simp
      qed
      then show ?thesis using km(3) [OF Inl] by simp
    next
      case (Inr k')
      then show ?thesis using later [OF Inr] v km(2) [OF Inr] by simp
    qed
  next
    fix v e assume "to_index_key p' v = Inl e"
    then show "m v = None" using km(3) later by (cases "to_index_key p v") auto
  next
    fix k assume "km k \<noteq> None"
    then show "\<exists>v. to_index_key p' v = Inr k" using km(4) later by blast
  qed (use ok km(1) in simp_all)
qed

end
