(* ===== verification/Table_Inv.thy ===== *)
theory Table_Inv
  imports Table_Index
begin

section \<open>The table invariant\<close>

text \<open>
  What a table keeps: one row per id, in the order of insertion, ids below the next one; every
  value of the type of its column and allowed there; no value twice in an \<open>INDEXED\<close> column; and
  every attached index holding exactly the values of its column with the ids of their rows. The
  invariant is stated over the finite map from ids to rows, so that nothing depends on the order
  of an \<open>unordered_map\<close>.
\<close>

definition column_of :: "(sql_value \<rightharpoonup> 64 word) \<Rightarrow> nat \<Rightarrow> (64 word \<rightharpoonup> row) \<Rightarrow> bool" where
  "column_of m c M \<longleftrightarrow> (\<forall>v i. m v = Some i \<longleftrightarrow> (\<exists>r. M i = Some r \<and> r ! c = v))"

definition unique_in :: "nat \<Rightarrow> (64 word \<rightharpoonup> row) \<Rightarrow> 64 word option \<Rightarrow> sql_value \<Rightarrow> bool" where
  "unique_in c M excl v \<longleftrightarrow> (\<forall>j r. M j = Some r \<longrightarrow> excl \<noteq> Some j \<longrightarrow> r ! c \<noteq> v)"

definition cell_ok :: "pool \<Rightarrow> column_def \<Rightarrow> sql_value \<Rightarrow> bool" where
  "cell_ok p d v \<longleftrightarrow> matches v (col_type d) \<and> (v = Null \<longrightarrow> \<not> col_not_null d \<and> \<not> col_indexed d)"

definition values_ok :: "pool \<Rightarrow> row \<Rightarrow> bool" where
  "values_ok p r \<longleftrightarrow> (\<forall>v \<in> set r. value_ok p v)"

definition conforms :: "pool \<Rightarrow> table \<Rightarrow> 64 word option \<Rightarrow> row \<Rightarrow> bool" where
  "conforms p t excl r \<longleftrightarrow> length r = length (columns_of t) \<and>
     (\<forall>c < length (columns_of t). cell_ok p (columns_of t ! c) (r ! c)
        \<and> (col_indexed (columns_of t ! c) \<longrightarrow> unique_in c (map_of (tb_rows t)) excl (r ! c)))"

definition kind_for :: "data_type \<Rightarrow> key_kind" where
  "kind_for ty = (case ty of IntType \<Rightarrow> KindInt64 | StrType \<Rightarrow> KindString)"

definition index_ok :: "pool \<Rightarrow> column_def list \<Rightarrow> (64 word \<rightharpoonup> row) \<Rightarrow> nat \<Rightarrow> bindex \<Rightarrow> bool" where
  "index_ok p cols M c ix \<longleftrightarrow> c < length cols \<and> col_indexed (cols ! c)
     \<and> kind_of ix = kind_for (col_type (cols ! c)) \<and> (\<exists>m. adapter_map p ix m \<and> column_of m c M)"

definition table_ok :: "pool \<Rightarrow> table \<Rightarrow> bool" where
  "table_ok p t \<longleftrightarrow> pool_ok p \<and> schema_ok (tb_schema t)
     \<and> map fst (tb_rows t) = tb_order t \<and> distinct (tb_order t) \<and> (\<forall>i \<in> set (tb_order t). i < tb_next t)
     \<and> (\<forall>i r. map_of (tb_rows t) i = Some r \<longrightarrow> conforms p t (Some i) r \<and> values_ok p r)
     \<and> distinct (map fst (tb_indexes t))
     \<and> (\<forall>(c, ix) \<in> set (tb_indexes t). index_ok p (columns_of t) (map_of (tb_rows t)) c ix)"

lemma table_okD:
  assumes "table_ok p t"
  shows "pool_ok p" and "schema_ok (tb_schema t)" and "map fst (tb_rows t) = tb_order t" and "distinct (tb_order t)"
    and "\<And>i. i \<in> set (tb_order t) \<Longrightarrow> i < tb_next t"
    and "\<And>i r. map_of (tb_rows t) i = Some r \<Longrightarrow> conforms p t (Some i) r \<and> values_ok p r"
    and "distinct (map fst (tb_indexes t))"
    and "\<And>c ix. (c, ix) \<in> set (tb_indexes t) \<Longrightarrow> index_ok p (columns_of t) (map_of (tb_rows t)) c ix"
  using assms by (auto simp: table_ok_def)

lemma table_okI:
  assumes "pool_ok p" and "schema_ok (tb_schema t)" and "map fst (tb_rows t) = tb_order t" and "distinct (tb_order t)"
    and "\<And>i. i \<in> set (tb_order t) \<Longrightarrow> i < tb_next t"
    and "\<And>i r. map_of (tb_rows t) i = Some r \<Longrightarrow> conforms p t (Some i) r \<and> values_ok p r"
    and "distinct (map fst (tb_indexes t))"
    and "\<And>c ix. (c, ix) \<in> set (tb_indexes t) \<Longrightarrow> index_ok p (columns_of t) (map_of (tb_rows t)) c ix"
  shows "table_ok p t"
  unfolding table_ok_def using assms by blast

lemma table_ids:
  assumes "table_ok p t"
  shows "map_of (tb_rows t) i = None \<longleftrightarrow> i \<notin> set (tb_order t)"
  using table_okD(3) [OF assms, symmetric] by (simp add: map_of_eq_None_iff)

lemma row_in_rows:
  assumes "table_ok p t"
  shows "(i, r) \<in> set (tb_rows t) \<longleftrightarrow> map_of (tb_rows t) i = Some r"
  using table_okD(3,4) [OF assms] by simp

lemma new_table_ok: "pool_ok p \<Longrightarrow> schema_ok s \<Longrightarrow> table_ok p (new_table n s)"
  by (simp add: table_ok_def new_table_def)

subsection \<open>How a column's map changes with the rows\<close>

lemma column_of_add:
  assumes "column_of m c M" and "M i = None" and "unique_in c M None (r ! c)"
  shows "column_of (m(r ! c \<mapsto> i)) c (M(i \<mapsto> r))"
  using assms unfolding column_of_def unique_in_def by auto

lemma column_of_del:
  assumes "column_of m c M" and "M i = Some r"
  shows "column_of (m(r ! c := None)) c (M(i := None))"
proof -
  have one: "j = i" if "M j = Some r'" "r' ! c = r ! c" for j r'
  proof -
    have "m (r ! c) = Some j" "m (r ! c) = Some i" using assms that unfolding column_of_def by auto
    then show ?thesis by simp
  qed
  show ?thesis unfolding column_of_def
  proof (intro allI)
    fix v k
    have "m v = Some k \<longleftrightarrow> (\<exists>r'. M k = Some r' \<and> r' ! c = v)" using assms(1) by (simp add: column_of_def)
    then show "(m(r ! c := None)) v = Some k \<longleftrightarrow> (\<exists>r'. (M(i := None)) k = Some r' \<and> r' ! c = v)"
    proof (cases "k = i \<or> v = r ! c")
      case True
      then have "\<not> (\<exists>r'. (M(i := None)) k = Some r' \<and> r' ! c = v)" using one by auto
      moreover have "(m(r ! c := None)) v \<noteq> Some k"
        using True assms(2) \<open>m v = Some k \<longleftrightarrow> _\<close> by auto
      ultimately show ?thesis by simp
    next
      case False
      then show ?thesis using \<open>m v = Some k \<longleftrightarrow> _\<close> by simp
    qed
  qed
qed

lemma column_of_move:
  assumes "column_of m c M" and "M i = Some r" and "c < length r" and "unique_in c M (Some i) v"
  shows "column_of ((m(r ! c := None))(v \<mapsto> i)) c (M(i \<mapsto> r[c := v]))"
proof -
  have "unique_in c (M(i := None)) None (r[c := v] ! c)" using assms(3,4) by (auto simp: unique_in_def)
  from column_of_add [OF column_of_del [OF assms(1,2)], of i "r[c := v]"] this assms(3) show ?thesis by simp
qed

lemma column_of_other:
  assumes "column_of m c' M" and "M i = Some r" and "c' \<noteq> c"
  shows "column_of m c' (M(i \<mapsto> r[c := v]))"
  using assms by (auto simp: column_of_def)

lemma column_unique:
  assumes "column_of m c M"
  shows "unique_in c M excl v \<longleftrightarrow> (case m v of None \<Rightarrow> True | Some i \<Rightarrow> excl = Some i)"
proof -
  have row: "m v = Some i \<longleftrightarrow> (\<exists>r. M i = Some r \<and> r ! c = v)" for i using assms by (simp add: column_of_def)
  show ?thesis
  proof (cases "m v")
    case None
    then show ?thesis using row by (auto simp: unique_in_def)
  next
    case (Some i)
    then have "(\<exists>r. M j = Some r \<and> r ! c = v) \<longleftrightarrow> i = j" for j using row [of j] by auto
    then show ?thesis using Some by (auto simp: unique_in_def)
  qed
qed

subsection \<open>Validation decides conformance\<close>

lemma matches_keyed:
  assumes "value_ok p v" and "v \<noteq> Null" and "matches v ty" and "kind_of ix = kind_for ty"
  shows "value_keyed p ix v"
  using assms by (cases v) (auto simp: value_keyed_def kind_for_def)

lemma rows_contain_iff:
  assumes "pool_ok p" and "value_ok p v" and "v \<noteq> Null"
    and "\<forall>(i, r) \<in> set rows. c < length r \<and> value_ok p (r ! c)"
  shows "rows_contain p c v excl rows = Inr (\<exists>(i, r) \<in> set rows. excl \<noteq> Some i \<and> r ! c = v)"
  using assms(4)
proof (induction rows)
  case (Cons x rows)
  obtain i r where x: "x = (i, r)" by (cases x)
  have cr: "c < length r" and ok: "value_ok p (r ! c)" using Cons.prems x by auto
  obtain a b where ab: "compare_values p (r ! c) v = Inr (a, b)" "a = 0 \<and> b \<longleftrightarrow> r ! c = v"
    using compare_equal [OF assms(1) ok assms(2)] assms(3) by blast
  show ?case
  proof (cases "excl = Some i")
    case True
    then show ?thesis using x Cons by auto
  next
    case False
    then show ?thesis using x Cons cr ab by auto
  qed
qed simp

lemma value_exists_iff:
  assumes ok: "table_ok p t" and c: "c < length (columns_of t)"
    and v: "value_ok p v" "v \<noteq> Null" "matches v (col_type (columns_of t ! c))"
  shows "value_exists_in_column p c v excl t = Inr (\<not> unique_in c (map_of (tb_rows t)) excl v)"
proof (cases "map_of (tb_indexes t) c")
  case None
  have "\<forall>(i, r) \<in> set (tb_rows t). c < length r \<and> value_ok p (r ! c)"
    using table_okD(6) [OF ok] row_in_rows [OF ok] c by (auto simp: conforms_def values_ok_def)
  from rows_contain_iff [OF table_okD(1) [OF ok] v(1,2) this, of excl] None
  have "value_exists_in_column p c v excl t = Inr (\<exists>(i, r) \<in> set (tb_rows t). excl \<noteq> Some i \<and> r ! c = v)"
    by (simp add: value_exists_in_column_def)
  also have "(\<exists>(i, r) \<in> set (tb_rows t). excl \<noteq> Some i \<and> r ! c = v) \<longleftrightarrow> \<not> unique_in c (map_of (tb_rows t)) excl v"
    unfolding unique_in_def Bex_def using row_in_rows [OF ok] by auto
  finally show ?thesis .
next
  case (Some ix)
  then have "index_ok p (columns_of t) (map_of (tb_rows t)) c ix" by (intro table_okD(8) [OF ok] map_of_SomeD)
  then obtain m where m: "adapter_map p ix m" "column_of m c (map_of (tb_rows t))"
    "kind_of ix = kind_for (col_type (columns_of t ! c))" by (auto simp: index_ok_def)
  have "adapter_find p v ix = Inr (m v)" by (rule ad.look_law [OF m(1) matches_keyed [OF v m(3)]])
  then show ?thesis using Some column_unique [OF m(2), of excl v]
    by (auto simp: value_exists_in_column_def split: option.splits)
qed

lemma validate_columns_iff:
  assumes ok: "table_ok p t" and "length vs = length cols" and "cols = drop i (columns_of t)"
    and "\<forall>v \<in> set vs. value_ok p v"
  shows "case validate_columns p excl t i cols vs of
      Inl e \<Rightarrow> \<not> (\<forall>k < length cols. cell_ok p (cols ! k) (vs ! k)
        \<and> (col_indexed (cols ! k) \<longrightarrow> unique_in (i + k) (map_of (tb_rows t)) excl (vs ! k)))
    | Inr _ \<Rightarrow> (\<forall>k < length cols. cell_ok p (cols ! k) (vs ! k)
        \<and> (col_indexed (cols ! k) \<longrightarrow> unique_in (i + k) (map_of (tb_rows t)) excl (vs ! k)))"
  using assms(2-4)
proof (induction cols arbitrary: i vs)
  case (Cons d cols)
  then obtain v ws where vs: "vs = v # ws" by (cases vs) auto
  have i: "i < length (columns_of t)" "columns_of t ! i = d" "cols = drop (i + 1) (columns_of t)"
    using Cons.prems(2) by (metis drop_all list.distinct(1) not_le_imp_less, metis nth_via_drop, metis drop_Suc tl_drop list.sel(3) Suc_eq_plus1)
  note IH = Cons.IH [of ws "i + 1"]
  have ih: "case validate_columns p excl t (i + 1) cols ws of
      Inl e \<Rightarrow> \<not> (\<forall>k < length cols. cell_ok p (cols ! k) (ws ! k)
        \<and> (col_indexed (cols ! k) \<longrightarrow> unique_in (i + Suc k) (map_of (tb_rows t)) excl (ws ! k)))
    | Inr _ \<Rightarrow> (\<forall>k < length cols. cell_ok p (cols ! k) (ws ! k)
        \<and> (col_indexed (cols ! k) \<longrightarrow> unique_in (i + Suc k) (map_of (tb_rows t)) excl (ws ! k)))"
    using IH Cons.prems vs i(3) by (cases "validate_columns p excl t (i + 1) cols ws") simp_all
  have all: "(\<forall>k < length (d # cols). P k) \<longleftrightarrow> P 0 \<and> (\<forall>k < length cols. P (Suc k))" for P
    by (auto simp: less_Suc_eq_0_disj)
  show ?case
  proof (cases "v = Null")
    case True
    have "unique_in i (map_of (tb_rows t)) excl v \<or> col_indexed d \<or> True" by simp
    then show ?thesis unfolding all using ih vs True by (auto simp: cell_ok_def guardE_cases split: sum.splits)
  next
    case False
    have "value_exists_in_column p i v excl t = Inr (\<not> unique_in i (map_of (tb_rows t)) excl v)"
      if "matches v (col_type d)"
      using value_exists_iff [OF ok i(1) _ False] that i(2) Cons.prems(3) vs by simp
    then show ?thesis unfolding all using ih vs False
      by (auto simp: cell_ok_def guardE_cases split: sum.splits)
  qed
qed simp

lemma validate_iff:
  assumes "table_ok p t" and "values_ok p r"
  shows "validate_row p r excl t = Inr () \<longleftrightarrow> conforms p t excl r"
proof (cases "length r = length (columns_of t)")
  case True
  from validate_columns_iff [OF assms(1) this, of 0 excl] assms(2) True show ?thesis
    by (cases "validate_columns p excl t 0 (columns_of t) r")
      (auto simp: validate_row_def conforms_def column_count_def values_ok_def)
next
  case False
  then show ?thesis by (simp add: validate_row_def conforms_def column_count_def)
qed

subsection \<open>Strings that are interned later\<close>

lemma table_ok_extends:
  assumes ok: "table_ok p t" and ext: "extends p p'" and pok: "pool_ok p'"
  shows "table_ok p' t"
proof (rule table_okI)
  fix i r assume "map_of (tb_rows t) i = Some r"
  then show "conforms p' t (Some i) r \<and> values_ok p' r"
    using table_okD(6) [OF ok] value_ok_extends [OF ext] by (fastforce simp: conforms_def cell_ok_def values_ok_def)
next
  fix c ix assume "(c, ix) \<in> set (tb_indexes t)"
  then show "index_ok p' (columns_of t) (map_of (tb_rows t)) c ix"
    using table_okD(8) [OF ok] adapter_map_extends [OF _ ext pok] unfolding index_ok_def by blast
qed (use table_okD(2-5,7) [OF ok] pok in simp_all)

end
