(* ===== verification/Table_Ops.thy ===== *)
theory Table_Ops
  imports Table_Inv
begin

section \<open>Operations on tables keep the invariant\<close>

text \<open>
  Insertion, update, deletion and the attachment of an index, each with what it does to the finite
  map of rows and to every attached index. The indexes enter only through the laws of the interface
  \<open>unique_index\<close> at the adapter.
\<close>

subsection \<open>The loop over the indexes\<close>

lemma for_indexes_ok:
  assumes "\<forall>(c, ix) \<in> set bs. c < n \<and> (\<exists>x ix'. f c ix = (Inr x, ix') \<and> P c ix')"
  shows "\<exists>bs'. for_indexes n f bs = (Inr (), bs') \<and> map fst bs' = map fst bs \<and> (\<forall>(c, ix) \<in> set bs'. P c ix)"
  using assms
proof (induction bs)
  case (Cons b bs)
  obtain c ix where b: "b = (c, ix)" by (cases b)
  then obtain x ix' where "c < n" "f c ix = (Inr x, ix')" "P c ix'" using Cons.prems by auto
  moreover obtain bs' where "for_indexes n f bs = (Inr (), bs')" "map fst bs' = map fst bs" "\<forall>(c, ix) \<in> set bs'. P c ix"
    using Cons by auto
  ultimately show ?case using b by simp
qed simp

lemma adapter_kind:
  assumes "adapter_map p ix m" and "adapter_map p ix' m'" and "value_keyed p ix' = value_keyed p ix"
  shows "kind_of ix' = kind_of ix"
proof -
  have k: "kind_of x \<in> {KindInt64, KindString}" if "adapter_map p x y" for x y
    using that by (auto simp: adapter_map_def index_map_def index_rep_def)
  have i: "value_keyed p x (VInt 0) \<longleftrightarrow> kind_of x = KindInt64" if "adapter_map p x y" for x y
    using k [OF that] by (auto simp: value_keyed_def)
  show ?thesis using k [OF assms(1)] k [OF assms(2)] i [OF assms(1)] i [OF assms(2)] assms(3) by auto
qed

lemma index_keyed:
  assumes "table_ok p t" and "index_ok p (columns_of t) M c ix" and "conforms p t excl r" and "values_ok p r"
  shows "value_keyed p ix (r ! c)" and "c < length r"
proof -
  have c: "c < length (columns_of t)" "kind_of ix = kind_for (col_type (columns_of t ! c))" "col_indexed (columns_of t ! c)"
    using assms(2) by (auto simp: index_ok_def)
  then have l: "c < length r" "cell_ok p (columns_of t ! c) (r ! c)" using assms(3) by (auto simp: conforms_def)
  then have "value_ok p (r ! c)" "r ! c \<noteq> Null" "matches (r ! c) (col_type (columns_of t ! c))"
    using assms(4) c by (auto simp: values_ok_def cell_ok_def)
  from matches_keyed [OF this c(2)] l(1) show "value_keyed p ix (r ! c)" "c < length r" by simp_all
qed

subsection \<open>Insertion\<close>

definition storable_row :: "pool \<Rightarrow> row \<Rightarrow> table \<Rightarrow> bool" where
  \<comment> \<open>every attached index can store the value of its column: a string key is short and without NUL\<close>
  "storable_row p r t \<longleftrightarrow> (\<forall>(c, ix) \<in> set (tb_indexes t). value_storable p ix (r ! c))"

definition indexes_room :: "nat \<Rightarrow> table \<Rightarrow> bool" where
  \<comment> \<open>every attached index has room on disk for \<open>n\<close> more insertions\<close>
  "indexes_room n t \<longleftrightarrow> (\<forall>(c, ix) \<in> set (tb_indexes t). room_for n ix)"

lemma next_word_less: "w \<noteq> - 1 \<Longrightarrow> w < w + (1 :: 64 word)"
proof -
  assume "w \<noteq> - 1"
  then have "unat w \<noteq> unat (- 1 :: 64 word)" by (simp only: word_unat_eq_iff simp_thms)
  moreover have "unat (- 1 :: 64 word) = 2 ^ 64 - 1" by (simp add: unsigned_minus_1_eq_mask mask_eq_exp_minus_1)
  moreover have "unat w < 2 ^ 64" using unsigned_less [of w] by simp
  ultimately have "unat w + 1 < 2 ^ 64" by simp
  then have "unat (w + 1) = unat w + 1" by (simp add: unat_word_ariths)
  then show ?thesis by (simp add: word_less_nat_alt)
qed

lemma insert_index:
  assumes ok: "table_ok p t" and "values_ok p r" and cf: "conforms p t None r"
    and ix: "(c, ix) \<in> set (tb_indexes t)" and can: "room_for (Suc n) ix" "value_storable p ix (r ! c)"
    and new: "map_of (tb_rows t) i = None"
  shows "\<exists>x ix'. adapter_insert p (r ! c) i ix = (Inr x, ix') \<and> index_ok p (columns_of t) ((map_of (tb_rows t))(i \<mapsto> r)) c ix'
    \<and> room_for n ix'"
proof -
  have io: "index_ok p (columns_of t) (map_of (tb_rows t)) c ix" using table_okD(8) [OF ok ix] .
  then obtain m where m: "adapter_map p ix m" "column_of m c (map_of (tb_rows t))" and c: "c < length (columns_of t)"
    "col_indexed (columns_of t ! c)" by (auto simp: index_ok_def)
  have u: "unique_in c (map_of (tb_rows t)) None (r ! c)" using cf c by (simp add: conforms_def)
  then have "m (r ! c) = None" using column_unique [OF m(2), of None] by (auto split: option.splits)
  from ad.add_law [OF m(1) can(2) this can(1), of i] obtain ix' where
    ix': "adapter_insert p (r ! c) i ix = (Inr (), ix')" "adapter_map p ix' (m(r ! c \<mapsto> i))" "value_keyed p ix' = value_keyed p ix"
    "room_for n ix'" by blast
  have "column_of (m(r ! c \<mapsto> i)) c ((map_of (tb_rows t))(i \<mapsto> r))" by (rule column_of_add [OF m(2) new u])
  with ix' io show ?thesis by (auto simp: index_ok_def adapter_kind [OF m(1) ix'(2,3)])
qed

lemma insert_keeps_rows:
  assumes ok: "table_ok p t" and cf: "conforms p t None r" and "map_of (tb_rows t) i = None"
    and "map_of (tb_rows t') = (map_of (tb_rows t))(i \<mapsto> r)" and "columns_of t' = columns_of t"
    and "map_of (tb_rows t') j = Some q"
  shows "conforms p t' (Some j) q"
proof (cases "j = i")
  case True
  with assms cf show ?thesis by (auto simp: conforms_def unique_in_def)
next
  case False
  then have "conforms p t (Some j) q" using assms(4,6) table_okD(6) [OF ok] by auto
  with cf assms False show ?thesis by (fastforce simp: conforms_def unique_in_def)
qed

lemma next_id_new: "table_ok p t \<Longrightarrow> map_of (tb_rows t) (tb_next t) = None"
  using table_ids table_okD(5) by blast

lemma insert_full_row_ok:
  assumes ok: "table_ok p t" and vs: "values_ok p r" and cf: "conforms p t None r"
    and st: "storable_row p r t" and room: "indexes_room (Suc n) t" and max: "tb_next t \<noteq> - 1"
  shows "\<exists>t'. insert_full_row p r t = (Inr (tb_next t), t') \<and> tb_rows t' = tb_rows t @ [(tb_next t, r)]
    \<and> table_ok p t' \<and> tb_schema t' = tb_schema t \<and> tb_next t' = tb_next t + 1 \<and> tb_name t' = tb_name t
    \<and> map fst (tb_indexes t') = map fst (tb_indexes t) \<and> indexes_room n t'"
proof -
  let ?i = "tb_next t"
  let ?t1 = "t\<lparr>tb_next := ?i + 1, tb_rows := emplace_row ?i r (tb_rows t), tb_order := tb_order t @ [?i]\<rparr>"
  let ?M = "(map_of (tb_rows t))(?i \<mapsto> r)"
  note new = next_id_new [OF ok]
  have rows: "tb_rows ?t1 = tb_rows t @ [(?i, r)]" using new by (simp add: emplace_row_def)
  have M: "map_of (tb_rows t @ [(?i, r)]) = ?M"
    using new by (auto simp: map_add_def fun_eq_iff split: option.splits)
  have "\<forall>(c, ix) \<in> set (tb_indexes t). c < length r \<and>
      (\<exists>x ix'. adapter_insert p (r ! c) ?i ix = (Inr x, ix') \<and> index_ok p (columns_of t) ?M c ix' \<and> room_for n ix')"
    using insert_index [OF ok vs cf _ _ _ new] st room index_keyed(2) [OF ok _ cf vs] table_okD(8) [OF ok]
    unfolding storable_row_def indexes_room_def by blast
  from for_indexes_ok [where P = "\<lambda>c ix. index_ok p (columns_of t) ?M c ix \<and> room_for n ix", OF this] obtain bs' where
    bs': "for_indexes (length r) (\<lambda>c. adapter_insert p (r ! c) ?i) (tb_indexes t) = (Inr (), bs')"
    "map fst bs' = map fst (tb_indexes t)" "\<forall>(c, ix) \<in> set bs'. index_ok p (columns_of t) ?M c ix \<and> room_for n ix" by blast
  let ?t' = "?t1\<lparr>tb_indexes := bs'\<rparr>"
  have "validate_row p r None t = Inr ()" using validate_iff [OF ok vs] cf by simp
  moreover have "row_at ?i ?t1 = Inr r" using rows M by (simp add: row_at_def)
  ultimately have run: "insert_full_row p r t = (Inr ?i, ?t')"
    using bs'(1) by (simp add: insert_full_row_def bindS_def notify_indexes_insert_def on_indexes_def)
  have next_le: "j < ?i + 1" if "j \<in> set (tb_order t @ [?i])" for j
  proof -
    have "?i < ?i + 1" by (rule next_word_less [OF max])
    moreover have "j = ?i \<or> j < ?i" using that table_okD(5) [OF ok] by auto
    ultimately show ?thesis by auto
  qed
  have "?i \<notin> set (tb_order t)" using table_okD(5) [OF ok] by blast
  moreover have "conforms p ?t' (Some j) q \<and> values_ok p q" if "map_of (tb_rows ?t') j = Some q" for j q
  proof
    show "conforms p ?t' (Some j) q" by (rule insert_keeps_rows [OF ok cf new _ _ that]) (use rows M in simp_all)
    show "values_ok p q" using that rows M vs table_okD(6) [OF ok] by (auto split: if_splits)
  qed
  ultimately have "table_ok p ?t'"
    using table_okD [OF ok] next_le rows M bs' by (auto simp: table_ok_def)
  moreover have "indexes_room n ?t'" using bs'(3) by (auto simp: indexes_room_def)
  ultimately show ?thesis using run rows bs'(2) by simp
qed

lemma insert_full_row_refused:
  assumes "table_ok p t" and "values_ok p r" and "\<not> conforms p t None r"
  shows "\<exists>e. insert_full_row p r t = (Inl e, t)"
proof -
  have "validate_row p r None t \<noteq> Inr ()" using validate_iff [OF assms(1,2)] assms(3) by simp
  then obtain e where "validate_row p r None t = Inl e" by (cases "validate_row p r None t") auto
  then show ?thesis by (simp add: insert_full_row_def bindS_askE_Inl)
qed

subsection \<open>Deletion\<close>

lemma conforms_fewer:
  assumes "conforms p t excl r" and "columns_of t' = columns_of t"
    and "\<And>j q. map_of (tb_rows t') j = Some q \<Longrightarrow> map_of (tb_rows t) j = Some q"
  shows "conforms p t' excl r"
proof -
  have "unique_in c (map_of (tb_rows t')) excl v" if "unique_in c (map_of (tb_rows t)) excl v" for c v
    using that assms(3) unfolding unique_in_def by blast
  then show ?thesis using assms(1,2) by (simp add: conforms_def)
qed

lemma map_fst_delete: "map fst (AList.delete i rows) = filter (\<lambda>j. j \<noteq> i) (map fst rows)"
  by (induction rows) (auto simp: AList.delete_eq)

lemma erase_index:
  assumes ok: "table_ok p t" and row: "map_of (tb_rows t) i = Some r" and ix: "(c, ix) \<in> set (tb_indexes t)"
  shows "\<exists>x ix'. adapter_erase p (r ! c) ix = (Inr x, ix')
    \<and> index_ok p (columns_of t) ((map_of (tb_rows t))(i := None)) c ix' \<and> (\<forall>n. room_for n ix \<longrightarrow> room_for n ix')"
proof -
  have io: "index_ok p (columns_of t) (map_of (tb_rows t)) c ix" using table_okD(8) [OF ok ix] .
  then obtain m where m: "adapter_map p ix m" "column_of m c (map_of (tb_rows t))" by (auto simp: index_ok_def)
  have "conforms p t (Some i) r" "values_ok p r" using table_okD(6) [OF ok row] by simp_all
  from ad.rem_law [OF m(1) index_keyed(1) [OF ok io this]] obtain ix' where
    ix': "adapter_erase p (r ! c) ix = (Inr (m (r ! c) \<noteq> None), ix')" "adapter_map p ix' (m(r ! c := None))"
    "value_keyed p ix' = value_keyed p ix" "\<forall>n. room_for n ix \<longrightarrow> room_for n ix'" by blast
  have "column_of (m(r ! c := None)) c ((map_of (tb_rows t))(i := None))" by (rule column_of_del [OF m(2) row])
  with ix' io show ?thesis by (auto simp: index_ok_def adapter_kind [OF m(1) ix'(2,3)])
qed

lemma for_indexes_ok2:
  assumes "\<And>c ix. (c, ix) \<in> set bs \<Longrightarrow> c < n \<and> (\<exists>x ix'. f c ix = (Inr x, ix') \<and> P c ix' \<and> Q ix ix')"
    and "\<And>c ix. (c, ix) \<in> set bs \<Longrightarrow> R ix" and "\<And>ix ix'. Q ix ix' \<Longrightarrow> R ix \<Longrightarrow> R ix'"
  shows "\<exists>bs'. for_indexes n f bs = (Inr (), bs') \<and> map fst bs' = map fst bs \<and> (\<forall>(c, ix) \<in> set bs'. P c ix \<and> R ix)"
  by (rule for_indexes_ok) (use assms in blast)

lemma erase_row_ok:
  assumes ok: "table_ok p t" and row: "map_of (tb_rows t) i = Some r" and room: "indexes_room n t"
  shows "\<exists>t'. erase_row p i t = (Inr (), t') \<and> map_of (tb_rows t') = (map_of (tb_rows t))(i := None)
    \<and> tb_order t' = remove1 i (tb_order t) \<and> table_ok p t' \<and> tb_schema t' = tb_schema t \<and> tb_next t' = tb_next t
    \<and> tb_name t' = tb_name t \<and> map fst (tb_indexes t') = map fst (tb_indexes t) \<and> indexes_room n t'"
proof -
  let ?M = "(map_of (tb_rows t))(i := None)"
  have r: "conforms p t (Some i) r" "values_ok p r" using table_okD(6) [OF ok row] by simp_all
  obtain bs' where bs': "for_indexes (length r) (\<lambda>c. adapter_erase p (r ! c)) (tb_indexes t) = (Inr (), bs')"
    "map fst bs' = map fst (tb_indexes t)" "\<forall>(c, ix) \<in> set bs'. index_ok p (columns_of t) ?M c ix \<and> room_for n ix"
    using for_indexes_ok2 [where Q = "\<lambda>ix ix'. \<forall>n. room_for n ix \<longrightarrow> room_for n ix'" and R = "room_for n" and bs = "tb_indexes t"
        and n = "length r" and f = "\<lambda>c. adapter_erase p (r ! c)" and P = "index_ok p (columns_of t) ?M"]
      erase_index [OF ok row] index_keyed(2) [OF ok table_okD(8) [OF ok] r] room
    unfolding indexes_room_def by blast
  let ?t' = "t\<lparr>tb_indexes := bs', tb_rows := AList.delete i (tb_rows t), tb_order := remove1 i (tb_order t)\<rparr>"
  have run: "erase_row p i t = (Inr (), ?t')"
    using row bs'(1) by (simp add: erase_row_def bindS_def notify_indexes_erase_def on_indexes_def)
  have M: "map_of (AList.delete i (tb_rows t)) = ?M" by (simp add: AList.delete_conv')
  have order: "remove1 i (tb_order t) = filter (\<lambda>j. j \<noteq> i) (tb_order t)"
    using table_okD(4) [OF ok] by (simp add: distinct_remove1_removeAll removeAll_filter_not_eq) (metis (mono_tags))
  have "conforms p ?t' (Some j) q \<and> values_ok p q" if "map_of (tb_rows ?t') j = Some q" for j q
  proof -
    have less: "map_of (tb_rows t) k = Some x" if "map_of (tb_rows ?t') k = Some x" for k x
      using that M by (simp split: if_splits)
    note q = table_okD(6) [OF ok less [OF that]]
    show ?thesis using conforms_fewer [of p t "Some j" q ?t'] q less by simp
  qed
  then have "table_ok p ?t'"
    using table_okD [OF ok] bs' M order map_fst_delete [of i "tb_rows t"] by (auto simp: table_ok_def)
  moreover have "indexes_room n ?t'" using bs'(3) by (auto simp: indexes_room_def)
  ultimately show ?thesis using run M bs'(2) by simp
qed

subsection \<open>Update\<close>

lemma set_update_distinct:
  assumes "distinct (map fst al)" and "(k, y) \<in> set (AList.update c z al)"
  shows "(k = c \<and> y = z) \<or> (k \<noteq> c \<and> (k, y) \<in> set al)"
proof -
  have "distinct (map fst (AList.update c z al))" using assms(1) by (rule distinct_update)
  then have "map_of (AList.update c z al) k = Some y" using assms(2) by simp
  then show ?thesis using assms(1) by (auto simp: update_conv' split: if_splits)
qed

lemma map_fst_update: "map_of al c = Some x \<Longrightarrow> map fst (AList.update c z al) = map fst al"
  by (induction al) (auto split: if_splits)

lemma update_rows_ok:
  assumes ok: "table_ok p t" and row: "map_of (tb_rows t) i = Some r" and cf: "conforms p t (Some i) (r[c := v])"
    and M: "map_of (tb_rows t') = (map_of (tb_rows t))(i \<mapsto> r[c := v])" and "columns_of t' = columns_of t"
    and q: "map_of (tb_rows t') j = Some q"
  shows "conforms p t' (Some j) q"
proof (cases "j = i")
  case True
  then have "q = r[c := v]" using q M by simp
  with True cf assms(5) M show ?thesis by (auto simp: conforms_def unique_in_def)
next
  case False
  then have qt: "map_of (tb_rows t) j = Some q" using q M by simp
  have "unique_in k (map_of (tb_rows t')) (Some j) (q ! k)"
    if k: "k < length (columns_of t)" "col_indexed (columns_of t ! k)" for k
  proof -
    have "unique_in k (map_of (tb_rows t)) (Some i) (r[c := v] ! k)" using cf k by (simp add: conforms_def)
    then have "q ! k \<noteq> r[c := v] ! k" using qt False by (auto simp: unique_in_def)
    moreover have "unique_in k (map_of (tb_rows t)) (Some j) (q ! k)"
      using table_okD(6) [OF ok qt] k by (simp add: conforms_def)
    ultimately show ?thesis using M by (auto simp: unique_in_def)
  qed
  then show ?thesis using table_okD(6) [OF ok qt] assms(5) by (simp add: conforms_def)
qed

lemma update_index:
  assumes ok: "table_ok p t" and row: "map_of (tb_rows t) i = Some r"
    and cf: "conforms p t (Some i) (r[c := v])" and ix: "(c, ix) \<in> set (tb_indexes t)"
    and st: "value_storable p ix v" and room: "room_for (Suc n) ix"
  shows "\<exists>ix'. bindS (adapter_erase p (r ! c)) (\<lambda>_. adapter_insert p v i) ix = (Inr (), ix')
    \<and> index_ok p (columns_of t) ((map_of (tb_rows t))(i \<mapsto> r[c := v])) c ix' \<and> room_for n ix'"
proof -
  have io: "index_ok p (columns_of t) (map_of (tb_rows t)) c ix" using table_okD(8) [OF ok ix] .
  then obtain m where m: "adapter_map p ix m" "column_of m c (map_of (tb_rows t))"
    and c: "c < length (columns_of t)" "col_indexed (columns_of t ! c)" by (auto simp: index_ok_def)
  have r: "conforms p t (Some i) r" "values_ok p r" using table_okD(6) [OF ok row] by simp_all
  have len: "c < length r" using r(1) c(1) by (simp add: conforms_def)
  have u: "unique_in c (map_of (tb_rows t)) (Some i) v" using cf c len by (auto simp: conforms_def)
  have "(m(r ! c := None)) v = None"
    using u row m(2) column_unique [OF m(2), of "Some i" v] by (auto simp: column_of_def split: option.splits)
  from ad.move_key [OF m(1) index_keyed(1) [OF ok io r] st this room, of i] obtain ix' where
    ix': "bindS (adapter_erase p (r ! c)) (\<lambda>_. adapter_insert p v i) ix = (Inr (), ix')"
    "adapter_map p ix' ((m(r ! c := None))(v \<mapsto> i))" "value_keyed p ix' = value_keyed p ix" "room_for n ix'" by blast
  have "column_of ((m(r ! c := None))(v \<mapsto> i)) c ((map_of (tb_rows t))(i \<mapsto> r[c := v]))"
    by (rule column_of_move [OF m(2) row len u])
  with ix' io show ?thesis by (auto simp: index_ok_def adapter_kind [OF m(1) ix'(2,3)])
qed

lemma other_index:
  assumes "index_ok p cols M k ix" and "M i = Some r" and "k \<noteq> c"
  shows "index_ok p cols (M(i \<mapsto> r[c := v])) k ix"
proof -
  obtain m where "adapter_map p ix m" "column_of m k M" using assms(1) by (auto simp: index_ok_def)
  moreover from this(2) have "column_of m k (M(i \<mapsto> r[c := v]))" by (rule column_of_other) (rule assms(2,3))+
  ultimately show ?thesis using assms(1) by (auto simp: index_ok_def)
qed

lemma notify_update_ok:
  assumes ok: "table_ok p t" and row: "map_of (tb_rows t) i = Some r"
    and cf: "conforms p t (Some i) (r[c := v])"
    and st: "\<And>ix. (c, ix) \<in> set (tb_indexes t) \<Longrightarrow> value_storable p ix v" and room: "indexes_room (Suc n) t"
  shows "\<exists>bs. notify_indexes_update p i c (r ! c) v t = (Inr (), t\<lparr>tb_indexes := bs\<rparr>)
    \<and> map fst bs = map fst (tb_indexes t)
    \<and> (\<forall>(k, ix) \<in> set bs. index_ok p (columns_of t) ((map_of (tb_rows t))(i \<mapsto> r[c := v])) k ix \<and> room_for n ix)"
proof -
  have fewer: "room_for (Suc n) ix \<Longrightarrow> room_for n ix" for ix by (simp add: room_for_def)
  have others: "index_ok p (columns_of t) ((map_of (tb_rows t))(i \<mapsto> r[c := v])) k ix \<and> room_for n ix"
    if "(k, ix) \<in> set (tb_indexes t)" "k \<noteq> c" for k ix
    using other_index [OF table_okD(8) [OF ok that(1)] row that(2)] that(1) room fewer by (auto simp: indexes_room_def)
  show ?thesis
  proof (cases "map_of (tb_indexes t) c")
    case None
    then have "\<forall>(k, ix) \<in> set (tb_indexes t). k \<noteq> c" by (force simp: map_of_eq_None_iff)
    with others have "\<forall>(k, ix) \<in> set (tb_indexes t).
        index_ok p (columns_of t) ((map_of (tb_rows t))(i \<mapsto> r[c := v])) k ix \<and> room_for n ix" by blast
    then show ?thesis using None by (intro exI [of _ "tb_indexes t"]) (simp add: notify_indexes_update_def)
  next
    case (Some ix)
    then have mem: "(c, ix) \<in> set (tb_indexes t)" by (rule map_of_SomeD)
    then have "room_for (Suc n) ix" using room by (auto simp: indexes_room_def)
    from update_index [OF ok row cf mem st [OF mem] this] obtain ix' where
      ix': "bindS (adapter_erase p (r ! c)) (\<lambda>_. adapter_insert p v i) ix = (Inr (), ix')"
      "index_ok p (columns_of t) ((map_of (tb_rows t))(i \<mapsto> r[c := v])) c ix'" "room_for n ix'" by blast
    have "index_ok p (columns_of t) ((map_of (tb_rows t))(i \<mapsto> r[c := v])) k x \<and> room_for n x"
      if "(k, x) \<in> set (AList.update c ix' (tb_indexes t))" for k x
      using set_update_distinct [OF table_okD(7) [OF ok] that] others ix' by auto
    then show ?thesis using Some ix'(1) map_fst_update [OF Some]
      by (intro exI [of _ "AList.update c ix' (tb_indexes t)"]) (auto simp: notify_indexes_update_def)
  qed
qed

lemma update_cell_ok:
  assumes ok: "table_ok p t" and row: "map_of (tb_rows t) i = Some r" and c: "c < length (columns_of t)"
    and vs: "value_ok p v" and cf: "conforms p t (Some i) (r[c := v])"
    and st: "\<And>ix. (c, ix) \<in> set (tb_indexes t) \<Longrightarrow> value_storable p ix v" and room: "indexes_room (Suc n) t"
  shows "\<exists>t'. update_cell p i c v t = (Inr (), t') \<and> map_of (tb_rows t') = (map_of (tb_rows t))(i \<mapsto> r[c := v])
    \<and> tb_order t' = tb_order t \<and> table_ok p t' \<and> tb_schema t' = tb_schema t \<and> tb_next t' = tb_next t
    \<and> tb_name t' = tb_name t \<and> map fst (tb_indexes t') = map fst (tb_indexes t) \<and> indexes_room n t'"
proof -
  have r: "conforms p t (Some i) r" "values_ok p r" using table_okD(6) [OF ok row] by simp_all
  have len: "c < length r" using r(1) c by (simp add: conforms_def)
  have uv: "values_ok p (r[c := v])" using r(2) vs by (auto simp: values_ok_def dest!: set_update_subset_insert [THEN subsetD])
  obtain bs where bs: "notify_indexes_update p i c (r ! c) v t = (Inr (), t\<lparr>tb_indexes := bs\<rparr>)"
    "map fst bs = map fst (tb_indexes t)"
    "\<forall>(k, ix) \<in> set bs. index_ok p (columns_of t) ((map_of (tb_rows t))(i \<mapsto> r[c := v])) k ix \<and> room_for n ix"
    using notify_update_ok [OF ok row cf st room] by blast
  let ?t' = "t\<lparr>tb_indexes := bs, tb_rows := AList.update i (r[c := v]) (tb_rows t)\<rparr>"
  have "validate_row p (r[c := v]) (Some i) t = Inr ()" using validate_iff [OF ok uv] cf by simp
  then have run: "update_cell p i c v t = (Inr (), ?t')"
    using row c len bs(1) by (simp add: update_cell_def bindS_def column_count_def Let_def)
  have M: "map_of (tb_rows ?t') = (map_of (tb_rows t))(i \<mapsto> r[c := v])" by (simp add: update_conv')
  have "conforms p ?t' (Some j) q \<and> values_ok p q" if "map_of (tb_rows ?t') j = Some q" for j q
  proof
    show "conforms p ?t' (Some j) q" by (rule update_rows_ok [OF ok row cf M _ that]) simp
    show "values_ok p q" using that M uv table_okD(6) [OF ok] by (auto split: if_splits)
  qed
  note rows_ok = this
  have "table_ok p ?t'"
  proof (rule table_okI)
    show "conforms p ?t' (Some j) q \<and> values_ok p q" if "map_of (tb_rows ?t') j = Some q" for j q
      by (rule rows_ok [OF that])
    show "index_ok p (columns_of ?t') (map_of (tb_rows ?t')) k ix" if "(k, ix) \<in> set (tb_indexes ?t')" for k ix
      unfolding M using that bs(3) by auto
  qed (use table_okD(1-5,7) [OF ok] bs(2) map_fst_update [OF row] in simp_all)
  moreover have "indexes_room n ?t'" using bs(3) by (auto simp: indexes_room_def)
  ultimately show ?thesis using run M bs(2) by simp
qed

lemma update_cell_refused:
  assumes ok: "table_ok p t" and row: "map_of (tb_rows t) i = Some r" and c: "c < length (columns_of t)"
    and vs: "value_ok p v" and "\<not> conforms p t (Some i) (r[c := v])"
  shows "\<exists>e. update_cell p i c v t = (Inl e, t)"
proof -
  have r: "conforms p t (Some i) r" "values_ok p r" using table_okD(6) [OF ok row] by simp_all
  have uv: "values_ok p (r[c := v])" using r(2) vs by (auto simp: values_ok_def dest!: set_update_subset_insert [THEN subsetD])
  obtain e where "validate_row p (r[c := v]) (Some i) t = Inl e"
    using validate_iff [OF ok uv] assms(5) by (cases "validate_row p (r[c := v]) (Some i) t") auto
  then show ?thesis using row c r(1) by (simp add: update_cell_def bindS_def column_count_def conforms_def Let_def)
qed

subsection \<open>Attaching an index\<close>

lemma rebuild_index_ok:
  assumes ok: "table_ok p t" and c: "c < length (columns_of t)" "col_indexed (columns_of t ! c)"
    and "adapter_map p ix m" and "column_of m c (map_of (tb_rows t) |` set old)"
    and "distinct (old @ ids)" and "set ids \<subseteq> set (tb_order t)"
    and "\<And>i r. i \<in> set ids \<Longrightarrow> map_of (tb_rows t) i = Some r \<Longrightarrow> value_storable p ix (r ! c)"
    and "room_for (length ids + n) ix"
  shows "\<exists>ix' m'. rebuild_index p c ids t ix = (Inr (), ix') \<and> adapter_map p ix' m'
    \<and> column_of m' c (map_of (tb_rows t) |` set (old @ ids)) \<and> value_keyed p ix' = value_keyed p ix \<and> room_for n ix'"
  using assms(4-)
proof (induction ids arbitrary: old ix m)
  case (Cons i ids)
  obtain r where r: "map_of (tb_rows t) i = Some r"
    using Cons.prems(4) table_ids [OF ok, of i] by (cases "map_of (tb_rows t) i") auto
  have cf: "conforms p t (Some i) r" using table_okD(6) [OF ok r] by simp
  then have len: "c < length r" and u: "unique_in c (map_of (tb_rows t)) (Some i) (r ! c)"
    using c by (simp_all add: conforms_def)
  have fresh: "(map_of (tb_rows t) |` set old) i = None" using Cons.prems(3) by simp
  have u2: "unique_in c (map_of (tb_rows t) |` set old) None (r ! c)"
    using u Cons.prems(3) by (auto simp: unique_in_def restrict_map_def)
  have new: "m (r ! c) = None" using column_unique [OF Cons.prems(2), of None] u2 by (auto split: option.splits)
  have st: "value_storable p ix (r ! c)" using Cons.prems(5) [of i r] r by simp
  have room: "room_for (Suc (length ids + n)) ix" using Cons.prems(6) by simp
  from ad.add_law [OF Cons.prems(1) st new room, of i] obtain ix1 where
    1: "adapter_insert p (r ! c) i ix = (Inr (), ix1)" "adapter_map p ix1 (m(r ! c \<mapsto> i))"
    "value_keyed p ix1 = value_keyed p ix" "value_storable p ix1 = value_storable p ix" "room_for (length ids + n) ix1" by blast
  have "(map_of (tb_rows t) |` set old)(i \<mapsto> r) = map_of (tb_rows t) |` set (old @ [i])"
    using r by (auto simp: fun_eq_iff restrict_map_def)
  with column_of_add [OF Cons.prems(2) fresh u2]
  have "column_of (m(r ! c \<mapsto> i)) c (map_of (tb_rows t) |` set (old @ [i]))" by simp
  from Cons.IH [OF 1(2) this] Cons.prems 1 obtain ix' m' where
    "rebuild_index p c ids t ix1 = (Inr (), ix')" "adapter_map p ix' m'"
    "column_of m' c (map_of (tb_rows t) |` set ((old @ [i]) @ ids))" "value_keyed p ix' = value_keyed p ix1" "room_for n ix'"
    by auto
  then show ?case using r len 1 by (auto simp: row_at_def bindS_def)
qed auto

definition indexable :: "pool \<Rightarrow> table \<Rightarrow> nat \<Rightarrow> bindex \<Rightarrow> bool" where
  \<comment> \<open>an empty index of the right kind that can store every value of the column\<close>
  "indexable p t c ix \<longleftrightarrow> adapter_map p ix Map.empty \<and> kind_of ix = kind_for (col_type (columns_of t ! c))
     \<and> (\<forall>i r. map_of (tb_rows t) i = Some r \<longrightarrow> value_storable p ix (r ! c))"

lemma attach_index_ok:
  assumes ok: "table_ok p t" and c: "c < length (columns_of t)" "col_indexed (columns_of t ! c)"
    and ix: "indexable p t c ix" and room: "room_for (row_count t + n) ix" "indexes_room n t"
  shows "\<exists>t'. attach_index p c (Some ix) True t = (Inr (), t') \<and> table_ok p t' \<and> has_index c t'
    \<and> tb_rows t' = tb_rows t \<and> tb_schema t' = tb_schema t \<and> tb_order t' = tb_order t \<and> tb_next t' = tb_next t \<and> indexes_room n t'"
proof -
  have "(map_of (tb_rows t) |` set (tb_order t)) j = map_of (tb_rows t) j" for j
    using table_ids [OF ok, of j] by (cases "j \<in> set (tb_order t)") auto
  then have all: "map_of (tb_rows t) |` set (tb_order t) = map_of (tb_rows t)" by (rule ext)
  have "column_of Map.empty c (map_of (tb_rows t) |` set [])" by (simp add: column_of_def)
  from rebuild_index_ok [OF ok c _ this, of ix "tb_order t" n] obtain ix' m' where
    b: "rebuild_index p c (tb_order t) t ix = (Inr (), ix')" "adapter_map p ix' m'"
    "column_of m' c (map_of (tb_rows t))" "value_keyed p ix' = value_keyed p ix" "room_for n ix'"
    using ix room(1) table_okD(4) [OF ok] all by (auto simp: indexable_def row_count_def)
  let ?bs = "AList.update c ix' (tb_indexes t)"
  let ?t' = "t\<lparr>tb_indexes := ?bs\<rparr>"
  have "kind_of ix' = kind_of ix" by (rule adapter_kind [OF _ b(2,4), of Map.empty]) (use ix in \<open>simp add: indexable_def\<close>)
  then have new: "index_ok p (columns_of t) (map_of (tb_rows t)) c ix'"
    using b c ix by (auto simp: index_ok_def indexable_def)
  have mem: "index_ok p (columns_of t) (map_of (tb_rows t)) k x \<and> room_for n x" if "(k, x) \<in> set ?bs" for k x
    using set_update_distinct [OF table_okD(7) [OF ok] that] new b(5) table_okD(8) [OF ok] room(2)
    by (auto simp: indexes_room_def)
  have "table_ok p ?t'"
  proof (rule table_okI)
    show "conforms p ?t' (Some j) q \<and> values_ok p q" if "map_of (tb_rows ?t') j = Some q" for j q
      using table_okD(6) [OF ok] that by (simp add: conforms_def)
    show "distinct (map fst (tb_indexes ?t'))" using table_okD(7) [OF ok] by (simp add: distinct_update)
    show "index_ok p (columns_of ?t') (map_of (tb_rows ?t')) k x" if "(k, x) \<in> set (tb_indexes ?t')" for k x
      using mem that by simp
  qed (use table_okD(1-5) [OF ok] in simp_all)
  moreover have "indexes_room n ?t'" using mem by (auto simp: indexes_room_def)
  ultimately show ?thesis
    using b(1) c by (auto simp: attach_index_def column_count_def has_index_def update_conv')
qed

text \<open>
  An index that already holds the rows, such as the file of the same index after a restart, makes
  the rebuild fail at the first row.
\<close>

lemma attach_filled_index:
  assumes ok: "table_ok p t" and ix: "index_ok p (columns_of t) (map_of (tb_rows t)) c ix" and "tb_order t \<noteq> []"
  shows "attach_index p c (Some ix) True t
    = (Inl (InvalidArgument ''Duplicate index key''), t\<lparr>tb_indexes := AList.update c ix (tb_indexes t)\<rparr>)"
proof -
  obtain i rest where ids: "tb_order t = i # rest" using assms(3) by (cases "tb_order t") auto
  then obtain r where r: "map_of (tb_rows t) i = Some r"
    using table_ids [OF ok, of i] by (cases "map_of (tb_rows t) i") auto
  obtain m where m: "adapter_map p ix m" "column_of m c (map_of (tb_rows t))" and c: "c < length (columns_of t)"
    using ix by (auto simp: index_ok_def)
  have cf: "conforms p t (Some i) r" "values_ok p r" using table_okD(6) [OF ok r] by simp_all
  have "m (r ! c) = Some i" using m(2) r by (auto simp: column_of_def)
  then have "adapter_insert p (r ! c) i ix = (Inl (InvalidArgument ''Duplicate index key''), ix)"
    using ad.dup_law [OF m(1) index_keyed(1) [OF ok ix cf], of i] by simp
  then show ?thesis using ids r index_keyed(2) [OF ok ix cf] c
    by (simp add: attach_index_def column_count_def row_at_def bindS_def)
qed

subsection \<open>Partial rows\<close>

lemma assign_values_ok:
  assumes "length ps = length vs" and "length assigned = length row"
  shows "case assign_values ps vs assigned row of
      Inl e \<Rightarrow> \<not> (distinct ps \<and> (\<forall>q \<in> set ps. 0 \<le> q \<and> q < int (length row) \<and> \<not> assigned ! nat q))
    | Inr row' \<Rightarrow> distinct ps \<and> (\<forall>q \<in> set ps. 0 \<le> q \<and> q < int (length row) \<and> \<not> assigned ! nat q)
        \<and> length row' = length row
        \<and> (\<forall>k < length row. row' ! k = (case map_of (zip ps vs) (int k) of Some v \<Rightarrow> v | None \<Rightarrow> row ! k))"
  using assms
proof (induction ps vs arbitrary: assigned row rule: list_induct2)
  case (Cons q ps v vs)
  show ?case
  proof (cases "0 \<le> q \<and> q < int (length row) \<and> \<not> assigned ! nat q")
    case False
    then show ?thesis using Cons.prems by (auto simp: guardE_cases split: sum.splits)
  next
    case True
    then have n: "nat q < length row" "nat q < length assigned" using Cons.prems by auto
    let ?a = "assigned[nat q := True]" and ?r = "row[nat q := v]"
    have step: "assign_values (q # ps) (v # vs) assigned row = assign_values ps vs ?a ?r" using True n by simp
    have free: "(\<forall>x \<in> set ps. 0 \<le> x \<and> x < int (length ?r) \<and> \<not> ?a ! nat x)
        \<longleftrightarrow> q \<notin> set ps \<and> (\<forall>x \<in> set ps. 0 \<le> x \<and> x < int (length row) \<and> \<not> assigned ! nat x)"
      using True n by (auto simp: nth_list_update nat_eq_iff)
    have val: "(case map_of (zip ps vs) (int k) of Some w \<Rightarrow> w | None \<Rightarrow> ?r ! k)
        = (case map_of (zip (q # ps) (v # vs)) (int k) of Some w \<Rightarrow> w | None \<Rightarrow> row ! k)"
      if "k < length row" "q \<notin> set ps" for k
    proof (cases "int k = q")
      case True
      then have "map_of (zip ps vs) (int k) = None" using that(2) Cons.hyps by (simp add: map_of_zip_is_None)
      then show ?thesis using that(1) by (simp flip: True)
    next
      case False
      then show ?thesis using \<open>0 \<le> q \<and> _\<close> by (auto simp: nth_list_update split: option.splits)
    qed
    from Cons.IH [of ?a ?r] Cons.prems have ih: "case assign_values ps vs ?a ?r of
        Inl e \<Rightarrow> \<not> (distinct ps \<and> (\<forall>x \<in> set ps. 0 \<le> x \<and> x < int (length ?r) \<and> \<not> ?a ! nat x))
      | Inr row' \<Rightarrow> distinct ps \<and> (\<forall>x \<in> set ps. 0 \<le> x \<and> x < int (length ?r) \<and> \<not> ?a ! nat x)
        \<and> length row' = length ?r
        \<and> (\<forall>k < length ?r. row' ! k = (case map_of (zip ps vs) (int k) of Some w \<Rightarrow> w | None \<Rightarrow> ?r ! k))" by simp
    show ?thesis
    proof (cases "assign_values ps vs ?a ?r")
      case (Inl e)
      then show ?thesis using ih step free True by auto
    next
      case (Inr row')
      then show ?thesis using ih step free True val by auto
    qed
  qed
qed simp

definition column_list_ok :: "int list \<Rightarrow> table \<Rightarrow> bool" where
  "column_list_ok ps t \<longleftrightarrow> distinct ps \<and> (\<forall>q \<in> set ps. 0 \<le> q \<and> q < int (length (columns_of t)))"

definition filled_row :: "int list \<Rightarrow> sql_value list \<Rightarrow> table \<Rightarrow> row" where
  "filled_row ps vs t = map (\<lambda>k. case map_of (zip ps vs) (int k) of Some v \<Rightarrow> v | None \<Rightarrow> Null) [0..<length (columns_of t)]"

lemma materialize_iff:
  "materialize ps vs t = Inr row \<longleftrightarrow> length ps = length vs \<and> column_list_ok ps t \<and> row = filled_row ps vs t"
proof (cases "length ps = length vs")
  case True
  let ?n = "length (columns_of t)"
  have "row' = filled_row ps vs t"
    if "length row' = ?n"
      "\<forall>k < ?n. row' ! k = (case map_of (zip ps vs) (int k) of Some v \<Rightarrow> v | None \<Rightarrow> replicate ?n Null ! k)" for row'
    by (rule nth_equalityI) (use that in \<open>auto simp: filled_row_def split: option.splits\<close>)
  then have spec: "case assign_values ps vs (replicate ?n False) (replicate ?n Null) of
      Inl e \<Rightarrow> \<not> column_list_ok ps t
    | Inr row' \<Rightarrow> column_list_ok ps t \<and> row' = filled_row ps vs t"
    using assign_values_ok [OF True, of "replicate ?n False" "replicate ?n Null"]
    by (cases "assign_values ps vs (replicate ?n False) (replicate ?n Null)")
      (auto simp: column_list_ok_def nat_less_iff)
  have "materialize ps vs t = assign_values ps vs (replicate ?n False) (replicate ?n Null)"
    using True by (simp add: materialize_def column_count_def Let_def)
  then show ?thesis using spec True by (auto split: sum.splits)
qed (simp add: materialize_def)

end
