(* ===== verification/Table_Store.thy ===== *)
theory Table_Store
  imports Table_Ops
begin

section \<open>Saving and loading a table\<close>

text \<open>
  \<open>Table::save\<close> and \<open>Table::load\<close> (\<open>storage/src/table.cpp\<close>): the bytes of the \<open>.dat\<close> file. The
  temporary file and its renaming are left to the operating system; what is modelled is the image
  that is written and what is read back from it. A loader works on the stream and on the pool,
  because it interns every string of the file into the pool of the running process.
\<close>

definition TABLE_MAGIC :: nat where "TABLE_MAGIC = 0x42445442"
definition TABLE_VERSION :: nat where "TABLE_VERSION = 3"

subsection \<open>The image\<close>

definition short_string :: "string \<Rightarrow> char list" where
  \<comment> \<open>a length of 16 bits, to which longer names are cut\<close>
  "short_string s = (let n = length s mod 2 ^ 16 in le_bytes 2 n @ take n s)"

fun value_image :: "sql_value \<Rightarrow> char list" where
  "value_image Null = le_bytes 1 0"
| "value_image (VInt w) = le_bytes 1 1 @ u64_bytes w"
| "value_image (VStr i) = le_bytes 1 2 @ le_bytes 4 (unat i)"

definition column_image :: "column_def \<Rightarrow> char list" where
  "column_image d =
     short_string (col_name d)
     @ le_bytes 1 (if col_type d = IntType then 1 else 2)
     @ le_bytes 1 ((if col_not_null d then 1 else 0) + (if col_indexed d then 2 else 0))
     @ (case col_default d of None \<Rightarrow> le_bytes 1 0 | Some v \<Rightarrow> le_bytes 1 1 @ value_image v)"

fun row_images :: "64 word list \<Rightarrow> table \<Rightarrow> exn + char list" where
  "row_images [] t = Inr []"
| "row_images (i # ids) t =
     bindE (row_at i t) (\<lambda>r. bindE (row_images ids t) (\<lambda>bs.
     Inr (u64_bytes i @ concat (map value_image r) @ bs)))"

definition save_table :: "pool \<Rightarrow> table \<Rightarrow> exn + char list" where
  "save_table p t =
     bindE (serialize_pool p) (\<lambda>pool_image.
     bindE (row_images (tb_order t) t) (\<lambda>rows_image.
     Inr (le_bytes 4 TABLE_MAGIC @ le_bytes 4 TABLE_VERSION @ short_string (tb_name t) @ pool_image
          @ le_bytes 4 (length (columns_of t) mod 2 ^ 32) @ concat (map column_image (columns_of t))
          @ le_bytes 8 (length (tb_order t) mod 2 ^ 64) @ rows_image)))"

subsection \<open>Reading it back\<close>

type_synonym loader = "istream \<times> pool"

definition read_bin :: "nat \<Rightarrow> (loader, nat) sx" where
  "read_bin n = (\<lambda>(st, p). case stream_read n st of
     (bs, st') \<Rightarrow>
       (if snd st' then Inr (le_nat bs) else Inl (RuntimeError ''Table::load: truncated or corrupt file''), (st', p)))"

definition read_raw :: "nat \<Rightarrow> (loader, string) sx" where
  \<comment> \<open>\<open>in.read(&s[0], n)\<close>, whose success is not tested\<close>
  "read_raw n = (\<lambda>(st, p). case stream_read n st of (bs, st') \<Rightarrow> (Inr (zero_filled n bs), (st', p)))"

definition intern_loaded :: "string \<Rightarrow> (loader, 32 word) sx" where
  "intern_loaded s = (\<lambda>(st, p). case intern s p of (i, p') \<Rightarrow> (Inr i, (st, p')))"

fun read_strings :: "nat \<Rightarrow> (loader, 32 word list) sx" where
  "read_strings 0 = retS []"
| "read_strings (Suc n) =
     bindS (read_bin 4) (\<lambda>len.
     bindS (read_raw len) (\<lambda>s.
     bindS (intern_loaded s) (\<lambda>i.
     bindS (read_strings n) (\<lambda>is. retS (i # is)))))"

definition mapped_id :: "32 word list \<Rightarrow> nat \<Rightarrow> (loader, 32 word) sx" where
  "mapped_id ids k = (if k < length ids then retS (ids ! k) else throwS VECTOR_AT)"

definition read_value :: "32 word list \<Rightarrow> (loader, sql_value) sx" where
  "read_value ids =
     bindS (read_bin 1) (\<lambda>tag.
     if tag = 0 then retS Null
     else if tag = 1 then bindS (read_bin 8) (\<lambda>n. retS (VInt (of_nat n)))
     else bindS (read_bin 4) (\<lambda>k. bindS (mapped_id ids k) (\<lambda>i. retS (VStr i))))"

definition read_column :: "32 word list \<Rightarrow> (loader, column_def) sx" where
  "read_column ids =
     bindS (read_bin 2) (\<lambda>len.
     bindS (read_raw len) (\<lambda>name.
     bindS (read_bin 1) (\<lambda>ty.
     bindS (read_bin 1) (\<lambda>flags.
     bindS (read_bin 1) (\<lambda>has_def.
     bindS (if has_def \<noteq> 0 then bindS (read_value ids) (\<lambda>v. retS (Some v)) else retS None) (\<lambda>def.
     retS \<lparr>col_name = name, col_type = (if ty = 1 then IntType else StrType),
           col_not_null = odd flags, col_indexed = odd (flags div 2), col_default = def\<rparr>))))))"

fun read_many :: "nat \<Rightarrow> (loader, 'a) sx \<Rightarrow> (loader, 'a list) sx" where
  "read_many 0 m = retS []"
| "read_many (Suc n) m = bindS m (\<lambda>x. bindS (read_many n m) (\<lambda>xs. retS (x # xs)))"

definition read_row :: "32 word list \<Rightarrow> nat \<Rightarrow> (loader, 64 word \<times> row) sx" where
  "read_row ids n =
     bindS (read_bin 8) (\<lambda>i. bindS (read_many n (read_value ids)) (\<lambda>r. retS (of_nat i, r)))"

definition next_after :: "64 word list \<Rightarrow> 64 word" where
  \<comment> \<open>one more than the largest id, computed in 64 bits\<close>
  "next_after ids = (case ids of [] \<Rightarrow> 1 | i # is \<Rightarrow> max (foldl max i is + 1) 1)"

definition table_of_rows :: "string \<Rightarrow> schema \<Rightarrow> (64 word \<times> row) list \<Rightarrow> table" where
  "table_of_rows name s rows =
     \<lparr>tb_name = name, tb_schema = s, tb_rows = foldl (\<lambda>rs (i, r). emplace_row i r rs) [] rows,
      tb_order = map fst rows, tb_indexes = [], tb_next = next_after (map fst rows)\<rparr>"

definition load_body :: "(loader, table) sx" where
  "load_body =
     bindS (read_bin 4) (\<lambda>magic.
     bindS (guardS (magic = TABLE_MAGIC) (RuntimeError ''Table::load: bad magic'')) (\<lambda>_.
     bindS (read_bin 4) (\<lambda>version.
     bindS (guardS (version = TABLE_VERSION) (RuntimeError ''Table::load: unsupported version'')) (\<lambda>_.
     bindS (read_bin 2) (\<lambda>len.
     bindS (read_raw len) (\<lambda>name.
     bindS (read_bin 4) (\<lambda>pool_count.
     bindS (read_strings pool_count) (\<lambda>is.
     bindS (read_bin 4) (\<lambda>col_count.
     bindS (read_many col_count (read_column (0 # is))) (\<lambda>cols.
     bindS (liftE (make_schema cols)) (\<lambda>s.
     bindS (read_bin 8) (\<lambda>n.
     bindS (read_many n (read_row (0 # is) (column_count s))) (\<lambda>rows.
     retS (table_of_rows name s rows))))))))))))))"

definition load_table :: "char list \<Rightarrow> (pool, table) sx" where
  "load_table bs p = (case load_body ((bs, True), p) of (r, (_, p')) \<Rightarrow> (r, p'))"

subsection \<open>Readers and the bytes they consume\<close>

definition reads :: "(loader, 'a) sx \<Rightarrow> char list \<Rightarrow> 'a \<Rightarrow> pool \<Rightarrow> pool \<Rightarrow> bool" where
  "reads m bs x p p' \<longleftrightarrow> (\<forall>rest. m ((bs @ rest, True), p) = (Inr x, ((rest, True), p')))"

lemma reads_ret [intro]: "reads (retS x) [] x p p"
  by (simp add: reads_def)

lemma reads_bind:
  assumes "reads m a x p p1" and "reads (f x) b y p1 p2"
  shows "reads (bindS m f) (a @ b) y p p2"
  using assms by (simp add: reads_def bindS_def)

lemma reads_step:
  assumes "reads m a x p p1" and "reads (f x) b y p1 p2" and "bs = a @ b"
  shows "reads (bindS m f) bs y p p2"
  using reads_bind assms by simp

lemma reads_guard: "b \<Longrightarrow> reads (f ()) bs y p p' \<Longrightarrow> reads (bindS (guardS b e) f) bs y p p'"
  by (simp add: reads_def)

lemma reads_lift: "m = Inr x \<Longrightarrow> reads (f x) bs y p p' \<Longrightarrow> reads (bindS (liftE m) f) bs y p p'"
  by (simp add: reads_def)

lemma reads_bin: "k < 256 ^ n \<Longrightarrow> reads (read_bin n) (le_bytes n k) k p p"
  by (simp add: reads_def read_bin_def)

lemma reads_u64: "reads (read_bin 8) (u64_bytes w) (unat w) p p"
  by (simp add: reads_def read_bin_def)

lemma reads_raw: "length s = n \<Longrightarrow> reads (read_raw n) s s p p"
  by (simp add: reads_def read_raw_def)

lemma reads_many:
  assumes "\<And>x. x \<in> set xs \<Longrightarrow> reads m (f x) (g x) p p"
  shows "reads (read_many (length xs) m) (concat (map f xs)) (map g xs) p p"
  using assms
proof (induction xs)
  case (Cons x xs)
  have "reads m (f x) (g x) p p" "reads (read_many (length xs) m) (concat (map f xs)) (map g xs) p p"
    using Cons by simp_all
  then show ?case by (auto intro!: reads_step [OF \<open>reads m (f x) (g x) p p\<close>] reads_step)
qed auto

subsection \<open>Ids of the saved pool in the pool of the loader\<close>

definition id_map_ok :: "pool \<Rightarrow> 32 word list \<Rightarrow> pool \<Rightarrow> bool" where
  "id_map_ok p ids q \<longleftrightarrow> (\<forall>i s. pool_get i p = Inr s \<longrightarrow> unat i < length ids \<and> pool_get (ids ! unat i) q = Inr s)"

fun remap :: "32 word list \<Rightarrow> sql_value \<Rightarrow> sql_value" where
  "remap ids (VStr i) = VStr (ids ! unat i)"
| "remap ids v = v"

lemma remap_denote: "id_map_ok p ids q \<Longrightarrow> value_ok p v \<Longrightarrow> denote q (remap ids v) = denote p v"
  by (cases v) (auto simp: id_map_ok_def)

lemma remap_ok: "id_map_ok p ids q \<Longrightarrow> value_ok p v \<Longrightarrow> value_ok q (remap ids v)"
  by (metis remap_denote value_ok_def)

lemma remap_simps [simp]: "matches (remap ids v) ty = matches v ty" "remap ids v = Null \<longleftrightarrow> v = Null"
  by (cases v; simp)+

lemma remap_eq:
  assumes "pool_ok p" and "id_map_ok p ids q" and "value_ok p v" and "value_ok p w"
  shows "remap ids v = remap ids w \<longleftrightarrow> v = w"
proof
  assume "remap ids v = remap ids w"
  then have "denote p v = denote p w" using remap_denote [OF assms(2)] assms(3,4) by metis
  then show "v = w" using assms(1,3) denote_inject [of p v _ w] by (auto simp: value_ok_def)
qed simp

lemma reads_strings:
  assumes "pool_ok q" and "pool_room (length ss) q" and "\<forall>s \<in> set ss. length s < 2 ^ 32"
  shows "\<exists>is q'. reads (read_strings (length ss)) (concat (map string_entry ss)) is q q' \<and> pool_ok q' \<and> extends q q'
    \<and> length is = length ss \<and> (\<forall>k < length ss. pool_get (is ! k) q' = Inr (ss ! k))
    \<and> length (by_id q') \<le> length (by_id q) + length ss"
  using assms
proof (induction ss arbitrary: q)
  case Nil
  then show ?case by (intro exI [of _ "[]"] exI [of _ q]) (auto simp: reads_def)
next
  case (Cons s ss)
  obtain i q1 where i: "intern s q = (i, q1)" by (cases "intern s q")
  have room: "pool_room 1 q" using Cons.prems(2) by (simp add: pool_room_def)
  note q1 = intern_ok [OF Cons.prems(1) room i]
  have "pool_room (length ss) q1" using Cons.prems(2) q1(4) by (simp add: pool_room_def)
  from Cons.IH [OF q1(1) this] Cons.prems(3) obtain ids q' where
    r: "reads (read_strings (length ss)) (concat (map string_entry ss)) ids q1 q'" "pool_ok q'" "extends q1 q'"
    "length ids = length ss" "\<forall>k < length ss. pool_get (ids ! k) q' = Inr (ss ! k)"
    "length (by_id q') \<le> length (by_id q1) + length ss" by auto
  have len: "length s < 256 ^ 4" using Cons.prems(3) by simp
  have it: "reads (intern_loaded s) [] i q q1" using i by (simp add: reads_def intern_loaded_def)
  have "reads (bindS (read_strings (length ss)) (\<lambda>is. retS (i # is))) (concat (map string_entry ss)) (i # ids) q1 q'"
    by (rule reads_step [OF r(1) reads_ret]) simp
  then have "reads (bindS (intern_loaded s) (\<lambda>i. bindS (read_strings (length ss)) (\<lambda>is. retS (i # is))))
      (concat (map string_entry ss)) (i # ids) q q'"
    by (intro reads_step [OF it]) simp_all
  then have "reads (bindS (read_raw (length s)) (\<lambda>s. bindS (intern_loaded s) (\<lambda>i.
        bindS (read_strings (length ss)) (\<lambda>is. retS (i # is)))))
      (s @ concat (map string_entry ss)) (i # ids) q q'"
    by (intro reads_bind [OF reads_raw]) simp_all
  then have "reads (read_strings (length (s # ss))) (le_bytes 4 (length s) @ s @ concat (map string_entry ss)) (i # ids) q q'"
    by (simp add: reads_bind [OF reads_bin [OF len]])
  moreover have "string_entry s = le_bytes 4 (length s) @ s" using len by (simp add: string_entry_def)
  moreover have "pool_get i q' = Inr s" using q1(3) r(3) by (simp add: extends_def)
  then have "\<forall>k < length (s # ss). pool_get ((i # ids) ! k) q' = Inr ((s # ss) ! k)"
    using r(5) by (auto simp: less_Suc_eq_0_disj)
  moreover have "length (by_id q') \<le> length (by_id q) + length (s # ss)" using r(6) q1(4) by simp
  ultimately show ?case using r(2-4) extends_trans [OF q1(2)] by (intro exI [of _ "i # ids"] exI [of _ q']) simp
qed

lemma loaded_ids:
  assumes "length ids = length (tl (by_id p))" and "\<forall>k < length (tl (by_id p)). pool_get (ids ! k) q = Inr (tl (by_id p) ! k)"
  shows "id_map_ok p (0 # ids) q"
  unfolding id_map_ok_def
proof (intro allI impI)
  fix i s assume a: "pool_get i p = Inr s"
  then have "i \<noteq> 0" "unat i < length (by_id p)" "by_id p ! unat i = s" by (simp_all add: pool_get_Inr)
  moreover from this obtain n where "unat i = Suc n" by (metis not0_implies_Suc unat_eq_zero)
  ultimately show "unat i < length (0 # ids) \<and> pool_get ((0 # ids) ! unat i) q = Inr s"
    using assms by (simp add: nth_tl)
qed

subsection \<open>Values, columns and rows\<close>

lemma reads_value:
  assumes "value_ok p v" and "id_map_ok p ids q"
  shows "reads (read_value ids) (value_image v) (remap ids v) q q"
proof (cases v)
  case Null
  have "reads (read_value ids) (le_bytes 1 0) Null q q"
    unfolding read_value_def by (rule reads_step [OF reads_bin]) (auto simp: reads_def)
  then show ?thesis using Null by simp
next
  case (VInt w)
  have "reads (bindS (read_bin 8) (\<lambda>n. retS (VInt (of_nat n)))) (u64_bytes w) (VInt w) q q"
    by (rule reads_step [OF reads_u64]) (auto simp: reads_def)
  then have "reads (read_value ids) (le_bytes 1 1 @ u64_bytes w) (VInt w) q q"
    unfolding read_value_def by (intro reads_bind [OF reads_bin]) simp_all
  then show ?thesis using VInt by simp
next
  case (VStr i)
  then have i: "unat i < length ids" using assms by (auto simp: id_map_ok_def)
  have b: "unat i < 256 ^ 4" using unsigned_less [of i] by simp
  have "reads (bindS (read_bin 4) (\<lambda>k. bindS (mapped_id ids k) (\<lambda>i. retS (VStr i)))) (le_bytes 4 (unat i)) (VStr (ids ! unat i)) q q"
    by (rule reads_step [OF reads_bin [OF b]]) (use i in \<open>auto simp: reads_def mapped_id_def\<close>)
  then have "reads (read_value ids) (le_bytes 1 2 @ le_bytes 4 (unat i)) (VStr (ids ! unat i)) q q"
    unfolding read_value_def by (intro reads_bind [OF reads_bin]) simp_all
  then show ?thesis using VStr by simp
qed

definition remap_column :: "32 word list \<Rightarrow> column_def \<Rightarrow> column_def" where
  "remap_column ids d = d\<lparr>col_default := map_option (remap ids) (col_default d)\<rparr>"

definition column_savable :: "pool \<Rightarrow> column_def \<Rightarrow> bool" where
  "column_savable p d \<longleftrightarrow> length (col_name d) < 2 ^ 16 \<and> (\<forall>v. col_default d = Some v \<longrightarrow> value_ok p v)"

lemma reads_default:
  assumes "column_savable p d" and "id_map_ok p ids q"
  shows "reads (bindS (read_bin 1) (\<lambda>has_def.
      bindS (if has_def \<noteq> 0 then bindS (read_value ids) (\<lambda>v. retS (Some v)) else retS None) (\<lambda>def. retS (f def))))
    (case col_default d of None \<Rightarrow> le_bytes 1 0 | Some v \<Rightarrow> le_bytes 1 1 @ value_image v)
    (f (map_option (remap ids) (col_default d))) q q"
proof (cases "col_default d")
  case None
  have "reads (bindS (read_bin 1) (\<lambda>has_def.
      bindS (if has_def \<noteq> 0 then bindS (read_value ids) (\<lambda>v. retS (Some v)) else retS None) (\<lambda>def. retS (f def))))
    (le_bytes 1 0 @ []) (f None) q q"
    by (rule reads_bind [OF reads_bin]) (auto simp: reads_def)
  with None show ?thesis by simp
next
  case (Some v)
  have rv: "reads (read_value ids) (value_image v) (remap ids v) q q"
    using assms Some by (intro reads_value) (simp_all add: column_savable_def)
  have "reads (bindS (bindS (read_value ids) (\<lambda>v. retS (Some v))) (\<lambda>def. retS (f def))) (value_image v) (f (Some (remap ids v))) q q"
    by (rule reads_step [OF reads_step [OF rv reads_ret] reads_ret]) simp_all
  then have "reads (bindS (read_bin 1) (\<lambda>has_def.
      bindS (if has_def \<noteq> 0 then bindS (read_value ids) (\<lambda>v. retS (Some v)) else retS None) (\<lambda>def. retS (f def))))
    (le_bytes 1 1 @ value_image v) (f (Some (remap ids v))) q q"
    by (intro reads_bind [OF reads_bin]) simp_all
  with Some show ?thesis by simp
qed

lemma reads_column:
  assumes d: "column_savable p d" and "id_map_ok p ids q"
  shows "reads (read_column ids) (column_image d) (remap_column ids d) q q"
proof -
  have len: "length (col_name d) < 256 ^ 2" using d by (simp add: column_savable_def)
  let ?ty = "if col_type d = IntType then 1 else 2 :: nat"
    and ?fl = "(if col_not_null d then 1 else 0) + (if col_indexed d then 2 else 0) :: nat"
  have img: "column_image d = le_bytes 2 (length (col_name d)) @ col_name d @ le_bytes 1 ?ty @ le_bytes 1 ?fl
      @ (case col_default d of None \<Rightarrow> le_bytes 1 0 | Some v \<Rightarrow> le_bytes 1 1 @ value_image v)"
    using len by (simp add: column_image_def short_string_def Let_def)
  have "(if ?ty = 1 then IntType else StrType) = col_type d" by (cases "col_type d") simp_all
  moreover have "odd ?fl = col_not_null d" "odd (?fl div 2) = col_indexed d" by simp_all
  ultimately have res: "remap_column ids d = \<lparr>col_name = col_name d, col_type = (if ?ty = 1 then IntType else StrType),
      col_not_null = odd ?fl, col_indexed = odd (?fl div 2), col_default = map_option (remap ids) (col_default d)\<rparr>"
    by (simp add: remap_column_def)
  show ?thesis unfolding img res read_column_def
    by (intro reads_bind [OF reads_bin [OF len]] reads_bind [OF reads_raw [OF refl]] reads_bind [OF reads_bin [of ?ty]]
        reads_bind [OF reads_bin [of ?fl]] reads_default [OF assms]) simp_all
qed

definition row_image :: "64 word \<times> row \<Rightarrow> char list" where
  "row_image x = u64_bytes (fst x) @ concat (map value_image (snd x))"

lemma reads_row:
  assumes "values_ok p r" and "id_map_ok p ids q" and "length r = n"
  shows "reads (read_row ids n) (row_image (i, r)) (i, map (remap ids) r) q q"
proof -
  have "reads (read_many n (read_value ids)) (concat (map value_image r)) (map (remap ids) r) q q"
    unfolding assms(3) [symmetric] by (rule reads_many) (use assms reads_value in \<open>auto simp: values_ok_def\<close>)
  then have "reads (bindS (read_many n (read_value ids)) (\<lambda>r. retS (of_nat (unat i), r))) (concat (map value_image r))
      (i, map (remap ids) r) q q"
    by (rule reads_step) (auto simp: reads_def)
  then show ?thesis unfolding read_row_def row_image_def fst_conv snd_conv by (intro reads_bind [OF reads_u64])
qed

subsection \<open>The whole file\<close>

definition savable :: "pool \<Rightarrow> table \<Rightarrow> bool" where
  \<comment> \<open>what the widths of the counters in the file can express\<close>
  "savable p t \<longleftrightarrow> length (tb_name t) < 2 ^ 16 \<and> length (by_id p) < 2 ^ 32 \<and> strings_short p
     \<and> length (columns_of t) < 2 ^ 32 \<and> (\<forall>d \<in> set (columns_of t). column_savable p d) \<and> length (tb_order t) < 2 ^ 64"

definition remap_rows :: "32 word list \<Rightarrow> (64 word \<times> row) list \<Rightarrow> (64 word \<times> row) list" where
  "remap_rows ids rows = map (\<lambda>(i, r). (i, map (remap ids) r)) rows"

lemma row_images_ok:
  assumes "distinct (map fst (pre @ rows))" and "tb_rows t = pre @ rows"
  shows "row_images (map fst rows) t = Inr (concat (map row_image rows))"
  using assms
proof (induction rows arbitrary: pre)
  case (Cons x rows)
  have "x \<in> set (tb_rows t)" "distinct (map fst (tb_rows t))" using Cons.prems by simp_all
  then have "map_of (tb_rows t) (fst x) = Some (snd x)" by (simp add: map_of_eq_Some_iff)
  moreover have "row_images (map fst rows) t = Inr (concat (map row_image rows))"
    using Cons.IH [of "pre @ [x]"] Cons.prems by simp
  ultimately show ?case by (simp add: row_at_def) (simp add: row_image_def)
qed simp

lemma make_schema_remap:
  assumes "schema_ok s"
  shows "\<exists>s'. make_schema (map (remap_column ids) (sch_columns s)) = Inr s'
    \<and> sch_columns s' = map (remap_column ids) (sch_columns s) \<and> schema_ok s'"
proof -
  let ?s = "\<lparr>sch_columns = map (remap_column ids) (sch_columns s), sch_index = sch_index s\<rparr>"
  have "schema_ok ?s" using assms by (auto simp: schema_ok_def remap_column_def)
  moreover have "distinct (map col_name (map (remap_column ids) (sch_columns s)))"
    using schema_ok_distinct [OF assms] by (simp add: remap_column_def comp_def)
  moreover have "\<forall>c \<in> set (map (remap_column ids) (sch_columns s)). col_name c \<noteq> []"
    using assms by (auto simp: schema_ok_def remap_column_def)
  ultimately have "make_schema (map (remap_column ids) (sch_columns s)) = Inr ?s"
    unfolding make_schema_iff by simp
  with \<open>schema_ok ?s\<close> show ?thesis by simp
qed

lemma emplace_all:
  "distinct (map fst (pre @ rows)) \<Longrightarrow> foldl (\<lambda>rs (i, r). emplace_row i r rs) pre rows = pre @ rows"
proof (induction rows arbitrary: pre)
  case (Cons x rows)
  obtain i r where x: "x = (i, r)" by (cases x)
  then have "map_of pre i = None" using Cons.prems by (simp add: map_of_eq_None_iff)
  with Cons.IH [of "pre @ [x]"] Cons.prems x show ?case by (simp add: emplace_row_def)
qed simp

lemma load_body_reads:
  assumes ok: "table_ok p t" and sv: "savable p t" and q: "pool_ok q" "pool_room (length (by_id p)) q"
  shows "\<exists>bs ids s' q'. save_table p t = Inr bs
    \<and> reads load_body bs (table_of_rows (tb_name t) s' (remap_rows ids (tb_rows t))) q q'
    \<and> sch_columns s' = map (remap_column ids) (columns_of t) \<and> schema_ok s'
    \<and> pool_ok q' \<and> extends q q' \<and> id_map_ok p ids q' \<and> length (by_id q') \<le> length (by_id q) + length (by_id p)"
proof -
  let ?ss = "tl (by_id p)" and ?n = "length (tb_rows t)"
  have "\<forall>s \<in> set ?ss. length s < 2 ^ 32" using sv by (cases "by_id p") (auto simp: savable_def strings_short_def)
  moreover have "pool_room (length ?ss) q" using q(2) by (simp add: pool_room_def)
  ultimately obtain sids q' where rs: "reads (read_strings (length ?ss)) (concat (map string_entry ?ss)) sids q q'"
    "pool_ok q'" "extends q q'" "length sids = length ?ss" "\<forall>k < length ?ss. pool_get (sids ! k) q' = Inr (?ss ! k)"
    "length (by_id q') \<le> length (by_id q) + length ?ss"
    using reads_strings [OF q(1)] by blast
  note im = loaded_ids [OF rs(4,5)]
  obtain s' where s': "make_schema (map (remap_column (0 # sids)) (columns_of t)) = Inr s'"
    "sch_columns s' = map (remap_column (0 # sids)) (columns_of t)" "schema_ok s'"
    using make_schema_remap [OF table_okD(2) [OF ok]] by blast
  have pool: "serialize_pool p = Inr (le_bytes 4 (length ?ss) @ concat (map string_entry ?ss))"
    using table_okD(1) [OF ok] sv by (intro serialize_pool_bytes) (simp_all add: savable_def)
  have order: "tb_order t = map fst (tb_rows t)" using table_okD(3) [OF ok] by simp
  have rows: "row_images (tb_order t) t = Inr (concat (map row_image (tb_rows t)))"
    unfolding order using table_okD(3,4) [OF ok] by (intro row_images_ok [where pre = "[]"]) simp_all
  have bounds: "length (tb_name t) < 256 ^ 2" "length ?ss < 256 ^ 4" "length (columns_of t) < 256 ^ 4" "?n < 256 ^ 8"
    using sv order by (auto simp: savable_def)
  have save: "save_table p t = Inr (le_bytes 4 TABLE_MAGIC @ le_bytes 4 TABLE_VERSION @ le_bytes 2 (length (tb_name t)) @ tb_name t
      @ le_bytes 4 (length ?ss) @ concat (map string_entry ?ss)
      @ le_bytes 4 (length (columns_of t)) @ concat (map column_image (columns_of t))
      @ le_bytes 8 ?n @ concat (map row_image (tb_rows t)))"
    unfolding save_table_def pool rows using bounds order by (simp add: short_string_def)
  have cols: "reads (read_many (length (columns_of t)) (read_column (0 # sids))) (concat (map column_image (columns_of t)))
      (map (remap_column (0 # sids)) (columns_of t)) q' q'"
    by (rule reads_many, rule reads_column [OF _ im]) (use sv in \<open>simp add: savable_def\<close>)
  have "reads (read_row (0 # sids) (column_count s')) (row_image x) (case x of (i, r) \<Rightarrow> (i, map (remap (0 # sids)) r)) q' q'"
    if "x \<in> set (tb_rows t)" for x
  proof -
    obtain i r where x: "x = (i, r)" by (cases x)
    then have "map_of (tb_rows t) i = Some r" using that row_in_rows [OF ok] by simp
    then have "conforms p t (Some i) r" "values_ok p r" using table_okD(6) [OF ok] by simp_all
    then show ?thesis using reads_row [OF _ im, of r] s'(2) x by (simp add: conforms_def column_count_def)
  qed
  then have rws: "reads (read_many ?n (read_row (0 # sids) (column_count s'))) (concat (map row_image (tb_rows t)))
      (remap_rows (0 # sids) (tb_rows t)) q' q'"
    unfolding remap_rows_def by (rule reads_many)
  have "reads load_body (le_bytes 4 TABLE_MAGIC @ le_bytes 4 TABLE_VERSION @ le_bytes 2 (length (tb_name t)) @ tb_name t
      @ le_bytes 4 (length ?ss) @ concat (map string_entry ?ss)
      @ le_bytes 4 (length (columns_of t)) @ concat (map column_image (columns_of t))
      @ le_bytes 8 ?n @ concat (map row_image (tb_rows t)) @ []) (table_of_rows (tb_name t) s' (remap_rows (0 # sids) (tb_rows t))) q q'"
    unfolding load_body_def
    by (intro reads_bind [OF reads_bin] reads_guard reads_bind [OF reads_raw] reads_bind [OF rs(1)] reads_bind [OF cols]
        reads_bind [OF rws] reads_lift [OF s'(1)] reads_ret bounds)
      (simp_all add: TABLE_MAGIC_def TABLE_VERSION_def)
  moreover have "length (by_id q') \<le> length (by_id q) + length (by_id p)" using rs(6) by simp
  ultimately show ?thesis using save s' rs(2,3) im by (intro exI [of _ "0 # sids"] exI) simp
qed

subsection \<open>What is loaded is what was saved\<close>

lemma foldl_max_word:
  "foldl max (a :: 64 word) as \<in> set (a # as) \<and> (\<forall>x \<in> set (a # as). x \<le> foldl max a as)"
proof (induction as arbitrary: a)
  case (Cons b as)
  have "foldl max (max a b) as \<in> set (max a b # as)" "\<forall>x \<in> set (max a b # as). x \<le> foldl max (max a b) as"
    using Cons.IH [of "max a b"] by simp_all
  then have "foldl max (max a b) as \<in> set (max a b # as)" "max a b \<le> foldl max (max a b) as"
    "\<forall>x \<in> set as. x \<le> foldl max (max a b) as" by simp_all
  moreover have "max a b = a \<or> max a b = b" "a \<le> max a b" "b \<le> max a b" by (auto simp: max_def)
  ultimately show ?case by auto
qed simp

lemma next_after_fresh:
  assumes "\<forall>i \<in> set ids. i < n" and "i \<in> set ids"
  shows "i < next_after ids"
proof -
  obtain a as where ids: "ids = a # as" using assms(2) by (cases ids) auto
  let ?m = "foldl max a as"
  have "?m < n" "i \<le> ?m" using foldl_max_word [of a as] assms ids by auto
  have "?m \<noteq> - 1" using \<open>?m < n\<close> by auto
  then have "?m < ?m + 1" by (rule next_word_less)
  then have "i < ?m + 1" using \<open>i \<le> ?m\<close> by auto
  also have "\<dots> \<le> next_after ids" by (simp add: ids next_after_def)
  finally show ?thesis .
qed

definition column_view :: "pool \<Rightarrow> column_def \<Rightarrow> string \<times> data_type \<times> bool \<times> bool \<times> datum option option" where
  "column_view p d = (col_name d, col_type d, col_not_null d, col_indexed d, map_option (denote p) (col_default d))"

definition table_view :: "pool \<Rightarrow> table \<Rightarrow>
    string \<times> (string \<times> data_type \<times> bool \<times> bool \<times> datum option option) list \<times> (64 word \<times> datum option list) list" where
  "table_view p t = (tb_name t, map (column_view p) (columns_of t), map (\<lambda>(i, r). (i, map (denote p) r)) (tb_rows t))"

lemma map_of_remap: "map_of (remap_rows ids rows) i = map_option (map (remap ids)) (map_of rows i)"
  by (induction rows) (auto simp: remap_rows_def)

lemma remapped_conforms:
  assumes ok: "table_ok p t" and im: "id_map_ok p ids q"
    and cols: "columns_of t' = map (remap_column ids) (columns_of t)" and rows: "tb_rows t' = remap_rows ids (tb_rows t)"
    and r: "map_of (tb_rows t) i = Some r"
  shows "conforms q t' (Some i) (map (remap ids) r) \<and> values_ok q (map (remap ids) r)"
proof
  have cf: "conforms p t (Some i) r" and vs: "values_ok p r" using table_okD(6) [OF ok r] by simp_all
  have len: "length x = length (columns_of t)" "values_ok p x" if "map_of (tb_rows t) j = Some x" for j x
    using table_okD(6) [OF ok that] by (auto simp: conforms_def)
  have same: "remap ids (x ! c) = remap ids (r ! c) \<longleftrightarrow> x ! c = r ! c"
    if "map_of (tb_rows t) j = Some x" "c < length (columns_of t)" for j x c
    using len [OF that(1)] len [OF r] that(2) remap_eq [OF table_okD(1) [OF ok] im, of "x ! c" "r ! c"]
    by (simp add: values_ok_def)
  show "values_ok q (map (remap ids) r)" using vs remap_ok [OF im] by (simp add: values_ok_def)
  have "unique_in c (map_of (tb_rows t')) (Some i) (map (remap ids) r ! c)"
    if c: "c < length (columns_of t)" "col_indexed (columns_of t ! c)" for c
  proof -
    have "unique_in c (map_of (tb_rows t)) (Some i) (r ! c)" using cf c by (simp add: conforms_def)
    then show ?thesis using same [OF _ c(1)] len c(1) len [OF r]
      by (auto simp: unique_in_def rows map_of_remap)
  qed
  then show "conforms q t' (Some i) (map (remap ids) r)"
    using cf len [OF r] by (auto simp: conforms_def cols remap_column_def cell_ok_def)
qed

lemma save_load_grows:
  assumes ok: "table_ok p t" and sv: "savable p t" and q: "pool_ok q" "pool_room (length (by_id p)) q"
  shows "\<exists>bs t' q'. save_table p t = Inr bs \<and> load_table bs q = (Inr t', q') \<and> table_ok q' t'
    \<and> table_view q' t' = table_view p t \<and> extends q q' \<and> length (by_id q') \<le> length (by_id q) + length (by_id p)"
proof -
  obtain bs ids s' q' where l: "save_table p t = Inr bs"
    "reads load_body bs (table_of_rows (tb_name t) s' (remap_rows ids (tb_rows t))) q q'"
    "sch_columns s' = map (remap_column ids) (columns_of t)" "schema_ok s'" "pool_ok q'" "extends q q'" "id_map_ok p ids q'"
    "length (by_id q') \<le> length (by_id q) + length (by_id p)"
    using load_body_reads [OF assms] by blast
  let ?t' = "table_of_rows (tb_name t) s' (remap_rows ids (tb_rows t))"
  have ids: "map fst (remap_rows ids (tb_rows t)) = tb_order t"
    unfolding remap_rows_def table_okD(3) [OF ok, symmetric] by (simp add: case_prod_beta comp_def)
  have dist: "distinct (map fst (remap_rows ids (tb_rows t)))" using ids table_okD(4) [OF ok] by simp
  have rows: "tb_rows ?t' = remap_rows ids (tb_rows t)"
    using emplace_all [of "[]" "remap_rows ids (tb_rows t)"] dist by (simp add: table_of_rows_def)
  have cols: "columns_of ?t' = map (remap_column ids) (columns_of t)" using l(3) by (simp add: table_of_rows_def)
  have "table_ok q' ?t'"
  proof (rule table_okI)
    show "conforms q' ?t' (Some i) r \<and> values_ok q' r" if "map_of (tb_rows ?t') i = Some r" for i r
      using remapped_conforms [OF ok l(7) cols rows] that by (auto simp: rows map_of_remap)
    show "i < tb_next ?t'" if "i \<in> set (tb_order ?t')" for i
      using that table_okD(5) [OF ok] ids by (auto simp: table_of_rows_def intro: next_after_fresh)
    show "map fst (tb_rows ?t') = tb_order ?t'" using rows by (simp add: table_of_rows_def)
    show "distinct (tb_order ?t')" using dist by (simp add: table_of_rows_def)
  qed (use l(4,5) in \<open>simp_all add: table_of_rows_def\<close>)
  moreover have "table_view q' ?t' = table_view p t"
  proof -
    have "denote q' (remap ids v) = denote p v" if "(i, r) \<in> set (tb_rows t)" "v \<in> set r" for i r v
      using that row_in_rows [OF ok] table_okD(6) [OF ok] remap_denote [OF l(7)] by (auto simp: values_ok_def)
    moreover have "column_view q' (remap_column ids d) = column_view p d" if "d \<in> set (columns_of t)" for d
      using that sv remap_denote [OF l(7)]
      by (cases "col_default d") (auto simp: column_view_def remap_column_def savable_def column_savable_def)
    ultimately have "map (column_view q') (columns_of ?t') = map (column_view p) (columns_of t)"
      "map (\<lambda>(i, r). (i, map (denote q') r)) (tb_rows ?t') = map (\<lambda>(i, r). (i, map (denote p) r)) (tb_rows t)"
      unfolding rows cols by (auto simp: remap_rows_def)
    moreover have "tb_name ?t' = tb_name t" by (simp add: table_of_rows_def)
    ultimately show ?thesis unfolding table_view_def by simp
  qed
  moreover have "load_table bs q = (Inr ?t', q')"
    using l(2) [unfolded reads_def, rule_format, of "[]"] by (simp add: load_table_def)
  ultimately show ?thesis using l(1,6,8) by blast
qed

lemma save_load_ok:
  assumes "table_ok p t" and "savable p t" and "pool_ok q" and "pool_room (length (by_id p)) q"
  shows "\<exists>bs t' q'. save_table p t = Inr bs \<and> load_table bs q = (Inr t', q') \<and> table_ok q' t'
    \<and> table_view q' t' = table_view p t \<and> extends q q'"
  using save_load_grows [OF assms] by blast

end
