(* ===== verification/Table_Contract.thy ===== *)
theory Table_Contract
  imports Table_Store BStar_Overlong
begin

section \<open>Properties of the storage engine\<close>

text \<open>
  The properties of pools, tables and their files, each with a witness. The samples are a table
  with one \<open>INDEXED\<close> integer column whose index has just been created, and a table with one
  indexed string column.
\<close>

subsection \<open>Samples\<close>

definition id_column :: column_def where
  "id_column = \<lparr>col_name = ''id'', col_type = IntType, col_not_null = True, col_indexed = True, col_default = None\<rparr>"

definition name_column :: column_def where
  "name_column = \<lparr>col_name = ''name'', col_type = StrType, col_not_null = False, col_indexed = True, col_default = None\<rparr>"

lemma sample_schema:
  "make_schema [d] = Inr \<lparr>sch_columns = [d], sch_index = [col_name d \<mapsto> 0]\<rparr>" if "col_name d \<noteq> []"
  using that by (simp add: make_schema_def empty_schema_def)

lemma sample_schema_ok: "col_name d \<noteq> [] \<Longrightarrow> schema_ok \<lparr>sch_columns = [d], sch_index = [col_name d \<mapsto> 0]\<rparr>"
  by (auto simp: schema_ok_def)

lemma fresh_index:
  assumes "kk \<in> {KindInt64, KindString}" and "pool_ok p" and "n < 2 ^ 40"
  obtains ix where "open_index None kk = Inr ix" "adapter_map p ix Map.empty" "kind_of ix = kk" "room_for n ix"
    "meta_empty (bx_meta ix)" "disk_ok (bx_disk ix)" "page_count (bx_disk ix) = 0"
proof -
  obtain ix where ix: "open_index None kk = Inr ix" "index_rep ix []" "kind_of ix = kk" "index_room ix"
    using open_new_index [OF assms(1)] by blast
  have pc: "pcount ix = 0"
    using ix(1) write_metadata_law [OF open_new_disk(2), of "empty_metadata\<lparr>meta_key_kind := kk\<rparr>"] assms(1)
    by (auto simp: open_index_def open_new_disk Let_def empty_metadata_def metadata_ok_def pcount_def page_count_def)
  have "index_map ix Map.empty" using ix(2) by (auto simp: index_map_def intro: exI [of _ "[]"])
  then have "adapter_map p ix Map.empty" using assms(2) by (auto simp: adapter_map_def)
  moreover have "room_for n ix" using pc assms(3) by (simp add: room_for_def PAGE_LIMIT_def)
  moreover have "meta_empty (bx_meta ix)" "disk_ok (bx_disk ix)" using ix(2) by (simp_all add: index_rep_def meta_empty_def)
  ultimately show thesis using that ix pc by (simp add: pcount_def)
qed

lemma sample_table:
  assumes "d = id_column \<or> d = name_column"
  obtains ix t where "open_index None (kind_for (col_type d)) = Inr ix"
    "attach_index new_pool 0 (Some ix) True
       (new_table ''t'' \<lparr>sch_columns = [d], sch_index = [col_name d \<mapsto> 0]\<rparr>) = (Inr (), t)"
    "table_ok new_pool t" "tb_rows t = []" "tb_order t = []" "tb_next t = 1" "tb_indexes t = [(0, ix)]"
    "columns_of t = [d]" "indexes_room 1000 t" "kind_of ix = kind_for (col_type d)" "meta_empty (bx_meta ix)"
    "disk_ok (bx_disk ix)" "page_count (bx_disk ix) = 0" "adapter_map new_pool ix Map.empty" "tb_name t = ''t''"
proof -
  let ?s = "\<lparr>sch_columns = [d], sch_index = [col_name d \<mapsto> 0]\<rparr>" and ?kk = "kind_for (col_type d)"
  have d: "?kk \<in> {KindInt64, KindString}" "col_name d \<noteq> []" "col_indexed d"
    using assms by (auto simp: kind_for_def id_column_def name_column_def)
  have room: "(1000 :: nat) < 2 ^ 40" by simp
  obtain ix where ix: "open_index None ?kk = Inr ix" "adapter_map new_pool ix Map.empty" "kind_of ix = ?kk"
    "room_for 1000 ix" "meta_empty (bx_meta ix)" "disk_ok (bx_disk ix)" "page_count (bx_disk ix) = 0"
    by (rule fresh_index [OF d(1) new_pool_ok room])
  let ?new = "new_table ''t'' ?s"
  let ?t = "?new\<lparr>tb_indexes := [(0, ix)]\<rparr>"
  have ok: "table_ok new_pool ?new" by (rule new_table_ok [OF new_pool_ok sample_schema_ok [OF d(2)]])
  have a: "attach_index new_pool 0 (Some ix) True ?new = (Inr (), ?t)"
    by (simp add: attach_index_def new_table_def column_count_def)
  have "\<exists>t'. attach_index new_pool 0 (Some ix) True ?new = (Inr (), t') \<and> table_ok new_pool t' \<and> has_index 0 t'
      \<and> tb_rows t' = tb_rows ?new \<and> tb_schema t' = tb_schema ?new \<and> tb_order t' = tb_order ?new
      \<and> tb_next t' = tb_next ?new \<and> indexes_room 1000 t'"
    by (rule attach_index_ok [OF ok]) (use d ix in \<open>simp_all add: new_table_def indexable_def row_count_def indexes_room_def\<close>)
  then obtain t' where t': "attach_index new_pool 0 (Some ix) True ?new = (Inr (), t')" "table_ok new_pool t'" "indexes_room 1000 t'"
    by blast
  have e: "t' = ?t" using t'(1) a by simp
  note t = t'(2,3) [unfolded e]
  show thesis using that [of ix ?t] ix a t by (simp add: new_table_def)
qed

lemma sample_row:
  assumes "columns_of t = [id_column]" and "\<forall>r \<in> snd ` set (tb_rows t). r ! 0 \<noteq> VInt w"
  shows "conforms p t excl [VInt w]" and "values_ok p [VInt w]"
  using assms by (force simp: conforms_def id_column_def cell_ok_def unique_in_def dest: map_of_SomeD)+ (simp add: values_ok_def)

lemma sample_storable:
  "tb_indexes t = [(0, ix)] \<Longrightarrow> kind_of ix = KindInt64 \<Longrightarrow> storable_row p [VInt w] t"
  by (simp add: storable_row_def value_storable_def)

subsection \<open>Tables\<close>

text \<open>
  C11: Validation decides conformance: on a well-formed table \<open>validate\<close> accepts a row exactly when
  every value has the type of its column, is not NULL where NULL is not allowed, and occurs in no
  other row of an indexed column. The answer is the same whether uniqueness is looked up in the
  B*+-tree or found by scanning the rows.
\<close>

theorem validate_decides_conformance:
  assumes "table_ok p t" and "values_ok p r"
  shows "validate_row p r excl t = Inr () \<longleftrightarrow> conforms p t excl r"
  using assms by (rule validate_iff)

theorem validate_decides_conformance_witness:
  "\<exists>ix t. open_index None KindInt64 = Inr ix \<and> attach_index new_pool 0 (Some ix) True
       (new_table ''t'' \<lparr>sch_columns = [id_column], sch_index = [''id'' \<mapsto> 0]\<rparr>) = (Inr (), t)
     \<and> validate_row new_pool [VInt 5] None t = Inr ()"
proof -
  obtain ix t where s: "open_index None (kind_for (col_type id_column)) = Inr ix"
    "attach_index new_pool 0 (Some ix) True
       (new_table ''t'' \<lparr>sch_columns = [id_column], sch_index = [col_name id_column \<mapsto> 0]\<rparr>) = (Inr (), t)"
    "table_ok new_pool t" "tb_rows t = []" "columns_of t = [id_column]"
    by (rule sample_table [of id_column]) simp
  have "conforms new_pool t None [VInt 5]" "values_ok new_pool [VInt 5]" using sample_row [OF s(5)] s(4) by simp_all
  with validate_decides_conformance [OF s(3), of "[VInt 5]" None] s show ?thesis
    by (auto simp: id_column_def kind_for_def)
qed

text \<open>
  C12: Inserting a row either stores it under the next row id, in the table and in every index, or
  refuses it and changes nothing, according to whether the row conforms; the table stays
  well-formed.
\<close>

theorem insert_stores_or_refuses:
  assumes "table_ok p t" and "values_ok p r" and "storable_row p r t" and "indexes_room (Suc n) t"
    and "tb_next t \<noteq> - 1"
  shows "if conforms p t None r
    then \<exists>t'. insert_full_row p r t = (Inr (tb_next t), t') \<and> tb_rows t' = tb_rows t @ [(tb_next t, r)]
      \<and> table_ok p t' \<and> tb_next t' = tb_next t + 1 \<and> indexes_room n t'
    else \<exists>e. insert_full_row p r t = (Inl e, t)"
proof (cases "conforms p t None r")
  case True
  from insert_full_row_ok [OF assms(1,2) True assms(3,4,5)] True show ?thesis by (simp only: if_True) blast
next
  case False
  with insert_full_row_refused [OF assms(1,2)] show ?thesis by simp
qed

theorem insert_stores_or_refuses_witness:
  "\<exists>ix t t'. open_index None KindInt64 = Inr ix \<and> attach_index new_pool 0 (Some ix) True
       (new_table ''t'' \<lparr>sch_columns = [id_column], sch_index = [''id'' \<mapsto> 0]\<rparr>) = (Inr (), t)
     \<and> insert_full_row new_pool [VInt 5] t = (Inr 1, t') \<and> tb_rows t' = [(1, [VInt 5])]"
proof -
  obtain ix t where s: "open_index None (kind_for (col_type id_column)) = Inr ix"
    "attach_index new_pool 0 (Some ix) True
       (new_table ''t'' \<lparr>sch_columns = [id_column], sch_index = [col_name id_column \<mapsto> 0]\<rparr>) = (Inr (), t)"
    "table_ok new_pool t" "tb_rows t = []" "columns_of t = [id_column]" "tb_next t = 1" "tb_indexes t = [(0, ix)]"
    "indexes_room 1000 t" "kind_of ix = kind_for (col_type id_column)"
    by (rule sample_table [of id_column]) simp
  have r: "conforms new_pool t None [VInt 5]" "values_ok new_pool [VInt 5]" using sample_row [OF s(5)] s(4) by simp_all
  have st: "storable_row new_pool [VInt 5] t" using s(7,9) sample_storable by (simp add: id_column_def kind_for_def)
  have room: "indexes_room (Suc 999) t" using s(8) by simp
  have nx: "tb_next t \<noteq> - 1" using s(6) by simp
  from insert_stores_or_refuses [OF s(3) r(2) st room nx] r(1) s show ?thesis
    by (auto simp: id_column_def kind_for_def)
qed

lemma one_row_table:
  obtains ix t t' where "open_index None KindInt64 = Inr ix"
    "attach_index new_pool 0 (Some ix) True
       (new_table ''t'' \<lparr>sch_columns = [id_column], sch_index = [''id'' \<mapsto> 0]\<rparr>) = (Inr (), t)"
    "insert_full_row new_pool [VInt 5] t = (Inr 1, t')" "tb_rows t' = [(1, [VInt 5])]" "table_ok new_pool t'"
    "columns_of t' = [id_column]" "indexes_room 999 t'" "map fst (tb_indexes t') = [0]" "tb_order t' = [1]"
    "tb_name t' = ''t''"
proof -
  obtain ix t where s: "open_index None (kind_for (col_type id_column)) = Inr ix"
    "attach_index new_pool 0 (Some ix) True
       (new_table ''t'' \<lparr>sch_columns = [id_column], sch_index = [col_name id_column \<mapsto> 0]\<rparr>) = (Inr (), t)"
    "table_ok new_pool t" "tb_rows t = []" "columns_of t = [id_column]" "tb_next t = 1" "tb_indexes t = [(0, ix)]"
    "indexes_room 1000 t" "kind_of ix = kind_for (col_type id_column)" "tb_name t = ''t''"
    by (rule sample_table [of id_column]) simp
  have r: "conforms new_pool t None [VInt 5]" "values_ok new_pool [VInt 5]" using sample_row [OF s(5)] s(4) by simp_all
  have st: "storable_row new_pool [VInt 5] t" using s(7,9) sample_storable by (simp add: id_column_def kind_for_def)
  have "indexes_room (Suc 999) t" "tb_next t \<noteq> - 1" using s(6,8) by simp_all
  from insert_full_row_ok [OF s(3) r(2,1) st this] obtain t' where
    t': "insert_full_row new_pool [VInt 5] t = (Inr (tb_next t), t')" "tb_rows t' = tb_rows t @ [(tb_next t, [VInt 5])]"
    "table_ok new_pool t'" "tb_schema t' = tb_schema t" "map fst (tb_indexes t') = map fst (tb_indexes t)" "indexes_room 999 t'"
    "tb_name t' = tb_name t" by blast
  moreover have "tb_order t' = map fst (tb_rows t')" using table_okD(3) [OF t'(3)] by simp
  ultimately show thesis using that [of ix t t'] s by (simp add: id_column_def kind_for_def)
qed

text \<open>
  C13: Updating a cell either changes exactly that cell, in the row and in the index of its column,
  or refuses the value and changes nothing, according to whether the changed row conforms.
\<close>

theorem update_changes_or_refuses:
  assumes "table_ok p t" and "map_of (tb_rows t) i = Some r" and "c < length (columns_of t)" and "value_ok p v"
    and "\<forall>ix. (c, ix) \<in> set (tb_indexes t) \<longrightarrow> value_storable p ix v" and "indexes_room (Suc n) t"
  shows "if conforms p t (Some i) (r[c := v])
    then \<exists>t'. update_cell p i c v t = (Inr (), t') \<and> map_of (tb_rows t') = (map_of (tb_rows t))(i \<mapsto> r[c := v])
      \<and> tb_order t' = tb_order t \<and> table_ok p t' \<and> indexes_room n t'
    else \<exists>e. update_cell p i c v t = (Inl e, t)"
proof (cases "conforms p t (Some i) (r[c := v])")
  case True
  from update_cell_ok [OF assms(1-4) True _ assms(6)] assms(5) True show ?thesis by (simp only: if_True) blast
next
  case False
  with update_cell_refused [OF assms(1-4)] show ?thesis by simp
qed

theorem update_changes_or_refuses_witness:
  "\<exists>ix t t' t''. open_index None KindInt64 = Inr ix \<and> attach_index new_pool 0 (Some ix) True
       (new_table ''t'' \<lparr>sch_columns = [id_column], sch_index = [''id'' \<mapsto> 0]\<rparr>) = (Inr (), t)
     \<and> insert_full_row new_pool [VInt 5] t = (Inr 1, t') \<and> update_cell new_pool 1 0 (VInt 7) t' = (Inr (), t'')
     \<and> map_of (tb_rows t'') 1 = Some [VInt 7]"
proof -
  obtain ix t t' where s: "open_index None KindInt64 = Inr ix"
    "attach_index new_pool 0 (Some ix) True
       (new_table ''t'' \<lparr>sch_columns = [id_column], sch_index = [''id'' \<mapsto> 0]\<rparr>) = (Inr (), t)"
    "insert_full_row new_pool [VInt 5] t = (Inr 1, t')" "tb_rows t' = [(1, [VInt 5])]" "table_ok new_pool t'"
    "columns_of t' = [id_column]" "indexes_room 999 t'" "map fst (tb_indexes t') = [0]" "tb_order t' = [1]"
    "tb_name t' = ''t''" by (rule one_row_table)
  have c: "conforms new_pool t' (Some 1) ([VInt 5][0 := VInt 7])" using sample_row [OF s(6)] s(4) by simp
  have ty: "col_type (columns_of t' ! 0) = IntType" using s(6) by (simp add: id_column_def)
  have st: "\<forall>x. (0, x) \<in> set (tb_indexes t') \<longrightarrow> value_storable new_pool x (VInt 7)"
    using table_okD(8) [OF s(5)] ty by (auto simp: index_ok_def value_storable_def kind_for_def)
  have rest: "map_of (tb_rows t') 1 = Some [VInt 5]" "0 < length (columns_of t')" "value_ok new_pool (VInt 7)"
    "indexes_room (Suc 998) t'" using s by simp_all
  from update_changes_or_refuses [OF s(5) rest(1-3) st rest(4)] c
  obtain t'' where "update_cell new_pool 1 0 (VInt 7) t' = (Inr (), t'')"
    "map_of (tb_rows t'') = (map_of (tb_rows t'))(1 \<mapsto> [VInt 5][0 := VInt 7])" by auto
  with s(1-3) show ?thesis by auto
qed

text \<open>
  C14: Deleting a row removes it and nothing else, from the table, from the order and from every
  index, and never fails for a row that exists.
\<close>

theorem erase_removes_row:
  assumes "table_ok p t" and "map_of (tb_rows t) i = Some r" and "indexes_room n t"
  shows "\<exists>t'. erase_row p i t = (Inr (), t') \<and> map_of (tb_rows t') = (map_of (tb_rows t))(i := None)
    \<and> tb_order t' = remove1 i (tb_order t) \<and> table_ok p t' \<and> indexes_room n t'"
  using erase_row_ok [OF assms] by blast

theorem erase_removes_row_witness:
  "\<exists>ix t t' t''. open_index None KindInt64 = Inr ix \<and> attach_index new_pool 0 (Some ix) True
       (new_table ''t'' \<lparr>sch_columns = [id_column], sch_index = [''id'' \<mapsto> 0]\<rparr>) = (Inr (), t)
     \<and> insert_full_row new_pool [VInt 5] t = (Inr 1, t') \<and> erase_row new_pool 1 t' = (Inr (), t'') \<and> row_count t'' = 0"
proof -
  obtain ix t t' where s: "open_index None KindInt64 = Inr ix"
    "attach_index new_pool 0 (Some ix) True
       (new_table ''t'' \<lparr>sch_columns = [id_column], sch_index = [''id'' \<mapsto> 0]\<rparr>) = (Inr (), t)"
    "insert_full_row new_pool [VInt 5] t = (Inr 1, t')" "tb_rows t' = [(1, [VInt 5])]" "table_ok new_pool t'"
    "columns_of t' = [id_column]" "indexes_room 999 t'" "map fst (tb_indexes t') = [0]" "tb_order t' = [1]"
    "tb_name t' = ''t''" by (rule one_row_table)
  have "map_of (tb_rows t') 1 = Some [VInt 5]" using s(4) by simp
  from erase_removes_row [OF s(5) this s(7)] s show ?thesis by (fastforce simp: row_count_def)
qed

text \<open>
  Attaching an empty index to an indexed column indexes every row that is there already, after
  which the column is looked up in the index.
\<close>

theorem attach_index_builds:
  assumes "table_ok p t" and "c < length (columns_of t)" and "col_indexed (columns_of t ! c)"
    and "indexable p t c ix" and "room_for (row_count t + n) ix" and "indexes_room n t"
  shows "\<exists>t'. attach_index p c (Some ix) True t = (Inr (), t') \<and> table_ok p t' \<and> has_index c t'
    \<and> tb_rows t' = tb_rows t \<and> indexes_room n t'"
  using attach_index_ok [OF assms] by blast

theorem attach_index_builds_witness:
  "\<exists>ix t t' ix2 t2. open_index None KindInt64 = Inr ix \<and> attach_index new_pool 0 (Some ix) True
       (new_table ''t'' \<lparr>sch_columns = [id_column], sch_index = [''id'' \<mapsto> 0]\<rparr>) = (Inr (), t)
     \<and> insert_full_row new_pool [VInt 5] t = (Inr 1, t') \<and> open_index None KindInt64 = Inr ix2
     \<and> attach_index new_pool 0 (Some ix2) True t' = (Inr (), t2) \<and> table_ok new_pool t2"
proof -
  obtain ix t t' where s: "open_index None KindInt64 = Inr ix"
    "attach_index new_pool 0 (Some ix) True
       (new_table ''t'' \<lparr>sch_columns = [id_column], sch_index = [''id'' \<mapsto> 0]\<rparr>) = (Inr (), t)"
    "insert_full_row new_pool [VInt 5] t = (Inr 1, t')" "tb_rows t' = [(1, [VInt 5])]" "table_ok new_pool t'"
    "columns_of t' = [id_column]" "indexes_room 999 t'" "map fst (tb_indexes t') = [0]" "tb_order t' = [1]"
    "tb_name t' = ''t''" by (rule one_row_table)
  have room: "(100 :: nat) < 2 ^ 40" by simp
  obtain ix2 where x: "open_index None KindInt64 = Inr ix2" "adapter_map new_pool ix2 Map.empty" "kind_of ix2 = KindInt64"
    "room_for 100 ix2" by (rule fresh_index [OF _ new_pool_ok room]) auto
  have cols: "0 < length (columns_of t')" "col_indexed (columns_of t' ! 0)" using s(6) by (simp_all add: id_column_def)
  have ix: "indexable new_pool t' 0 ix2"
    using x s(4,6) by (auto simp: indexable_def id_column_def kind_for_def value_storable_def)
  have rooms: "room_for (row_count t' + 10) ix2" "indexes_room 10 t'"
    using x(4) s(7,9) by (auto simp: room_for_def row_count_def indexes_room_def)
  from attach_index_builds [OF s(5) cols ix rooms] s(1-3) x(1) show ?thesis by blast
qed

text \<open>
  The rebuild refuses an index that is up to date: attaching to a table with rows an index that
  already holds them, as the file of the index does after a restart, throws the duplicate-key
  exception at the first row.
\<close>

theorem attach_filled_index_fails:
  assumes "table_ok p t" and "index_ok p (columns_of t) (map_of (tb_rows t)) c ix" and "tb_order t \<noteq> []"
  shows "fst (attach_index p c (Some ix) True t) = Inl (InvalidArgument ''Duplicate index key'')"
  by (simp add: attach_filled_index [OF assms])

theorem attach_filled_index_fails_witness:
  "\<exists>ix t t' ix'. open_index None KindInt64 = Inr ix \<and> attach_index new_pool 0 (Some ix) True
       (new_table ''t'' \<lparr>sch_columns = [id_column], sch_index = [''id'' \<mapsto> 0]\<rparr>) = (Inr (), t)
     \<and> insert_full_row new_pool [VInt 5] t = (Inr 1, t') \<and> index_for 0 t' = Some ix'
     \<and> fst (attach_index new_pool 0 (Some ix') True t') = Inl (InvalidArgument ''Duplicate index key'')"
proof -
  obtain ix t t' where s: "open_index None KindInt64 = Inr ix"
    "attach_index new_pool 0 (Some ix) True
       (new_table ''t'' \<lparr>sch_columns = [id_column], sch_index = [''id'' \<mapsto> 0]\<rparr>) = (Inr (), t)"
    "insert_full_row new_pool [VInt 5] t = (Inr 1, t')" "tb_rows t' = [(1, [VInt 5])]" "table_ok new_pool t'"
    "columns_of t' = [id_column]" "indexes_room 999 t'" "map fst (tb_indexes t') = [0]" "tb_order t' = [1]"
    "tb_name t' = ''t''" by (rule one_row_table)
  obtain ix' where ix': "tb_indexes t' = [(0, ix')]" using s(8) by auto
  then have "index_ok new_pool (columns_of t') (map_of (tb_rows t')) 0 ix'" by (intro table_okD(8) [OF s(5)]) simp
  moreover have "tb_order t' \<noteq> []" using s(9) by simp
  ultimately have "fst (attach_index new_pool 0 (Some ix') True t') = Inl (InvalidArgument ''Duplicate index key'')"
    by (rule attach_filled_index_fails [OF s(5)])
  with s(1-3) ix' show ?thesis by (auto simp: index_for_def)
qed

subsection \<open>Files\<close>

text \<open>
  C15: A saved table is loaded back: whatever the pool of the loading process holds, \<open>load\<close> of the
  bytes that \<open>save\<close> wrote gives a well-formed table with the same name, columns, defaults, row ids
  and data, and every string known before keeps its id.
\<close>

theorem save_load_roundtrip:
  assumes "table_ok p t" and "savable p t" and "pool_ok q" and "pool_room (length (by_id p)) q"
  shows "\<exists>bs t' q'. save_table p t = Inr bs \<and> load_table bs q = (Inr t', q') \<and> table_ok q' t'
    \<and> table_view q' t' = table_view p t \<and> extends q q'"
  using assms by (rule save_load_ok)

theorem save_load_roundtrip_witness:
  "\<exists>ix t t' bs u q. open_index None KindInt64 = Inr ix \<and> attach_index new_pool 0 (Some ix) True
       (new_table ''t'' \<lparr>sch_columns = [id_column], sch_index = [''id'' \<mapsto> 0]\<rparr>) = (Inr (), t)
     \<and> insert_full_row new_pool [VInt 5] t = (Inr 1, t') \<and> save_table new_pool t' = Inr bs
     \<and> load_table bs (snd (intern ''x'' new_pool)) = (Inr u, q) \<and> table_view q u = table_view new_pool t'"
proof -
  obtain ix t t' where s: "open_index None KindInt64 = Inr ix"
    "attach_index new_pool 0 (Some ix) True
       (new_table ''t'' \<lparr>sch_columns = [id_column], sch_index = [''id'' \<mapsto> 0]\<rparr>) = (Inr (), t)"
    "insert_full_row new_pool [VInt 5] t = (Inr 1, t')" "tb_rows t' = [(1, [VInt 5])]" "table_ok new_pool t'"
    "columns_of t' = [id_column]" "indexes_room 999 t'" "map fst (tb_indexes t') = [0]" "tb_order t' = [1]"
    "tb_name t' = ''t''" by (rule one_row_table)
  have sv: "savable new_pool t'"
    using s(6,9,10) by (simp add: savable_def new_pool_def strings_short_def id_column_def column_savable_def)
  obtain i q where q: "intern ''x'' new_pool = (i, q)" by (cases "intern ''x'' new_pool")
  then have "pool_ok q" "pool_room (length (by_id new_pool)) q"
    using intern_ok(1,4) [OF new_pool_ok _ q] by (simp_all add: pool_room_def new_pool_def)
  from save_load_roundtrip [OF s(5) sv this] s(1-3) q show ?thesis by fastforce
qed

text \<open>
  C16: Interning is injective and stable: two strings get the same id exactly when they are equal,
  both ids can be resolved, and no id handed out before changes its meaning.
\<close>

theorem interning_injective:
  assumes "pool_ok p" and "pool_room 2 p" and "intern s p = (i, p1)" and "intern t p1 = (j, p2)"
  shows "(i = j \<longleftrightarrow> s = t) \<and> pool_get i p2 = Inr s \<and> pool_get j p2 = Inr t \<and> extends p p2 \<and> pool_ok p2"
proof -
  have r1: "pool_room 1 p" using assms(2) by (simp add: pool_room_def)
  note 1 = intern_ok [OF assms(1) r1 assms(3)]
  have r2: "pool_room 1 p1" using assms(2) 1(4) by (simp add: pool_room_def)
  note 2 = intern_ok [OF 1(1) r2 assms(4)]
  have gi: "pool_get i p2 = Inr s" using 1(3) 2(2) by (simp add: extends_def)
  have "i = j \<longleftrightarrow> s = t"
  proof
    show "i = j \<Longrightarrow> s = t" using gi 2(3) by simp
    show "s = t \<Longrightarrow> i = j" using gi 2(3) pool_get_inj [OF 2(1)] by blast
  qed
  then show ?thesis using gi 2 extends_trans [OF 1(2) 2(2)] by simp
qed

theorem interning_injective_witness:
  "fst (intern ''b'' (snd (intern ''a'' new_pool))) \<noteq> fst (intern ''a'' new_pool)"
proof -
  have room: "pool_room 2 new_pool" by (simp add: pool_room_def new_pool_def)
  obtain i p1 where 1: "intern ''a'' new_pool = (i, p1)" by (cases "intern ''a'' new_pool")
  obtain j p2 where 2: "intern ''b'' p1 = (j, p2)" by (cases "intern ''b'' p1")
  from interning_injective [OF new_pool_ok room 1 2] 1 2 show ?thesis by auto
qed

text \<open>
  The pool survives serialisation: \<open>deserialize\<close> of what \<open>serialize\<close> wrote gives the same pool
  and leaves the rest of the stream unread.
\<close>

theorem pool_image_roundtrip:
  assumes "pool_ok p" and "length (by_id p) < 2 ^ 32" and "strings_short p"
  shows "\<exists>bs. serialize_pool p = Inr bs \<and> deserialize_pool (bs @ rest, True) = ((rest, True), p)"
  using assms by (rule pool_roundtrip)

theorem pool_image_roundtrip_witness:
  "\<exists>bs. serialize_pool (snd (intern ''a'' new_pool)) = Inr bs
    \<and> deserialize_pool (bs @ ''rest'', True) = ((''rest'', True), snd (intern ''a'' new_pool))"
proof -
  have "pool_ok (snd (intern ''a'' new_pool))"
    using intern_ok(1) [OF new_pool_ok, of "''a''"] by (simp add: pool_room_def new_pool_def intern_def)
  moreover have "length (by_id (snd (intern ''a'' new_pool))) < 2 ^ 32" "strings_short (snd (intern ''a'' new_pool))"
    by (simp_all add: intern_def new_pool_def strings_short_def)
  ultimately show ?thesis by (rule pool_image_roundtrip)
qed

text \<open>
  C17: An insertion is not undone when an index refuses the key: the exception reaches the caller,
  but the row is already stored under its id and counted.
\<close>

theorem refused_key_leaves_row:
  assumes "table_ok p t" and "values_ok p r" and "conforms p t None r" and "tb_indexes t = [(c, ix)]"
    and "adapter_insert p (r ! c) (tb_next t) ix = (Inl e, ix')"
  shows "\<exists>t'. insert_full_row p r t = (Inl e, t') \<and> map_of (tb_rows t') (tb_next t) = Some r
    \<and> row_count t' = row_count t + 1"
proof -
  have "index_ok p (columns_of t) (map_of (tb_rows t)) c ix" using table_okD(8) [OF assms(1)] assms(4) by simp
  then have c: "c < length r" using index_keyed(2) [OF assms(1) _ assms(3,2)] by blast
  have v: "validate_row p r None t = Inr ()" using validate_iff [OF assms(1,2)] assms(3) by simp
  note new = next_id_new [OF assms(1)]
  have st: "map_of (emplace_row (tb_next t) r (tb_rows t)) (tb_next t) = Some r"
    using new by (simp add: emplace_row_def map_add_def)
  show ?thesis using v st c assms(4,5)
    by (simp add: insert_full_row_def bindS_def row_at_def notify_indexes_insert_def on_indexes_def row_count_def)
qed

lemma overlong_first_key:
  assumes "disk_ok (bx_disk ix)" and "pcount ix = 0" and "kind_of ix = KindString" and "meta_empty (bx_meta ix)"
    and "INDEX_STRING_KEY_SIZE < length s"
  shows "\<exists>ix'. insert_key (KStr s) v ix = (Inl (LengthError ''Index string key is too long''), ix')"
proof -
  obtain q ix1 where a: "on_disk allocate_page ix = (Inr q, ix1)" "bx_meta ix1 = bx_meta ix"
    using allocate_ok [OF assms(1)] assms(2) by (auto simp: PAGE_LIMIT_def)
  have "serialize_node (new_leaf q INVALID_PAGE_ID [KStr s] [v]) KindString = Inl (LengthError ''Index string key is too long'')"
    by (rule serialize_overlong [where ks = "[]"]) (use assms(5) in \<open>simp_all add: new_leaf_def shape_ok_def UINT32_MAX_def\<close>)
  moreover have "kind_of ix1 = KindString" using a(2) assms(3) by (simp add: kind_of_def)
  ultimately have "write_node (new_leaf q INVALID_PAGE_ID [KStr s] [v]) ix1 = (Inl (LengthError ''Index string key is too long''), ix1)"
    by (simp add: write_node_def bindS_askE_Inl)
  then show ?thesis using a assms(3,4)
    by (simp add: insert_key_def validate_key_kind_def bindS_def)
qed

theorem refused_key_leaves_row_witness:
  "\<exists>ix t t'. open_index None KindString = Inr ix \<and> tb_indexes t = [(0, ix)] \<and> row_count t = 0
     \<and> insert_full_row (snd (intern (replicate 257 CHR ''c'') new_pool)) [VStr 1] t
       = (Inl (LengthError ''Index string key is too long''), t') \<and> row_count t' = 1"
proof -
  let ?s = "replicate 257 CHR ''c''" and ?d = name_column
  let ?p = "snd (intern ?s new_pool)"
  have i: "intern ?s new_pool = (1, ?p)" by (simp add: intern_def new_pool_def Let_def)
  have room: "pool_room 1 new_pool" by (simp add: pool_room_def new_pool_def)
  note p = intern_ok [OF new_pool_ok room i]
  have r40: "(10 :: nat) < 2 ^ 40" by simp
  obtain ix where ix: "open_index None KindString = Inr ix" "adapter_map ?p ix Map.empty" "kind_of ix = KindString"
    "room_for 10 ix" "meta_empty (bx_meta ix)" "disk_ok (bx_disk ix)" "page_count (bx_disk ix) = 0"
    by (rule fresh_index [of KindString, OF _ p(1) r40]) simp
  let ?t = "(new_table ''t'' \<lparr>sch_columns = [?d], sch_index = [col_name ?d \<mapsto> 0]\<rparr>)\<lparr>tb_indexes := [(0, ix)]\<rparr>"
  have "index_ok ?p [?d] Map.empty 0 ix" using ix(2,3)
    by (auto simp: index_ok_def name_column_def kind_for_def column_of_def intro: exI [of _ Map.empty])
  then have ok: "table_ok ?p ?t" using p(1) sample_schema_ok [of ?d]
    by (simp add: table_ok_def new_table_def name_column_def)
  have vs: "values_ok ?p [VStr 1]" using p(3) by (simp add: values_ok_def)
  have cf: "conforms ?p ?t None [VStr 1]"
    by (simp add: conforms_def new_table_def name_column_def cell_ok_def unique_in_def)
  have big: "INDEX_STRING_KEY_SIZE < length ?s" by (simp add: INDEX_STRING_KEY_SIZE_def)
  have pc: "pcount ix = 0" using ix(7) by (simp add: pcount_def)
  obtain ix' where "insert_key (KStr ?s) 1 ix = (Inl (LengthError ''Index string key is too long''), ix')"
    using overlong_first_key [OF ix(6) pc ix(3,5) big] by blast
  then have ai: "adapter_insert ?p ([VStr 1] ! 0) (tb_next ?t) ix = (Inl (LengthError ''Index string key is too long''), ix')"
    using p(3) by (simp add: adapter_insert_def new_table_def)
  have bs: "tb_indexes ?t = [(0, ix)]" by simp
  have n: "row_count ?t = 0" by (simp add: row_count_def new_table_def)
  from refused_key_leaves_row [OF ok vs cf bs ai] ix(1) bs n show ?thesis by fastforce
qed

text \<open>
  C18: Values compare as the data they stand for: integers by their signed value, strings bytewise
  whatever their ids; NULL and mixed types are reported as not comparable.
\<close>

theorem compare_is_data_order:
  assumes "denote p a = Some x" and "denote p b = Some y"
  shows "compare_values p a b = Inr (compare_data x y)"
  using assms by (rule compare_denotes)

theorem compare_is_data_order_witness:
  "compare_values (snd (intern ''a'' (snd (intern ''b'' new_pool)))) (VStr 1) (VStr 2) = Inr (1, True)"
proof -
  let ?p = "snd (intern ''a'' (snd (intern ''b'' new_pool)))"
  have "denote ?p (VStr 1) = Some (StrD ''b'')" "denote ?p (VStr 2) = Some (StrD ''a'')"
    by (simp_all add: intern_def new_pool_def pool_get_def)
  from compare_is_data_order [OF this] show ?thesis by (simp add: three_way_def)
qed

text \<open>
  A row built from a column list succeeds exactly on distinct positions inside the schema, one
  per value; the columns that are not listed become NULL whatever their declared default.
\<close>

theorem materialize_fills_null:
  "materialize ps vs t = Inr row \<longleftrightarrow> length ps = length vs \<and> column_list_ok ps t \<and> row = filled_row ps vs t"
  by (rule materialize_iff)

end
