(* ===== verification/Lexer.thy ===== *)
theory Lexer
  imports C_Runtime
begin

section \<open>The lexer\<close>

text \<open>
  \<open>class Lexer\<close> (\<open>server/parser/src/lexer.cpp\<close>): from the text of a statement to tokens. The
  position in the input is the text that is left, so \<open>peek\<close> is its head and \<open>isEnd\<close> its emptiness;
  the line counter is passed along. Bytes outside ASCII are in none of the character classes of the
  "C" locale and are handled like every other unknown character.
\<close>

datatype token_type =
    KW_SELECT | KW_FROM | KW_WHERE | KW_AS
  | KW_INSERT | KW_INTO | KW_VALUE
  | KW_UPDATE | KW_SET
  | KW_DELETE
  | KW_CREATE | KW_DROP | KW_USE
  | KW_DATABASE | KW_TABLE
  | KW_NOT_NULL | KW_INDEXED | KW_DEFAULT
  | KW_BETWEEN | KW_AND | KW_LIKE | KW_OR
  | KW_NULL
  | KW_SUM | KW_COUNT | KW_AVG
  | INT_LITERAL
  | STR_LITERAL
  | IDENTIFIER
  | OP_EQ | OP_NEQ | OP_LT | OP_GT | OP_LTE | OP_GTE | OP_ASSIGN
  | COMMA | SEMICOLON | LPAREN | RPAREN | STAR | DOT | BACKTICK
  | END

record token =
  tok_type :: token_type
  tok_value :: string
  tok_line :: nat

definition token_of :: "token_type \<Rightarrow> string \<Rightarrow> nat \<Rightarrow> token" where
  "token_of ty v l = \<lparr>tok_type = ty, tok_value = v, tok_line = l\<rparr>"

definition next_line :: "char \<Rightarrow> nat \<Rightarrow> nat" where
  \<comment> \<open>what \<open>advance\<close> does to the line counter\<close>
  "next_line c l = (if c = CHR 0x0A then l + 1 else l)"

fun scan_while :: "(char \<Rightarrow> bool) \<Rightarrow> string \<Rightarrow> nat \<Rightarrow> string \<times> string \<times> nat" where
  \<comment> \<open>\<open>while (!isEnd() && P(peek())) s += advance();\<close>\<close>
  "scan_while P [] l = ([], [], l)"
| "scan_while P (c # cs) l =
     (if P c then case scan_while P cs (next_line c l) of (w, rest, l') \<Rightarrow> (c # w, rest, l')
      else ([], c # cs, l))"

definition word_char :: "char \<Rightarrow> bool" where
  "word_char c \<longleftrightarrow> is_alnum c \<or> c = CHR ''_''"

definition word_start :: "char \<Rightarrow> bool" where
  "word_start c \<longleftrightarrow> is_alpha c \<or> c = CHR ''_''"

definition keyword_table :: "(string \<times> token_type) list" where
  "keyword_table =
    [(''SELECT'', KW_SELECT), (''FROM'', KW_FROM), (''WHERE'', KW_WHERE), (''AS'', KW_AS),
     (''INSERT'', KW_INSERT), (''INTO'', KW_INTO), (''VALUE'', KW_VALUE), (''VALUES'', KW_VALUE),
     (''UPDATE'', KW_UPDATE), (''SET'', KW_SET), (''DELETE'', KW_DELETE), (''CREATE'', KW_CREATE),
     (''DROP'', KW_DROP), (''USE'', KW_USE), (''DATABASE'', KW_DATABASE), (''TABLE'', KW_TABLE),
     (''NOT_NULL'', KW_NOT_NULL), (''NULL'', KW_NULL), (''INDEXED'', KW_INDEXED), (''DEFAULT'', KW_DEFAULT),
     (''BETWEEN'', KW_BETWEEN), (''AND'', KW_AND), (''OR'', KW_OR), (''LIKE'', KW_LIKE),
     (''SUM'', KW_SUM), (''COUNT'', KW_COUNT), (''AVG'', KW_AVG)]"

definition to_keyword :: "string \<Rightarrow> token_type" where
  "to_keyword w = (case map_of keyword_table (map to_upper w) of Some ty \<Rightarrow> ty | None \<Rightarrow> IDENTIFIER)"

definition read_word :: "string \<Rightarrow> nat \<Rightarrow> token \<times> string \<times> nat" where
  "read_word cs l =
     (case scan_while word_char cs l of (w, rest, l') \<Rightarrow> (token_of (to_keyword w) w l, rest, l'))"

definition read_number :: "string \<Rightarrow> nat \<Rightarrow> token \<times> string \<times> nat" where
  "read_number cs l =
     (case scan_while is_digit cs l of (w, rest, l') \<Rightarrow> (token_of INT_LITERAL w l, rest, l'))"

definition unescape :: "char \<Rightarrow> string" where
  "unescape e =
     (if e = CHR ''n'' then [CHR 0x0A] else if e = CHR ''t'' then [CHR 0x09]
      else if e = CHR 0x5C then [CHR 0x5C] else if e = CHR 0x27 then [CHR 0x27]
      else if e = CHR 0x22 then [CHR 0x22] else [CHR 0x5C, e])"

fun string_body :: "char \<Rightarrow> string \<Rightarrow> nat \<Rightarrow> (string \<times> string \<times> nat) option" where
  \<comment> \<open>the characters up to the closing quote, which is consumed; \<open>None\<close>: the input ended before it\<close>
  "string_body q [] l = None"
| "string_body q (c # cs) l =
     (if c = q then Some ([], cs, next_line c l)
      else if c = CHR 0x5C then
        (case cs of
           [] \<Rightarrow> None
         | e # cs' \<Rightarrow> map_option (\<lambda>(s, r). (unescape e @ s, r)) (string_body q cs' (next_line e (next_line c l))))
      else map_option (\<lambda>(s, r). (c # s, r)) (string_body q cs (next_line c l)))"

definition read_string :: "string \<Rightarrow> nat \<Rightarrow> exn + token \<times> string \<times> nat" where
  "read_string cs l =
     (case string_body (hd cs) (tl cs) (next_line (hd cs) l) of
        None \<Rightarrow> Inl (ParseError (''Unclosed string at line '' @ decimal (int l)))
      | Some (s, rest, l') \<Rightarrow> Inr (token_of STR_LITERAL s l, rest, l'))"

definition or_equal :: "string \<Rightarrow> nat \<Rightarrow> token \<Rightarrow> token \<Rightarrow> token \<times> string \<times> nat" where
  \<comment> \<open>one token if an equals sign follows, which is consumed, and another otherwise\<close>
  "or_equal cs l with_eq without =
     (case cs of
        [] \<Rightarrow> (without, cs, l)
      | c # cs' \<Rightarrow> if c = CHR ''='' then (with_eq, cs', next_line c l) else (without, cs, l))"

definition read_operator :: "string \<Rightarrow> nat \<Rightarrow> token \<times> string \<times> nat" where
  "read_operator cs l =
     (let c = hd cs; rest = tl cs; l' = next_line c l in
      if c = CHR ''='' then or_equal rest l' (token_of OP_EQ ''=='' l) (token_of OP_ASSIGN ''='' l)
      else if c = CHR ''!'' then or_equal rest l' (token_of OP_NEQ ''!='' l) (token_of END [] l)
      else if c = CHR ''<'' then or_equal rest l' (token_of OP_LTE ''<='' l) (token_of OP_LT ''<'' l)
      else if c = CHR ''>'' then or_equal rest l' (token_of OP_GTE ''>='' l) (token_of OP_GT ''>'' l)
      else if c = CHR '','' then (token_of COMMA '','' l, rest, l')
      else if c = CHR '';'' then (token_of SEMICOLON '';'' l, rest, l')
      else if c = CHR ''('' then (token_of LPAREN ''('' l, rest, l')
      else if c = CHR '')'' then (token_of RPAREN '')'' l, rest, l')
      else if c = CHR ''*'' then (token_of STAR ''*'' l, rest, l')
      else if c = CHR ''.'' then (token_of DOT ''.'' l, rest, l')
      else if c = CHR 0x60 then (token_of BACKTICK [CHR 0x60] l, rest, l')
      else (token_of END [] l, rest, l'))"

definition skip_char :: "string \<Rightarrow> nat \<Rightarrow> string \<times> nat" where
  \<comment> \<open>\<open>advance()\<close>, which does nothing at the end of the input\<close>
  "skip_char cs l = (case cs of [] \<Rightarrow> ([], l) | c # cs' \<Rightarrow> (cs', next_line c l))"

definition lex_step :: "string \<Rightarrow> nat \<Rightarrow> exn + token option \<times> string \<times> nat" where
  \<comment> \<open>one round of the loop of \<open>tokenize\<close> on a text that starts with no space\<close>
  "lex_step cs l =
     (let c = hd cs in
      if word_start c then (case read_word cs l of (t, r) \<Rightarrow> Inr (Some t, r))
      else if is_digit c then (case read_number cs l of (t, r) \<Rightarrow> Inr (Some t, r))
      else if c = CHR 0x27 \<or> c = CHR 0x22 then bindE (read_string cs l) (\<lambda>(t, r). Inr (Some t, r))
      else
        case read_operator cs l of (t, rest, l') \<Rightarrow>
          if tok_type t \<noteq> END then Inr (Some t, rest, l') else Inr (None, skip_char rest l'))"

lemma scan_while_length: "scan_while P cs l = (w, rest, l') \<Longrightarrow> cs = w @ rest \<and> list_all P w"
  by (induction cs arbitrary: l w rest l') (auto split: if_splits prod.splits)

lemma scan_while_nonempty: "scan_while P (c # cs) l = (w, rest, l') \<Longrightarrow> P c \<Longrightarrow> length rest < length (c # cs)"
  by (auto split: if_splits prod.splits dest!: scan_while_length)

lemma string_body_shorter: "string_body q cs l = Some (s, rest, l') \<Longrightarrow> length rest < length cs"
proof (induction q cs l arbitrary: s rest l' rule: string_body.induct)
  case (2 q c cs l)
  then show ?case
    by (fastforce split: if_splits list.splits)
qed simp

lemma or_equal_shorter: "or_equal cs l a b = (t, rest, l') \<Longrightarrow> length rest \<le> length cs"
  by (auto simp: or_equal_def split: list.splits if_splits)

lemma read_operator_shorter: "cs \<noteq> [] \<Longrightarrow> read_operator cs l = (t, rest, l') \<Longrightarrow> length rest < length cs"
  by (cases cs) (auto simp: read_operator_def Let_def split: if_splits dest!: or_equal_shorter)

lemma lex_step_shorter:
  assumes "cs \<noteq> []" and "lex_step cs l = Inr (t, rest, l')"
  shows "length rest < length cs"
proof -
  obtain c cs' where cs: "cs = c # cs'" using assms(1) by (cases cs) auto
  have w: "word_start c \<Longrightarrow> word_char c" by (auto simp: word_start_def word_char_def is_alnum_def)
  consider (word) "word_start c" | (number) "is_digit c" "\<not> word_start c"
    | (string) "c = CHR 0x27 \<or> c = CHR 0x22" "\<not> word_start c" "\<not> is_digit c"
    | (other) "\<not> word_start c" "\<not> is_digit c" "\<not> (c = CHR 0x27 \<or> c = CHR 0x22)" by blast
  then show ?thesis
  proof cases
    case word
    obtain v r k where "scan_while word_char cs l = (v, r, k)" by (cases "scan_while word_char cs l")
    then show ?thesis using assms(2) cs word scan_while_nonempty [of word_char c cs' l v r k] w
      by (simp add: lex_step_def Let_def read_word_def)
  next
    case number
    obtain v r k where "scan_while is_digit cs l = (v, r, k)" by (cases "scan_while is_digit cs l")
    then show ?thesis using assms(2) cs number scan_while_nonempty [of is_digit c cs' l v r k]
      by (simp add: lex_step_def Let_def read_number_def)
  next
    case string
    then obtain s where "string_body c cs' (next_line c l) = Some (s, rest, l')"
      using assms(2) cs by (auto simp: lex_step_def Let_def read_string_def bindE_eq_Inr split: option.splits)
    from string_body_shorter [OF this] cs show ?thesis by simp
  next
    case other
    obtain u r k where op: "read_operator cs l = (u, r, k)" by (cases "read_operator cs l")
    from read_operator_shorter [OF assms(1) this] have "length r < length cs" .
    moreover have "rest = r \<or> rest = fst (skip_char r k)"
      using assms(2) cs other op by (auto simp: lex_step_def Let_def split: if_splits)
    moreover have "length (fst (skip_char r k)) \<le> length r" by (simp add: skip_char_def split: list.splits)
    ultimately show ?thesis by auto
  qed
qed

function tokenize_from :: "string \<Rightarrow> nat \<Rightarrow> exn + token list" where
  "tokenize_from cs l =
     (case scan_while is_space cs l of (_, rest, l1) \<Rightarrow>
        if rest = [] then Inr [token_of END [] l1]
        else
          bindE (lex_step rest l1) (\<lambda>(t, rest', l2).
          bindE (tokenize_from rest' l2) (\<lambda>ts.
          Inr (case t of None \<Rightarrow> ts | Some tok \<Rightarrow> tok # ts))))"
  by pat_completeness auto
termination
proof (relation "measure (\<lambda>(cs, _). length cs)")
  fix cs :: string and l w rl rest l1 r x t r2 rest' l2
  assume a: "(w, rl) = scan_while is_space cs l" "(rest, l1) = rl" "rest \<noteq> []" "lex_step rest l1 = Inr x"
    "(t, r2) = x" "(rest', l2) = r2"
  have "lex_step rest l1 = Inr (t, rest', l2)" using a by simp
  from lex_step_shorter [OF a(3) this] have "length rest' < length rest" .
  moreover have "cs = w @ rest" using a(1,2) scan_while_length [of is_space cs l w rest l1] by simp
  ultimately show "((rest', l2), cs, l) \<in> measure (\<lambda>(cs, _). length cs)" by simp
qed simp

declare tokenize_from.simps [simp del]

definition tokenize :: "string \<Rightarrow> exn + token list" where
  "tokenize s = tokenize_from s 1"

end
