(* ===== verification/Parser.thy ===== *)
theory Parser
  imports Lexer
begin

section \<open>The parser\<close>

text \<open>
  \<open>class Parser\<close> (\<open>server/parser/src/parser.cpp\<close>): from tokens to a command. The position in the
  token vector is the list of the tokens that are left. The parser object does not outlive an
  exception, so a step is a function from the tokens that are left to an error, or to a result and
  the tokens that are left then.
\<close>

type_synonym 'a parser = "token list \<Rightarrow> exn + 'a \<times> token list"

definition returnP :: "'a \<Rightarrow> 'a parser" where
  "returnP x ts = Inr (x, ts)"

definition failP :: "string \<Rightarrow> 'a parser" where
  "failP msg ts = Inl (ParseError msg)"

definition bindP :: "'a parser \<Rightarrow> ('a \<Rightarrow> 'b parser) \<Rightarrow> 'b parser" where
  "bindP m f ts = bindE (m ts) (\<lambda>(x, rest). f x rest)"

lemma parser_simps [simp]:
  "returnP x ts = Inr (x, ts)"
  "failP msg ts = Inl (ParseError msg)"
  by (simp_all add: returnP_def failP_def)

lemma bindP_Inr [simp]: "m ts = Inr (x, rest) \<Longrightarrow> bindP m f ts = f x rest"
  by (simp add: bindP_def)

lemma bindP_Inl [simp]: "m ts = Inl e \<Longrightarrow> bindP m f ts = Inl e"
  by (simp add: bindP_def)

lemma bindP_eq_Inr: "bindP m f ts = Inr r \<longleftrightarrow> (\<exists>x rest. m ts = Inr (x, rest) \<and> f x rest = Inr r)"
  by (auto simp: bindP_def bindE_eq_Inr)

subsection \<open>Enumerators are ordered by their position\<close>

fun token_rank :: "token_type \<Rightarrow> nat" where
  "token_rank KW_SELECT = 0" | "token_rank KW_FROM = 1" | "token_rank KW_WHERE = 2" | "token_rank KW_AS = 3"
| "token_rank KW_INSERT = 4" | "token_rank KW_INTO = 5" | "token_rank KW_VALUE = 6" | "token_rank KW_UPDATE = 7"
| "token_rank KW_SET = 8" | "token_rank KW_DELETE = 9" | "token_rank KW_CREATE = 10" | "token_rank KW_DROP = 11"
| "token_rank KW_USE = 12" | "token_rank KW_DATABASE = 13" | "token_rank KW_TABLE = 14"
| "token_rank KW_NOT_NULL = 15" | "token_rank KW_INDEXED = 16" | "token_rank KW_DEFAULT = 17"
| "token_rank KW_BETWEEN = 18" | "token_rank KW_AND = 19" | "token_rank KW_LIKE = 20" | "token_rank KW_OR = 21"
| "token_rank KW_NULL = 22" | "token_rank KW_SUM = 23" | "token_rank KW_COUNT = 24" | "token_rank KW_AVG = 25"
| "token_rank INT_LITERAL = 26" | "token_rank STR_LITERAL = 27" | "token_rank IDENTIFIER = 28"
| "token_rank OP_EQ = 29" | "token_rank OP_NEQ = 30" | "token_rank OP_LT = 31" | "token_rank OP_GT = 32"
| "token_rank OP_LTE = 33" | "token_rank OP_GTE = 34" | "token_rank OP_ASSIGN = 35"
| "token_rank COMMA = 36" | "token_rank SEMICOLON = 37" | "token_rank LPAREN = 38" | "token_rank RPAREN = 39"
| "token_rank STAR = 40" | "token_rank DOT = 41" | "token_rank BACKTICK = 42" | "token_rank END = 43"

lemma token_rank_inject: "token_rank x = token_rank y \<Longrightarrow> x = y"
  by (cases x; cases y) simp_all

instantiation token_type :: linorder
begin

definition less_eq_token_type :: "token_type \<Rightarrow> token_type \<Rightarrow> bool" where
  "less_eq_token_type x y \<longleftrightarrow> token_rank x \<le> token_rank y"

definition less_token_type :: "token_type \<Rightarrow> token_type \<Rightarrow> bool" where
  "less_token_type x y \<longleftrightarrow> token_rank x < token_rank y"

instance
  by standard (auto simp: less_eq_token_type_def less_token_type_def dest: token_rank_inject)

end

subsection \<open>Reading tokens\<close>

definition is_end :: "token list \<Rightarrow> bool" where
  "is_end ts \<longleftrightarrow> ts = [] \<or> tok_type (hd ts) = END"

definition peek :: "token parser" where
  "peek ts = (if is_end ts then failP ''Unexpected end of input'' ts else Inr (hd ts, ts))"

definition advance :: "token parser" where
  "advance ts = (if is_end ts then failP ''Unexpected end of input'' ts else Inr (hd ts, tl ts))"

definition check :: "token_type \<Rightarrow> token list \<Rightarrow> bool" where
  "check ty ts \<longleftrightarrow> \<not> is_end ts \<and> tok_type (hd ts) = ty"

definition match_token :: "token_type \<Rightarrow> bool parser" where
  "match_token ty ts = (if check ty ts then Inr (True, tl ts) else Inr (False, ts))"

definition is_keyword :: "token_type \<Rightarrow> bool" where
  "is_keyword ty \<longleftrightarrow> KW_CREATE \<le> ty \<and> ty \<le> KW_AVG"

definition at_line :: "token \<Rightarrow> string" where
  "at_line t = '' at line '' @ decimal (int (tok_line t))"

definition expect :: "token_type \<Rightarrow> string \<Rightarrow> token parser" where
  "expect ty ctx ts =
     (if check ty ts then advance ts
      else if ty = IDENTIFIER \<and> \<not> is_end ts \<and> is_keyword (tok_type (hd ts)) then advance ts
      else bindP peek (\<lambda>t. failP (''Expected '' @ ctx @ at_line t @ '', got '' @ quoted (tok_value t))) ts)"

fun sep_list :: "'a parser \<Rightarrow> nat \<Rightarrow> 'a list parser" where
  \<comment> \<open>\<open>do item while (match(COMMA))\<close>; every round after the first eats a comma, so that a fuel of one
    more than the number of tokens is enough\<close>
  "sep_list item 0 ts = Inl NoReturn"
| "sep_list item (Suc n) ts =
     bindP item (\<lambda>x.
     bindP (match_token COMMA) (\<lambda>more.
     if more then bindP (sep_list item n) (\<lambda>xs. returnP (x # xs)) else returnP [x])) ts"

definition comma_list :: "'a parser \<Rightarrow> 'a list parser" where
  "comma_list item ts = sep_list item (Suc (length ts)) ts"

definition parse_table_ref :: "(string \<times> string) parser" where
  \<comment> \<open>the database, empty if it is not named, and the table\<close>
  "parse_table_ref =
     bindP (expect IDENTIFIER ''table name'') (\<lambda>first.
     bindP (match_token DOT) (\<lambda>dot.
     if dot then
       bindP (expect IDENTIFIER ''table name after dot'') (\<lambda>second.
       returnP (tok_value first, tok_value second))
     else returnP ([], tok_value first)))"

subsection \<open>Values and operands\<close>

datatype literal = IntLit "32 word" | StrLit string | NullLit

definition parse_value :: "literal parser" where
  "parse_value =
     bindP (match_token KW_NULL) (\<lambda>null.
     if null then returnP NullLit
     else (\<lambda>ts.
       if check INT_LITERAL ts then
         bindP advance (\<lambda>t. bindP (\<lambda>rest. bindE (stoi (tok_value t)) (\<lambda>i. Inr (IntLit i, rest))) returnP) ts
       else if check STR_LITERAL ts then bindP advance (\<lambda>t. returnP (StrLit (tok_value t))) ts
       else bindP peek (\<lambda>t. failP (''Expected value'' @ at_line t)) ts))"

definition parse_operand :: "(string \<times> bool) parser" where
  \<comment> \<open>the text of the operand, and whether it names a column\<close>
  "parse_operand =
     bindP peek (\<lambda>t.
     if tok_type t = IDENTIFIER then bindP advance (\<lambda>a. returnP (tok_value a, True))
     else if tok_type t = INT_LITERAL \<or> tok_type t = STR_LITERAL then
       bindP advance (\<lambda>a. returnP (tok_value a, False))
     else if tok_type t = KW_NULL then bindP advance (\<lambda>_. returnP (''NULL'', False))
     else failP (''Expected operand'' @ at_line t @ '', got '' @ quoted (tok_value t)))"

subsection \<open>Conditions\<close>

datatype cond_op = EQ | NEQ | LT | GT | LTE | GTE | BETWEEN | LIKE

datatype logical_op = L_NONE | L_AND | L_OR

record comparison =
  cmp_left :: string
  cmp_left_col :: bool
  cmp_op :: cond_op
  cmp_right :: string
  cmp_right_col :: bool
  cmp_right2 :: string
  cmp_right2_col :: bool

datatype condition =
  Condition (cond_cmp: comparison) (cond_logical: logical_op) (cond_next: "condition option")
    (cond_left_tree: "condition option") (cond_paren: bool)

definition unset :: comparison where
  \<comment> \<open>the comparison of a condition that has a left tree, of which the code reads nothing\<close>
  "unset = \<lparr>cmp_left = [], cmp_left_col = False, cmp_op = EQ, cmp_right = [], cmp_right_col = False,
            cmp_right2 = [], cmp_right2_col = False\<rparr>"

definition leaf :: "comparison \<Rightarrow> condition" where
  "leaf c = Condition c L_NONE None None False"

fun set_paren :: "condition \<Rightarrow> condition" where
  "set_paren (Condition c l n t _) = Condition c l n t True"

fun append_last :: "logical_op \<Rightarrow> condition \<Rightarrow> condition \<Rightarrow> condition" where
  \<comment> \<open>walks to the last condition along \<open>next\<close>, sets its operator and hangs the new condition there\<close>
  "append_last op r (Condition c l None t p) = Condition c op (Some r) t p"
| "append_last op r (Condition c l (Some n) t p) = Condition c l (Some (append_last op r n)) t p"

definition combine_conditions :: "condition \<Rightarrow> condition \<Rightarrow> logical_op \<Rightarrow> condition" where
  "combine_conditions left right op =
     (if cond_next left = None \<and> cond_left_tree left = None \<and> \<not> cond_paren left
      then Condition (cond_cmp left) op (Some right) None False
      else if \<not> cond_paren left \<and> cond_left_tree left = None \<and> cond_next left \<noteq> None \<and> cond_logical left = op
      then append_last op right left
      else Condition unset op (Some right) (Some left) False)"

definition operator_of :: "token_type \<Rightarrow> cond_op option" where
  "operator_of ty =
     (case ty of OP_EQ \<Rightarrow> Some EQ | OP_NEQ \<Rightarrow> Some NEQ | OP_LT \<Rightarrow> Some LT | OP_GT \<Rightarrow> Some GT
      | OP_LTE \<Rightarrow> Some LTE | OP_GTE \<Rightarrow> Some GTE | KW_BETWEEN \<Rightarrow> Some BETWEEN | KW_LIKE \<Rightarrow> Some LIKE
      | _ \<Rightarrow> None)"

definition parse_comparison :: "condition parser" where
  \<comment> \<open>the part of \<open>parsePrimaryCondition\<close> after the parenthesis\<close>
  "parse_comparison =
     bindP parse_operand (\<lambda>(l, lc).
     bindP peek (\<lambda>t.
     case operator_of (tok_type t) of
       None \<Rightarrow> failP (''Expected comparison operator'' @ at_line t @ '', got '' @ quoted (tok_value t))
     | Some op \<Rightarrow>
         bindP advance (\<lambda>_.
         bindP parse_operand (\<lambda>(r, rc).
         if op = BETWEEN then
           bindP (expect KW_AND ''AND in BETWEEN'') (\<lambda>_.
           bindP parse_operand (\<lambda>(r2, r2c).
           returnP (leaf \<lparr>cmp_left = l, cmp_left_col = lc, cmp_op = op, cmp_right = r, cmp_right_col = rc,
                          cmp_right2 = r2, cmp_right2_col = r2c\<rparr>)))
         else
           returnP (leaf \<lparr>cmp_left = l, cmp_left_col = lc, cmp_op = op, cmp_right = r, cmp_right_col = rc,
                          cmp_right2 = [], cmp_right2_col = False\<rparr>)))))"

text \<open>
  The descent of \<open>parseOrCondition\<close>, \<open>parseAndCondition\<close> and \<open>parsePrimaryCondition\<close> and their loops
  run on fuel. Three more than three times the number of tokens is enough for the outermost call.
\<close>

fun parse_or :: "nat \<Rightarrow> condition parser"
and or_rest :: "nat \<Rightarrow> condition \<Rightarrow> condition parser"
and parse_and :: "nat \<Rightarrow> condition parser"
and and_rest :: "nat \<Rightarrow> condition \<Rightarrow> condition parser"
and parse_primary :: "nat \<Rightarrow> condition parser" where
  "parse_or 0 ts = Inl NoReturn"
| "parse_or (Suc n) ts = bindP (parse_and n) (or_rest n) ts"
| "or_rest 0 c ts = Inl NoReturn"
| "or_rest (Suc n) c ts =
     bindP (match_token KW_OR) (\<lambda>more.
     if more then bindP (parse_and n) (\<lambda>r. or_rest n (combine_conditions c r L_OR)) else returnP c) ts"
| "parse_and 0 ts = Inl NoReturn"
| "parse_and (Suc n) ts = bindP (parse_primary n) (and_rest n) ts"
| "and_rest 0 c ts = Inl NoReturn"
| "and_rest (Suc n) c ts =
     bindP (match_token KW_AND) (\<lambda>more.
     if more then bindP (parse_primary n) (\<lambda>r. and_rest n (combine_conditions c r L_AND)) else returnP c) ts"
| "parse_primary 0 ts = Inl NoReturn"
| "parse_primary (Suc n) ts =
     bindP (match_token LPAREN) (\<lambda>open.
     if open then
       bindP (parse_or n) (\<lambda>c. bindP (expect RPAREN (quoted '')'')) (\<lambda>_. returnP (set_paren c)))
     else parse_comparison) ts"

definition parse_condition :: "condition parser" where
  "parse_condition ts = parse_or (3 * length ts + 3) ts"

definition parse_where :: "condition option parser" where
  "parse_where =
     bindP (match_token KW_WHERE) (\<lambda>w.
     if w then bindP parse_condition (\<lambda>c. returnP (Some c)) else returnP None)"

subsection \<open>Commands\<close>

datatype col_type = T_INT | T_STRING

datatype col_modifier = M_NONE | M_NOT_NULL | M_INDEXED

record col_spec =
  cs_name :: string
  cs_type :: col_type
  cs_modifier :: col_modifier
  cs_default :: "literal option"

datatype aggregate = A_NONE | A_SUM | A_COUNT | A_AVG

record select_column =
  sc_name :: string
  sc_alias :: string
  sc_aggregate :: aggregate

text \<open>
  The commands, over the type of their \<open>WHERE\<close> clause: the parser makes a \<open>condition\<close> of it. The
  first two strings of a command on a table are the database, empty if the statement names none, and
  the table.
\<close>

datatype 'w command_of =
    CreateDatabaseCmd string
  | DropDatabaseCmd string
  | UseDatabaseCmd string
  | CreateTableCmd string string "col_spec list"
  | DropTableCmd string string
  | InsertCmd string string "string list" "literal option list list"
  | UpdateCmd string string "(string \<times> literal) list" "'w option"
  | DeleteCmd string string "'w option"
  | SelectCmd string string bool "select_column list" "'w option"

type_synonym command = "condition command_of"

definition parse_name :: "string \<Rightarrow> string parser" where
  "parse_name ctx = bindP (expect IDENTIFIER ctx) (\<lambda>t. returnP (tok_value t))"

definition column_type_of :: "string \<Rightarrow> col_type option" where
  "column_type_of up =
     (if up = ''INT'' \<or> up = ''INTEGER'' then Some T_INT
      else if up = ''STR'' \<or> up = ''STRING'' \<or> up = ''TEXT'' then Some T_STRING else None)"

definition parse_column_type :: "col_type parser" where
  "parse_column_type =
     bindP (expect IDENTIFIER ''column type'') (\<lambda>t.
     let up = map to_upper (tok_value t) in
     case column_type_of up of
       None \<Rightarrow> failP (''Unknown column type: '' @ up @ at_line t)
     | Some ty \<Rightarrow> returnP ty)"

fun column_modifiers :: "nat \<Rightarrow> bool \<Rightarrow> bool \<Rightarrow> literal option \<Rightarrow> (bool \<times> bool \<times> literal option) parser" where
  \<comment> \<open>the loop over the modifiers of a column; every round eats a token\<close>
  "column_modifiers 0 nn ix d ts = Inl NoReturn"
| "column_modifiers (Suc n) nn ix d ts =
     (if check KW_NOT_NULL ts then bindP advance (\<lambda>_. column_modifiers n True ix d) ts
      else if check KW_INDEXED ts then bindP advance (\<lambda>_. column_modifiers n nn True d) ts
      else if check KW_DEFAULT ts then
        bindP advance (\<lambda>_. bindP parse_value (\<lambda>v. column_modifiers n nn ix (Some v))) ts
      else if check KW_NULL ts then bindP advance (\<lambda>_. column_modifiers n nn ix d) ts
      else Inr ((nn, ix, d), ts))"

definition parse_column :: "col_spec parser" where
  "parse_column =
     bindP (parse_name ''column name'') (\<lambda>name.
     bindP parse_column_type (\<lambda>ty.
     bindP (\<lambda>ts. column_modifiers (Suc (length ts)) False False None ts) (\<lambda>(nn, ix, d).
     returnP \<lparr>cs_name = name, cs_type = ty,
              cs_modifier = (if nn \<and> ix then M_INDEXED else if nn then M_NOT_NULL else if ix then M_INDEXED else M_NONE),
              cs_default = d\<rparr>)))"

definition parse_create :: "command parser" where
  "parse_create =
     bindP (expect KW_CREATE ''CREATE'') (\<lambda>_.
     bindP (match_token KW_DATABASE) (\<lambda>db.
     if db then bindP (parse_name ''database name'') (\<lambda>n. returnP (CreateDatabaseCmd n))
     else
       bindP (match_token KW_TABLE) (\<lambda>tb.
       if tb then
         bindP parse_table_ref (\<lambda>(d, t).
         bindP (expect LPAREN (quoted ''('')) (\<lambda>_.
         bindP (comma_list parse_column) (\<lambda>cols.
         bindP (expect RPAREN (quoted '')'')) (\<lambda>_. returnP (CreateTableCmd d t cols)))))
       else bindP peek (\<lambda>t. failP (''Expected DATABASE or TABLE after CREATE'' @ at_line t)))))"

definition parse_drop :: "command parser" where
  "parse_drop =
     bindP (expect KW_DROP ''DROP'') (\<lambda>_.
     bindP (match_token KW_DATABASE) (\<lambda>db.
     if db then bindP (parse_name ''database name'') (\<lambda>n. returnP (DropDatabaseCmd n))
     else
       bindP (match_token KW_TABLE) (\<lambda>tb.
       if tb then bindP parse_table_ref (\<lambda>(d, t). returnP (DropTableCmd d t))
       else bindP peek (\<lambda>t. failP (''Expected DATABASE or TABLE after DROP'' @ at_line t)))))"

definition parse_use :: "command parser" where
  "parse_use =
     bindP (expect KW_USE ''USE'') (\<lambda>_.
     bindP (parse_name ''database name'') (\<lambda>n. returnP (UseDatabaseCmd n)))"

definition parse_slot :: "literal option parser" where
  \<comment> \<open>a value of an inserted row, or nothing before a comma or the closing parenthesis\<close>
  "parse_slot ts =
     (if check COMMA ts \<or> check RPAREN ts then Inr (None, ts)
      else bindP parse_value (\<lambda>v. returnP (Some v)) ts)"

definition parse_row :: "literal option list parser" where
  "parse_row =
     bindP (expect LPAREN (quoted ''('')) (\<lambda>_.
     bindP (comma_list parse_slot) (\<lambda>row.
     bindP (expect RPAREN (quoted '')'')) (\<lambda>_. returnP row)))"

definition parse_insert :: "command parser" where
  "parse_insert =
     bindP (expect KW_INSERT ''INSERT'') (\<lambda>_.
     bindP (expect KW_INTO ''INTO'') (\<lambda>_.
     bindP parse_table_ref (\<lambda>(d, t).
     bindP (match_token LPAREN) (\<lambda>open.
     bindP (if open then
              bindP (comma_list (parse_name ''column name'')) (\<lambda>cols.
              bindP (expect RPAREN (quoted '')'')) (\<lambda>_. returnP cols))
            else returnP []) (\<lambda>cols.
     bindP (expect KW_VALUE ''VALUE or VALUES'') (\<lambda>_.
     bindP (comma_list parse_row) (\<lambda>rows. returnP (InsertCmd d t cols rows))))))))"

definition parse_assignment :: "(string \<times> literal) parser" where
  "parse_assignment =
     bindP (parse_name ''column name'') (\<lambda>c.
     bindP (expect OP_ASSIGN (quoted ''='')) (\<lambda>_.
     bindP parse_value (\<lambda>v. returnP (c, v))))"

definition parse_update :: "command parser" where
  "parse_update =
     bindP (expect KW_UPDATE ''UPDATE'') (\<lambda>_.
     bindP parse_table_ref (\<lambda>(d, t).
     bindP (expect KW_SET ''SET'') (\<lambda>_.
     bindP (comma_list parse_assignment) (\<lambda>as.
     bindP parse_where (\<lambda>w. returnP (UpdateCmd d t as w))))))"

definition parse_delete :: "command parser" where
  "parse_delete =
     bindP (expect KW_DELETE ''DELETE'') (\<lambda>_.
     bindP (expect KW_FROM ''FROM'') (\<lambda>_.
     bindP parse_table_ref (\<lambda>(d, t).
     bindP parse_where (\<lambda>w. returnP (DeleteCmd d t w)))))"

definition parse_alias :: "string parser" where
  "parse_alias =
     bindP (match_token KW_AS) (\<lambda>as. if as then parse_name ''alias name'' else returnP [])"

definition aggregate_of :: "token_type \<Rightarrow> aggregate" where
  "aggregate_of ty = (case ty of KW_COUNT \<Rightarrow> A_COUNT | KW_SUM \<Rightarrow> A_SUM | KW_AVG \<Rightarrow> A_AVG | _ \<Rightarrow> A_NONE)"

definition parse_aggregate :: "select_column parser" where
  "parse_aggregate =
     bindP advance (\<lambda>f.
     bindP (expect LPAREN (quoted ''('')) (\<lambda>_.
     bindP (if aggregate_of (tok_type f) = A_COUNT then match_token STAR else returnP False) (\<lambda>star.
     bindP (if star then returnP ''*'' else parse_name ''column name'') (\<lambda>n.
     bindP (expect RPAREN (quoted '')'')) (\<lambda>_.
     bindP parse_alias (\<lambda>a. returnP \<lparr>sc_name = n, sc_alias = a, sc_aggregate = aggregate_of (tok_type f)\<rparr>))))))"

definition parse_backticked :: "string parser" where
  "parse_backticked ts =
     (if is_end ts then failP ''Unexpected end of input in backtick identifier'' ts
      else bindP advance (\<lambda>t. bindP (expect BACKTICK ''closing backtick'') (\<lambda>_. returnP (tok_value t))) ts)"

definition parse_select_column :: "select_column parser" where
  "parse_select_column ts =
     (if check KW_COUNT ts \<or> check KW_SUM ts \<or> check KW_AVG ts then parse_aggregate ts
      else
        bindP (match_token BACKTICK) (\<lambda>tick.
        bindP (if tick then parse_backticked else parse_name ''column name'') (\<lambda>n.
        bindP parse_alias (\<lambda>a. returnP \<lparr>sc_name = n, sc_alias = a, sc_aggregate = A_NONE\<rparr>))) ts)"

definition parse_select :: "command parser" where
  "parse_select =
     bindP (expect KW_SELECT ''SELECT'') (\<lambda>_.
     bindP (match_token STAR) (\<lambda>star.
     bindP (if star then returnP [] else comma_list parse_select_column) (\<lambda>cols.
     bindP (expect KW_FROM ''FROM'') (\<lambda>_.
     bindP parse_table_ref (\<lambda>(d, t).
     bindP parse_where (\<lambda>w. returnP (SelectCmd d t star cols w)))))))"

definition dispatch :: "token \<Rightarrow> command parser" where
  "dispatch t =
     (case tok_type t of
        KW_CREATE \<Rightarrow> parse_create | KW_DROP \<Rightarrow> parse_drop | KW_USE \<Rightarrow> parse_use
      | KW_INSERT \<Rightarrow> parse_insert | KW_UPDATE \<Rightarrow> parse_update | KW_DELETE \<Rightarrow> parse_delete
      | KW_SELECT \<Rightarrow> parse_select
      | _ \<Rightarrow> failP (''Unexpected token: '' @ tok_value t @ at_line t))"

definition parse :: "token list \<Rightarrow> exn + command" where
  \<comment> \<open>the tokens after the command are not looked at\<close>
  "parse ts =
     (if is_end ts then Inl (ParseError ''Empty input'')
      else bindE (bindP peek dispatch ts) (\<lambda>(cmd, _). Inr cmd))"

definition parse_text :: "string \<Rightarrow> exn + command" where
  \<comment> \<open>\<open>Parser(Lexer(source).tokenize()).parse()\<close>\<close>
  "parse_text s = bindE (tokenize s) parse"

end
