(* ===== verification/Lexer_Props.thy ===== *)
theory Lexer_Props
  imports Lexer
begin

section \<open>What the lexer does\<close>

text \<open>
  Facts about \<open>tokenize\<close>: the shape of its result, its only error, a printer of tokens that it
  inverts, and what happens at a character it does not know.
\<close>

subsection \<open>The shape of the result\<close>

lemma scan_while_stop: "\<not> P c \<Longrightarrow> scan_while P (c # cs) l = ([], c # cs, l)"
  by simp

lemma scan_while_all:
  assumes "list_all P w" and "CHR 0x0A \<notin> set w" and "rest = [] \<or> \<not> P (hd rest)"
  shows "scan_while P (w @ rest) l = (w, rest, l)"
  using assms by (induction w) (cases rest; auto simp: next_line_def)+

lemma to_keyword_not_end: "to_keyword w \<noteq> END"
proof -
  have "list_all (\<lambda>(k, ty). ty \<noteq> END) keyword_table" by (simp add: keyword_table_def)
  then show ?thesis by (auto simp: to_keyword_def list_all_iff split: option.splits dest!: map_of_SomeD)
qed

lemma lex_step_token: "lex_step cs l = Inr (Some t, r) \<Longrightarrow> tok_type t \<noteq> END"
  using to_keyword_not_end
  by (auto simp: lex_step_def Let_def read_word_def read_number_def read_string_def token_of_def bindE_eq_Inr
      split: if_splits prod.splits option.splits)

lemma tokens_end:
  assumes "tokenize_from cs l = Inr ts"
  shows "\<exists>us k. ts = us @ [token_of END [] k] \<and> (\<forall>t \<in> set us. tok_type t \<noteq> END)"
  using assms
proof (induction cs l arbitrary: ts rule: tokenize_from.induct)
  case (1 cs l)
  obtain w rest l1 where s: "scan_while is_space cs l = (w, rest, l1)" by (cases "scan_while is_space cs l")
  show ?case
  proof (cases "rest = []")
    case True
    then show ?thesis using 1(2) s by (auto simp: tokenize_from.simps [of cs l] intro: exI [of _ "[]"])
  next
    case False
    then obtain t rest' l2 us where t: "lex_step rest l1 = Inr (t, rest', l2)" "tokenize_from rest' l2 = Inr us"
      "ts = (case t of None \<Rightarrow> us | Some tok \<Rightarrow> tok # us)"
      using 1(2) s by (auto simp: tokenize_from.simps [of cs l] bindE_eq_Inr)
    have "\<exists>vs k. us = vs @ [token_of END [] k] \<and> (\<forall>t \<in> set vs. tok_type t \<noteq> END)"
      by (rule 1(1) [OF s [symmetric] refl False t(1) refl refl t(2)])
    then obtain vs k where vs: "us = vs @ [token_of END [] k]" "\<forall>t \<in> set vs. tok_type t \<noteq> END" by blast
    show ?thesis
    proof (cases t)
      case None
      then show ?thesis using t(3) vs by auto
    next
      case (Some tok)
      then have "tok_type tok \<noteq> END" using lex_step_token t(1) by simp
      then show ?thesis using Some t(3) vs by (intro exI [of _ "tok # vs"]) auto
    qed
  qed
qed

lemma tokenize_error:
  assumes "tokenize_from cs l = Inl e"
  shows "\<exists>k. e = ParseError (''Unclosed string at line '' @ decimal (int k))"
  using assms
proof (induction cs l rule: tokenize_from.induct)
  case (1 cs l)
  obtain w rest l1 where s: "scan_while is_space cs l = (w, rest, l1)" by (cases "scan_while is_space cs l")
  then have ne: "rest \<noteq> []" using 1(2) by (auto simp: tokenize_from.simps [of cs l])
  show ?case
  proof (cases "lex_step rest l1")
    case (Inl e')
    then have "e' = e" using 1(2) s ne by (simp add: tokenize_from.simps [of cs l])
    then show ?thesis using Inl
      by (auto simp: lex_step_def Let_def read_string_def split: if_splits prod.splits option.splits)
  next
    case (Inr x)
    obtain t rest' l2 where x: "x = (t, rest', l2)" by (cases x)
    then have "tokenize_from rest' l2 = Inl e" using 1(2) s ne Inr
      by (cases "tokenize_from rest' l2") (auto simp: tokenize_from.simps [of cs l])
    then show ?thesis using 1(1) [OF s [symmetric] refl ne Inr [unfolded x] refl refl] by blast
  qed
qed

subsection \<open>Printing tokens\<close>

definition symbols :: "(token_type \<times> string) list" where
  "symbols =
    [(OP_EQ, ''==''), (OP_NEQ, ''!=''), (OP_LT, ''<''), (OP_GT, ''>''), (OP_LTE, ''<=''), (OP_GTE, ''>=''),
     (OP_ASSIGN, ''=''), (COMMA, '',''), (SEMICOLON, '';''), (LPAREN, ''(''), (RPAREN, '')''), (STAR, ''*''),
     (DOT, ''.''), (BACKTICK, [CHR 0x60])]"

definition escape_quoted :: "string \<Rightarrow> string" where
  "escape_quoted s = concat (map (\<lambda>c. if c = CHR 0x27 \<or> c = CHR 0x5C then [CHR 0x5C, c] else [c]) s)"

definition token_text :: "token \<Rightarrow> string" where
  "token_text t =
     (if tok_type t = STR_LITERAL then CHR 0x27 # escape_quoted (tok_value t) @ [CHR 0x27] else tok_value t)"

definition print_tokens :: "token list \<Rightarrow> string" where
  "print_tokens ts = concat (map (\<lambda>t. token_text t @ '' '') ts)"

definition word_ok :: "string \<Rightarrow> bool" where
  "word_ok w \<longleftrightarrow> w \<noteq> [] \<and> word_start (hd w) \<and> list_all word_char w"

definition number_ok :: "string \<Rightarrow> bool" where
  "number_ok w \<longleftrightarrow> w \<noteq> [] \<and> list_all is_digit w"

definition printable :: "token \<Rightarrow> bool" where
  \<comment> \<open>the tokens that some text produces\<close>
  "printable t \<longleftrightarrow>
     (tok_type t = to_keyword (tok_value t) \<and> word_ok (tok_value t))
     \<or> (tok_type t = INT_LITERAL \<and> number_ok (tok_value t))
     \<or> tok_type t = STR_LITERAL
     \<or> (tok_type t, tok_value t) \<in> set symbols"

definition same_token :: "token \<Rightarrow> token \<Rightarrow> bool" where
  \<comment> \<open>equal up to the line\<close>
  "same_token t u \<longleftrightarrow> tok_type t = tok_type u \<and> tok_value t = tok_value u"

lemma string_body_escaped:
  "\<exists>k. string_body (CHR 0x27) (escape_quoted s @ CHR 0x27 # rest) l = Some (s, rest, k)"
proof (induction s arbitrary: l)
  case Nil
  then show ?case by (simp add: escape_quoted_def)
next
  case (Cons c s)
  have esc: "escape_quoted (c # s) = (if c = CHR 0x27 \<or> c = CHR 0x5C then [CHR 0x5C, c] else [c]) @ escape_quoted s"
    by (simp add: escape_quoted_def)
  show ?case
  proof (cases "c = CHR 0x27 \<or> c = CHR 0x5C")
    case True
    obtain k where "string_body (CHR 0x27) (escape_quoted s @ CHR 0x27 # rest) (next_line c (next_line (CHR 0x5C) l)) = Some (s, rest, k)"
      using Cons by blast
    then show ?thesis using True by (auto simp: esc unescape_def)
  next
    case False
    obtain k where "string_body (CHR 0x27) (escape_quoted s @ CHR 0x27 # rest) (next_line c l) = Some (s, rest, k)"
      using Cons by blast
    then show ?thesis using False by (auto simp: esc)
  qed
qed

lemma class_facts:
  "\<not> word_char (CHR '' '')" "\<not> is_digit (CHR '' '')" "\<not> word_char (CHR 0x0A)" "\<not> is_digit (CHR 0x0A)"
  by (simp_all add: word_char_def is_alnum_def is_alpha_def is_lower_def is_upper_def is_digit_def char_le_iff)

lemma all_no_newline:
  assumes "list_all P w" and "\<not> P (CHR 0x0A)" shows "CHR 0x0A \<notin> set w"
  using assms by (auto simp: list_all_iff)

lemma word_start_not_space: "word_start c \<Longrightarrow> \<not> is_space c"
  by (auto simp: word_start_def is_alpha_def is_lower_def is_upper_def is_space_def char_le_iff)

lemma digit_classes: "is_digit c \<Longrightarrow> \<not> is_space c \<and> \<not> word_start c"
  by (auto simp: word_start_def is_alpha_def is_lower_def is_upper_def is_space_def is_digit_def char_le_iff)

lemma lex_word:
  assumes "word_ok w"
  shows "lex_step (w @ CHR '' '' # rest) l = Inr (Some (token_of (to_keyword w) w l), CHR '' '' # rest, l)"
proof -
  obtain c w' where w: "w = c # w'" using assms by (cases w) (auto simp: word_ok_def)
  have "scan_while word_char (w @ CHR '' '' # rest) l = (w, CHR '' '' # rest, l)"
    using assms all_no_newline class_facts by (intro scan_while_all) (auto simp: word_ok_def)
  then show ?thesis using assms w by (simp add: lex_step_def Let_def read_word_def word_ok_def)
qed

lemma lex_number:
  assumes "number_ok w"
  shows "lex_step (w @ CHR '' '' # rest) l = Inr (Some (token_of INT_LITERAL w l), CHR '' '' # rest, l)"
proof -
  obtain c w' where w: "w = c # w'" using assms by (cases w) (auto simp: number_ok_def)
  have "scan_while is_digit (w @ CHR '' '' # rest) l = (w, CHR '' '' # rest, l)"
    using assms all_no_newline class_facts by (intro scan_while_all) (auto simp: number_ok_def)
  moreover have "is_digit c" using assms w by (simp add: number_ok_def)
  ultimately show ?thesis using w digit_classes [of c] by (simp add: lex_step_def Let_def read_number_def)
qed

lemma quote_classes: "\<not> word_start (CHR 0x27)" "\<not> is_digit (CHR 0x27)" "\<not> is_space (CHR 0x27)"
  by (simp_all add: word_start_def is_alpha_def is_lower_def is_upper_def is_space_def is_digit_def char_le_iff)

lemma lex_string:
  "\<exists>k. lex_step (CHR 0x27 # escape_quoted s @ CHR 0x27 # rest) l = Inr (Some (token_of STR_LITERAL s l), rest, k)"
  using string_body_escaped [of s rest "next_line (CHR 0x27) l"] quote_classes
  by (auto simp: lex_step_def Let_def read_string_def)

lemma symbol_facts:
  "list_all (\<lambda>(ty, w). w \<noteq> [] \<and> \<not> is_space (hd w) \<and> \<not> is_digit (hd w) \<and> \<not> word_start (hd w)
      \<and> hd w \<noteq> CHR 0x27 \<and> hd w \<noteq> CHR 0x22 \<and> ty \<noteq> STR_LITERAL \<and> ty \<noteq> END
      \<and> read_operator (w @ CHR '' '' # rest) l = (token_of ty w l, CHR '' '' # rest, l)) symbols"
  by (simp add: symbols_def read_operator_def or_equal_def next_line_def Let_def word_start_def is_space_def
      is_alpha_def is_lower_def is_upper_def is_digit_def char_le_iff)

lemma symbolD:
  assumes "(ty, w) \<in> set symbols"
  shows "w \<noteq> []" and "\<not> is_space (hd w)" and "\<not> is_digit (hd w)" and "\<not> word_start (hd w)"
    and "hd w \<noteq> CHR 0x27" and "hd w \<noteq> CHR 0x22" and "ty \<noteq> STR_LITERAL" and "ty \<noteq> END"
    and "read_operator (w @ CHR '' '' # rest) l = (token_of ty w l, CHR '' '' # rest, l)"
  using symbol_facts [of rest l] assms by (auto simp: list_all_iff)

lemma lex_symbol:
  assumes "(ty, w) \<in> set symbols"
  shows "lex_step (w @ CHR '' '' # rest) l = Inr (Some (token_of ty w l), CHR '' '' # rest, l)"
proof -
  note S = symbolD [OF assms]
  have "hd (w @ CHR '' '' # rest) = hd w" using S(1) by simp
  then show ?thesis using S(3-6,8) by (simp add: lex_step_def Let_def S(9) token_of_def)
qed

lemma keyword_not_string: "to_keyword w \<noteq> STR_LITERAL"
proof -
  have "list_all (\<lambda>(k, ty). ty \<noteq> STR_LITERAL) keyword_table" by (simp add: keyword_table_def)
  then show ?thesis by (auto simp: to_keyword_def list_all_iff split: option.splits dest!: map_of_SomeD)
qed

lemma printable_cases:
  assumes "printable t"
  obtains (word) "tok_type t = to_keyword (tok_value t)" "word_ok (tok_value t)" "token_text t = tok_value t"
    | (number) "tok_type t = INT_LITERAL" "number_ok (tok_value t)" "token_text t = tok_value t"
    | (string) "tok_type t = STR_LITERAL" "token_text t = CHR 0x27 # escape_quoted (tok_value t) @ [CHR 0x27]"
    | (symbol) "(tok_type t, tok_value t) \<in> set symbols" "token_text t = tok_value t"
  using assms keyword_not_string symbolD(7) [of "tok_type t" "tok_value t"]
  unfolding printable_def token_text_def by metis

lemma token_text_start:
  assumes "printable t" shows "token_text t \<noteq> [] \<and> \<not> is_space (hd (token_text t))"
  using assms
proof (cases rule: printable_cases)
  case word
  then show ?thesis using word_start_not_space by (simp add: word_ok_def)
next
  case number
  then have "is_digit (hd (tok_value t))" by (simp add: number_ok_def list_all_iff)
  then show ?thesis using number digit_classes by (simp add: number_ok_def)
next
  case string
  then show ?thesis using quote_classes(3) by simp
next
  case symbol
  then show ?thesis using symbolD(1,2) by simp
qed

lemma lex_printed:
  assumes "printable t"
  shows "\<exists>u k. lex_step (token_text t @ CHR '' '' # rest) l = Inr (Some u, CHR '' '' # rest, k) \<and> same_token t u"
  using assms
proof (cases rule: printable_cases)
  case word
  then show ?thesis using lex_word [of "tok_value t" rest l] by (simp add: same_token_def token_of_def)
next
  case number
  then show ?thesis using lex_number [of "tok_value t" rest l] by (simp add: same_token_def token_of_def)
next
  case string
  then show ?thesis using lex_string [of "tok_value t" "CHR '' '' # rest" l]
    by (auto simp: same_token_def token_of_def)
next
  case symbol
  then show ?thesis using lex_symbol [of "tok_type t" "tok_value t" rest l] by (simp add: same_token_def token_of_def)
qed

lemma space_is_space: "is_space (CHR '' '')"
  by (simp add: is_space_def)

lemma tokenize_space: "tokenize_from (CHR '' '' # cs) l = tokenize_from cs l"
  using space_is_space
  by (simp add: tokenize_from.simps [of "CHR '' '' # cs"] tokenize_from.simps [of cs] next_line_def split: prod.splits)

lemma tokenize_step:
  assumes "cs \<noteq> []" and "\<not> is_space (hd cs)" and "lex_step cs l = Inr (Some t, rest, k)"
  shows "tokenize_from cs l = bindE (tokenize_from rest k) (\<lambda>ts. Inr (t # ts))"
proof -
  obtain c cs' where "cs = c # cs'" using assms(1) by (cases cs) auto
  then show ?thesis using assms by (simp add: tokenize_from.simps [of "c # cs'"])
qed

lemma tokenize_printed:
  assumes "list_all printable ts"
  shows "\<exists>us k. tokenize_from (print_tokens ts) l = Inr (us @ [token_of END [] k]) \<and> list_all2 same_token ts us"
  using assms
proof (induction ts arbitrary: l)
  case Nil
  have "tokenize_from [] l = Inr [token_of END [] l]" by (simp add: tokenize_from.simps)
  then show ?case by (auto simp: print_tokens_def)
next
  case (Cons t ts)
  then have t: "printable t" by simp
  have text_eq: "print_tokens (t # ts) = token_text t @ CHR '' '' # print_tokens ts" by (simp add: print_tokens_def)
  obtain u k where u: "lex_step (token_text t @ CHR '' '' # print_tokens ts) l = Inr (Some u, CHR '' '' # print_tokens ts, k)"
    "same_token t u" using lex_printed [OF t] by blast
  obtain us k' where us: "tokenize_from (print_tokens ts) k = Inr (us @ [token_of END [] k'])" "list_all2 same_token ts us"
    using Cons.IH [of k] Cons.prems by auto
  have "tokenize_from (print_tokens (t # ts)) l = bindE (tokenize_from (CHR '' '' # print_tokens ts) k) (\<lambda>us. Inr (u # us))"
    unfolding text_eq by (rule tokenize_step) (use token_text_start [OF t] u(1) in auto)
  then have "tokenize_from (print_tokens (t # ts)) l = Inr ((u # us) @ [token_of END [] k'])"
    by (simp add: tokenize_space us(1))
  then show ?case using u(2) us(2) by blast
qed

subsection \<open>Unknown characters\<close>

definition unknown_char :: "char \<Rightarrow> bool" where
  "unknown_char c \<longleftrightarrow> \<not> word_start c \<and> \<not> is_digit c \<and> \<not> is_space c
     \<and> c \<notin> {CHR 0x27, CHR 0x22, CHR ''='', CHR ''!'', CHR ''<'', CHR ''>'', CHR '','', CHR '';'', CHR ''('', CHR '')'',
            CHR ''*'', CHR ''.'', CHR 0x60}"

lemma read_operator_unknown:
  assumes "unknown_char c"
  shows "read_operator (c # cs) l = (token_of END [] l, cs, l)"
proof -
  have "is_space (CHR 0x0A)" by (simp add: is_space_def char_le_iff)
  then have "c \<noteq> CHR 0x0A" using assms unfolding unknown_char_def by metis
  moreover have "c \<noteq> CHR ''=''" "c \<noteq> CHR ''!''" "c \<noteq> CHR ''<''" "c \<noteq> CHR ''>''" "c \<noteq> CHR '',''" "c \<noteq> CHR '';''"
    "c \<noteq> CHR ''(''" "c \<noteq> CHR '')''" "c \<noteq> CHR ''*''" "c \<noteq> CHR ''.''" "c \<noteq> CHR 0x60"
    using assms by (simp_all add: unknown_char_def)
  ultimately show ?thesis by (simp add: read_operator_def Let_def next_line_def)
qed

lemma lex_unknown:
  assumes "unknown_char c"
  shows "lex_step (c # cs) l = Inr (None, skip_char cs l)"
proof -
  have "\<not> word_start c" "\<not> is_digit c" "c \<noteq> CHR 0x27" "c \<noteq> CHR 0x22"
    using assms by (simp_all add: unknown_char_def)
  then show ?thesis by (simp add: lex_step_def Let_def read_operator_unknown [OF assms] token_of_def)
qed

lemma tokenize_unknown:
  assumes "unknown_char c"
  shows "tokenize_from (c # x # cs) l = tokenize_from cs (next_line x l)"
proof -
  have "\<not> is_space c" using assms by (simp add: unknown_char_def)
  then have "tokenize_from (c # x # cs) l = bindE (lex_step (c # x # cs) l) (\<lambda>(t, rest', l2).
      bindE (tokenize_from rest' l2) (\<lambda>ts. Inr (case t of None \<Rightarrow> ts | Some tok \<Rightarrow> tok # ts)))"
    by (subst tokenize_from.simps) simp
  also have "\<dots> = tokenize_from cs (next_line x l)"
    unfolding lex_unknown [OF assms] by (cases "tokenize_from cs (next_line x l)") (simp_all add: skip_char_def)
  finally show ?thesis .
qed

end
