(* ===== verification/Parser_Total.thy ===== *)
theory Parser_Total
  imports Parser Lexer_Props "HOL-Library.Sublist"
begin

section \<open>The parser always returns\<close>

text \<open>
  Every step of the parser leaves a suffix of the tokens it was given and fails only with a
  \<open>ParseError\<close> or with the exceptions of \<open>std::stoi\<close>; so no loop of it runs out of fuel. The
  predicate \<open>steady\<close> says so of a parser, with one rule per way to build one.
\<close>

definition int_tokens_ok :: "token list \<Rightarrow> bool" where
  "int_tokens_ok ts \<longleftrightarrow> (\<forall>t \<in> set ts. tok_type t = INT_LITERAL \<longrightarrow> number_ok (tok_value t))"

definition parser_error :: "exn \<Rightarrow> bool" where
  "parser_error e \<longleftrightarrow> (\<exists>m. e = ParseError m) \<or> e = OutOfRange ''stoi''"

definition outcome :: "nat \<Rightarrow> token list \<Rightarrow> exn + 'a \<times> token list \<Rightarrow> bool" where
  \<comment> \<open>what a step that eats at least \<open>k\<close> tokens may come to\<close>
  "outcome k ts r \<longleftrightarrow>
     (case r of
        Inl e \<Rightarrow> parser_error e \<or> (\<not> int_tokens_ok ts \<and> e = InvalidArgument ''stoi'')
      | Inr (x, rest) \<Rightarrow> suffix rest ts \<and> length rest + k \<le> length ts)"

definition steady :: "'a parser \<Rightarrow> bool" where
  "steady p \<longleftrightarrow> (\<forall>ts. outcome 0 ts (p ts))"

named_theorems steady_intros

lemma int_tokens_suffix: "suffix rest ts \<Longrightarrow> int_tokens_ok ts \<Longrightarrow> int_tokens_ok rest"
  by (auto simp: int_tokens_ok_def dest: set_mono_suffix)

lemma outcome_ParseError [simp]: "outcome k ts (Inl (ParseError m))"
  by (simp add: outcome_def parser_error_def)

lemma outcome_Inr [simp]: "outcome k ts (Inr (x, rest)) \<longleftrightarrow> suffix rest ts \<and> length rest + k \<le> length ts"
  by (simp add: outcome_def)

lemma outcome_mono: "outcome k ts r \<Longrightarrow> j \<le> k \<Longrightarrow> outcome j ts r"
  by (auto simp: outcome_def split: sum.splits prod.splits)

lemma outcome_bind:
  assumes "outcome j ts (m ts)"
    and "\<And>x rest. m ts = Inr (x, rest) \<Longrightarrow> suffix rest ts \<Longrightarrow> length rest + j \<le> length ts \<Longrightarrow> outcome k rest (f x rest)"
  shows "outcome (j + k) ts (bindP m f ts)"
proof (cases "m ts")
  case (Inl e)
  then show ?thesis using assms(1) by (simp add: outcome_def)
next
  case (Inr r)
  obtain x rest where r: "m ts = Inr (x, rest)" using Inr by (cases r) auto
  then have rest: "suffix rest ts" "length rest + j \<le> length ts" using assms(1) by simp_all
  have "outcome k rest (f x rest)" by (rule assms(2) [OF r rest])
  then show ?thesis using r rest int_tokens_suffix [OF rest(1)]
    by (auto simp: outcome_def split: sum.splits intro: suffix_order.trans)
qed

lemma outcome_bind_weak:
  assumes "outcome j ts (m ts)"
    and "\<And>x rest. length rest + j \<le> length ts \<Longrightarrow> outcome 0 rest (f x rest)"
  shows "outcome 0 ts (bindP m f ts)"
  using outcome_bind [of j ts m 0 f] assms outcome_mono by fastforce

lemma outcome_tl: "\<not> is_end ts \<Longrightarrow> outcome 1 ts (Inr (x, tl ts))"
  by (cases ts) (auto simp: is_end_def suffix_ConsI)

lemma outcome_advance: "outcome 1 ts (advance ts)"
  using outcome_tl [of ts "hd ts"] by (simp add: advance_def del: outcome_Inr)

lemma outcome_advance_return: "outcome 1 ts (bindP advance (\<lambda>t. returnP (f t)) ts)"
  using outcome_tl [of ts "f (hd ts)"] by (cases "is_end ts") (simp_all add: advance_def bindP_def del: outcome_Inr)

lemma outcome_peek_fail: "outcome k ts (bindP peek (\<lambda>t. failP (f t)) ts)"
  by (cases "is_end ts") (simp_all add: peek_def bindP_def)

lemma outcome_peek: "outcome 0 ts (peek ts)"
  by (simp add: peek_def)

lemma outcome_match:
  assumes "check ty ts \<Longrightarrow> outcome k (tl ts) (f True (tl ts))" and "\<not> check ty ts \<Longrightarrow> outcome k ts (f False ts)"
  shows "outcome k ts (bindP (match_token ty) f ts)"
proof (cases "check ty ts")
  case True
  have "outcome (1 + k) ts (bindP (\<lambda>ts. Inr (True, tl ts)) f ts)"
    using assms(1) True by (intro outcome_bind outcome_tl) (auto simp: check_def)
  then show ?thesis using True by (auto simp: match_token_def bindP_def intro: outcome_mono)
next
  case False
  then show ?thesis using assms(2) by (simp add: match_token_def bindP_def)
qed

lemma outcome_match_eats:
  assumes "check ty ts \<Longrightarrow> outcome k (tl ts) (f True (tl ts))" and "\<not> check ty ts \<Longrightarrow> outcome (Suc k) ts (f False ts)"
  shows "outcome (Suc k) ts (bindP (match_token ty) f ts)"
proof (cases "check ty ts")
  case True
  have "outcome (1 + k) ts (bindP (\<lambda>ts. Inr (True, tl ts)) f ts)"
    using assms(1) True by (intro outcome_bind outcome_tl) (auto simp: check_def)
  then show ?thesis using True by (simp add: match_token_def bindP_def)
next
  case False
  then show ?thesis using assms(2) by (simp add: match_token_def bindP_def)
qed

lemma outcome_expect: "outcome 1 ts (expect ty ctx ts)"
  using outcome_advance [of ts] by (simp add: expect_def outcome_peek_fail)

subsection \<open>Rules for steady parsers\<close>

lemma steadyD: "steady p \<Longrightarrow> outcome 0 ts (p ts)"
  by (simp add: steady_def)

lemma steady_bind [steady_intros]: "steady m \<Longrightarrow> (\<And>x. steady (f x)) \<Longrightarrow> steady (bindP m f)"
  using outcome_bind [of 0 _ m 0 f] by (simp add: steady_def)

lemma steady_basic [steady_intros]:
  "steady (returnP x)" "steady (failP m)" "steady peek" "steady advance" "steady (match_token ty)"
  "steady (expect ty ctx)"
  unfolding steady_def
  using outcome_peek outcome_mono [OF outcome_advance] outcome_mono [OF outcome_expect]
  by (auto simp: match_token_def check_def is_end_def suffix_tl)

lemma steady_if [steady_intros]: "(b \<Longrightarrow> steady p) \<Longrightarrow> (\<not> b \<Longrightarrow> steady q) \<Longrightarrow> steady (if b then p else q)"
  by simp

lemma steady_prod [steady_intros]: "(\<And>x y. r = (x, y) \<Longrightarrow> steady (f x y)) \<Longrightarrow> steady (case r of (x, y) \<Rightarrow> f x y)"
  by (cases r) simp

lemma steady_option [steady_intros]:
  "steady p \<Longrightarrow> (\<And>x. steady (f x)) \<Longrightarrow> steady (case v of None \<Rightarrow> p | Some x \<Rightarrow> f x)"
  by (cases v) simp_all

lemma steady_let [steady_intros]: "steady (f v) \<Longrightarrow> steady (let x = v in f x)"
  by simp

lemma sep_list_steady:
  assumes "steady item" and "length ts < n"
  shows "outcome 0 ts (sep_list item n ts)"
  using assms(2)
proof (induction n arbitrary: ts)
  case (Suc n)
  have "outcome (0 + 0) ts (sep_list item (Suc n) ts)"
    unfolding sep_list.simps
  proof (rule outcome_bind [OF steadyD [OF assms(1)]])
    fix x :: 'a and rest :: "token list"
    assume rest: "length rest + 0 \<le> length ts"
    show "outcome 0 rest (bindP (match_token COMMA)
        (\<lambda>more. if more then bindP (sep_list item n) (\<lambda>xs. returnP (x # xs)) else returnP [x]) rest)"
    proof (rule outcome_match)
      assume "check COMMA rest"
      then have "length (tl rest) < n" using rest Suc.prems by (cases rest) (auto simp: check_def is_end_def)
      then have "outcome (0 + 0) (tl rest) (bindP (sep_list item n) (\<lambda>xs. returnP (x # xs)) (tl rest))"
        by (intro outcome_bind Suc.IH) simp_all
      then show "outcome 0 (tl rest) ((if True then bindP (sep_list item n) (\<lambda>xs. returnP (x # xs)) else returnP [x]) (tl rest))"
        by simp
    qed simp
  qed
  then show ?case by simp
qed simp

lemma comma_list_steady [steady_intros]: "steady item \<Longrightarrow> steady (comma_list item)"
  unfolding steady_def [of "comma_list item"] comma_list_def using sep_list_steady by blast

lemma stoi_outcome:
  assumes "check INT_LITERAL ts" and "e = (case stoi (tok_value (hd ts)) of Inl e \<Rightarrow> e | Inr _ \<Rightarrow> ParseError [])"
  shows "parser_error e \<or> (\<not> int_tokens_ok ts \<and> e = InvalidArgument ''stoi'')"
proof (cases "int_tokens_ok ts")
  case True
  have "hd ts \<in> set ts" "tok_type (hd ts) = INT_LITERAL" using assms(1) by (auto simp: check_def is_end_def)
  then have "number_ok (tok_value (hd ts))" using True by (simp add: int_tokens_ok_def)
  then have "stoi (tok_value (hd ts)) \<noteq> Inl (InvalidArgument ''stoi'')"
    "stoi (tok_value (hd ts)) = Inl x \<Longrightarrow> x = OutOfRange ''stoi''" for x
    by (auto simp: stoi_def string_to_int_def number_ok_def scan_int_digits split: if_splits)
  then show ?thesis using assms(2) by (auto simp: parser_error_def split: sum.splits)
next
  case False
  then show ?thesis using assms(2)
    by (auto simp: stoi_def string_to_int_def parser_error_def bindE_def split: sum.splits option.splits if_splits)
qed

lemma parse_int_outcome:
  assumes "check INT_LITERAL ts"
  shows "outcome 1 ts (bindP advance (\<lambda>t. bindP (\<lambda>rest. bindE (stoi (tok_value t)) (\<lambda>i. Inr (IntLit i, rest))) returnP) ts)"
proof -
  have "advance ts = Inr (hd ts, tl ts)" using assms by (simp add: check_def advance_def)
  then show ?thesis
    using stoi_outcome [OF assms refl] outcome_tl [of ts] assms
    by (cases "stoi (tok_value (hd ts))") (auto simp: bindP_def outcome_def check_def)
qed

lemma parse_value_eats: "outcome 1 ts (parse_value ts)"
  unfolding parse_value_def One_nat_def
proof (rule outcome_match_eats)
  show "outcome (Suc 0) ts ((if False then returnP NullLit
     else (\<lambda>ts.
       if check INT_LITERAL ts then
         bindP advance (\<lambda>t. bindP (\<lambda>rest. bindE (stoi (tok_value t)) (\<lambda>i. Inr (IntLit i, rest))) returnP) ts
       else if check STR_LITERAL ts then bindP advance (\<lambda>t. returnP (StrLit (tok_value t))) ts
       else bindP peek (\<lambda>t. failP (''Expected value'' @ at_line t)) ts)) ts)"
    using parse_int_outcome [of ts]
    by (simp add: outcome_advance_return [unfolded One_nat_def] outcome_peek_fail)
qed simp

lemma parse_value_steady [steady_intros]: "steady parse_value"
  using outcome_mono [OF parse_value_eats] by (simp add: steady_def)

lemma parse_operand_eats: "outcome 1 ts (parse_operand ts)"
proof (cases "is_end ts")
  case True
  then show ?thesis by (simp add: parse_operand_def peek_def bindP_def)
next
  case False
  then show ?thesis
    by (simp add: parse_operand_def peek_def outcome_advance_return [unfolded One_nat_def])
qed

lemma parse_operand_steady [steady_intros]: "steady parse_operand"
  using outcome_mono [OF parse_operand_eats] by (simp add: steady_def)

lemma parse_comparison_eats: "outcome 1 ts (parse_comparison ts)"
proof -
  have "outcome (1 + 0) ts (parse_comparison ts)"
    unfolding parse_comparison_def
    by (rule outcome_bind [OF parse_operand_eats]) (rule steadyD, intro steady_intros)
  then show ?thesis by simp
qed

subsection \<open>Conditions\<close>

lemma tl_shorter: "check ty ts \<Longrightarrow> length (tl ts) < length ts"
  by (cases ts) (auto simp: check_def is_end_def)

lemma check_not_end: "check ty ts \<Longrightarrow> \<not> is_end ts"
  by (simp add: check_def)

lemma condition_outcomes:
  shows "\<And>ts. 3 * length ts + 3 \<le> n \<Longrightarrow> outcome 1 ts (parse_or n ts)"
    and "\<And>c ts. 3 * length ts + 2 \<le> n \<Longrightarrow> outcome 0 ts (or_rest n c ts)"
    and "\<And>ts. 3 * length ts + 2 \<le> n \<Longrightarrow> outcome 1 ts (parse_and n ts)"
    and "\<And>c ts. 3 * length ts + 1 \<le> n \<Longrightarrow> outcome 0 ts (and_rest n c ts)"
    and "\<And>ts. 3 * length ts + 1 \<le> n \<Longrightarrow> outcome 1 ts (parse_primary n ts)"
proof (induction n)
  case (Suc n)
  note IH = Suc.IH
  {
    fix ts :: "token list" assume "3 * length ts + 3 \<le> Suc n"
    then have "outcome (1 + 0) ts (bindP (parse_and n) (or_rest n) ts)"
      by (intro outcome_bind IH(3) IH(2)) auto
    then show "outcome 1 ts (parse_or (Suc n) ts)" by simp
  next
    fix c and ts :: "token list" assume n: "3 * length ts + 2 \<le> Suc n"
    show "outcome 0 ts (or_rest (Suc n) c ts)"
      unfolding or_rest.simps
    proof (rule outcome_match)
      assume "check KW_OR ts"
      from tl_shorter [OF this] n
      have "outcome (1 + 0) (tl ts) (bindP (parse_and n) (\<lambda>r. or_rest n (combine_conditions c r L_OR)) (tl ts))"
        by (intro outcome_bind IH(3) IH(2)) auto
      then show "outcome 0 (tl ts) ((if True then bindP (parse_and n) (\<lambda>r. or_rest n (combine_conditions c r L_OR))
          else returnP c) (tl ts))" by (auto intro: outcome_mono)
    qed simp
  next
    fix ts :: "token list" assume "3 * length ts + 2 \<le> Suc n"
    then have "outcome (1 + 0) ts (bindP (parse_primary n) (and_rest n) ts)"
      by (intro outcome_bind IH(5) IH(4)) auto
    then show "outcome 1 ts (parse_and (Suc n) ts)" by simp
  next
    fix c and ts :: "token list" assume n: "3 * length ts + 1 \<le> Suc n"
    show "outcome 0 ts (and_rest (Suc n) c ts)"
      unfolding and_rest.simps
    proof (rule outcome_match)
      assume "check KW_AND ts"
      from tl_shorter [OF this] n
      have "outcome (1 + 0) (tl ts) (bindP (parse_primary n) (\<lambda>r. and_rest n (combine_conditions c r L_AND)) (tl ts))"
        by (intro outcome_bind IH(5) IH(4)) auto
      then show "outcome 0 (tl ts) ((if True then bindP (parse_primary n) (\<lambda>r. and_rest n (combine_conditions c r L_AND))
          else returnP c) (tl ts))" by (auto intro: outcome_mono)
    qed simp
  next
    fix ts :: "token list" assume n: "3 * length ts + 1 \<le> Suc n"
    show "outcome 1 ts (parse_primary (Suc n) ts)"
      unfolding parse_primary.simps One_nat_def
    proof (rule outcome_match_eats)
      assume "check LPAREN ts"
      from tl_shorter [OF this] n
      have "outcome (1 + 0) (tl ts) (bindP (parse_or n) (\<lambda>c. bindP (expect RPAREN (quoted '')'')) (\<lambda>_. returnP (set_paren c))) (tl ts))"
        by (intro outcome_bind IH(1) steadyD steady_intros) auto
      then show "outcome 0 (tl ts) ((if True then bindP (parse_or n) (\<lambda>c. bindP (expect RPAREN (quoted '')'')) (\<lambda>_. returnP (set_paren c)))
          else parse_comparison) (tl ts))" by (auto intro: outcome_mono)
    qed (simp add: parse_comparison_eats [unfolded One_nat_def])
  }
qed simp_all

lemma parse_condition_steady [steady_intros]: "steady parse_condition"
  using condition_outcomes(1) outcome_mono by (fastforce simp: steady_def parse_condition_def)

lemma parse_where_steady [steady_intros]: "steady parse_where"
  unfolding parse_where_def by (intro steady_intros)

subsection \<open>Commands\<close>

lemma names_steady [steady_intros]: "steady (parse_name ctx)" "steady parse_table_ref" "steady parse_column_type"
  unfolding parse_name_def parse_table_ref_def parse_column_type_def by (intro steady_intros)+

lemma column_modifiers_outcome: "length ts < n \<Longrightarrow> outcome 0 ts (column_modifiers n nn ix d ts)"
proof (induction n arbitrary: nn ix d ts)
  case (Suc n)
  have step: "outcome 0 ts (bindP advance (\<lambda>_. column_modifiers n nn' ix' d') ts)" for nn' ix' d'
    using Suc.prems by (intro outcome_bind_weak [OF outcome_advance] Suc.IH) auto
  have "outcome 0 ts (bindP advance (\<lambda>_. bindP parse_value (\<lambda>v. column_modifiers n nn ix (Some v))) ts)"
    using Suc.prems
    by (intro outcome_bind_weak [OF outcome_advance] outcome_bind_weak [OF parse_value_eats] Suc.IH) auto
  then show ?case using step by simp
qed simp

lemma column_modifiers_steady [steady_intros]: "steady (\<lambda>ts. column_modifiers (Suc (length ts)) nn ix d ts)"
  using column_modifiers_outcome by (simp add: steady_def del: column_modifiers.simps)

lemma parse_column_steady [steady_intros]: "steady parse_column"
  unfolding parse_column_def by (intro steady_intros)

lemma parse_slot_steady [steady_intros]: "steady parse_slot"
  using steadyD [OF steady_bind [OF parse_value_steady steady_basic(1)]]
  by (auto simp: steady_def parse_slot_def)

lemma parse_row_steady [steady_intros]: "steady parse_row"
  unfolding parse_row_def by (intro steady_intros)

lemma parse_assignment_steady [steady_intros]: "steady parse_assignment"
  unfolding parse_assignment_def by (intro steady_intros)

lemma parse_alias_steady [steady_intros]: "steady parse_alias"
  unfolding parse_alias_def by (intro steady_intros)

lemma parse_aggregate_steady [steady_intros]: "steady parse_aggregate"
  unfolding parse_aggregate_def by (intro steady_intros)

lemma parse_backticked_steady [steady_intros]: "steady parse_backticked"
proof -
  have "steady (bindP advance (\<lambda>t. bindP (expect BACKTICK ''closing backtick'') (\<lambda>_. returnP (tok_value t))))"
    by (intro steady_intros)
  then show ?thesis by (simp add: steady_def parse_backticked_def)
qed

lemma parse_select_column_steady [steady_intros]: "steady parse_select_column"
proof -
  have "steady (bindP (match_token BACKTICK) (\<lambda>tick.
        bindP (if tick then parse_backticked else parse_name ''column name'') (\<lambda>n.
        bindP parse_alias (\<lambda>a. returnP \<lparr>sc_name = n, sc_alias = a, sc_aggregate = A_NONE\<rparr>))))"
    by (intro steady_intros)
  then show ?thesis using parse_aggregate_steady by (simp add: steady_def parse_select_column_def)
qed

lemma commands_steady [steady_intros]:
  "steady parse_create" "steady parse_drop" "steady parse_use" "steady parse_insert" "steady parse_update"
  "steady parse_delete" "steady parse_select"
  unfolding parse_create_def parse_drop_def parse_use_def parse_insert_def parse_update_def parse_delete_def
    parse_select_def
  by (intro steady_intros)+

lemma dispatch_steady [steady_intros]: "steady (dispatch t)"
  unfolding dispatch_def by (cases "tok_type t") (simp_all add: steady_intros)

lemma parse_errors:
  assumes "parse ts = Inl e"
  shows "parser_error e \<or> (\<not> int_tokens_ok ts \<and> e = InvalidArgument ''stoi'')"
proof (cases "is_end ts")
  case True
  then show ?thesis using assms by (auto simp: parse_def parser_error_def)
next
  case False
  have "outcome 0 ts (bindP peek dispatch ts)" by (intro steadyD steady_intros)
  then show ?thesis using assms False
    by (cases "bindP peek dispatch ts") (auto simp: parse_def outcome_def)
qed

subsection \<open>The integer tokens of the lexer\<close>

lemma keyword_not_int: "to_keyword w \<noteq> INT_LITERAL"
proof -
  have "list_all (\<lambda>(k, ty). ty \<noteq> INT_LITERAL) keyword_table" by (simp add: keyword_table_def)
  then show ?thesis by (auto simp: to_keyword_def list_all_iff split: option.splits dest!: map_of_SomeD)
qed

lemma operator_not_int: "read_operator cs l = (t, r) \<Longrightarrow> tok_type t \<noteq> INT_LITERAL"
  by (cases r) (auto simp: read_operator_def or_equal_def token_of_def Let_def split: if_splits list.splits)

lemma lex_step_int:
  assumes "cs \<noteq> []" and "lex_step cs l = Inr (Some t, r)" and "tok_type t = INT_LITERAL"
  shows "number_ok (tok_value t)"
proof -
  obtain c cs' where cs: "cs = c # cs'" using assms(1) by (cases cs) auto
  obtain w rest k where w: "scan_while is_digit cs l = (w, rest, k)" by (cases "scan_while is_digit cs l")
  have "is_digit c \<Longrightarrow> w \<noteq> []" using w cs by (auto split: prod.splits)
  then have "is_digit c \<Longrightarrow> number_ok w" using scan_while_length [OF w] by (simp add: number_ok_def)
  then show ?thesis
    using assms cs w keyword_not_int
    by (auto simp: lex_step_def Let_def read_word_def read_number_def read_string_def token_of_def bindE_eq_Inr
        split: if_splits prod.splits option.splits dest: operator_not_int)
qed

lemma tokenize_ints: "tokenize_from cs l = Inr ts \<Longrightarrow> int_tokens_ok ts"
proof (induction cs l arbitrary: ts rule: tokenize_from.induct)
  case (1 cs l)
  obtain w rest l1 where s: "scan_while is_space cs l = (w, rest, l1)" by (cases "scan_while is_space cs l")
  show ?case
  proof (cases "rest = []")
    case True
    then show ?thesis using 1(2) s by (auto simp: tokenize_from.simps [of cs l] int_tokens_ok_def token_of_def)
  next
    case False
    then obtain t rest' l2 us where t: "lex_step rest l1 = Inr (t, rest', l2)" "tokenize_from rest' l2 = Inr us"
      "ts = (case t of None \<Rightarrow> us | Some tok \<Rightarrow> tok # us)"
      using 1(2) s by (auto simp: tokenize_from.simps [of cs l] bindE_eq_Inr)
    have "int_tokens_ok us" by (rule 1(1) [OF s [symmetric] refl False t(1) refl refl t(2)])
    then show ?thesis using t(1,3) lex_step_int [OF False]
      by (auto simp: int_tokens_ok_def split: option.splits)
  qed
qed

end
