(* ===== verification/Parser_Conditions.thy ===== *)
theory Parser_Conditions
  imports Parser_Total
begin

section \<open>What a parsed condition means\<close>

text \<open>
  The descent without its fuel, a printer for Boolean expressions that it inverts, and the
  evaluation of the conditions it builds (\<open>evaluate_condition\<close> of the executor, over an arbitrary
  evaluation of the comparisons) against the truth value of the expression.
\<close>

subsection \<open>The descent without fuel\<close>

lemma bindP_cong2:
  assumes "m ts = m' ts" and "\<And>x rest. m ts = Inr (x, rest) \<Longrightarrow> f x rest = f' x rest"
  shows "bindP m f ts = bindP m' f' ts"
  unfolding bindP_def using assms by (auto intro!: bindE_cong)

lemma match_cong:
  assumes "\<And>rest. check ty ts \<Longrightarrow> rest = tl ts \<Longrightarrow> p rest = p' rest"
  shows "bindP (match_token ty) (\<lambda>b. if b then p else q) ts = bindP (match_token ty) (\<lambda>b. if b then p' else q) ts"
  using assms by (auto simp: bindP_def match_token_def)

lemma and_eats:
  assumes "parse_and n ts = Inr (x, rest)" and "3 * length ts + 2 \<le> n"
  shows "length rest + 1 \<le> length ts"
  using condition_outcomes(3) [OF assms(2)] assms(1) by simp

lemma primary_eats:
  assumes "parse_primary n ts = Inr (x, rest)" and "3 * length ts + 1 \<le> n"
  shows "length rest + 1 \<le> length ts"
  using condition_outcomes(5) [OF assms(2)] assms(1) by simp

lemma fuel_irrelevant:
  shows "\<And>m ts. 3 * length ts + 3 \<le> n \<Longrightarrow> 3 * length ts + 3 \<le> m \<Longrightarrow> parse_or n ts = parse_or m ts"
    and "\<And>m c ts. 3 * length ts + 2 \<le> n \<Longrightarrow> 3 * length ts + 2 \<le> m \<Longrightarrow> or_rest n c ts = or_rest m c ts"
    and "\<And>m ts. 3 * length ts + 2 \<le> n \<Longrightarrow> 3 * length ts + 2 \<le> m \<Longrightarrow> parse_and n ts = parse_and m ts"
    and "\<And>m c ts. 3 * length ts + 1 \<le> n \<Longrightarrow> 3 * length ts + 1 \<le> m \<Longrightarrow> and_rest n c ts = and_rest m c ts"
    and "\<And>m ts. 3 * length ts + 1 \<le> n \<Longrightarrow> 3 * length ts + 1 \<le> m \<Longrightarrow> parse_primary n ts = parse_primary m ts"
proof (induction n)
  case (Suc n)
  note IH = Suc.IH
  {
    fix m and ts :: "token list" assume nm: "3 * length ts + 3 \<le> Suc n" "3 * length ts + 3 \<le> m"
    then obtain k where m: "m = Suc k" by (cases m) auto
    have "bindP (parse_and n) (or_rest n) ts = bindP (parse_and k) (or_rest k) ts"
    proof (rule bindP_cong2)
      show "parse_and n ts = parse_and k ts" using nm m by (intro IH(3)) auto
      fix x rest assume r: "parse_and n ts = Inr (x, rest)"
      have "length rest + 1 \<le> length ts" by (rule and_eats [OF r]) (use nm in auto)
      then show "or_rest n x rest = or_rest k x rest" using nm m by (intro IH(2)) auto
    qed
    then show "parse_or (Suc n) ts = parse_or m ts" by (simp add: m)
  next
    fix m c and ts :: "token list" assume nm: "3 * length ts + 2 \<le> Suc n" "3 * length ts + 2 \<le> m"
    then obtain k where m: "m = Suc k" by (cases m) auto
    show "or_rest (Suc n) c ts = or_rest m c ts"
      unfolding m or_rest.simps
    proof (rule match_cong, rule bindP_cong2)
      fix us assume "check KW_OR ts" "us = tl ts"
      then have us: "length us < length ts" using tl_shorter by simp
      then show "parse_and n us = parse_and k us" using nm m by (intro IH(3)) auto
      fix x rest assume r: "parse_and n us = Inr (x, rest)"
      have "length rest + 1 \<le> length us" by (rule and_eats [OF r]) (use nm us in auto)
      then show "or_rest n (combine_conditions c x L_OR) rest = or_rest k (combine_conditions c x L_OR) rest"
        using nm m us by (intro IH(2)) auto
    qed
  next
    fix m and ts :: "token list" assume nm: "3 * length ts + 2 \<le> Suc n" "3 * length ts + 2 \<le> m"
    then obtain k where m: "m = Suc k" by (cases m) auto
    have "bindP (parse_primary n) (and_rest n) ts = bindP (parse_primary k) (and_rest k) ts"
    proof (rule bindP_cong2)
      show "parse_primary n ts = parse_primary k ts" using nm m by (intro IH(5)) auto
      fix x rest assume r: "parse_primary n ts = Inr (x, rest)"
      have "length rest + 1 \<le> length ts" by (rule primary_eats [OF r]) (use nm in auto)
      then show "and_rest n x rest = and_rest k x rest" using nm m by (intro IH(4)) auto
    qed
    then show "parse_and (Suc n) ts = parse_and m ts" by (simp add: m)
  next
    fix m c and ts :: "token list" assume nm: "3 * length ts + 1 \<le> Suc n" "3 * length ts + 1 \<le> m"
    then obtain k where m: "m = Suc k" by (cases m) auto
    show "and_rest (Suc n) c ts = and_rest m c ts"
      unfolding m and_rest.simps
    proof (rule match_cong, rule bindP_cong2)
      fix us assume "check KW_AND ts" "us = tl ts"
      then have us: "length us < length ts" using tl_shorter by simp
      then show "parse_primary n us = parse_primary k us" using nm m by (intro IH(5)) auto
      fix x rest assume r: "parse_primary n us = Inr (x, rest)"
      have "length rest + 1 \<le> length us" by (rule primary_eats [OF r]) (use nm us in auto)
      then show "and_rest n (combine_conditions c x L_AND) rest = and_rest k (combine_conditions c x L_AND) rest"
        using nm m us by (intro IH(4)) auto
    qed
  next
    fix m and ts :: "token list" assume nm: "3 * length ts + 1 \<le> Suc n" "3 * length ts + 1 \<le> m"
    then obtain k where m: "m = Suc k" by (cases m) auto
    show "parse_primary (Suc n) ts = parse_primary m ts"
      unfolding m parse_primary.simps
    proof (rule match_cong, rule bindP_cong2)
      fix us assume "check LPAREN ts" "us = tl ts"
      then have us: "length us < length ts" using tl_shorter by simp
      then show "parse_or n us = parse_or k us" using nm m by (intro IH(1)) auto
    qed simp
  }
qed simp_all

definition or_level :: "condition parser" where
  "or_level ts = parse_or (3 * length ts + 3) ts"

definition or_loop :: "condition \<Rightarrow> condition parser" where
  "or_loop c ts = or_rest (3 * length ts + 2) c ts"

definition and_level :: "condition parser" where
  "and_level ts = parse_and (3 * length ts + 2) ts"

definition and_loop :: "condition \<Rightarrow> condition parser" where
  "and_loop c ts = and_rest (3 * length ts + 1) c ts"

definition primary :: "condition parser" where
  "primary ts = parse_primary (3 * length ts + 1) ts"

lemma levels_eat: "outcome 1 ts (and_level ts)" "outcome 1 ts (primary ts)" "outcome 1 ts (or_level ts)"
  unfolding and_level_def primary_def or_level_def by (rule condition_outcomes, simp)+

lemma or_level_eq: "or_level ts = bindP and_level or_loop ts"
proof -
  have "or_level ts = bindP (parse_and (3 * length ts + 2)) (or_rest (3 * length ts + 2)) ts"
    by (simp add: or_level_def numeral_3_eq_3)
  also have "\<dots> = bindP and_level or_loop ts"
  proof (rule bindP_cong2)
    fix x rest assume r: "parse_and (3 * length ts + 2) ts = Inr (x, rest)"
    then have "length rest \<le> length ts" using condition_outcomes(3) [of ts "3 * length ts + 2"] by simp
    then show "or_rest (3 * length ts + 2) x rest = or_loop x rest" unfolding or_loop_def by (intro fuel_irrelevant) auto
  qed (simp add: and_level_def)
  finally show ?thesis .
qed

lemma or_loop_eq:
  "or_loop c ts = bindP (match_token KW_OR) (\<lambda>more.
     if more then bindP and_level (\<lambda>r. or_loop (combine_conditions c r L_OR)) else returnP c) ts"
proof -
  have "or_loop c ts = bindP (match_token KW_OR) (\<lambda>more.
     if more then bindP (parse_and (Suc (3 * length ts))) (\<lambda>r. or_rest (Suc (3 * length ts)) (combine_conditions c r L_OR))
     else returnP c) ts"
    by (simp add: or_loop_def numeral_2_eq_2)
  also have "\<dots> = bindP (match_token KW_OR) (\<lambda>more.
     if more then bindP and_level (\<lambda>r. or_loop (combine_conditions c r L_OR)) else returnP c) ts"
  proof (rule match_cong, rule bindP_cong2)
    fix us assume "check KW_OR ts" "us = tl ts"
    then have us: "length us < length ts" using tl_shorter by simp
    then show "parse_and (Suc (3 * length ts)) us = and_level us" unfolding and_level_def by (intro fuel_irrelevant) auto
    fix x rest assume r: "parse_and (Suc (3 * length ts)) us = Inr (x, rest)"
    then have "length rest \<le> length us" using condition_outcomes(3) [of us "Suc (3 * length ts)"] us by simp
    then show "or_rest (Suc (3 * length ts)) (combine_conditions c x L_OR) rest = or_loop (combine_conditions c x L_OR) rest"
      unfolding or_loop_def using us by (intro fuel_irrelevant) auto
  qed
  finally show ?thesis .
qed

lemma and_level_eq: "and_level ts = bindP primary and_loop ts"
proof -
  have "and_level ts = bindP (parse_primary (3 * length ts + 1)) (and_rest (3 * length ts + 1)) ts"
    by (simp add: and_level_def numeral_2_eq_2)
  also have "\<dots> = bindP primary and_loop ts"
  proof (rule bindP_cong2)
    fix x rest assume r: "parse_primary (3 * length ts + 1) ts = Inr (x, rest)"
    then have "length rest \<le> length ts" using condition_outcomes(5) [of ts "3 * length ts + 1"] by simp
    then show "and_rest (3 * length ts + 1) x rest = and_loop x rest" unfolding and_loop_def by (intro fuel_irrelevant) auto
  qed (simp add: primary_def)
  finally show ?thesis .
qed

lemma and_loop_eq:
  "and_loop c ts = bindP (match_token KW_AND) (\<lambda>more.
     if more then bindP primary (\<lambda>r. and_loop (combine_conditions c r L_AND)) else returnP c) ts"
proof -
  have "and_loop c ts = bindP (match_token KW_AND) (\<lambda>more.
     if more then bindP (parse_primary (3 * length ts)) (\<lambda>r. and_rest (3 * length ts) (combine_conditions c r L_AND))
     else returnP c) ts"
    by (simp add: and_loop_def)
  also have "\<dots> = bindP (match_token KW_AND) (\<lambda>more.
     if more then bindP primary (\<lambda>r. and_loop (combine_conditions c r L_AND)) else returnP c) ts"
  proof (rule match_cong, rule bindP_cong2)
    fix us assume "check KW_AND ts" "us = tl ts"
    then have us: "length us < length ts" using tl_shorter by simp
    then show "parse_primary (3 * length ts) us = primary us" unfolding primary_def by (intro fuel_irrelevant) auto
    fix x rest assume r: "parse_primary (3 * length ts) us = Inr (x, rest)"
    then have "length rest \<le> length us" using condition_outcomes(5) [of us "3 * length ts"] us by simp
    then show "and_rest (3 * length ts) (combine_conditions c x L_AND) rest = and_loop (combine_conditions c x L_AND) rest"
      unfolding and_loop_def using us by (intro fuel_irrelevant) auto
  qed
  finally show ?thesis .
qed

lemma primary_eq:
  "primary ts = bindP (match_token LPAREN) (\<lambda>open.
     if open then bindP or_level (\<lambda>c. bindP (expect RPAREN (quoted '')'')) (\<lambda>_. returnP (set_paren c)))
     else parse_comparison) ts"
proof -
  have "primary ts = bindP (match_token LPAREN) (\<lambda>open.
     if open then bindP (parse_or (3 * length ts)) (\<lambda>c. bindP (expect RPAREN (quoted '')'')) (\<lambda>_. returnP (set_paren c)))
     else parse_comparison) ts"
    by (simp add: primary_def)
  also have "\<dots> = bindP (match_token LPAREN) (\<lambda>open.
     if open then bindP or_level (\<lambda>c. bindP (expect RPAREN (quoted '')'')) (\<lambda>_. returnP (set_paren c)))
     else parse_comparison) ts"
  proof (rule match_cong, rule bindP_cong2)
    fix us assume "check LPAREN ts" "us = tl ts"
    then have "length us < length ts" using tl_shorter by simp
    then show "parse_or (3 * length ts) us = or_level us" unfolding or_level_def by (intro fuel_irrelevant) auto
  qed simp
  finally show ?thesis .
qed

lemma parse_condition_level: "parse_condition ts = or_level ts"
  by (simp add: parse_condition_def or_level_def)

subsection \<open>Expressions and their tokens\<close>

datatype bexp = Cmp comparison | And bexp bexp | Or bexp bexp

definition is_cmp :: "bexp \<Rightarrow> bool" where
  "is_cmp e \<longleftrightarrow> (case e of Cmp _ \<Rightarrow> True | _ \<Rightarrow> False)"

definition is_or :: "bexp \<Rightarrow> bool" where
  "is_or e \<longleftrightarrow> (case e of Or _ _ \<Rightarrow> True | _ \<Rightarrow> False)"

lemma kind_simps [simp]:
  "is_cmp (Cmp c)" "\<not> is_cmp (And l r)" "\<not> is_cmp (Or l r)"
  "\<not> is_or (Cmp c)" "\<not> is_or (And l r)" "is_or (Or l r)"
  by (simp_all add: is_cmp_def is_or_def)

definition tk :: "token_type \<Rightarrow> string \<Rightarrow> token" where
  "tk ty v = token_of ty v 0"

lemma tk_simps [simp]: "tok_type (tk ty v) = ty" "tok_value (tk ty v) = v"
  by (simp_all add: tk_def token_of_def)

definition name_ok :: "string \<Rightarrow> bool" where
  \<comment> \<open>a word that is no keyword\<close>
  "name_ok n \<longleftrightarrow> word_ok n \<and> to_keyword n = IDENTIFIER"

definition operand_token :: "string \<Rightarrow> bool \<Rightarrow> token" where
  "operand_token s is_col =
     (if is_col then tk IDENTIFIER s else if number_ok s then tk INT_LITERAL s else tk STR_LITERAL s)"

definition operator_token :: "cond_op \<Rightarrow> token" where
  "operator_token op =
     (case op of EQ \<Rightarrow> tk OP_EQ ''=='' | NEQ \<Rightarrow> tk OP_NEQ ''!='' | LT \<Rightarrow> tk OP_LT ''<'' | GT \<Rightarrow> tk OP_GT ''>''
      | LTE \<Rightarrow> tk OP_LTE ''<='' | GTE \<Rightarrow> tk OP_GTE ''>='' | BETWEEN \<Rightarrow> tk KW_BETWEEN ''BETWEEN''
      | LIKE \<Rightarrow> tk KW_LIKE ''LIKE'')"

definition comparison_tokens :: "comparison \<Rightarrow> token list" where
  "comparison_tokens c =
     [operand_token (cmp_left c) (cmp_left_col c), operator_token (cmp_op c),
      operand_token (cmp_right c) (cmp_right_col c)]
     @ (if cmp_op c = BETWEEN then [tk KW_AND ''AND'', operand_token (cmp_right2 c) (cmp_right2_col c)] else [])"

definition comparison_ok :: "comparison \<Rightarrow> bool" where
  "comparison_ok c \<longleftrightarrow> (cmp_left_col c \<longrightarrow> name_ok (cmp_left c)) \<and> (cmp_right_col c \<longrightarrow> name_ok (cmp_right c))
     \<and> (if cmp_op c = BETWEEN then cmp_right2_col c \<longrightarrow> name_ok (cmp_right2 c)
        else cmp_right2 c = [] \<and> \<not> cmp_right2_col c)"

definition in_parens :: "bool \<Rightarrow> token list \<Rightarrow> token list" where
  "in_parens b ts = (if b then tk LPAREN ''('' # ts @ [tk RPAREN '')''] else ts)"

fun bexp_tokens :: "bexp \<Rightarrow> token list" where
  "bexp_tokens (Cmp c) = comparison_tokens c"
| "bexp_tokens (And l r) =
     in_parens (is_or l) (bexp_tokens l) @ tk KW_AND ''AND'' # in_parens (\<not> is_cmp r) (bexp_tokens r)"
| "bexp_tokens (Or l r) = bexp_tokens l @ tk KW_OR ''OR'' # in_parens (is_or r) (bexp_tokens r)"

fun bexp_ok :: "bexp \<Rightarrow> bool" where
  "bexp_ok (Cmp c) = comparison_ok c"
| "bexp_ok (And l r) = (bexp_ok l \<and> bexp_ok r)"
| "bexp_ok (Or l r) = (bexp_ok l \<and> bexp_ok r)"

definition paren_if :: "bool \<Rightarrow> condition \<Rightarrow> condition" where
  "paren_if b c = (if b then set_paren c else c)"

fun condition_of :: "bexp \<Rightarrow> condition" where
  \<comment> \<open>what the parser makes of the tokens of an expression\<close>
  "condition_of (Cmp c) = leaf c"
| "condition_of (And l r) =
     combine_conditions (paren_if (is_or l) (condition_of l)) (paren_if (\<not> is_cmp r) (condition_of r)) L_AND"
| "condition_of (Or l r) = combine_conditions (condition_of l) (paren_if (is_or r) (condition_of r)) L_OR"

subsection \<open>The parser inverts the printer\<close>

lemma check_Cons [simp]: "check ty (t # ts) \<longleftrightarrow> tok_type t \<noteq> END \<and> tok_type t = ty"
  by (simp add: check_def is_end_def)

lemma is_end_Cons [simp]: "is_end (t # ts) \<longleftrightarrow> tok_type t = END"
  by (simp add: is_end_def)

lemma match_simps [simp]:
  "check ty ts \<Longrightarrow> match_token ty ts = Inr (True, tl ts)"
  "\<not> check ty ts \<Longrightarrow> match_token ty ts = Inr (False, ts)"
  by (simp_all add: match_token_def)

lemma peek_Cons [simp]: "tok_type t \<noteq> END \<Longrightarrow> peek (t # ts) = Inr (t, t # ts)"
  by (simp add: peek_def)

lemma advance_Cons [simp]: "tok_type t \<noteq> END \<Longrightarrow> advance (t # ts) = Inr (t, ts)"
  by (simp add: advance_def)

lemma expect_Cons [simp]: "tok_type t = ty \<Longrightarrow> ty \<noteq> END \<Longrightarrow> expect ty ctx (t # ts) = Inr (t, ts)"
  by (simp add: expect_def)

lemma parse_operand_token [simp]: "parse_operand (operand_token s c # ts) = Inr ((s, c), ts)"
  by (simp add: parse_operand_def operand_token_def)

lemma operator_token [simp]:
  "operator_of (tok_type (operator_token op)) = Some op" "tok_type (operator_token op) \<noteq> END"
  by (cases op; simp add: operator_token_def operator_of_def)+

lemma parse_comparison_tokens:
  assumes "comparison_ok c"
  shows "parse_comparison (comparison_tokens c @ ts) = Inr (leaf c, ts)"
  using assms
  by (cases c; cases "cmp_op c = BETWEEN") (auto simp: parse_comparison_def comparison_tokens_def comparison_ok_def)

lemma primary_comparison:
  assumes "comparison_ok c"
  shows "primary (comparison_tokens c @ ts) = Inr (leaf c, ts)"
proof -
  have "\<not> check LPAREN (comparison_tokens c @ ts)" by (simp add: comparison_tokens_def operand_token_def)
  then show ?thesis using parse_comparison_tokens [OF assms] by (simp add: primary_eq)
qed

lemma loops_stop [simp]:
  "\<not> check KW_AND ts \<Longrightarrow> and_loop c ts = Inr (c, ts)"
  "\<not> check KW_OR ts \<Longrightarrow> or_loop c ts = Inr (c, ts)"
  by (simp_all add: and_loop_eq or_loop_eq)

lemma loops_go:
  "primary ts = Inr (r, rest) \<Longrightarrow> and_loop c (tk KW_AND v # ts) = and_loop (combine_conditions c r L_AND) rest"
  "and_level ts = Inr (r, rest) \<Longrightarrow> or_loop c (tk KW_OR v # ts) = or_loop (combine_conditions c r L_OR) rest"
  by (simp_all add: and_loop_eq [of c "tk KW_AND v # ts"] or_loop_eq [of c "tk KW_OR v # ts"])

lemma levels:
  assumes "bexp_ok e"
  shows "primary (in_parens (\<not> is_cmp e) (bexp_tokens e) @ ts) = Inr (paren_if (\<not> is_cmp e) (condition_of e), ts)" (is "?P ts")
    and "and_level (in_parens (is_or e) (bexp_tokens e) @ ts) = and_loop (paren_if (is_or e) (condition_of e)) ts" (is "?A ts")
    and "\<not> check KW_AND ts \<Longrightarrow> or_level (bexp_tokens e @ ts) = or_loop (condition_of e) ts" (is "_ \<Longrightarrow> ?O ts")
proof -
  have parens: "primary (in_parens True (bexp_tokens e) @ ts) = Inr (paren_if True (condition_of e), ts)"
    if "\<And>ts. \<not> check KW_AND ts \<Longrightarrow> or_level (bexp_tokens e @ ts) = or_loop (condition_of e) ts" for e ts
    using that [of "tk RPAREN '')'' # ts"] by (simp add: primary_eq in_parens_def paren_if_def)
  have "(\<forall>ts. ?P ts) \<and> (\<forall>ts. ?A ts) \<and> (\<forall>ts. \<not> check KW_AND ts \<longrightarrow> ?O ts)"
    using assms
  proof (induction e)
    case (Cmp c)
    then show ?case using primary_comparison
      by (simp add: in_parens_def paren_if_def and_level_eq or_level_eq bindP_def)
  next
    case (And l r)
    then have P: "primary (in_parens (\<not> is_cmp r) (bexp_tokens r) @ ts) = Inr (paren_if (\<not> is_cmp r) (condition_of r), ts)"
      and A: "and_level (in_parens (is_or l) (bexp_tokens l) @ ts) = and_loop (paren_if (is_or l) (condition_of l)) ts" for ts
      by simp_all
    have a: "and_level (bexp_tokens (And l r) @ ts) = and_loop (condition_of (And l r)) ts" for ts
      using A [of "tk KW_AND ''AND'' # in_parens (\<not> is_cmp r) (bexp_tokens r) @ ts"] loops_go(1) [OF P] by simp
    then have o: "\<not> check KW_AND ts \<Longrightarrow> or_level (bexp_tokens (And l r) @ ts) = or_loop (condition_of (And l r)) ts" for ts
      by (simp add: or_level_eq bindP_def)
    show ?case using parens [of "And l r", OF o] a o by (simp add: in_parens_def paren_if_def)
  next
    case (Or l r)
    then have O: "\<not> check KW_AND ts \<Longrightarrow> or_level (bexp_tokens l @ ts) = or_loop (condition_of l) ts"
      and A: "and_level (in_parens (is_or r) (bexp_tokens r) @ ts) = and_loop (paren_if (is_or r) (condition_of r)) ts" for ts
      by simp_all
    have o: "or_level (bexp_tokens (Or l r) @ ts) = or_loop (condition_of (Or l r)) ts" if "\<not> check KW_AND ts" for ts
      using O [of "tk KW_OR ''OR'' # in_parens (is_or r) (bexp_tokens r) @ ts"] A [of ts] that
      by (simp add: loops_go(2))
    have p: "primary (in_parens True (bexp_tokens (Or l r)) @ ts) = Inr (paren_if True (condition_of (Or l r)), ts)" for ts
      by (rule parens) (rule o)
    show ?case using p o by (simp add: and_level_eq bindP_def)
  qed
  then show "?P ts" "?A ts" "\<not> check KW_AND ts \<Longrightarrow> ?O ts" by blast+
qed

lemma parse_condition_tokens:
  assumes "bexp_ok e" and "\<not> check KW_AND ts" and "\<not> check KW_OR ts"
  shows "parse_condition (bexp_tokens e @ ts) = Inr (condition_of e, ts)"
  using levels(3) [OF assms(1,2)] assms(3) by (simp add: parse_condition_level)

subsection \<open>Truth\<close>

fun holds :: "(comparison \<Rightarrow> bool) \<Rightarrow> condition \<Rightarrow> bool" where
  \<comment> \<open>\<open>evaluate_condition\<close> where no comparison throws\<close>
  "holds b (Condition c l None None p) = b c"
| "holds b (Condition c l (Some n) None p) =
     (case l of L_AND \<Rightarrow> b c \<and> holds b n | L_OR \<Rightarrow> b c \<or> holds b n | L_NONE \<Rightarrow> b c)"
| "holds b (Condition c l None (Some t) p) = (if l = L_AND then holds b t \<and> False else holds b t \<or> False)"
| "holds b (Condition c l (Some n) (Some t) p) =
     (if l = L_AND then holds b t \<and> holds b n else holds b t \<or> holds b n)"

fun truth :: "(comparison \<Rightarrow> bool) \<Rightarrow> bexp \<Rightarrow> bool" where
  "truth b (Cmp c) = b c"
| "truth b (And l r) = (truth b l \<and> truth b r)"
| "truth b (Or l r) = (truth b l \<or> truth b r)"

definition connect :: "logical_op \<Rightarrow> bool \<Rightarrow> bool \<Rightarrow> bool" where
  "connect op x y = (if op = L_AND then x \<and> y else x \<or> y)"

fun uniform :: "logical_op \<Rightarrow> condition \<Rightarrow> bool" where
  \<comment> \<open>a chain of plain comparisons under one operator\<close>
  "uniform op (Condition c l None t p) = (t = None)"
| "uniform op (Condition c l (Some n) t p) = (t = None \<and> l = op \<and> uniform op n)"

definition tree_like :: "logical_op \<Rightarrow> condition \<Rightarrow> bool" where
  "tree_like op c \<longleftrightarrow> cond_paren c \<or> cond_left_tree c \<noteq> None \<or> (cond_next c \<noteq> None \<and> cond_logical c \<noteq> op)"

fun flat :: "logical_op \<Rightarrow> bexp \<Rightarrow> bool" where
  "flat op (Cmp c) = True"
| "flat op (And l r) = (op = L_AND \<and> flat op l \<and> is_cmp r)"
| "flat op (Or l r) = (op = L_OR \<and> flat op l \<and> is_cmp r)"

fun first_operand :: "logical_op \<Rightarrow> bexp \<Rightarrow> bexp" where
  \<comment> \<open>of a chain of \<open>op\<close>\<close>
  "first_operand op (Cmp c) = Cmp c"
| "first_operand op (And l r) = (if op = L_AND then first_operand op l else And l r)"
| "first_operand op (Or l r) = (if op = L_OR then first_operand op l else Or l r)"

fun chain_safe :: "bexp \<Rightarrow> bool" where
  \<comment> \<open>a chain whose first operand is a comparison has compound operands at its end only\<close>
  "chain_safe (Cmp c) = True"
| "chain_safe (And l r) =
     (chain_safe l \<and> chain_safe r \<and> (flat L_AND l \<or> \<not> is_cmp (first_operand L_AND l)))"
| "chain_safe (Or l r) =
     (chain_safe l \<and> chain_safe r \<and> (flat L_OR l \<or> \<not> is_cmp (first_operand L_OR l)))"

lemma holds_set_paren [simp]: "holds b (set_paren c) = holds b c"
  by (cases "(b, c)" rule: holds.cases) simp_all

lemma holds_paren_if [simp]: "holds b (paren_if x c) = holds b c"
  by (simp add: paren_if_def)

lemma holds_append_last:
  assumes "uniform op c" and "op \<noteq> L_NONE"
  shows "holds b (append_last op r c) = connect op (holds b c) (holds b r)"
  using assms
  by (induction op r c rule: append_last.induct)
    (auto simp: connect_def split: logical_op.splits)

lemma combine_flat:
  assumes "uniform op l" and "\<not> cond_paren l" and "op \<noteq> L_NONE"
  shows "holds b (combine_conditions l r op) = connect op (holds b l) (holds b r)"
proof (cases "cond_next l")
  case None
  with assms show ?thesis by (cases l) (auto simp: combine_conditions_def connect_def split: logical_op.splits)
next
  case (Some n)
  with assms have "combine_conditions l r op = append_last op r l"
    by (cases l) (auto simp: combine_conditions_def)
  then show ?thesis using holds_append_last assms by simp
qed

lemma combine_tree_eq: "tree_like op l \<Longrightarrow> combine_conditions l r op = Condition unset op (Some r) (Some l) False"
  by (auto simp: tree_like_def combine_conditions_def)

lemma combine_tree: "tree_like op l \<Longrightarrow> holds b (combine_conditions l r op) = connect op (holds b l) (holds b r)"
  by (simp add: combine_tree_eq connect_def)

lemma uniform_append_last:
  "uniform op c \<Longrightarrow> uniform op (append_last op (leaf d) c) \<and> cond_paren (append_last op r c) = cond_paren c"
  by (induction op "leaf d" c rule: append_last.induct) (auto simp: leaf_def elim: append_last.elims)

lemma uniform_combine:
  assumes "uniform op l" and "\<not> cond_paren l" and "op \<noteq> L_NONE"
  shows "uniform op (combine_conditions l (leaf d) op) \<and> \<not> cond_paren (combine_conditions l (leaf d) op)"
proof (cases "cond_next l")
  case None
  with assms show ?thesis by (cases l) (auto simp: combine_conditions_def leaf_def)
next
  case (Some n)
  with assms have "combine_conditions l (leaf d) op = append_last op (leaf d) l"
    by (cases l) (auto simp: combine_conditions_def)
  then show ?thesis using uniform_append_last assms by simp
qed

lemma flat_uniform: "flat op e \<Longrightarrow> uniform op (condition_of e) \<and> \<not> cond_paren (condition_of e) \<and> (op = L_AND \<longrightarrow> \<not> is_or e)"
proof (induction op e rule: flat.induct)
  case (2 op l r)
  then have f: "op = L_AND" "flat L_AND l" "is_cmp r" by auto
  then obtain d where "r = Cmp d" by (cases r) auto
  moreover have "uniform L_AND (condition_of l)" "\<not> cond_paren (condition_of l)" "\<not> is_or l" using 2(1) f by auto
  ultimately show ?case using uniform_combine [of L_AND "condition_of l" d] f by (simp add: paren_if_def)
next
  case (3 op l r)
  then have f: "op = L_OR" "flat L_OR l" "is_cmp r" by auto
  then obtain d where "r = Cmp d" by (cases r) auto
  moreover have "uniform L_OR (condition_of l)" "\<not> cond_paren (condition_of l)" using 3(1) f by auto
  ultimately show ?case using uniform_combine [of L_OR "condition_of l" d] f by (simp add: paren_if_def)
qed (simp add: leaf_def)

lemma combine_other: "op \<noteq> op' \<Longrightarrow> tree_like op' (combine_conditions l r op)"
proof -
  assume "op \<noteq> op'"
  then show ?thesis
    by (cases l; cases "cond_next l") (auto simp: combine_conditions_def tree_like_def)
qed

lemma combine_tree_like: "tree_like op l \<Longrightarrow> tree_like op (combine_conditions l r op)"
  by (simp add: combine_tree_eq) (simp add: tree_like_def)

lemma set_paren_tree_like: "tree_like op (set_paren c)"
  by (cases c) (simp add: tree_like_def)

lemma first_tree_like:
  "\<not> is_cmp (first_operand L_AND e) \<Longrightarrow> tree_like L_AND (paren_if (is_or e) (condition_of e))"
  "\<not> is_cmp (first_operand L_OR e) \<Longrightarrow> tree_like L_OR (condition_of e)"
proof (induction e)
  case (And l r)
  case 1
  then show ?case using And(1) by (simp add: paren_if_def combine_tree_like)
next
  case (And l r)
  case 2
  then show ?case by (simp add: combine_other)
next
  case (Or l r)
  case 1
  then show ?case by (simp add: paren_if_def set_paren_tree_like)
next
  case (Or l r)
  case 2
  then show ?case using Or(2) by (simp add: combine_tree_like)
qed simp_all

lemma condition_truth:
  assumes "chain_safe e"
  shows "holds b (condition_of e) = truth b e"
  using assms
proof (induction e)
  case (Cmp c)
  then show ?case by (simp add: leaf_def)
next
  case (And l r)
  have "holds b (condition_of (And l r)) = connect L_AND (holds b (condition_of l)) (holds b (condition_of r))"
  proof (cases "flat L_AND l")
    case True
    then show ?thesis using flat_uniform [OF True] combine_flat [of L_AND "condition_of l"] by (simp add: paren_if_def)
  next
    case False
    then have "tree_like L_AND (paren_if (is_or l) (condition_of l))" using And.prems by (intro first_tree_like) simp
    then show ?thesis using combine_tree by simp
  qed
  then show ?case using And by (simp add: connect_def)
next
  case (Or l r)
  have "holds b (condition_of (Or l r)) = connect L_OR (holds b (condition_of l)) (holds b (condition_of r))"
  proof (cases "flat L_OR l")
    case True
    then show ?thesis using flat_uniform [OF True] combine_flat [of L_OR "condition_of l"] by simp
  next
    case False
    then have "tree_like L_OR (condition_of l)" using Or.prems by (intro first_tree_like) simp
    then show ?thesis using combine_tree by simp
  qed
  then show ?case using Or by (simp add: connect_def)
qed

end
