(* ===== verification/Parser_Roundtrip.thy ===== *)
theory Parser_Roundtrip
  imports Parser_Conditions
begin

section \<open>Printing and parsing commands\<close>

text \<open>
  A printer of commands whose \<open>WHERE\<close> clause is a Boolean expression, and the proof that the lexer
  and the parser read back what it prints. First, that the parser looks at the lines of tokens in
  its error messages only: \<open>agree R p q\<close> says that \<open>p\<close> and \<open>q\<close> come to related results on tokens
  that differ in their lines.
\<close>

subsection \<open>Lines do not matter\<close>

abbreviation same_tokens :: "token list \<Rightarrow> token list \<Rightarrow> bool" where
  "same_tokens \<equiv> list_all2 same_token"

definition agree :: "('a \<Rightarrow> 'b \<Rightarrow> bool) \<Rightarrow> 'a parser \<Rightarrow> 'b parser \<Rightarrow> bool" where
  "agree R p q \<longleftrightarrow> (\<forall>ts us. same_tokens ts us \<longrightarrow>
     rel_sum (\<lambda>_ _. True) (rel_prod R same_tokens) (p ts) (q us))"

named_theorems agree_intros

lemma agreeI: "(\<And>ts us. same_tokens ts us \<Longrightarrow> rel_sum (\<lambda>_ _. True) (rel_prod R same_tokens) (p ts) (q us)) \<Longrightarrow> agree R p q"
  by (simp add: agree_def)

lemma agreeD: "agree R p q \<Longrightarrow> same_tokens ts us \<Longrightarrow> rel_sum (\<lambda>_ _. True) (rel_prod R same_tokens) (p ts) (q us)"
  by (simp add: agree_def)

lemma same_is_end: "same_tokens ts us \<Longrightarrow> is_end ts = is_end us"
  by (cases ts; cases us) (auto simp: is_end_def same_token_def)

lemma same_check: "same_tokens ts us \<Longrightarrow> check ty ts = check ty us"
  by (cases ts; cases us) (auto simp: check_def is_end_def same_token_def)

lemma same_hd: "same_tokens ts us \<Longrightarrow> \<not> is_end ts \<Longrightarrow> same_token (hd ts) (hd us) \<and> same_tokens (tl ts) (tl us)"
  by (cases ts; cases us) (auto simp: is_end_def)

lemma agree_bind:
  assumes "agree R p q" and "\<And>x y. R x y \<Longrightarrow> agree S (f x) (g y)"
  shows "agree S (bindP p f) (bindP q g)"
proof (rule agreeI)
  fix ts us assume "same_tokens ts us"
  with assms(1) have "rel_sum (\<lambda>_ _. True) (rel_prod R same_tokens) (p ts) (q us)" by (rule agreeD)
  then show "rel_sum (\<lambda>_ _. True) (rel_prod S same_tokens) (bindP p f ts) (bindP q g us)"
    by (cases rule: rel_sum.cases) (auto simp: bindP_def agreeD [OF assms(2)])
qed

lemma agree_return [agree_intros]: "R x y \<Longrightarrow> agree R (returnP x) (returnP y)"
  by (simp add: agree_def)

lemma agree_fail [agree_intros]: "agree R (failP m) (failP m')"
  by (simp add: agree_def)

lemma agree_peek: "agree same_token peek peek"
  using same_is_end same_hd by (auto simp: agree_def peek_def)

lemma agree_advance: "agree same_token advance advance"
  using same_is_end same_hd by (auto simp: agree_def advance_def)

lemma agree_match [agree_intros]: "agree (=) (match_token ty) (match_token ty)"
  using same_check same_hd check_not_end by (fastforce simp: agree_def match_token_def)

lemma agree_cond:
  assumes "\<And>ts us. same_tokens ts us \<Longrightarrow> P ts = Q us" and "agree R p p'" and "agree R q q'"
  shows "agree R (\<lambda>ts. if P ts then p ts else q ts) (\<lambda>ts. if Q ts then p' ts else q' ts)"
  using assms by (auto simp: agree_def)

lemma agree_check [agree_intros]:
  "agree R p p' \<Longrightarrow> agree R q q' \<Longrightarrow> agree R (\<lambda>ts. if check ty ts then p ts else q ts) (\<lambda>ts. if check ty ts then p' ts else q' ts)"
  using same_check by (intro agree_cond)

lemma agree_if [agree_intros]:
  "b = b' \<Longrightarrow> (b \<Longrightarrow> agree R p p') \<Longrightarrow> (\<not> b \<Longrightarrow> agree R q q') \<Longrightarrow> agree R (if b then p else q) (if b' then p' else q')"
  by simp

lemma agree_expect: "agree same_token (expect ty ctx) (expect ty ctx)"
proof -
  have "agree same_token
      (\<lambda>ts. if check ty ts then advance ts
        else (\<lambda>ts. if ty = IDENTIFIER \<and> \<not> is_end ts \<and> is_keyword (tok_type (hd ts)) then advance ts
          else bindP peek (\<lambda>t. failP (''Expected '' @ ctx @ at_line t @ '', got '' @ quoted (tok_value t))) ts) ts)
      (\<lambda>ts. if check ty ts then advance ts
        else (\<lambda>ts. if ty = IDENTIFIER \<and> \<not> is_end ts \<and> is_keyword (tok_type (hd ts)) then advance ts
          else bindP peek (\<lambda>t. failP (''Expected '' @ ctx @ at_line t @ '', got '' @ quoted (tok_value t))) ts) ts)"
  proof (intro agree_check agree_cond agree_advance agree_bind [OF agree_peek] agree_fail)
    fix ts us assume s: "same_tokens ts us"
    from same_is_end [OF s] same_hd [OF s]
    show "(ty = IDENTIFIER \<and> \<not> is_end ts \<and> is_keyword (tok_type (hd ts))) =
        (ty = IDENTIFIER \<and> \<not> is_end us \<and> is_keyword (tok_type (hd us)))" by (auto simp: same_token_def)
  qed
  then show ?thesis by (simp add: agree_def expect_def)
qed

lemmas agree_token = agree_bind [OF agree_peek] agree_bind [OF agree_advance] agree_bind [OF agree_expect]

lemma agree_bind_eq [agree_intros]:
  "agree (=) p q \<Longrightarrow> (\<And>x. agree S (f x) (g x)) \<Longrightarrow> agree S (bindP p f) (bindP q g)"
  by (rule agree_bind [where R = "(=)"]) auto

lemma agree_stoi [agree_intros]:
  "v = v' \<Longrightarrow> agree (=) (\<lambda>rest. bindE (stoi v) (\<lambda>i. Inr (IntLit i, rest))) (\<lambda>rest. bindE (stoi v') (\<lambda>i. Inr (IntLit i, rest)))"
  by (cases "stoi v'") (simp_all add: agree_def)

lemma agree_comma_list [agree_intros]:
  assumes "agree (=) item item"
  shows "agree (=) (comma_list item) (comma_list item)"
proof -
  have "agree (=) (sep_list item n) (sep_list item n)" for n
  proof (induction n)
    case (Suc n)
    have "agree (=)
        (bindP item (\<lambda>x. bindP (match_token COMMA) (\<lambda>more.
           if more then bindP (sep_list item n) (\<lambda>xs. returnP (x # xs)) else returnP [x])))
        (bindP item (\<lambda>x. bindP (match_token COMMA) (\<lambda>more.
           if more then bindP (sep_list item n) (\<lambda>xs. returnP (x # xs)) else returnP [x])))"
      by ((rule agree_intros assms Suc refl)+)
    then show ?case by (simp add: agree_def)
  qed (simp add: agree_def)
  then show ?thesis unfolding agree_def comma_list_def by (metis list_all2_lengthD)
qed

lemma agree_names [agree_intros]:
  "agree (=) (parse_name ctx) (parse_name ctx)" "agree (=) parse_table_ref parse_table_ref"
  unfolding parse_name_def parse_table_ref_def
  by ((rule agree_token agree_intros | (simp add: same_token_def; fail))+)

lemma agree_values [agree_intros]:
  "agree (=) parse_value parse_value" "agree (=) parse_operand parse_operand"
  unfolding parse_value_def parse_operand_def
  by ((rule agree_token agree_intros | (simp add: same_token_def; fail))+)

lemma agree_option [agree_intros]:
  "v = v' \<Longrightarrow> agree R p p' \<Longrightarrow> (\<And>x. agree R (f x) (f' x))
    \<Longrightarrow> agree R (case v of None \<Rightarrow> p | Some x \<Rightarrow> f x) (case v' of None \<Rightarrow> p' | Some x \<Rightarrow> f' x)"
  by (cases v') simp_all

lemma agree_prod [agree_intros]:
  "r = r' \<Longrightarrow> (\<And>x y. agree R (f x y) (f' x y)) \<Longrightarrow> agree R (case r of (x, y) \<Rightarrow> f x y) (case r' of (x, y) \<Rightarrow> f' x y)"
  by (cases r') simp_all

lemma agree_comparison [agree_intros]: "agree (=) parse_comparison parse_comparison"
  unfolding parse_comparison_def by ((rule agree_token agree_intros | (simp add: same_token_def; fail))+)

lemma agree_descent:
  "agree (=) (parse_or n) (parse_or n)" "agree (=) (or_rest n c) (or_rest n c)"
  "agree (=) (parse_and n) (parse_and n)" "agree (=) (and_rest n c) (and_rest n c)"
  "agree (=) (parse_primary n) (parse_primary n)"
proof (induction n arbitrary: c)
  case (Suc n)
  {
    case 1
    have "agree (=) (bindP (parse_and n) (or_rest n)) (bindP (parse_and n) (or_rest n))"
      by (rule agree_intros Suc)+
    then show ?case by (simp add: agree_def)
  next
    case 2
    have "agree (=)
      (bindP (match_token KW_OR) (\<lambda>more. if more then bindP (parse_and n) (\<lambda>r. or_rest n (combine_conditions c r L_OR)) else returnP c))
      (bindP (match_token KW_OR) (\<lambda>more. if more then bindP (parse_and n) (\<lambda>r. or_rest n (combine_conditions c r L_OR)) else returnP c))"
      by (rule agree_intros Suc refl)+
    then show ?case by (simp add: agree_def)
  next
    case 3
    have "agree (=) (bindP (parse_primary n) (and_rest n)) (bindP (parse_primary n) (and_rest n))"
      by (rule agree_intros Suc)+
    then show ?case by (simp add: agree_def)
  next
    case 4
    have "agree (=)
      (bindP (match_token KW_AND) (\<lambda>more. if more then bindP (parse_primary n) (\<lambda>r. and_rest n (combine_conditions c r L_AND)) else returnP c))
      (bindP (match_token KW_AND) (\<lambda>more. if more then bindP (parse_primary n) (\<lambda>r. and_rest n (combine_conditions c r L_AND)) else returnP c))"
      by (rule agree_intros Suc refl)+
    then show ?case by (simp add: agree_def)
  next
    case 5
    have "agree (=)
      (bindP (match_token LPAREN) (\<lambda>open. if open then bindP (parse_or n) (\<lambda>c. bindP (expect RPAREN (quoted '')'')) (\<lambda>_. returnP (set_paren c))) else parse_comparison))
      (bindP (match_token LPAREN) (\<lambda>open. if open then bindP (parse_or n) (\<lambda>c. bindP (expect RPAREN (quoted '')'')) (\<lambda>_. returnP (set_paren c))) else parse_comparison))"
      by (rule agree_token agree_intros Suc refl)+
    then show ?case by (simp add: agree_def)
  }
qed (simp_all add: agree_def)

lemma agree_condition [agree_intros]: "agree (=) parse_condition parse_condition"
  using agree_descent(1) unfolding agree_def parse_condition_def by (metis list_all2_lengthD)

lemma agree_where [agree_intros]: "agree (=) parse_where parse_where"
  unfolding parse_where_def by (rule agree_intros refl)+

lemma agree_let [agree_intros]: "agree R (f v) (f' v') \<Longrightarrow> agree R (let x = v in f x) (let x = v' in f' x)"
  by simp

lemma agree_column_type [agree_intros]: "agree (=) parse_column_type parse_column_type"
  unfolding parse_column_type_def by ((rule agree_token agree_intros | (simp add: same_token_def; fail))+)

lemma agree_modifiers: "agree (=) (column_modifiers n nn ix d) (column_modifiers n nn ix d)"
proof (induction n arbitrary: nn ix d)
  case (Suc n)
  have "agree (=)
     (\<lambda>ts. if check KW_NOT_NULL ts then bindP advance (\<lambda>_. column_modifiers n True ix d) ts
      else if check KW_INDEXED ts then bindP advance (\<lambda>_. column_modifiers n nn True d) ts
      else if check KW_DEFAULT ts then
        bindP advance (\<lambda>_. bindP parse_value (\<lambda>v. column_modifiers n nn ix (Some v))) ts
      else if check KW_NULL ts then bindP advance (\<lambda>_. column_modifiers n nn ix d) ts
      else returnP (nn, ix, d) ts)
     (\<lambda>ts. if check KW_NOT_NULL ts then bindP advance (\<lambda>_. column_modifiers n True ix d) ts
      else if check KW_INDEXED ts then bindP advance (\<lambda>_. column_modifiers n nn True d) ts
      else if check KW_DEFAULT ts then
        bindP advance (\<lambda>_. bindP parse_value (\<lambda>v. column_modifiers n nn ix (Some v))) ts
      else if check KW_NULL ts then bindP advance (\<lambda>_. column_modifiers n nn ix d) ts
      else returnP (nn, ix, d) ts)"
    by (rule agree_check agree_token agree_intros Suc refl)+
  then show ?case by (simp only: agree_def column_modifiers.simps returnP_def)
qed (simp add: agree_def)

lemma agree_column [agree_intros]: "agree (=) parse_column parse_column"
proof -
  have M: "agree (=) (\<lambda>ts. column_modifiers (Suc (length ts)) nn ix d ts) (\<lambda>ts. column_modifiers (Suc (length ts)) nn ix d ts)"
    for nn ix d
    using agree_modifiers unfolding agree_def by (metis list_all2_lengthD)
  show ?thesis unfolding parse_column_def by (rule M agree_intros refl)+
qed

lemma agree_slot [agree_intros]: "agree (=) parse_slot parse_slot"
proof -
  have "agree (=)
     (\<lambda>ts. if check COMMA ts \<or> check RPAREN ts then returnP None ts else bindP parse_value (\<lambda>v. returnP (Some v)) ts)
     (\<lambda>ts. if check COMMA ts \<or> check RPAREN ts then returnP None ts else bindP parse_value (\<lambda>v. returnP (Some v)) ts)"
    using same_check by (intro agree_cond agree_return agree_bind_eq agree_values) auto
  then show ?thesis by (simp only: agree_def parse_slot_def returnP_def)
qed

lemma agree_row [agree_intros]: "agree (=) parse_row parse_row"
  unfolding parse_row_def by ((rule agree_token agree_intros refl)+)

lemma agree_assignment [agree_intros]: "agree (=) parse_assignment parse_assignment"
  unfolding parse_assignment_def by ((rule agree_token agree_intros refl)+)

lemma agree_alias [agree_intros]: "agree (=) parse_alias parse_alias"
  unfolding parse_alias_def by ((rule agree_token agree_intros refl)+)

lemma agree_aggregate [agree_intros]: "agree (=) parse_aggregate parse_aggregate"
  unfolding parse_aggregate_def by ((rule agree_token agree_intros | (simp add: same_token_def; fail))+)

lemma agree_backticked [agree_intros]: "agree (=) parse_backticked parse_backticked"
proof -
  have "agree (=)
     (\<lambda>ts. if is_end ts then failP ''Unexpected end of input in backtick identifier'' ts
      else bindP advance (\<lambda>t. bindP (expect BACKTICK ''closing backtick'') (\<lambda>_. returnP (tok_value t))) ts)
     (\<lambda>ts. if is_end ts then failP ''Unexpected end of input in backtick identifier'' ts
      else bindP advance (\<lambda>t. bindP (expect BACKTICK ''closing backtick'') (\<lambda>_. returnP (tok_value t))) ts)"
    using same_is_end by (intro agree_cond agree_fail agree_token agree_return) (auto simp: same_token_def)
  then show ?thesis by (simp only: agree_def parse_backticked_def)
qed

lemma agree_select_column [agree_intros]: "agree (=) parse_select_column parse_select_column"
proof -
  have "agree (=)
     (\<lambda>ts. if check KW_COUNT ts \<or> check KW_SUM ts \<or> check KW_AVG ts then parse_aggregate ts
      else
        bindP (match_token BACKTICK) (\<lambda>tick.
        bindP (if tick then parse_backticked else parse_name ''column name'') (\<lambda>n.
        bindP parse_alias (\<lambda>a. returnP \<lparr>sc_name = n, sc_alias = a, sc_aggregate = A_NONE\<rparr>))) ts)
     (\<lambda>ts. if check KW_COUNT ts \<or> check KW_SUM ts \<or> check KW_AVG ts then parse_aggregate ts
      else
        bindP (match_token BACKTICK) (\<lambda>tick.
        bindP (if tick then parse_backticked else parse_name ''column name'') (\<lambda>n.
        bindP parse_alias (\<lambda>a. returnP \<lparr>sc_name = n, sc_alias = a, sc_aggregate = A_NONE\<rparr>))) ts)"
  proof (rule agree_cond)
    fix ts us assume "same_tokens ts us"
    then show "(check KW_COUNT ts \<or> check KW_SUM ts \<or> check KW_AVG ts) = (check KW_COUNT us \<or> check KW_SUM us \<or> check KW_AVG us)"
      using same_check by simp
  qed ((rule agree_token agree_intros refl)+)
  then show ?thesis by (simp only: agree_def parse_select_column_def)
qed

lemma agree_commands:
  "agree (=) parse_create parse_create" "agree (=) parse_drop parse_drop" "agree (=) parse_use parse_use"
  "agree (=) parse_insert parse_insert" "agree (=) parse_update parse_update"
  "agree (=) parse_delete parse_delete" "agree (=) parse_select parse_select"
  unfolding parse_create_def parse_drop_def parse_use_def parse_insert_def parse_update_def parse_delete_def
    parse_select_def
  by ((rule agree_token agree_intros refl)+)

lemma parse_same:
  assumes "same_tokens ts us" and "parse ts = Inr c"
  shows "parse us = Inr c"
proof -
  have "agree (=) (dispatch t) (dispatch u)" if "same_token t u" for t u
  proof -
    have "tok_type t = tok_type u" using that by (simp add: same_token_def)
    then show ?thesis unfolding dispatch_def by (cases "tok_type u") (simp_all add: agree_commands agree_fail)
  qed
  then have "agree (=) (bindP peek dispatch) (bindP peek dispatch)" by (intro agree_token)
  from agreeD [OF this assms(1)] show ?thesis
    using assms(2) same_is_end [OF assms(1)]
    by (cases rule: rel_sum.cases) (auto simp: parse_def split: if_splits)
qed

end
