(* ===== verification/Parser_Print.thy ===== *)
theory Parser_Print
  imports Parser_Roundtrip
begin

section \<open>The parser inverts the printer\<close>

text \<open>
  The tokens of a command, and \<open>parse_printed\<close>: for every command whose names are words and no
  keywords, whose integers are not negative and whose lists are not empty where the grammar wants an
  item, the parser reads its tokens back, up to what \<open>condition_of\<close> makes of the \<open>WHERE\<close> clause;
  \<open>parse_printed_text\<close> goes through the text and the lexer.
\<close>

subsection \<open>Tokens of commands\<close>

definition table_tokens :: "string \<Rightarrow> string \<Rightarrow> token list" where
  "table_tokens d t = (if d = [] then [tk IDENTIFIER t] else [tk IDENTIFIER d, tk DOT ''.'', tk IDENTIFIER t])"

fun comma_sep :: "token list list \<Rightarrow> token list" where
  "comma_sep [] = []"
| "comma_sep [x] = x"
| "comma_sep (x # xs) = x @ tk COMMA '','' # comma_sep xs"

fun literal_token :: "literal \<Rightarrow> token" where
  "literal_token NullLit = tk KW_NULL ''NULL''"
| "literal_token (IntLit i) = tk INT_LITERAL (digits_of_nat (nat (sint i)))"
| "literal_token (StrLit s) = tk STR_LITERAL s"

fun literal_ok :: "literal \<Rightarrow> bool" where
  "literal_ok (IntLit i) \<longleftrightarrow> 0 \<le> sint i"
| "literal_ok _ \<longleftrightarrow> True"

definition column_tokens :: "col_spec \<Rightarrow> token list" where
  "column_tokens c =
     [tk IDENTIFIER (cs_name c), tk IDENTIFIER (case cs_type c of T_INT \<Rightarrow> ''INT'' | T_STRING \<Rightarrow> ''STRING'')]
     @ (case cs_modifier c of M_NONE \<Rightarrow> [] | M_NOT_NULL \<Rightarrow> [tk KW_NOT_NULL ''NOT_NULL''] | M_INDEXED \<Rightarrow> [tk KW_INDEXED ''INDEXED''])
     @ (case cs_default c of None \<Rightarrow> [] | Some v \<Rightarrow> [tk KW_DEFAULT ''DEFAULT'', literal_token v])"

definition slot_tokens :: "literal option \<Rightarrow> token list" where
  "slot_tokens v = (case v of None \<Rightarrow> [] | Some l \<Rightarrow> [literal_token l])"

definition in_list :: "token list list \<Rightarrow> token list" where
  "in_list xs = tk LPAREN ''('' # comma_sep xs @ [tk RPAREN '')'']"

definition assignment_tokens :: "string \<times> literal \<Rightarrow> token list" where
  "assignment_tokens a = [tk IDENTIFIER (fst a), tk OP_ASSIGN ''='', literal_token (snd a)]"

definition alias_tokens :: "string \<Rightarrow> token list" where
  "alias_tokens a = (if a = [] then [] else [tk KW_AS ''AS'', tk IDENTIFIER a])"

definition select_column_tokens :: "select_column \<Rightarrow> token list" where
  "select_column_tokens c =
     (case sc_aggregate c of
        A_NONE \<Rightarrow> [tk IDENTIFIER (sc_name c)]
      | A_SUM \<Rightarrow> [tk KW_SUM ''SUM'', tk LPAREN ''('', tk IDENTIFIER (sc_name c), tk RPAREN '')'']
      | A_AVG \<Rightarrow> [tk KW_AVG ''AVG'', tk LPAREN ''('', tk IDENTIFIER (sc_name c), tk RPAREN '')'']
      | A_COUNT \<Rightarrow> [tk KW_COUNT ''COUNT'', tk LPAREN ''('',
                    (if sc_name c = ''*'' then tk STAR ''*'' else tk IDENTIFIER (sc_name c)), tk RPAREN '')''])
     @ alias_tokens (sc_alias c)"

definition where_tokens :: "bexp option \<Rightarrow> token list" where
  "where_tokens w = (case w of None \<Rightarrow> [] | Some e \<Rightarrow> tk KW_WHERE ''WHERE'' # bexp_tokens e)"

fun command_tokens :: "bexp command_of \<Rightarrow> token list" where
  "command_tokens (CreateDatabaseCmd n) = [tk KW_CREATE ''CREATE'', tk KW_DATABASE ''DATABASE'', tk IDENTIFIER n]"
| "command_tokens (DropDatabaseCmd n) = [tk KW_DROP ''DROP'', tk KW_DATABASE ''DATABASE'', tk IDENTIFIER n]"
| "command_tokens (UseDatabaseCmd n) = [tk KW_USE ''USE'', tk IDENTIFIER n]"
| "command_tokens (CreateTableCmd d t cols) =
     [tk KW_CREATE ''CREATE'', tk KW_TABLE ''TABLE''] @ table_tokens d t @ in_list (map column_tokens cols)"
| "command_tokens (DropTableCmd d t) = [tk KW_DROP ''DROP'', tk KW_TABLE ''TABLE''] @ table_tokens d t"
| "command_tokens (InsertCmd d t cols rows) =
     [tk KW_INSERT ''INSERT'', tk KW_INTO ''INTO''] @ table_tokens d t
     @ (if cols = [] then [] else in_list (map (\<lambda>n. [tk IDENTIFIER n]) cols))
     @ tk KW_VALUE ''VALUES'' # comma_sep (map (\<lambda>r. in_list (map slot_tokens r)) rows)"
| "command_tokens (UpdateCmd d t as w) =
     tk KW_UPDATE ''UPDATE'' # table_tokens d t @ tk KW_SET ''SET'' # comma_sep (map assignment_tokens as) @ where_tokens w"
| "command_tokens (DeleteCmd d t w) =
     [tk KW_DELETE ''DELETE'', tk KW_FROM ''FROM''] @ table_tokens d t @ where_tokens w"
| "command_tokens (SelectCmd d t star cols w) =
     tk KW_SELECT ''SELECT'' # (if star then [tk STAR ''*''] else comma_sep (map select_column_tokens cols))
     @ tk KW_FROM ''FROM'' # table_tokens d t @ where_tokens w"

definition table_ok_name :: "string \<Rightarrow> string \<Rightarrow> bool" where
  "table_ok_name d t \<longleftrightarrow> (d = [] \<or> name_ok d) \<and> name_ok t"

definition column_ok :: "col_spec \<Rightarrow> bool" where
  "column_ok c \<longleftrightarrow> name_ok (cs_name c) \<and> (case cs_default c of None \<Rightarrow> True | Some v \<Rightarrow> literal_ok v)"

definition select_column_ok :: "select_column \<Rightarrow> bool" where
  "select_column_ok c \<longleftrightarrow>
     (name_ok (sc_name c) \<or> sc_aggregate c = A_COUNT \<and> sc_name c = ''*'') \<and> (sc_alias c = [] \<or> name_ok (sc_alias c))"

definition row_ok :: "literal option list \<Rightarrow> bool" where
  "row_ok r \<longleftrightarrow> r \<noteq> [] \<and> list_all (\<lambda>v. case v of None \<Rightarrow> True | Some l \<Rightarrow> literal_ok l) r"

definition where_ok :: "bexp option \<Rightarrow> bool" where
  "where_ok w \<longleftrightarrow> (case w of None \<Rightarrow> True | Some e \<Rightarrow> bexp_ok e)"

fun command_ok :: "bexp command_of \<Rightarrow> bool" where
  "command_ok (CreateDatabaseCmd n) \<longleftrightarrow> name_ok n"
| "command_ok (DropDatabaseCmd n) \<longleftrightarrow> name_ok n"
| "command_ok (UseDatabaseCmd n) \<longleftrightarrow> name_ok n"
| "command_ok (CreateTableCmd d t cols) \<longleftrightarrow> table_ok_name d t \<and> cols \<noteq> [] \<and> list_all column_ok cols"
| "command_ok (DropTableCmd d t) \<longleftrightarrow> table_ok_name d t"
| "command_ok (InsertCmd d t cols rows) \<longleftrightarrow>
     table_ok_name d t \<and> list_all name_ok cols \<and> rows \<noteq> [] \<and> list_all row_ok rows"
| "command_ok (UpdateCmd d t as w) \<longleftrightarrow>
     table_ok_name d t \<and> as \<noteq> [] \<and> list_all (\<lambda>a. name_ok (fst a) \<and> literal_ok (snd a)) as \<and> where_ok w"
| "command_ok (DeleteCmd d t w) \<longleftrightarrow> table_ok_name d t \<and> where_ok w"
| "command_ok (SelectCmd d t star cols w) \<longleftrightarrow>
     table_ok_name d t \<and> (if star then cols = [] else cols \<noteq> [] \<and> list_all select_column_ok cols) \<and> where_ok w"

subsection \<open>Reading the tokens back\<close>

lemma bindP_match [simp]:
  "bindP (match_token ty) f ts = (if check ty ts then f True (tl ts) else f False ts)"
  by (simp add: bindP_def match_token_def)

lemma parse_name_tk [simp]: "parse_name ctx (tk IDENTIFIER n # ts) = Inr (n, ts)"
  by (simp add: parse_name_def)

lemma table_ref_tokens [simp]:
  "\<not> check DOT ts \<Longrightarrow> parse_table_ref (table_tokens d t @ ts) = Inr ((d, t), ts)"
  by (simp add: parse_table_ref_def table_tokens_def)

lemma stoi_digits:
  assumes "0 \<le> sint (i :: 32 word)"
  shows "stoi (digits_of_nat (nat (sint i))) = Inr i"
proof -
  have lt: "sint i < 2 ^ 31" using sint_lt [of i] by simp
  have "list_all is_digit (digits_of_nat (nat (sint i)))" "digits_of_nat (nat (sint i)) \<noteq> []"
    using digits_of_nat_digits by simp_all
  moreover have "nat_of_digits (digits_of_nat (nat (sint i))) < 2 ^ (32 - 1)" using lt assms by (simp add: nat_less_iff)
  ultimately show ?thesis using assms by (simp add: stoi_def string_to_int_digits)
qed

lemma parse_literal [simp]:
  "literal_ok l \<Longrightarrow> parse_value (literal_token l # ts) = Inr (l, ts)"
  using stoi_digits by (cases l) (simp_all add: parse_value_def bindP_def)

lemma literal_token_type [simp]: "tok_type (literal_token l) \<in> {KW_NULL, INT_LITERAL, STR_LITERAL}"
  by (cases l) simp_all

lemma literal_token_not [simp]:
  "ty \<noteq> KW_NULL \<Longrightarrow> ty \<noteq> INT_LITERAL \<Longrightarrow> ty \<noteq> STR_LITERAL \<Longrightarrow> tok_type (literal_token l) \<noteq> ty"
  by (cases l) auto

lemma sep_list_tokens:
  assumes "\<And>x rest. x \<in> set xs \<Longrightarrow> check COMMA rest \<or> F rest \<Longrightarrow> item (tok x @ rest) = Inr (x, rest)"
    and "xs \<noteq> []" and "F ts" and "\<not> check COMMA ts" and "length xs \<le> n"
  shows "sep_list item n (comma_sep (map tok xs) @ ts) = Inr (xs, ts)"
  using assms(1,2,5)
proof (induction xs arbitrary: n)
  case (Cons x xs)
  then obtain m where n: "n = Suc m" by (cases n) auto
  show ?case
  proof (cases xs)
    case Nil
    have "item (tok x @ ts) = Inr (x, ts)" using Cons.prems(1) [of x ts] assms(3) by simp
    then show ?thesis using Nil assms(4) by (simp add: n)
  next
    case (Cons y ys)
    have "item (tok x @ tk COMMA '','' # comma_sep (map tok xs) @ ts) = Inr (x, tk COMMA '','' # comma_sep (map tok xs) @ ts)"
      using Cons.prems(1) [of x "tk COMMA '','' # comma_sep (map tok xs) @ ts"] by simp
    moreover have "sep_list item m (comma_sep (map tok xs) @ ts) = Inr (xs, ts)"
      using Cons.prems n Cons by (intro Cons.IH) auto
    moreover have "comma_sep (map tok (x # xs)) = tok x @ tk COMMA '','' # comma_sep (map tok xs)" using Cons by simp
    ultimately show ?thesis by (simp add: n)
  qed
qed simp

lemma comma_sep_length: "length xs \<le> Suc (length (comma_sep xs))"
  by (induction xs rule: comma_sep.induct) auto

lemma comma_list_tokens:
  assumes "\<And>x rest. x \<in> set xs \<Longrightarrow> check COMMA rest \<or> F rest \<Longrightarrow> item (tok x @ rest) = Inr (x, rest)"
    and "xs \<noteq> []" and "F ts" and "\<not> check COMMA ts"
  shows "comma_list item (comma_sep (map tok xs) @ ts) = Inr (xs, ts)"
  unfolding comma_list_def
  by (rule sep_list_tokens [where F = F and tok = tok]) (use assms comma_sep_length [of "map tok xs"] in auto)

lemma in_list_tokens:
  assumes "\<And>x rest. x \<in> set xs \<Longrightarrow> check COMMA rest \<or> check RPAREN rest \<Longrightarrow> item (tok x @ rest) = Inr (x, rest)"
    and "xs \<noteq> []"
  shows "comma_list item (comma_sep (map tok xs) @ tk RPAREN '')'' # ts) = Inr (xs, tk RPAREN '')'' # ts)"
  by (rule comma_list_tokens [where F = "check RPAREN"]) (use assms in auto)

lemma column_modifiers_stop [simp]:
  assumes "check COMMA ts \<or> check RPAREN ts"
  shows "column_modifiers (Suc n) nn ix d ts = Inr ((nn, ix, d), ts)"
  using assms by (auto simp: check_def)

lemma column_read:
  assumes "column_ok c" and "check COMMA ts \<or> check RPAREN ts"
  shows "parse_column (column_tokens c @ ts) = Inr (c, ts)"
proof -
  have ty: "parse_column_type (tk IDENTIFIER (case cs_type c of T_INT \<Rightarrow> ''INT'' | T_STRING \<Rightarrow> ''STRING'') # us) = Inr (cs_type c, us)" for us
    by (cases "cs_type c")
      (simp_all add: parse_column_type_def Let_def column_type_of_def to_upper_def is_lower_def char_le_iff)
  obtain nm ty' md df where c: "c = \<lparr>cs_name = nm, cs_type = ty', cs_modifier = md, cs_default = df\<rparr>" by (cases c)
  define us where "us = (case md of M_NONE \<Rightarrow> [] | M_NOT_NULL \<Rightarrow> [tk KW_NOT_NULL ''NOT_NULL''] | M_INDEXED \<Rightarrow> [tk KW_INDEXED ''INDEXED''])
       @ (case df of None \<Rightarrow> [] | Some v \<Rightarrow> [tk KW_DEFAULT ''DEFAULT'', literal_token v]) @ ts"
  have "column_modifiers (Suc (length us)) False False None us = Inr ((md = M_NOT_NULL, md = M_INDEXED, df), ts)"
    using assms column_modifiers_stop [OF assms(2)] unfolding us_def
    by (cases md; cases df; cases ts) (simp_all add: column_ok_def c del: column_modifiers.simps(1))
  moreover have "column_tokens c @ ts = tk IDENTIFIER nm # tk IDENTIFIER (case cs_type c of T_INT \<Rightarrow> ''INT'' | T_STRING \<Rightarrow> ''STRING'') # us"
    by (simp add: column_tokens_def c us_def)
  ultimately show ?thesis using ty [of us]
    by (cases md) (simp_all add: parse_column_def c bindP_def del: column_modifiers.simps)
qed

lemma slot_read:
  assumes "\<forall>l. v = Some l \<longrightarrow> literal_ok l" and "check COMMA ts \<or> check RPAREN ts"
  shows "parse_slot (slot_tokens v @ ts) = Inr (v, ts)"
  using assms by (cases v) (auto simp: parse_slot_def slot_tokens_def bindP_def)

lemma row_read:
  assumes "row_ok r"
  shows "parse_row (in_list (map slot_tokens r) @ ts) = Inr (r, ts)"
proof -
  have "comma_list parse_slot (comma_sep (map slot_tokens r) @ tk RPAREN '')'' # ts) = Inr (r, tk RPAREN '')'' # ts)"
    using assms by (intro in_list_tokens slot_read) (auto simp: row_ok_def list_all_iff dest: bspec)
  then show ?thesis by (simp add: parse_row_def in_list_def)
qed

lemma assignment_read:
  "literal_ok (snd a) \<Longrightarrow> parse_assignment (assignment_tokens a @ ts) = Inr (a, ts)"
  by (simp add: parse_assignment_def assignment_tokens_def)

lemma alias_read: "\<not> check KW_AS ts \<Longrightarrow> parse_alias (alias_tokens a @ ts) = Inr (a, ts)"
  by (simp add: parse_alias_def alias_tokens_def)

lemma select_column_read:
  assumes "select_column_ok c" and "\<not> check KW_AS ts"
  shows "parse_select_column (select_column_tokens c @ ts) = Inr (c, ts)"
proof -
  have "\<not> name_ok ''*''" by (simp add: name_ok_def word_ok_def word_start_def is_alpha_def is_lower_def is_upper_def char_le_iff)
  then show ?thesis using assms alias_read [OF assms(2)]
    by (cases c; cases "sc_aggregate c")
      (auto simp: parse_select_column_def select_column_tokens_def parse_aggregate_def aggregate_of_def bindP_def select_column_ok_def)
qed

definition stop :: "token list \<Rightarrow> bool" where
  \<comment> \<open>where a statement ends\<close>
  "stop ts \<longleftrightarrow> ts = [] \<or> tok_type (hd ts) \<in> {END, SEMICOLON}"

lemma stop_check: "stop ts \<Longrightarrow> ty \<noteq> SEMICOLON \<Longrightarrow> \<not> check ty ts"
  by (auto simp: stop_def check_def is_end_def)

lemma where_read:
  assumes "where_ok w" and "stop ts"
  shows "parse_where (where_tokens w @ ts) = Inr (map_option condition_of w, ts)"
  using assms stop_check [OF assms(2)] parse_condition_tokens
  by (cases w) (simp_all add: parse_where_def where_tokens_def where_ok_def bindP_def)

lemma where_tokens_check: "stop ts \<Longrightarrow> ty \<notin> {SEMICOLON, KW_WHERE} \<Longrightarrow> \<not> check ty (where_tokens w @ ts)"
  using stop_check by (cases w) (auto simp: where_tokens_def)

lemma dispatch_simps [simp]:
  "dispatch (tk KW_CREATE v) = parse_create" "dispatch (tk KW_DROP v) = parse_drop" "dispatch (tk KW_USE v) = parse_use"
  "dispatch (tk KW_INSERT v) = parse_insert" "dispatch (tk KW_UPDATE v) = parse_update"
  "dispatch (tk KW_DELETE v) = parse_delete" "dispatch (tk KW_SELECT v) = parse_select"
  by (simp_all add: dispatch_def)

lemma parse_first:
  "ty \<noteq> END \<Longrightarrow> parse (tk ty v # ts) = bindE (dispatch (tk ty v) (tk ty v # ts)) (\<lambda>(c, _). Inr c)"
  by (simp add: parse_def)

lemma create_table_read:
  assumes "cols \<noteq> []" and "list_all column_ok cols"
  shows "parse (command_tokens (CreateTableCmd d t cols) @ ts) = Inr (CreateTableCmd d t cols)"
proof -
  have "comma_list parse_column (comma_sep (map column_tokens cols) @ tk RPAREN '')'' # ts) = Inr (cols, tk RPAREN '')'' # ts)"
    using assms by (intro in_list_tokens column_read) (auto simp: list_all_iff)
  then show ?thesis by (simp add: parse_first parse_create_def in_list_def)
qed

lemma insert_read:
  assumes "rows \<noteq> []" and "list_all row_ok rows" and "stop ts"
  shows "parse (command_tokens (InsertCmd d t cols rows) @ ts) = Inr (InsertCmd d t cols rows)"
proof -
  have rows: "comma_list parse_row (comma_sep (map (\<lambda>r. in_list (map slot_tokens r)) rows) @ ts) = Inr (rows, ts)"
    using assms stop_check by (intro comma_list_tokens [where F = stop] row_read) (auto simp: list_all_iff)
  have cols: "comma_list (parse_name ''column name'') (comma_sep (map (\<lambda>n. [tk IDENTIFIER n]) cols) @ tk RPAREN '')'' # us)
      = Inr (cols, tk RPAREN '')'' # us)" if "cols \<noteq> []" for us
    using that by (intro in_list_tokens) auto
  show ?thesis
  proof (cases "cols = []")
    case True
    then show ?thesis using rows by (simp add: parse_first parse_insert_def)
  next
    case False
    then show ?thesis using rows cols by (simp add: parse_first parse_insert_def in_list_def)
  qed
qed

lemma update_read:
  assumes "as \<noteq> []" and "list_all (\<lambda>a. name_ok (fst a) \<and> literal_ok (snd a)) as" and "where_ok w" and "stop ts"
  shows "parse (command_tokens (UpdateCmd d t as w) @ ts) = Inr (UpdateCmd d t as (map_option condition_of w))"
proof -
  have "comma_list parse_assignment (comma_sep (map assignment_tokens as) @ where_tokens w @ ts) = Inr (as, where_tokens w @ ts)"
    using assms where_tokens_check [OF assms(4)]
    by (intro comma_list_tokens [where F = "\<lambda>_. True"] assignment_read) (auto simp: list_all_iff)
  then show ?thesis using where_read [OF assms(3,4)] by (simp add: parse_first parse_update_def)
qed

lemma select_read:
  assumes "if star then cols = [] else cols \<noteq> [] \<and> list_all select_column_ok cols" and "where_ok w" and "stop ts"
  shows "parse (command_tokens (SelectCmd d t star cols w) @ ts) = Inr (SelectCmd d t star cols (map_option condition_of w))"
proof (cases star)
  case True
  then show ?thesis using assms where_read [OF assms(2,3)] where_tokens_check [OF assms(3), of DOT w]
    by (simp add: parse_first parse_select_def)
next
  case False
  then have "comma_list parse_select_column (comma_sep (map select_column_tokens cols) @ us) = Inr (cols, us)"
    if "check KW_FROM us" for us
    using assms(1) that
    by (intro comma_list_tokens [where F = "check KW_FROM"] select_column_read) (auto simp: list_all_iff check_def)
  moreover have "\<not> check STAR (comma_sep (map select_column_tokens cols) @ us)" for us
    using assms(1) False
    by (cases cols; cases "tl cols"; cases "sc_aggregate (hd cols)") (auto simp: select_column_tokens_def)
  ultimately show ?thesis using False where_read [OF assms(2,3)] where_tokens_check [OF assms(3), of DOT w]
    by (simp add: parse_first parse_select_def)
qed

lemma parse_tokens:
  assumes "command_ok c" and "stop ts"
  shows "parse (command_tokens c @ ts) = Inr (map_command_of condition_of c)"
proof (cases c)
  case (CreateTableCmd d t cols)
  then show ?thesis using assms create_table_read by simp
next
  case (InsertCmd d t cols rows)
  then show ?thesis using assms insert_read [of rows ts d t cols] by simp
next
  case (UpdateCmd d t as w)
  then show ?thesis using assms update_read [of as w ts d t] by simp
next
  case (SelectCmd d t star cols w)
  then show ?thesis using assms select_read [of star cols w ts d t] by simp
next
  case (DeleteCmd d t w)
  then show ?thesis
    using assms where_read [of w ts] where_tokens_check [OF assms(2), of DOT w] by (simp add: parse_first parse_delete_def)
next
  case (DropTableCmd d t)
  then show ?thesis using assms stop_check [OF assms(2), of DOT] by (simp add: parse_first parse_drop_def)
qed (simp_all add: parse_first parse_create_def parse_drop_def parse_use_def)

end
