(* ===== verification/Parser_Contract.thy ===== *)
theory Parser_Contract
  imports Parser_Print
begin

section \<open>What the lexer and the parser promise\<close>

text \<open>
  The properties of \<open>Lexer\<close> and \<open>Parser\<close> with a concrete instance of each that has hypotheses. The
  first part shows that the lexer makes the tokens of every printed command.
\<close>

subsection \<open>Printed tokens can be lexed\<close>

lemma keywords_printable: "list_all (\<lambda>(w, ty). printable (tk ty w)) keyword_table"
  by code_simp

lemma keyword_printable: "(w, ty) \<in> set keyword_table \<Longrightarrow> printable (tk ty w)"
  using keywords_printable by (auto simp: list_all_iff)

lemma keyword_tokens [simp]:
  "printable (tk KW_SELECT ''SELECT'')" "printable (tk KW_FROM ''FROM'')" "printable (tk KW_WHERE ''WHERE'')"
  "printable (tk KW_AS ''AS'')" "printable (tk KW_INSERT ''INSERT'')" "printable (tk KW_INTO ''INTO'')"
  "printable (tk KW_VALUE ''VALUES'')" "printable (tk KW_UPDATE ''UPDATE'')" "printable (tk KW_SET ''SET'')"
  "printable (tk KW_DELETE ''DELETE'')" "printable (tk KW_CREATE ''CREATE'')" "printable (tk KW_DROP ''DROP'')"
  "printable (tk KW_USE ''USE'')" "printable (tk KW_DATABASE ''DATABASE'')" "printable (tk KW_TABLE ''TABLE'')"
  "printable (tk KW_NOT_NULL ''NOT_NULL'')" "printable (tk KW_NULL ''NULL'')" "printable (tk KW_INDEXED ''INDEXED'')"
  "printable (tk KW_DEFAULT ''DEFAULT'')" "printable (tk KW_BETWEEN ''BETWEEN'')" "printable (tk KW_AND ''AND'')"
  "printable (tk KW_OR ''OR'')" "printable (tk KW_LIKE ''LIKE'')" "printable (tk KW_SUM ''SUM'')"
  "printable (tk KW_COUNT ''COUNT'')" "printable (tk KW_AVG ''AVG'')"
  by (rule keyword_printable, simp add: keyword_table_def)+

lemma symbol_printable: "(ty, w) \<in> set symbols \<Longrightarrow> printable (tk ty w)"
  by (simp add: printable_def)

lemma symbol_tokens [simp]:
  "printable (tk OP_EQ ''=='')" "printable (tk OP_NEQ ''!='')" "printable (tk OP_LT ''<'')" "printable (tk OP_GT ''>'')"
  "printable (tk OP_LTE ''<='')" "printable (tk OP_GTE ''>='')" "printable (tk OP_ASSIGN ''='')"
  "printable (tk COMMA '','')" "printable (tk LPAREN ''('')" "printable (tk RPAREN '')'')" "printable (tk STAR ''*'')"
  "printable (tk DOT ''.'')" "printable (tk SEMICOLON '';'')"
  by (rule symbol_printable, simp add: symbols_def)+

lemma other_tokens [simp]:
  "name_ok n \<Longrightarrow> printable (tk IDENTIFIER n)" "printable (tk STR_LITERAL s)"
  "number_ok s \<Longrightarrow> printable (tk INT_LITERAL s)"
  by (simp_all add: printable_def name_ok_def)

lemma literal_printable [simp]: "printable (literal_token l)"
  using digits_of_nat_digits by (cases l) (simp_all add: number_ok_def)

lemma operand_printable: "(c \<longrightarrow> name_ok s) \<Longrightarrow> printable (operand_token s c)"
  by (simp add: operand_token_def)

lemma operator_printable [simp]: "printable (operator_token op)"
  by (cases op) (simp_all add: operator_token_def)

lemma bexp_printable: "bexp_ok e \<Longrightarrow> list_all printable (bexp_tokens e)"
  by (induction e) (auto simp: comparison_tokens_def comparison_ok_def in_parens_def operand_printable)

lemma comma_sep_printable: "list_all (list_all printable) xs \<Longrightarrow> list_all printable (comma_sep xs)"
  by (induction xs rule: comma_sep.induct) simp_all

lemma in_list_printable: "list_all (list_all printable) xs \<Longrightarrow> list_all printable (in_list xs)"
  by (simp add: in_list_def comma_sep_printable)

lemma table_printable: "table_ok_name d t \<Longrightarrow> list_all printable (table_tokens d t)"
  by (auto simp: table_ok_name_def table_tokens_def)

lemma where_printable: "where_ok w \<Longrightarrow> list_all printable (where_tokens w)"
  by (cases w) (simp_all add: where_ok_def where_tokens_def bexp_printable)

lemma column_printable: "column_ok c \<Longrightarrow> list_all printable (column_tokens c)"
proof -
  have "name_ok ''INT''" "name_ok ''STRING''" by code_simp+
  then show "column_ok c \<Longrightarrow> ?thesis"
    by (cases "cs_modifier c"; cases "cs_type c") (auto simp: column_ok_def column_tokens_def split: option.splits)
qed

lemma select_column_printable: "select_column_ok c \<Longrightarrow> list_all printable (select_column_tokens c)"
  by (cases "sc_aggregate c") (auto simp: select_column_ok_def select_column_tokens_def alias_tokens_def)

lemma row_printable: "list_all printable (in_list (map slot_tokens r))"
  by (intro in_list_printable) (auto simp: list_all_iff slot_tokens_def split: option.splits)

lemma command_printable:
  assumes "command_ok c"
  shows "list_all printable (command_tokens c)"
  using assms
  by (cases c)
    (auto simp: table_printable where_printable column_printable select_column_printable row_printable
      assignment_tokens_def list_all_iff [of _ "map _ _"] list_all_iff [of column_ok] list_all_iff [of select_column_ok]
      list_all_iff [of name_ok] list_all_iff [of "\<lambda>a. name_ok (fst a) \<and> literal_ok (snd a)"]
      intro!: in_list_printable comma_sep_printable)

lemma parse_printed_text:
  assumes "command_ok c" and "stop ts" and "list_all printable ts"
  shows "parse_text (print_tokens (command_tokens c @ ts)) = Inr (map_command_of condition_of c)"
proof -
  obtain us k where us: "tokenize_from (print_tokens (command_tokens c @ ts)) 1 = Inr (us @ [token_of END [] k])"
    "same_tokens (command_tokens c @ ts) us"
    using tokenize_printed [of "command_tokens c @ ts" 1] command_printable [OF assms(1)] assms(3) by auto
  have "stop (ts @ [tk END []])" using assms(2) by (cases ts) (auto simp: stop_def)
  then have "parse (command_tokens c @ ts @ [tk END []]) = Inr (map_command_of condition_of c)"
    by (rule parse_tokens [OF assms(1)])
  moreover have "same_tokens ((command_tokens c @ ts) @ [tk END []]) (us @ [token_of END [] k])"
    using us(2) by (intro list_all2_appendI) (simp_all add: same_token_def tk_def token_of_def)
  ultimately have "parse (us @ [token_of END [] k]) = Inr (map_command_of condition_of c)"
    using parse_same by simp
  then show ?thesis unfolding parse_text_def tokenize_def us(1) by simp
qed

subsection \<open>The properties\<close>

text \<open>
  C19: The lexer returns for every text. It either reports the string that is not closed, with its
  line, or makes tokens that end in the only \<open>END\<close> token, and whose integers are digits.
\<close>

theorem tokenize_shape:
  "case tokenize s of
     Inl e \<Rightarrow> \<exists>k. e = ParseError (''Unclosed string at line '' @ decimal (int k))
   | Inr ts \<Rightarrow> int_tokens_ok ts \<and> (\<exists>us k. ts = us @ [token_of END [] k] \<and> list_all (\<lambda>t. tok_type t \<noteq> END) us)"
  using tokenize_error [of s 1] tokens_end [of s 1] tokenize_ints [of s 1]
  by (auto simp: tokenize_def list_all_iff split: sum.split)

text \<open>
  C20: The parser returns for every text: the loops over the tokens and the descent into a condition
  end, and the only exceptions are \<open>ParseError\<close> and the \<open>out_of_range\<close> of \<open>std::stoi\<close> for an integer
  literal beyond the range of \<open>int\<close>.
\<close>

theorem parse_text_returns: "case parse_text s of Inl e \<Rightarrow> parser_error e | Inr c \<Rightarrow> True"
proof (cases "tokenize s")
  case (Inl e)
  then show ?thesis using tokenize_error [of s 1] by (auto simp: parse_text_def tokenize_def parser_error_def)
next
  case (Inr ts)
  then have "int_tokens_ok ts" using tokenize_ints [of s 1] by (simp add: tokenize_def)
  then show ?thesis using Inr parse_errors [of ts] by (auto simp: parse_text_def split: sum.split)
qed

text \<open>
  C21: The lexer and the parser read every command back from its text, whatever names, literals,
  rows, columns and conditions it has; nothing after the semicolon is looked at. What becomes of
  the \<open>WHERE\<close> clause is \<open>condition_of\<close>.
\<close>

theorem print_parse_roundtrip:
  assumes "command_ok c" and "stop ts" and "list_all printable ts"
  shows "parse_text (print_tokens (command_tokens c @ ts)) = Inr (map_command_of condition_of c)"
  using assms by (rule parse_printed_text)

definition eq_int :: "string \<Rightarrow> string \<Rightarrow> comparison" where
  \<comment> \<open>\<open>column == literal\<close>\<close>
  "eq_int c v = \<lparr>cmp_left = c, cmp_left_col = True, cmp_op = EQ, cmp_right = v, cmp_right_col = False,
                 cmp_right2 = [], cmp_right2_col = False\<rparr>"

theorem print_parse_roundtrip_witness:
  "parse_text (print_tokens (command_tokens (UpdateCmd ''db'' ''t'' [(''a'', StrLit ''it'' ), (''b'', IntLit 7)]
       (Some (Or (Cmp (eq_int ''a'' ''1'')) (Cmp (eq_int ''b'' ''2''))))) @ [tk SEMICOLON '';'', tk STAR ''*'']))
   = Inr (UpdateCmd ''db'' ''t'' [(''a'', StrLit ''it''), (''b'', IntLit 7)]
       (Some (Condition (eq_int ''a'' ''1'') L_OR (Some (leaf (eq_int ''b'' ''2''))) None False)))"
proof -
  let ?c = "UpdateCmd ''db'' ''t'' [(''a'', StrLit ''it''), (''b'', IntLit 7)]
       (Some (Or (Cmp (eq_int ''a'' ''1'')) (Cmp (eq_int ''b'' ''2''))))"
  have "command_ok ?c" by code_simp
  moreover have "stop [tk SEMICOLON '';'', tk STAR ''*'']" by (simp add: stop_def)
  moreover have "map_command_of condition_of ?c = UpdateCmd ''db'' ''t'' [(''a'', StrLit ''it''), (''b'', IntLit 7)]
       (Some (Condition (eq_int ''a'' ''1'') L_OR (Some (leaf (eq_int ''b'' ''2''))) None False))"
    by (simp add: combine_conditions_def paren_if_def leaf_def)
  ultimately show ?thesis using print_parse_roundtrip [of ?c "[tk SEMICOLON '';'', tk STAR ''*'']"] by simp
qed

text \<open>
  C22: The condition that the parser builds from the tokens of an expression has the truth value of
  the expression, for every evaluation of the comparisons, as long as no chain of one operator that
  starts with a comparison has a compound operand before its end.
\<close>

theorem condition_keeps_meaning:
  assumes "bexp_ok e" and "chain_safe e" and "\<not> check KW_AND ts" and "\<not> check KW_OR ts"
  shows "\<exists>w. parse_condition (bexp_tokens e @ ts) = Inr (w, ts) \<and> holds b w = truth b e"
  using parse_condition_tokens [OF assms(1,3,4)] condition_truth [OF assms(2)] by blast

theorem condition_keeps_meaning_witness:
  "\<exists>w. parse_condition (bexp_tokens (Or (And (Cmp (eq_int ''a'' ''1'')) (Cmp (eq_int ''b'' ''2''))) (Cmp (eq_int ''c'' ''3''))) @ [])
     = Inr (w, []) \<and> holds (\<lambda>c. cmp_left c = ''c'') w = True"
proof -
  let ?e = "Or (And (Cmp (eq_int ''a'' ''1'')) (Cmp (eq_int ''b'' ''2''))) (Cmp (eq_int ''c'' ''3''))"
  have "bexp_ok ?e" "chain_safe ?e" "\<not> check KW_AND []" "\<not> check KW_OR []" by code_simp+
  from condition_keeps_meaning [OF this, of "\<lambda>c. cmp_left c = ''c''"] show ?thesis by (simp add: eq_int_def)
qed


text \<open>
  A character that the lexer does not know costs two: the character after it is dropped as
  well. So \<open>-12\<close> lexes as \<open>2\<close>.
\<close>

lemma unknown_drops_next:
  assumes "unknown_char c"
  shows "tokenize_from (c # x # cs) l = tokenize_from cs (next_line x l)"
  using assms by (rule tokenize_unknown)

lemma unknown_drops_next_witness: "tokenize ''-12'' = Inr [token_of INT_LITERAL ''2'' 1, token_of END [] 1]"
proof -
  have "unknown_char (CHR ''-'')" by code_simp
  from unknown_drops_next [OF this, of "CHR ''1''" "''2''" 1]
  have "tokenize ''-12'' = tokenize_from ''2'' (next_line (CHR ''1'') 1)" by (simp add: tokenize_def)
  also have "\<dots> = Inr [token_of INT_LITERAL ''2'' 1, token_of END [] 1]" by code_simp
  finally show ?thesis .
qed

end
