(* ===== verification/Query_Model.thy ===== *)
theory Query_Model
  imports Table_Store Parser
begin

section \<open>Statements on a table\<close>

text \<open>
  The part of \<open>DbmsQueryEngine\<close> (\<open>executor/src/query_engine.cpp\<close>) that works on one table: the
  evaluation of conditions, the choice of candidate rows, the JSON text of a row and the loops of
  \<open>INSERT\<close>, \<open>UPDATE\<close>, \<open>DELETE\<close> and \<open>SELECT\<close>. Making a string value interns the string, so even a
  condition changes the pool: conditions run on the pool, statements on the pool and the table.

  \<open>std::regex\<close> is not modelled: \<open>rx\<close> stands for building the pattern and matching a string against
  it, which may throw.
\<close>

type_synonym regex = "string \<Rightarrow> string \<Rightarrow> exn + bool"

fun for_each :: "('x \<Rightarrow> ('s, unit) sx) \<Rightarrow> 'x list \<Rightarrow> ('s, unit) sx" where
  "for_each f [] = retS ()"
| "for_each f (x # xs) = bindS (f x) (\<lambda>_. for_each f xs)"

fun map_each :: "('x \<Rightarrow> ('s, 'y) sx) \<Rightarrow> 'x list \<Rightarrow> ('s, 'y list) sx" where
  "map_each f [] = retS []"
| "map_each f (x # xs) = bindS (f x) (\<lambda>y. bindS (map_each f xs) (\<lambda>ys. retS (y # ys)))"

definition on_pool :: "(pool, 'a) sx \<Rightarrow> (pool \<times> 't, 'a) sx" where
  "on_pool m s = (case m (fst s) of (r, p') \<Rightarrow> (r, (p', snd s)))"

definition on_rows :: "(pool \<Rightarrow> (table, 'a) sx) \<Rightarrow> (pool \<times> table, 'a) sx" where
  \<comment> \<open>an operation of the table, which reads the pool\<close>
  "on_rows m s = (case m (fst s) (snd s) of (r, t') \<Rightarrow> (r, (fst s, t')))"

subsection \<open>Values\<close>

definition interned :: "string \<Rightarrow> (pool, sql_value) sx" where
  "interned s p = (case of_str s p of (v, p') \<Rightarrow> (Inr v, p'))"

fun literal_value :: "literal \<Rightarrow> (pool, sql_value) sx" where
  \<comment> \<open>\<open>parser_value_to_storage\<close>\<close>
  "literal_value NullLit = retS Null"
| "literal_value (IntLit i) = retS (VInt (scast i))"
| "literal_value (StrLit s) = interned s"

definition resolve_operand :: "string \<Rightarrow> bool \<Rightarrow> table \<Rightarrow> row \<Rightarrow> (pool, sql_value) sx" where
  "resolve_operand s is_col t row =
     (if is_col then
        liftE (bindE (require_column s t) (\<lambda>i. if nat i < length row then Inr (row ! nat i) else Inl VECTOR_AT))
      else if s = ''NULL'' then retS Null
      else case stoll s of
        Inr (w, n) \<Rightarrow> if n = length s then retS (VInt w) else interned s
      | Inl _ \<Rightarrow> interned s)"

definition parse_literal_for_column :: "string \<Rightarrow> data_type \<Rightarrow> (pool, sql_value) sx" where
  "parse_literal_for_column s ty =
     (if s = ''NULL'' then retS Null
      else if ty = IntType then liftE (bindE (stoll s) (\<lambda>(w, _). Inr (VInt w)))
      else interned s)"

subsection \<open>Conditions\<close>

fun is_str :: "sql_value \<Rightarrow> bool" where
  "is_str (VStr _) = True"
| "is_str _ = False"

definition comparison_holds :: "cond_op \<Rightarrow> int \<Rightarrow> bool" where
  "comparison_holds op r =
     (case op of EQ \<Rightarrow> r = 0 | NEQ \<Rightarrow> r \<noteq> 0 | LT \<Rightarrow> r < 0 | GT \<Rightarrow> r > 0 | LTE \<Rightarrow> r \<le> 0 | GTE \<Rightarrow> r \<ge> 0
      | BETWEEN \<Rightarrow> False | LIKE \<Rightarrow> False)"

definition evaluate_simple_condition :: "regex \<Rightarrow> table \<Rightarrow> row \<Rightarrow> comparison \<Rightarrow> (pool, bool) sx" where
  "evaluate_simple_condition rx t row c =
     bindS (resolve_operand (cmp_left c) (cmp_left_col c) t row) (\<lambda>left.
     bindS (resolve_operand (cmp_right c) (cmp_right_col c) t row) (\<lambda>right.
     if cmp_op c = BETWEEN then
       bindS (resolve_operand (cmp_right2 c) (cmp_right2_col c) t row) (\<lambda>right2.
       bindS (askE (\<lambda>p. compare_values p left right)) (\<lambda>(lower, valid1).
       bindS (askE (\<lambda>p. compare_values p left right2)) (\<lambda>(upper, valid2).
       retS (valid1 \<and> valid2 \<and> lower \<ge> 0 \<and> upper < 0))))
     else if cmp_op c = LIKE then
       (if \<not> is_str left \<or> \<not> is_str right then retS False
        else
          bindS (askE (\<lambda>p. as_str p right)) (\<lambda>pattern.
          bindS (askE (\<lambda>p. as_str p left)) (\<lambda>s. liftE (rx pattern s))))
     else
       bindS (askE (\<lambda>p. compare_values p left right)) (\<lambda>(r, valid).
       retS (valid \<and> comparison_holds (cmp_op c) r))))"

definition join_truth :: "logical_op \<Rightarrow> bool \<Rightarrow> bool \<Rightarrow> bool" where
  "join_truth op current next =
     (case op of L_AND \<Rightarrow> current \<and> next | L_OR \<Rightarrow> current \<or> next | L_NONE \<Rightarrow> current)"

fun evaluate_condition :: "regex \<Rightarrow> table \<Rightarrow> row \<Rightarrow> condition \<Rightarrow> (pool, bool) sx" where
  "evaluate_condition rx t row (Condition c l None None p) = evaluate_simple_condition rx t row c"
| "evaluate_condition rx t row (Condition c l (Some n) None p) =
     bindS (evaluate_simple_condition rx t row c) (\<lambda>current.
     bindS (evaluate_condition rx t row n) (\<lambda>next. retS (join_truth l current next)))"
| "evaluate_condition rx t row (Condition c l None (Some tr) p) =
     bindS (evaluate_condition rx t row tr) (\<lambda>left.
     retS (if l = L_AND then left \<and> False else left \<or> False))"
| "evaluate_condition rx t row (Condition c l (Some n) (Some tr) p) =
     bindS (evaluate_condition rx t row tr) (\<lambda>left.
     bindS (evaluate_condition rx t row n) (\<lambda>right.
     retS (if l = L_AND then left \<and> right else left \<or> right)))"

definition row_matches :: "regex \<Rightarrow> table \<Rightarrow> row \<Rightarrow> condition option \<Rightarrow> (pool, bool) sx" where
  "row_matches rx t row w = (case w of None \<Rightarrow> retS True | Some c \<Rightarrow> evaluate_condition rx t row c)"

subsection \<open>Candidate rows\<close>

definition index_candidates :: "comparison \<Rightarrow> data_type \<Rightarrow> bindex \<Rightarrow> (pool, 64 word list) sx" where
  "index_candidates k ty ix =
     (if cmp_op k = EQ then
        bindS (parse_literal_for_column (cmp_right k) ty) (\<lambda>key.
        bindS (askE (\<lambda>p. adapter_find p key ix)) (\<lambda>found.
        retS (case found of None \<Rightarrow> [] | Some i \<Rightarrow> [i])))
      else
        bindS (parse_literal_for_column (cmp_right k) ty) (\<lambda>lower.
        bindS (parse_literal_for_column (cmp_right2 k) ty) (\<lambda>upper.
        askE (\<lambda>p. adapter_range p lower upper ix))))"

definition collect_candidate_rows :: "table \<Rightarrow> condition option \<Rightarrow> (pool, 64 word list \<times> bool) sx" where
  \<comment> \<open>the row ids, and whether they come from an index\<close>
  "collect_candidate_rows t w =
     (let scan = retS (tb_order t, False) in
      case w of
        None \<Rightarrow> scan
      | Some c \<Rightarrow>
          let k = cond_cmp c in
          if cond_left_tree c = None \<and> cond_next c = None \<and> cmp_left_col k \<and> \<not> cmp_right_col k then
            bindS (liftE (require_column (cmp_left k) t)) (\<lambda>i.
            let col = nat i in
            case index_for col t of
              None \<Rightarrow> scan
            | Some ix \<Rightarrow>
                bindS (liftE (column_at (tb_schema t) col)) (\<lambda>def.
                if cmp_op k = EQ \<or> cmp_op k = BETWEEN then
                  bindS (index_candidates k (col_type def) ix) (\<lambda>ids. retS (ids, True))
                else scan))
          else scan)"

subsection \<open>Rows as JSON text\<close>

definition escape_json :: "string \<Rightarrow> string" where
  "escape_json s = concat (map (\<lambda>c.
     if c = CHR 0x22 then [CHR 0x5C, CHR 0x22] else if c = CHR 0x5C then [CHR 0x5C, CHR 0x5C]
     else if c = CHR 0x0A then [CHR 0x5C, CHR ''n''] else if c = CHR 0x0D then [CHR 0x5C, CHR ''r'']
     else if c = CHR 0x09 then [CHR 0x5C, CHR ''t''] else [c]) s)"

fun value_to_json :: "pool \<Rightarrow> sql_value \<Rightarrow> exn + string" where
  "value_to_json p Null = Inr ''null''"
| "value_to_json p (VInt w) = Inr (decimal (sint w))"
| "value_to_json p (VStr i) = bindE (as_str p (VStr i)) (\<lambda>s. Inr (double_quoted (escape_json s)))"

fun join_with :: "string \<Rightarrow> string list \<Rightarrow> string" where
  "join_with sep [] = []"
| "join_with sep [x] = x"
| "join_with sep (x # xs) = x @ sep @ join_with sep xs"

definition json_field :: "pool \<Rightarrow> string \<Rightarrow> sql_value \<Rightarrow> exn + string" where
  "json_field p key v = bindE (value_to_json p v) (\<lambda>s. Inr (double_quoted (escape_json key) @ '':'' @ s))"

fun star_fields :: "pool \<Rightarrow> column_def list \<Rightarrow> row \<Rightarrow> exn + string list" where
  \<comment> \<open>\<open>row[i]\<close> is not checked\<close>
  "star_fields p [] row = Inr []"
| "star_fields p (c # cs) [] = Inl Undefined"
| "star_fields p (c # cs) (v # vs) =
     bindE (json_field p (col_name c) v) (\<lambda>f. bindE (star_fields p cs vs) (\<lambda>fs. Inr (f # fs)))"

fun named_fields :: "pool \<Rightarrow> schema \<Rightarrow> row \<Rightarrow> select_column list \<Rightarrow> exn + string list" where
  "named_fields p s row [] = Inr []"
| "named_fields p s row (c # cs) =
     bindE (column_index s (sc_name c)) (\<lambda>i.
     bindE (if i < length row then json_field p (if sc_alias c = [] then sc_name c else sc_alias c) (row ! i)
            else Inl Undefined) (\<lambda>f.
     bindE (named_fields p s row cs) (\<lambda>fs. Inr (f # fs))))"

definition row_to_json_object :: "pool \<Rightarrow> table \<Rightarrow> row \<Rightarrow> bool \<Rightarrow> select_column list \<Rightarrow> exn + string" where
  "row_to_json_object p t row star cols =
     bindE (if star then star_fields p (columns_of t) row else named_fields p (tb_schema t) row cols) (\<lambda>fs.
     Inr (''{'' @ join_with '','' fs @ ''}''))"

subsection \<open>The statements\<close>

definition slot_value :: "literal option \<Rightarrow> (pool, sql_value option) sx" where
  "slot_value v = (case v of None \<Rightarrow> retS None | Some l \<Rightarrow> bindS (literal_value l) (\<lambda>x. retS (Some x)))"

definition insert_slots :: "literal option list \<Rightarrow> (pool \<times> table, unit) sx" where
  \<comment> \<open>a row of an \<open>INSERT\<close> without a column list\<close>
  "insert_slots slots =
     bindS (on_pool (map_each slot_value slots)) (\<lambda>vs. on_rows (\<lambda>p. insert_row p vs))"

definition insert_listed :: "int list \<Rightarrow> literal option list \<Rightarrow> (pool \<times> table, unit) sx" where
  \<comment> \<open>a row of an \<open>INSERT\<close> with a column list\<close>
  "insert_listed positions slots =
     bindS (on_pool (map_each (\<lambda>v. case v of None \<Rightarrow> retS Null | Some l \<Rightarrow> literal_value l) slots)) (\<lambda>vs.
     bindS (on_rows (\<lambda>p. askE (materialize positions vs))) (\<lambda>row.
     bindS (on_rows (\<lambda>p. insert_full_row p row)) (\<lambda>_. retS ())))"

definition insert_rows :: "string list \<Rightarrow> literal option list list \<Rightarrow> (pool \<times> table, unit) sx" where
  "insert_rows cols rows =
     bindS (map_each (\<lambda>n. on_rows (\<lambda>p. askE (require_column n))) cols) (\<lambda>positions.
     for_each (\<lambda>slots. if cols = [] then insert_slots slots else insert_listed positions slots) rows)"

definition assign_cell :: "64 word \<Rightarrow> string \<times> literal \<Rightarrow> (pool \<times> table, unit) sx" where
  "assign_cell i a =
     bindS (on_rows (\<lambda>p. askE (require_column (fst a)))) (\<lambda>c.
     bindS (on_pool (literal_value (snd a))) (\<lambda>v. on_rows (\<lambda>p. update_cell p i (nat c) v)))"

definition when_matching :: "regex \<Rightarrow> condition option \<Rightarrow> 64 word \<Rightarrow> 'a \<Rightarrow> (row \<Rightarrow> (pool \<times> table, 'a) sx) \<Rightarrow> (pool \<times> table, 'a) sx" where
  \<comment> \<open>skips an id without a row and a row that does not match\<close>
  "when_matching rx w i skip f =
     bindS (getS snd) (\<lambda>t.
     case map_of (tb_rows t) i of
       None \<Rightarrow> retS skip
     | Some row \<Rightarrow> bindS (on_pool (row_matches rx t row w)) (\<lambda>ok. if ok then f row else retS skip))"

definition update_rows :: "regex \<Rightarrow> (string \<times> literal) list \<Rightarrow> condition option \<Rightarrow> (pool \<times> table, unit) sx" where
  "update_rows rx as w =
     bindS (getS snd) (\<lambda>t.
     bindS (on_pool (collect_candidate_rows t w)) (\<lambda>(ids, _).
     for_each (\<lambda>i. when_matching rx w i () (\<lambda>_. for_each (assign_cell i) as)) ids))"

definition matching_ids :: "regex \<Rightarrow> condition option \<Rightarrow> 64 word list \<Rightarrow> (pool \<times> table, 64 word list) sx" where
  "matching_ids rx w ids =
     bindS (map_each (\<lambda>i. when_matching rx w i None (\<lambda>_. retS (Some i))) ids) (\<lambda>found.
     retS (map the (filter (\<lambda>x. x \<noteq> None) found)))"

definition delete_rows :: "regex \<Rightarrow> condition option \<Rightarrow> (pool \<times> table, unit) sx" where
  "delete_rows rx w =
     bindS (getS snd) (\<lambda>t.
     bindS (on_pool (collect_candidate_rows t w)) (\<lambda>(ids, _).
     bindS (matching_ids rx w ids) (\<lambda>found.
     for_each (\<lambda>i. on_rows (\<lambda>p. erase_row p i)) found)))"

definition select_candidates :: "condition option \<Rightarrow> (pool \<times> table, 64 word list \<times> bool) sx" where
  "select_candidates w = bindS (getS snd) (\<lambda>t. on_pool (collect_candidate_rows t w))"

definition select_json :: "regex \<Rightarrow> bool \<Rightarrow> select_column list \<Rightarrow> condition option \<Rightarrow> 64 word list \<Rightarrow> (pool \<times> table, string) sx" where
  "select_json rx star cols w ids =
     bindS (map_each (\<lambda>i. when_matching rx w i None (\<lambda>row.
         bindS (on_rows (\<lambda>p. askE (\<lambda>t. row_to_json_object p t row star cols))) (\<lambda>s. retS (Some s)))) ids) (\<lambda>found.
     retS (''['' @ join_with '','' (map the (filter (\<lambda>x. x \<noteq> None) found)) @ '']''))"

end
