(* ===== verification/Dbms_Model.thy ===== *)
theory Dbms_Model
  imports Query_Model
begin

section \<open>Databases and their directories\<close>

text \<open>
  \<open>class Database\<close> (\<open>storage/src/database.cpp\<close>), \<open>class Dbms\<close> (\<open>storage/src/dbms.cpp\<close>) and the index
  files of the executor. The state holds the process (the pool, the databases, the active one) and
  the data directory: for each database the \<open>.dat\<close> files of its tables and the \<open>.idx\<close> files of its
  indexes. The bytes of the file of an index that is open are in the index; they are put down in
  the directory when the index is closed, that is when its table goes away or the process ends.
  Association lists stand for one of the orders in which the code may iterate over a map or a
  directory. The file system itself does not fail.

  Two indexes may come to the same file name (column \<open>c\<close> of table \<open>a_b\<close>, column \<open>b_c\<close> of table
  \<open>a\<close>); the code then writes one file through both, the model gives each its own.
\<close>

record directory =
  dir_tables :: "(string \<times> char list) list"
  dir_indexes :: "(string \<times> char list) list"

type_synonym database = "(string \<times> table) list"

record dbms =
  dbms_pool :: pool
  dbms_databases :: "(string \<times> database) list"
  dbms_active :: string
  dbms_root :: "(string \<times> directory) list"

definition empty_directory :: directory where
  "empty_directory = \<lparr>dir_tables = [], dir_indexes = []\<rparr>"

definition directory_of :: "string \<Rightarrow> dbms \<Rightarrow> directory" where
  "directory_of d s = (case map_of (dbms_root s) d of None \<Rightarrow> empty_directory | Some dir \<Rightarrow> dir)"

definition set_directory :: "string \<Rightarrow> directory \<Rightarrow> dbms \<Rightarrow> dbms" where
  "set_directory d dir s = s\<lparr>dbms_root := AList.update d dir (dbms_root s)\<rparr>"

definition create_directory :: "string \<Rightarrow> dbms \<Rightarrow> dbms" where
  "create_directory d s = set_directory d (directory_of d s) s"

subsection \<open>Index files\<close>

definition index_file_name :: "string \<Rightarrow> string \<Rightarrow> string" where
  "index_file_name tname cname = tname @ ''_'' @ cname @ ''.idx''"

definition make_index_for_column :: "directory \<Rightarrow> string \<Rightarrow> column_def \<Rightarrow> exn + bindex" where
  "make_index_for_column dir tname c =
     open_index (map_of (dir_indexes dir) (index_file_name tname (col_name c)))
       (if col_type c = IntType then KindInt64 else KindString)"

fun close_indexes :: "string \<Rightarrow> column_def list \<Rightarrow> (nat \<times> bindex) list \<Rightarrow> directory \<Rightarrow> directory" where
  \<comment> \<open>the destructors of the indexes of a table\<close>
  "close_indexes tname cols [] dir = dir"
| "close_indexes tname cols ((c, ix) # bs) dir =
     close_indexes tname cols bs
       (if c < length cols
        then dir\<lparr>dir_indexes := AList.update (index_file_name tname (col_name (cols ! c))) (disk_file (bx_disk ix)) (dir_indexes dir)\<rparr>
        else dir)"

definition close_table :: "string \<times> table \<Rightarrow> directory \<Rightarrow> directory" where
  "close_table nt dir = close_indexes (fst nt) (columns_of (snd nt)) (tb_indexes (snd nt)) dir"

subsection \<open>\<open>Database\<close>\<close>

definition has_table :: "string \<Rightarrow> database \<Rightarrow> bool" where
  "has_table n db = (map_of db n \<noteq> None)"

definition require_table :: "string \<Rightarrow> database \<Rightarrow> exn + table" where
  "require_table n db =
     (case map_of db n of None \<Rightarrow> Inl (RuntimeError (''Unknown table '' @ quoted n)) | Some t \<Rightarrow> Inr t)"

definition create_table :: "string \<Rightarrow> schema \<Rightarrow> (database, unit) sx" where
  "create_table n s db =
     (if has_table n db then (Inl (RuntimeError (''Table '' @ quoted n @ '' already exists'')), db)
      else (Inr (), db @ [(n, new_table n s)]))"

fun save_tables :: "pool \<Rightarrow> database \<Rightarrow> ((string \<times> char list) list, unit) sx" where
  "save_tables p [] = retS ()"
| "save_tables p ((n, t) # ts) =
     bindS (liftE (save_table p t)) (\<lambda>bytes. bindS (modS (AList.update n bytes)) (\<lambda>_. save_tables p ts))"

definition save_to :: "pool \<Rightarrow> database \<Rightarrow> (directory, unit) sx" where
  \<comment> \<open>the files of tables that are gone are removed first\<close>
  "save_to p db dir =
     (case save_tables p db (filter (\<lambda>(n, _). has_table n db) (dir_tables dir)) of
        (r, files) \<Rightarrow> (r, dir\<lparr>dir_tables := files\<rparr>))"

fun load_tables :: "(string \<times> char list) list \<Rightarrow> (pool, database) sx" where
  "load_tables [] = retS []"
| "load_tables ((n, bytes) # files) =
     bindS (load_table bytes) (\<lambda>t. bindS (load_tables files) (\<lambda>db. retS ((n, t) # db)))"

subsection \<open>\<open>Dbms\<close>\<close>

definition has_database :: "string \<Rightarrow> dbms \<Rightarrow> bool" where
  "has_database n s = (map_of (dbms_databases s) n \<noteq> None)"

definition require_database :: "string \<Rightarrow> dbms \<Rightarrow> exn + database" where
  "require_database n s =
     (case map_of (dbms_databases s) n of None \<Rightarrow> Inl (RuntimeError (''Unknown database '' @ quoted n)) | Some db \<Rightarrow> Inr db)"

definition set_database :: "string \<Rightarrow> database \<Rightarrow> dbms \<Rightarrow> dbms" where
  "set_database n db s = s\<lparr>dbms_databases := AList.update n db (dbms_databases s)\<rparr>"

definition create_database :: "string \<Rightarrow> (dbms, unit) sx" where
  "create_database n s =
     (if has_database n s then (Inl (RuntimeError (''Database '' @ quoted n @ '' already exists'')), s)
      else (Inr (), create_directory n (s\<lparr>dbms_databases := dbms_databases s @ [(n, [])]\<rparr>)))"

definition drop_database :: "string \<Rightarrow> (dbms, unit) sx" where
  "drop_database n s =
     (if \<not> has_database n s then (Inl (RuntimeError (''Unknown database '' @ quoted n)), s)
      else (Inr (), s\<lparr>dbms_databases := AList.delete n (dbms_databases s),
                      dbms_active := (if dbms_active s = n then [] else dbms_active s),
                      dbms_root := AList.delete n (dbms_root s)\<rparr>))"

definition use_database :: "string \<Rightarrow> (dbms, unit) sx" where
  "use_database n = bindS (askE (require_database n)) (\<lambda>_. modS (\<lambda>s. s\<lparr>dbms_active := n\<rparr>))"

definition active_db :: "dbms \<Rightarrow> exn + string" where
  \<comment> \<open>a reference to a database is its name\<close>
  "active_db s =
     (if dbms_active s = [] then Inl (RuntimeError ''No database selected (use USE first)'')
      else bindE (require_database (dbms_active s) s) (\<lambda>_. Inr (dbms_active s)))"

definition save_database :: "string \<Rightarrow> (dbms, unit) sx" where
  "save_database n =
     bindS (askE (require_database n)) (\<lambda>db s.
     case save_to (dbms_pool s) db (directory_of n s) of (r, dir) \<Rightarrow> (r, set_directory n dir s))"

definition save_all :: "(dbms, unit) sx" where
  "save_all s = for_each save_database (map fst (dbms_databases s)) s"

fun load_databases :: "(string \<times> directory) list \<Rightarrow> (pool, (string \<times> database) list) sx" where
  "load_databases [] = retS []"
| "load_databases ((n, dir) # dirs) =
     bindS (load_tables (dir_tables dir)) (\<lambda>db. bindS (load_databases dirs) (\<lambda>dbs. retS ((n, db) # dbs)))"

definition load_all :: "(dbms, unit) sx" where
  "load_all s =
     (case load_databases (dbms_root s) (dbms_pool s) of
        (Inl e, p) \<Rightarrow> (Inl e, s\<lparr>dbms_pool := p\<rparr>)
      | (Inr dbs, p) \<Rightarrow> (Inr (), s\<lparr>dbms_pool := p, dbms_databases := dbs\<rparr>))"

definition close_all :: "dbms \<Rightarrow> (string \<times> directory) list" where
  \<comment> \<open>what is on disk once the process has ended\<close>
  "close_all s =
     map (\<lambda>(n, dir). (n, case map_of (dbms_databases s) n of None \<Rightarrow> dir | Some db \<Rightarrow> fold close_table db dir))
       (dbms_root s)"

end
