(* ===== verification/Query_Engine.thy ===== *)
theory Query_Engine
  imports Dbms_Model
begin

section \<open>The query engine\<close>

text \<open>
  \<open>class DbmsQueryEngine\<close> (\<open>executor/src/query_engine.cpp\<close>): from the text of a statement to its
  effect and its answer. The mutex admits one statement at a time, so a statement is one step on
  the state. A reference to a table is the pair of its database and its name.
\<close>

record engine =
  eng_dbms :: dbms
  eng_used_index :: bool

definition has_terminal_semicolon :: "string \<Rightarrow> bool" where
  "has_terminal_semicolon s = (case dropWhile is_space (rev s) of [] \<Rightarrow> False | c # _ \<Rightarrow> c = CHR '';'')"

definition with_semicolon_if_missing :: "string \<Rightarrow> string" where
  "with_semicolon_if_missing s = (if has_terminal_semicolon s then s else s @ '';'')"

definition on_dbms :: "(dbms, 'a) sx \<Rightarrow> (engine, 'a) sx" where
  "on_dbms m e = (case m (eng_dbms e) of (r, d) \<Rightarrow> (r, e\<lparr>eng_dbms := d\<rparr>))"

definition resolve_database :: "string \<Rightarrow> dbms \<Rightarrow> exn + string" where
  "resolve_database d s =
     (if d \<noteq> [] then bindE (require_database d s) (\<lambda>_. Inr d) else active_db s)"

definition resolve_table :: "string \<Rightarrow> string \<Rightarrow> dbms \<Rightarrow> exn + string \<times> string" where
  "resolve_table d t s =
     bindE (resolve_database d s) (\<lambda>dn.
     bindE (require_database dn s) (\<lambda>db. bindE (require_table t db) (\<lambda>_. Inr (dn, t))))"

definition on_table :: "string \<times> string \<Rightarrow> (pool \<times> table, 'a) sx \<Rightarrow> (dbms, 'a) sx" where
  \<comment> \<open>work on a table through its reference, which is a resolved one\<close>
  "on_table ref m s =
     (case bindE (require_database (fst ref) s) (\<lambda>db. bindE (require_table (snd ref) db) (\<lambda>t. Inr (db, t))) of
        Inl e \<Rightarrow> (Inl e, s)
      | Inr (db, t) \<Rightarrow>
          (case m (dbms_pool s, t) of (r, (p, t')) \<Rightarrow>
             (r, set_database (fst ref) (AList.update (snd ref) t' db) (s\<lparr>dbms_pool := p\<rparr>))))"

subsection \<open>Schemas and indexes\<close>

definition storage_column :: "col_spec \<Rightarrow> (pool, column_def) sx" where
  "storage_column c =
     bindS (case cs_default c of None \<Rightarrow> retS None | Some l \<Rightarrow> bindS (literal_value l) (\<lambda>v. retS (Some v))) (\<lambda>d.
     retS \<lparr>col_name = cs_name c, col_type = (if cs_type c = T_INT then IntType else StrType),
           col_not_null = (cs_modifier c = M_NOT_NULL \<or> cs_modifier c = M_INDEXED),
           col_indexed = (cs_modifier c = M_INDEXED), col_default = d\<rparr>)"

definition build_schema :: "col_spec list \<Rightarrow> (pool, schema) sx" where
  "build_schema cols = bindS (map_each storage_column cols) (\<lambda>cs. liftE (make_schema cs))"

fun attach_columns :: "directory \<Rightarrow> string \<Rightarrow> nat \<Rightarrow> column_def list \<Rightarrow> (pool \<times> table, unit) sx" where
  "attach_columns dir tname i [] = retS ()"
| "attach_columns dir tname i (c # cs) =
     bindS (getS snd) (\<lambda>t.
     bindS (if \<not> col_indexed c \<or> has_index i t then retS ()
            else
              bindS (liftE (make_index_for_column dir tname c)) (\<lambda>ix.
              on_rows (\<lambda>p. attach_index p i (Some ix) True))) (\<lambda>_.
     attach_columns dir tname (i + 1) cs))"

definition attach_indexes_for_table :: "string \<times> string \<Rightarrow> (dbms, unit) sx" where
  "attach_indexes_for_table ref =
     bindS (getS (directory_of (fst ref))) (\<lambda>dir.
     on_table ref (bindS (getS snd) (\<lambda>t. attach_columns dir (snd ref) 0 (columns_of t))))"

definition attach_indexes_for_loaded_data :: "(dbms, unit) sx" where
  "attach_indexes_for_loaded_data =
     bindS (getS (\<lambda>s. concat (map (\<lambda>(n, db). map (\<lambda>(t, _). (n, t)) db) (dbms_databases s)))) (\<lambda>refs.
     for_each attach_indexes_for_table refs)"

definition start_engine :: "(string \<times> directory) list \<Rightarrow> exn + engine" where
  \<comment> \<open>the constructor, in a fresh process\<close>
  "start_engine root =
     bindE (fst (bindS load_all (\<lambda>_. bindS attach_indexes_for_loaded_data (\<lambda>_. getS id))
              \<lparr>dbms_pool = new_pool, dbms_databases = [], dbms_active = [], dbms_root = root\<rparr>)) (\<lambda>s.
     Inr \<lparr>eng_dbms = s, eng_used_index = False\<rparr>)"

subsection \<open>Statements\<close>

definition OK :: "string" where
  "OK = ''OK''"

definition execute_create_database :: "string \<Rightarrow> (dbms, string) sx" where
  "execute_create_database n = bindS (create_database n) (\<lambda>_. bindS save_all (\<lambda>_. retS OK))"

definition execute_drop_database :: "string \<Rightarrow> (dbms, string) sx" where
  "execute_drop_database n = bindS (drop_database n) (\<lambda>_. bindS save_all (\<lambda>_. retS OK))"

definition execute_use_database :: "string \<Rightarrow> (dbms, string) sx" where
  "execute_use_database n = bindS (use_database n) (\<lambda>_. retS OK)"

definition with_pool :: "(pool, 'a) sx \<Rightarrow> (dbms, 'a) sx" where
  "with_pool m s = (case m (dbms_pool s) of (r, p) \<Rightarrow> (r, s\<lparr>dbms_pool := p\<rparr>))"

definition execute_create_table :: "string \<Rightarrow> string \<Rightarrow> col_spec list \<Rightarrow> (dbms, string) sx" where
  "execute_create_table d t cols =
     bindS (askE (resolve_database d)) (\<lambda>dn.
     bindS (with_pool (build_schema cols)) (\<lambda>schema.
     bindS (askE (require_database dn)) (\<lambda>db.
     bindS (case create_table t schema db of (r, db') \<Rightarrow> bindS (modS (set_database dn db')) (\<lambda>_. liftE r)) (\<lambda>_.
     bindS (attach_indexes_for_table (dn, t)) (\<lambda>_.
     bindS save_all (\<lambda>_. retS OK))))))"

definition drop_table :: "string \<Rightarrow> string \<Rightarrow> (dbms, unit) sx" where
  \<comment> \<open>\<open>Database::drop_table\<close>: the table object is destroyed, which closes its index files\<close>
  "drop_table dn t =
     bindS (askE (require_database dn)) (\<lambda>db.
     case map_of db t of
       None \<Rightarrow> throwS (RuntimeError (''Unknown table '' @ quoted t))
     | Some tb \<Rightarrow>
         modS (\<lambda>s. set_directory dn (close_table (t, tb) (directory_of dn s)) (set_database dn (AList.delete t db) s)))"

definition execute_drop_table :: "string \<Rightarrow> string \<Rightarrow> (dbms, string) sx" where
  "execute_drop_table d t =
     bindS (askE (resolve_database d)) (\<lambda>dn.
     bindS (drop_table dn t) (\<lambda>_. bindS save_all (\<lambda>_. retS OK)))"

definition execute_insert :: "string \<Rightarrow> string \<Rightarrow> string list \<Rightarrow> literal option list list \<Rightarrow> (dbms, string) sx" where
  "execute_insert d t cols rows =
     bindS (askE (resolve_table d t)) (\<lambda>ref.
     bindS (on_table ref (insert_rows cols rows)) (\<lambda>_. bindS save_all (\<lambda>_. retS OK)))"

definition execute_update :: "regex \<Rightarrow> string \<Rightarrow> string \<Rightarrow> (string \<times> literal) list \<Rightarrow> condition option \<Rightarrow> (dbms, string) sx" where
  "execute_update rx d t as w =
     bindS (askE (resolve_table d t)) (\<lambda>ref.
     bindS (on_table ref (update_rows rx as w)) (\<lambda>_. bindS save_all (\<lambda>_. retS OK)))"

definition execute_delete :: "regex \<Rightarrow> string \<Rightarrow> string \<Rightarrow> condition option \<Rightarrow> (dbms, string) sx" where
  "execute_delete rx d t w =
     bindS (askE (resolve_table d t)) (\<lambda>ref.
     bindS (on_table ref (delete_rows rx w)) (\<lambda>_. bindS save_all (\<lambda>_. retS OK)))"

definition execute_select :: "regex \<Rightarrow> string \<Rightarrow> string \<Rightarrow> bool \<Rightarrow> select_column list \<Rightarrow> condition option \<Rightarrow> (engine, string) sx" where
  "execute_select rx d t star cols w =
     bindS (on_dbms (askE (resolve_table d t))) (\<lambda>ref.
     bindS (on_dbms (on_table ref (select_candidates w))) (\<lambda>(ids, used).
     bindS (modS (\<lambda>e. e\<lparr>eng_used_index := used\<rparr>)) (\<lambda>_.
     on_dbms (on_table ref (select_json rx star cols w ids)))))"

fun execute_command :: "regex \<Rightarrow> command \<Rightarrow> (engine, string) sx" where
  "execute_command rx (CreateDatabaseCmd n) = on_dbms (execute_create_database n)"
| "execute_command rx (DropDatabaseCmd n) = on_dbms (execute_drop_database n)"
| "execute_command rx (UseDatabaseCmd n) = on_dbms (execute_use_database n)"
| "execute_command rx (CreateTableCmd d t cols) = on_dbms (execute_create_table d t cols)"
| "execute_command rx (DropTableCmd d t) = on_dbms (execute_drop_table d t)"
| "execute_command rx (InsertCmd d t cols rows) = on_dbms (execute_insert d t cols rows)"
| "execute_command rx (UpdateCmd d t as w) = on_dbms (execute_update rx d t as w)"
| "execute_command rx (DeleteCmd d t w) = on_dbms (execute_delete rx d t w)"
| "execute_command rx (SelectCmd d t star cols w) = execute_select rx d t star cols w"

definition execute :: "regex \<Rightarrow> string \<Rightarrow> (engine, string) sx" where
  "execute rx query =
     bindS (liftE (parse_text (with_semicolon_if_missing query))) (execute_command rx)"

end
