(* ===== verification/Index_Range.thy ===== *)
theory Index_Range
  imports Table_Inv
begin

section \<open>Range search as part of the interface\<close>

text \<open>
  \<open>IIndex::range_search\<close> on top of the interface of a unique index: the ids of the keys of a
  range, both ends included. It is interpreted for the B*+-tree with its order of keys, and for the adapter
  with the order that values inherit from their keys.
\<close>

locale ordered_index = unique_index rep keyed storable room look add rem
  for rep :: "'ix \<Rightarrow> ('k \<rightharpoonup> 64 word) \<Rightarrow> bool"
    and keyed :: "'ix \<Rightarrow> 'k \<Rightarrow> bool" and storable :: "'ix \<Rightarrow> 'k \<Rightarrow> bool" and room :: "nat \<Rightarrow> 'ix \<Rightarrow> bool"
    and look :: "'k \<Rightarrow> 'ix \<Rightarrow> exn + 64 word option" and add :: "'k \<Rightarrow> 64 word \<Rightarrow> ('ix, unit) sx"
    and rem :: "'k \<Rightarrow> ('ix, bool) sx" +
  fixes between :: "'k \<Rightarrow> 'k \<Rightarrow> 'ix \<Rightarrow> exn + 64 word list"
    and within :: "'k \<Rightarrow> 'k \<Rightarrow> 'k \<Rightarrow> bool"
  assumes range_law: "rep ix m \<Longrightarrow> keyed ix b \<Longrightarrow> keyed ix e \<Longrightarrow>
      \<exists>ids. between b e ix = Inr ids \<and> set ids = {i. \<exists>k. m k = Some i \<and> within b e k}
        \<and> ((\<forall>k k' i. m k = Some i \<longrightarrow> m k' = Some i \<longrightarrow> k = k') \<longrightarrow> distinct ids)"
begin

lemma range_finds:
  assumes "rep ix m" and "keyed ix b" and "keyed ix e" and "keyed ix k" and "look k ix = Inr (Some i)" and "within b e k"
  shows "\<exists>ids. between b e ix = Inr ids \<and> i \<in> set ids"
proof -
  have "m k = Some i" using look_law [OF assms(1,4)] assms(5) by simp
  then show ?thesis using range_law [OF assms(1-3)] assms(6) by blast
qed

lemma range_after_add:
  assumes "rep ix m" and "storable ix k" and "m k = None" and "room (Suc n) ix" and "keyed ix b" and "keyed ix e"
    and "within b e k"
  shows "\<exists>ix' ids. add k v ix = (Inr (), ix') \<and> between b e ix' = Inr ids \<and> v \<in> set ids"
proof -
  obtain ix' where i: "add k v ix = (Inr (), ix')" "rep ix' (m(k \<mapsto> v))" "keyed ix' = keyed ix"
    using add_law [OF assms(1-4)] by blast
  obtain ids where "between b e ix' = Inr ids" "set ids = {i. \<exists>q. (m(k \<mapsto> v)) q = Some i \<and> within b e q}"
    using range_law [OF i(2), of b e] assms(5,6) i(3) by auto
  moreover have "(m(k \<mapsto> v)) k = Some v" by simp
  ultimately show ?thesis using i(1) assms(7) by blast
qed

end

definition key_within :: "index_key \<Rightarrow> index_key \<Rightarrow> index_key \<Rightarrow> bool" where
  "key_within b e k \<longleftrightarrow> b \<le> k \<and> k \<le> e"

definition value_within :: "pool \<Rightarrow> sql_value \<Rightarrow> sql_value \<Rightarrow> sql_value \<Rightarrow> bool" where
  "value_within p b e v \<longleftrightarrow>
     (case (to_index_key p b, to_index_key p e, to_index_key p v) of
        (Inr kb, Inr ke, Inr k) \<Rightarrow> key_within kb ke k | _ \<Rightarrow> False)"

lemma distinct_values:
  assumes "distinct (map fst kvs)" and "\<And>k k' i. map_of kvs k = Some i \<Longrightarrow> map_of kvs k' = Some i \<Longrightarrow> k = k'"
  shows "distinct (map snd (filter P kvs))"
proof -
  have "distinct kvs" using assms(1) by (simp add: distinct_map)
  then have "distinct (filter P kvs)" by simp
  moreover have "inj_on snd (set (filter P kvs))"
  proof (rule inj_onI)
    fix x y assume x: "x \<in> set (filter P kvs)" and y: "y \<in> set (filter P kvs)" and eq: "snd x = snd y"
    have "map_of kvs (fst x) = Some (snd x)" using x map_of_eq_Some_iff [OF assms(1)] by simp
    moreover have "map_of kvs (fst y) = Some (snd x)" using y eq map_of_eq_Some_iff [OF assms(1)] by simp
    ultimately have "fst x = fst y" by (rule assms(2))
    then show "x = y" using eq by (simp add: prod_eq_iff)
  qed
  ultimately show ?thesis by (simp add: distinct_map)
qed

interpretation bpr: ordered_index index_map "\<lambda>ix k. key_matches_kind k (kind_of ix)"
  "\<lambda>ix. key_ok (kind_of ix)" room_for find_key insert_key erase_key range_search key_within
proof unfold_locales
  fix ix :: bindex and m and b e :: index_key
  assume "index_map ix m" and kb: "key_matches_kind b (kind_of ix)" and ke: "key_matches_kind e (kind_of ix)"
  then obtain kvs where r: "index_rep ix kvs" "m = map_of kvs" by (auto simp: index_map_def)
  have s: "distinct (map fst kvs)" using r(1) by (simp add: index_rep_def ksorted_def strict_sorted_iff)
  have run: "range_search b e ix = Inr (in_range b e kvs)" by (rule range_search_rep [OF r(1) kb ke])
  have "set (in_range b e kvs) = {i. \<exists>k. m k = Some i \<and> key_within b e k}"
    unfolding in_range_def key_within_def r(2) using map_of_eq_Some_iff [OF s] by force
  moreover have "distinct (in_range b e kvs)" if "\<forall>k k' i. m k = Some i \<longrightarrow> m k' = Some i \<longrightarrow> k = k'"
    unfolding in_range_def by (rule distinct_values [OF s]) (use that r(2) in blast)
  ultimately show "\<exists>ids. range_search b e ix = Inr ids \<and> set ids = {i. \<exists>k. m k = Some i \<and> key_within b e k}
      \<and> ((\<forall>k k' i. m k = Some i \<longrightarrow> m k' = Some i \<longrightarrow> k = k') \<longrightarrow> distinct ids)"
    using run by blast
qed

interpretation adr: ordered_index "adapter_map p" "value_keyed p" "value_storable p" room_for
  "adapter_find p" "adapter_insert p" "adapter_erase p" "adapter_range p" "value_within p"
  for p :: pool
proof unfold_locales
  fix ix :: bindex and m and b e :: sql_value
  assume rep: "adapter_map p ix m" and "value_keyed p ix b" and "value_keyed p ix e"
  then obtain kb ke where k: "to_index_key p b = Inr kb" "key_matches_kind kb (kind_of ix)"
    "to_index_key p e = Inr ke" "key_matches_kind ke (kind_of ix)" by (auto simp: value_keyed_def)
  obtain km where km: "index_map ix km" "\<And>v k. to_index_key p v = Inr k \<Longrightarrow> m v = km k"
    "\<And>v e. to_index_key p v = Inl e \<Longrightarrow> m v = None" "\<And>k. km k \<noteq> None \<Longrightarrow> \<exists>v. to_index_key p v = Inr k"
    using rep unfolding adapter_map_def by blast
  obtain ids where ids: "range_search kb ke ix = Inr ids" "set ids = {i. \<exists>q. km q = Some i \<and> key_within kb ke q}"
    "(\<forall>q q' i. km q = Some i \<longrightarrow> km q' = Some i \<longrightarrow> q = q') \<longrightarrow> distinct ids"
    using bpr.range_law [OF km(1) k(2,4)] by blast
  have run: "adapter_range p b e ix = Inr ids" using k ids(1) by (simp add: adapter_range_def)
  have "(\<exists>q. km q = Some i \<and> key_within kb ke q) \<longleftrightarrow> (\<exists>v. m v = Some i \<and> value_within p b e v)" for i
  proof
    assume "\<exists>q. km q = Some i \<and> key_within kb ke q"
    then obtain q where q: "km q = Some i" "key_within kb ke q" by blast
    then obtain v where v: "to_index_key p v = Inr q" using km(4) by blast
    then have "m v = Some i \<and> value_within p b e v" using q k km(2) [OF v] by (simp add: value_within_def)
    then show "\<exists>v. m v = Some i \<and> value_within p b e v" by blast
  next
    assume "\<exists>v. m v = Some i \<and> value_within p b e v"
    then obtain v where v: "m v = Some i" "value_within p b e v" by blast
    then obtain q where "to_index_key p v = Inr q" using km(3) by (cases "to_index_key p v") auto
    then show "\<exists>q. km q = Some i \<and> key_within kb ke q" using v k km(2) by (auto simp: value_within_def)
  qed
  then have "set ids = {i. \<exists>v. m v = Some i \<and> value_within p b e v}" using ids(2) by simp
  moreover have "distinct ids" if inj: "\<forall>v v' i. m v = Some i \<longrightarrow> m v' = Some i \<longrightarrow> v = v'"
  proof -
    have "q = q'" if "km q = Some i" "km q' = Some i" for q q' i
    proof -
      obtain v v' where "to_index_key p v = Inr q" "to_index_key p v' = Inr q'" using km(4) \<open>km q = Some i\<close> \<open>km q' = Some i\<close> by blast
      then show ?thesis using inj km(2) \<open>km q = Some i\<close> \<open>km q' = Some i\<close> by (metis sum.inject(2))
    qed
    then show ?thesis using ids(3) by blast
  qed
  ultimately show "\<exists>ids. adapter_range p b e ix = Inr ids \<and> set ids = {i. \<exists>v. m v = Some i \<and> value_within p b e v}
      \<and> ((\<forall>v v' i. m v = Some i \<longrightarrow> m v' = Some i \<longrightarrow> v = v') \<longrightarrow> distinct ids)"
    using run by blast
qed

end
