(* ===== verification/Query_Props.thy ===== *)
theory Query_Props
  imports Query_Model Parser_Conditions Index_Range
begin

section \<open>What statements on a table do\<close>

text \<open>
  The meaning of a condition in terms of data (\<open>comparison_truth\<close>), and the proof that on a
  well-formed table the engine computes it: whatever it interns on the way, and whether the
  candidates come from an index or from a scan.
\<close>

subsection \<open>Interning on the way\<close>

definition grows :: "nat \<Rightarrow> pool \<Rightarrow> pool \<Rightarrow> bool" where
  \<comment> \<open>a later pool with at most \<open>n\<close> more strings\<close>
  "grows n p p' \<longleftrightarrow> pool_ok p' \<and> extends p p' \<and> length (by_id p') \<le> length (by_id p) + n"

lemma grows_refl: "pool_ok p \<Longrightarrow> grows n p p"
  by (simp add: grows_def)

lemma grows_trans: "grows n p q \<Longrightarrow> grows m q r \<Longrightarrow> grows (n + m) p r"
  by (auto simp: grows_def intro: extends_trans)

lemma grows_more: "grows n p q \<Longrightarrow> n \<le> m \<Longrightarrow> grows m p q"
  by (auto simp: grows_def)

lemma grows_room: "grows n p q \<Longrightarrow> pool_room (n + m) p \<Longrightarrow> pool_room m q"
  by (auto simp: grows_def pool_room_def)

lemma room_less: "pool_room n p \<Longrightarrow> m \<le> n \<Longrightarrow> pool_room m p"
  by (auto simp: pool_room_def)

lemma interned_ok:
  assumes "pool_ok p" and "pool_room 1 p"
  shows "\<exists>v p'. interned s p = (Inr v, p') \<and> denote p' v = Some (StrD s) \<and> is_str v \<and> grows 1 p p'"
proof -
  obtain i p' where i: "intern s p = (i, p')" by (cases "intern s p")
  show ?thesis using intern_ok [OF assms i] by (auto simp: interned_def of_str_def i grows_def)
qed

definition literal_datum :: "literal \<Rightarrow> datum" where
  "literal_datum l = (case l of NullLit \<Rightarrow> NullD | IntLit i \<Rightarrow> IntD (sint i) | StrLit s \<Rightarrow> StrD s)"

lemma literal_value_ok:
  assumes "pool_ok p" and "pool_room 1 p"
  shows "\<exists>v p'. literal_value l p = (Inr v, p') \<and> denote p' v = Some (literal_datum l) \<and> grows 1 p p'"
proof (cases l)
  case (StrLit s)
  then show ?thesis using interned_ok [OF assms, of s] by (auto simp: literal_datum_def)
next
  case (IntLit i)
  have "signed_take_bit 63 (sint i) = sint i"
    using sint_ge [of i] sint_lt [of i] by (intro signed_take_bit_int_eq_self) simp_all
  then have "sint (scast i :: 64 word) = sint i" by (simp add: signed_scast_eq)
  then show ?thesis using IntLit grows_refl [OF assms(1)] by (auto simp: literal_datum_def)
qed (use grows_refl [OF assms(1)] in \<open>auto simp: literal_datum_def\<close>)

subsection \<open>Comparisons\<close>

definition text_datum :: "string \<Rightarrow> datum" where
  \<comment> \<open>the datum that the text of a constant in a condition stands for\<close>
  "text_datum s =
     (if s = ''NULL'' then NullD
      else case stoll s of Inr (w, n) \<Rightarrow> if n = length s then IntD (sint w) else StrD s | Inl _ \<Rightarrow> StrD s)"

definition cell_datum :: "pool \<Rightarrow> table \<Rightarrow> row \<Rightarrow> string \<Rightarrow> datum" where
  "cell_datum p t row n =
     (case find_index (tb_schema t) n of
        None \<Rightarrow> NullD
      | Some i \<Rightarrow> (case denote p (row ! i) of None \<Rightarrow> NullD | Some d \<Rightarrow> d))"

definition operand_datum :: "(string \<Rightarrow> datum) \<Rightarrow> string \<Rightarrow> bool \<Rightarrow> datum" where
  "operand_datum cell s is_col = (if is_col then cell s else text_datum s)"

definition comparison_truth :: "regex \<Rightarrow> (string \<Rightarrow> datum) \<Rightarrow> comparison \<Rightarrow> bool" where
  "comparison_truth rx cell c =
     (let left = operand_datum cell (cmp_left c) (cmp_left_col c);
          right = operand_datum cell (cmp_right c) (cmp_right_col c) in
      if cmp_op c = BETWEEN then
        let right2 = operand_datum cell (cmp_right2 c) (cmp_right2_col c);
            (lower, valid1) = compare_data left right; (upper, valid2) = compare_data left right2 in
        valid1 \<and> valid2 \<and> lower \<ge> 0 \<and> upper < 0
      else if cmp_op c = LIKE then
        (case (left, right) of (StrD s, StrD pattern) \<Rightarrow> rx pattern s = Inr True | _ \<Rightarrow> False)
      else case compare_data left right of (r, valid) \<Rightarrow> valid \<and> comparison_holds (cmp_op c) r)"

definition column_known :: "table \<Rightarrow> string \<Rightarrow> bool" where
  "column_known t n \<longleftrightarrow> find_index (tb_schema t) n \<noteq> None"

definition comparison_runs :: "regex \<Rightarrow> table \<Rightarrow> comparison \<Rightarrow> bool" where
  \<comment> \<open>its columns exist, and a pattern match does not throw\<close>
  "comparison_runs rx t c \<longleftrightarrow>
     (cmp_left_col c \<longrightarrow> column_known t (cmp_left c)) \<and> (cmp_right_col c \<longrightarrow> column_known t (cmp_right c))
     \<and> (cmp_op c = BETWEEN \<longrightarrow> cmp_right2_col c \<longrightarrow> column_known t (cmp_right2 c))
     \<and> (cmp_op c = LIKE \<longrightarrow> (\<forall>pattern s e. rx pattern s \<noteq> Inl e))"

fun comparisons :: "condition \<Rightarrow> comparison list" where
  "comparisons (Condition c l None None p) = [c]"
| "comparisons (Condition c l (Some n) None p) = c # comparisons n"
| "comparisons (Condition c l None (Some tr) p) = comparisons tr"
| "comparisons (Condition c l (Some n) (Some tr) p) = comparisons tr @ comparisons n"

definition condition_runs :: "regex \<Rightarrow> table \<Rightarrow> condition \<Rightarrow> bool" where
  "condition_runs rx t c \<longleftrightarrow> (\<forall>k \<in> set (comparisons c). comparison_runs rx t k)"

definition row_ready :: "pool \<Rightarrow> table \<Rightarrow> row \<Rightarrow> bool" where
  "row_ready p t row \<longleftrightarrow> schema_ok (tb_schema t) \<and> length row = length (columns_of t) \<and> values_ok p row"

lemma row_ready_grows: "row_ready p t row \<Longrightarrow> grows n p p' \<Longrightarrow> row_ready p' t row"
  using value_ok_extends by (auto simp: row_ready_def values_ok_def grows_def)

lemma table_row_ready: "table_ok p t \<Longrightarrow> map_of (tb_rows t) i = Some row \<Longrightarrow> row_ready p t row"
  using table_okD(2,6) by (auto simp: row_ready_def conforms_def)

lemma column_index_bound:
  "schema_ok (tb_schema t) \<Longrightarrow> find_index (tb_schema t) n = Some i \<Longrightarrow> i < length (columns_of t)"
  by (simp add: schema_ok_def find_index_def)

lemma cell_datum_grows:
  assumes "row_ready p t row" and "grows n p p'"
  shows "cell_datum p' t row = cell_datum p t row"
proof
  fix nm
  show "cell_datum p' t row nm = cell_datum p t row nm"
  proof (cases "find_index (tb_schema t) nm")
    case (Some i)
    then have "i < length row" using assms(1) column_index_bound by (auto simp: row_ready_def)
    then have "value_ok p (row ! i)" using assms(1) by (simp add: row_ready_def values_ok_def)
    then obtain d where "denote p (row ! i) = Some d" by (auto simp: value_ok_def)
    then show ?thesis using Some denote_extends assms(2) by (auto simp: cell_datum_def grows_def)
  qed (simp add: cell_datum_def)
qed

lemma resolve_operand_ok:
  assumes "row_ready p t row" and "pool_ok p" and "pool_room 1 p" and "is_col \<longrightarrow> column_known t s"
  shows "\<exists>v p'. resolve_operand s is_col t row p = (Inr v, p') \<and> grows 1 p p'
    \<and> denote p' v = Some (operand_datum (cell_datum p t row) s is_col)"
proof (cases is_col)
  case True
  then obtain i where i: "find_index (tb_schema t) s = Some i" using assms(4) by (auto simp: column_known_def)
  then have "i < length row" using assms(1) column_index_bound by (auto simp: row_ready_def)
  moreover from this have "value_ok p (row ! i)" using assms(1) by (simp add: row_ready_def values_ok_def)
  ultimately show ?thesis using True i grows_refl [OF assms(2)]
    by (auto simp: resolve_operand_def require_column_def operand_datum_def cell_datum_def value_ok_def)
next
  case False
  have str: "\<exists>v p'. interned s p = (Inr v, p') \<and> denote p' v = Some (StrD s) \<and> grows 1 p p'"
    using interned_ok [OF assms(2,3)] by blast
  show ?thesis
  proof (cases "s = ''NULL''")
    case True
    then show ?thesis using False grows_refl [OF assms(2)] by (simp add: resolve_operand_def operand_datum_def text_datum_def)
  next
    case notnull: False
    show ?thesis
    proof (cases "stoll s")
      case (Inl e)
      then show ?thesis using False notnull str by (auto simp: resolve_operand_def operand_datum_def text_datum_def)
    next
      case (Inr r)
      obtain w n where r: "r = (w, n)" by (cases r)
      show ?thesis using False notnull str grows_refl [OF assms(2)] Inr r
        by (cases "n = length s") (auto simp: resolve_operand_def operand_datum_def text_datum_def)
    qed
  qed
qed

lemma is_str_denotes: "denote p v = Some d \<Longrightarrow> is_str v \<longleftrightarrow> (\<exists>s. d = StrD s)"
  by (cases v) (auto split: sum.splits)

lemma as_str_denotes: "denote p v = Some (StrD s) \<Longrightarrow> as_str p v = Inr s"
  by (cases v) (auto split: sum.splits)

lemma evaluate_simple_ok:
  assumes ready: "row_ready p t row" and ok: "pool_ok p" and room: "pool_room 3 p" and run: "comparison_runs rx t c"
  shows "\<exists>p'. evaluate_simple_condition rx t row c p = (Inr (comparison_truth rx (cell_datum p t row) c), p') \<and> grows 3 p p'"
proof -
  let ?cell = "cell_datum p t row"
  let ?d = "\<lambda>s b. operand_datum ?cell s b"
  have known: "cmp_left_col c \<longrightarrow> column_known t (cmp_left c)" "cmp_right_col c \<longrightarrow> column_known t (cmp_right c)"
    "cmp_op c = BETWEEN \<Longrightarrow> cmp_right2_col c \<longrightarrow> column_known t (cmp_right2 c)"
    using run by (simp_all add: comparison_runs_def)
  have room1: "pool_room 1 p" by (rule room_less [OF room]) simp
  obtain l p1 where l: "resolve_operand (cmp_left c) (cmp_left_col c) t row p = (Inr l, p1)" "grows 1 p p1"
    "denote p1 l = Some (?d (cmp_left c) (cmp_left_col c))"
    using resolve_operand_ok [OF ready ok room1 known(1)] by blast
  have ready1: "row_ready p1 t row" and ok1: "pool_ok p1" and room2: "pool_room 2 p1"
    using row_ready_grows [OF ready l(2)] l(2) grows_room [OF l(2), of 2] room by (auto simp: grows_def numeral_3_eq_3)
  have cell1: "cell_datum p1 t row = ?cell" by (rule cell_datum_grows [OF ready l(2)])
  have room21: "pool_room 1 p1" by (rule room_less [OF room2]) simp
  obtain r p2 where r: "resolve_operand (cmp_right c) (cmp_right_col c) t row p1 = (Inr r, p2)" "grows 1 p1 p2"
    "denote p2 r = Some (?d (cmp_right c) (cmp_right_col c))"
    using resolve_operand_ok [OF ready1 ok1 room21 known(2)] unfolding cell1 by blast
  have g2: "grows 2 p p2" using grows_trans [OF l(2) r(2)] by (simp add: numeral_2_eq_2)
  have ready2: "row_ready p2 t row" and ok2: "pool_ok p2" and room3: "pool_room 1 p2"
    using row_ready_grows [OF ready g2] g2 grows_room [OF g2, of 1] room by (auto simp: grows_def numeral_3_eq_3)
  have cell2: "cell_datum p2 t row = ?cell" by (rule cell_datum_grows [OF ready g2])
  have l2: "denote p2 l = Some (?d (cmp_left c) (cmp_left_col c))" using denote_extends l(3) r(2) by (auto simp: grows_def)
  show ?thesis
  proof (cases "cmp_op c = BETWEEN")
    case True
    then obtain r' p3 where r': "resolve_operand (cmp_right2 c) (cmp_right2_col c) t row p2 = (Inr r', p3)" "grows 1 p2 p3"
      "denote p3 r' = Some (?d (cmp_right2 c) (cmp_right2_col c))"
      using resolve_operand_ok [OF ready2 ok2 room3 known(3)] unfolding cell2 by blast
    have l3: "denote p3 l = Some (?d (cmp_left c) (cmp_left_col c))" "denote p3 r = Some (?d (cmp_right c) (cmp_right_col c))"
      using denote_extends l2 r(3) r'(2) by (auto simp: grows_def)
    have "grows 3 p p3" using grows_trans [OF g2 r'(2)] by simp
    then show ?thesis using True l(1) r(1) r'(1) compare_denotes [OF l3] compare_denotes [OF l3(1) r'(3)]
      by (auto simp: evaluate_simple_condition_def comparison_truth_def bindS_def Let_def split: prod.splits)
  next
    case notbetween: False
    have g3: "grows 3 p p2" by (rule grows_more [OF g2]) simp
    show ?thesis
    proof (cases "cmp_op c = LIKE")
      case True
      show ?thesis
      proof (cases "is_str l \<and> is_str r")
        case False
        then show ?thesis using True l(1) r(1) g3 is_str_denotes [OF l2] is_str_denotes [OF r(3)]
          by (auto simp: evaluate_simple_condition_def comparison_truth_def bindS_def Let_def split: datum.splits)
      next
        case str: True
        then obtain s pat where d: "?d (cmp_left c) (cmp_left_col c) = StrD s" "?d (cmp_right c) (cmp_right_col c) = StrD pat"
          using is_str_denotes [OF l2] is_str_denotes [OF r(3)] by blast
        obtain b where "rx pat s = Inr b" using run True by (cases "rx pat s") (auto simp: comparison_runs_def)
        then show ?thesis using True str d l(1) r(1) g3 as_str_denotes l2 r(3)
          by (auto simp: evaluate_simple_condition_def comparison_truth_def bindS_def Let_def)
      qed
    next
      case False
      then show ?thesis using notbetween l(1) r(1) g3 compare_denotes [OF l2 r(3)]
        by (auto simp: evaluate_simple_condition_def comparison_truth_def bindS_def Let_def split: prod.splits)
    qed
  qed
qed

lemma evaluate_condition_ok:
  assumes "row_ready p t row" and "pool_ok p" and "pool_room (3 * length (comparisons c)) p" and "condition_runs rx t c"
  shows "\<exists>p'. evaluate_condition rx t row c p = (Inr (holds (comparison_truth rx (cell_datum p t row)) c), p')
    \<and> grows (3 * length (comparisons c)) p p'"
  using assms
proof (induction c arbitrary: p rule: comparisons.induct)
  case (1 c l q)
  then show ?case using evaluate_simple_ok [of p t row rx c] by (simp add: condition_runs_def)
next
  case (2 c l n q)
  obtain p1 where p1: "evaluate_simple_condition rx t row c p = (Inr (comparison_truth rx (cell_datum p t row) c), p1)" "grows 3 p p1"
    using evaluate_simple_ok [of p t row rx c] 2 room_less [OF 2(4), of 3] by (auto simp: condition_runs_def)
  have "pool_room (3 * length (comparisons n)) p1" using grows_room [OF p1(2)] 2(4) by simp
  then obtain p2 where p2: "evaluate_condition rx t row n p1 = (Inr (holds (comparison_truth rx (cell_datum p1 t row)) n), p2)"
    "grows (3 * length (comparisons n)) p1 p2"
    using 2(1) [of p1] row_ready_grows [OF 2(2) p1(2)] p1(2) 2(5) by (auto simp: condition_runs_def grows_def)
  have "grows (3 * length (comparisons (Condition c l (Some n) None q))) p p2" using grows_trans [OF p1(2) p2(2)] by simp
  then show ?case using p1(1) p2(1) cell_datum_grows [OF 2(2) p1(2)]
    by (cases l) (auto simp: bindS_def join_truth_def)
next
  case (3 c l tr q)
  then obtain p' where "evaluate_condition rx t row tr p = (Inr (holds (comparison_truth rx (cell_datum p t row)) tr), p')"
    "grows (3 * length (comparisons tr)) p p'"
    using 3(1) [of p] by (auto simp: condition_runs_def)
  then show ?case by (auto simp: bindS_def)
next
  case (4 c l n tr q)
  obtain p1 where p1: "evaluate_condition rx t row tr p = (Inr (holds (comparison_truth rx (cell_datum p t row)) tr), p1)"
    "grows (3 * length (comparisons tr)) p p1"
    using 4(1) [of p] 4(3-6) room_less [OF 4(5), of "3 * length (comparisons tr)"] by (auto simp: condition_runs_def)
  have "pool_room (3 * length (comparisons n)) p1" using grows_room [OF p1(2)] 4(5) by (simp add: distrib_left)
  then obtain p2 where p2: "evaluate_condition rx t row n p1 = (Inr (holds (comparison_truth rx (cell_datum p1 t row)) n), p2)"
    "grows (3 * length (comparisons n)) p1 p2"
    using 4(2) [of p1] row_ready_grows [OF 4(3) p1(2)] p1(2) 4(6) by (auto simp: condition_runs_def grows_def)
  have "grows (3 * length (comparisons (Condition c l (Some n) (Some tr) q))) p p2"
    using grows_trans [OF p1(2) p2(2)] by (simp add: distrib_left)
  then show ?case using p1(1) p2(1) cell_datum_grows [OF 4(3) p1(2)] by (auto simp: bindS_def)
qed

subsection \<open>Candidates from an index\<close>

definition literal_fits :: "string \<Rightarrow> data_type \<Rightarrow> bool" where
  \<comment> \<open>\<open>parse_literal_for_column\<close> gives a key and does not throw\<close>
  "literal_fits s ty \<longleftrightarrow> s \<noteq> ''NULL'' \<and> (ty = IntType \<longrightarrow> (case stoll s of Inr _ \<Rightarrow> True | Inl _ \<Rightarrow> False))"

definition key_datum :: "string \<Rightarrow> data_type \<Rightarrow> datum" where
  "key_datum s ty =
     (if ty = IntType then (case stoll s of Inr (w, _) \<Rightarrow> IntD (sint w) | Inl _ \<Rightarrow> NullD) else StrD s)"

definition datum_typed :: "datum \<Rightarrow> data_type \<Rightarrow> bool" where
  "datum_typed d ty \<longleftrightarrow> (case d of NullD \<Rightarrow> False | IntD _ \<Rightarrow> ty = IntType | StrD _ \<Rightarrow> ty = StrType)"

lemma parse_literal_ok:
  assumes "pool_ok p" and "pool_room 1 p" and "literal_fits s ty"
  shows "\<exists>v p'. parse_literal_for_column s ty p = (Inr v, p') \<and> grows 1 p p' \<and> denote p' v = Some (key_datum s ty)
    \<and> v \<noteq> Null \<and> matches v ty"
proof (cases ty)
  case IntType
  then obtain w n where "stoll s = Inr (w, n)" using assms(3) by (auto simp: literal_fits_def split: sum.splits)
  then show ?thesis using IntType assms(3) grows_refl [OF assms(1)]
    by (auto simp: parse_literal_for_column_def literal_fits_def key_datum_def)
next
  case StrType
  obtain v p' where v: "interned s p = (Inr v, p')" "denote p' v = Some (StrD s)" "is_str v" "grows 1 p p'"
    using interned_ok [OF assms(1,2)] by blast
  then show ?thesis using StrType assms(3)
    by (cases v) (auto simp: parse_literal_for_column_def literal_fits_def key_datum_def)
qed

lemma text_is_key:
  assumes "datum_typed d ty" and "compare_data d (text_datum s) = (r, True)" and "literal_fits s ty"
  shows "text_datum s = key_datum s ty"
  using assms by (cases d; cases "text_datum s"; cases ty; cases "stoll s")
    (auto simp: datum_typed_def text_datum_def key_datum_def literal_fits_def split: if_splits prod.splits)

lemma typed_cell:
  assumes "matches v ty" and "v \<noteq> Null" and "denote p v = Some d"
  shows "datum_typed d ty"
  using assms by (cases v) (auto simp: datum_typed_def split: sum.splits)

lemma value_within_data:
  assumes "denote p b = Some B" and "denote p e = Some E" and "denote p v = Some V"
    and "compare_data V B = (x, True)" and "compare_data V E = (y, True)" and "0 \<le> x" and "y \<le> 0"
  shows "value_within p b e v"
  using assms
  by (cases b; cases e; cases v)
    (auto simp: value_within_def key_within_def three_way_def denote_Str split: sum.splits if_splits)

definition index_lookup :: "table \<Rightarrow> condition \<Rightarrow> bool" where
  \<comment> \<open>the conditions for which the engine asks the index of the column, if there is one\<close>
  "index_lookup t c \<longleftrightarrow> cond_left_tree c = None \<and> cond_next c = None \<and> cmp_left_col (cond_cmp c)
     \<and> \<not> cmp_right_col (cond_cmp c) \<and> (cmp_op (cond_cmp c) = EQ \<or> cmp_op (cond_cmp c) = BETWEEN)
     \<and> (case find_index (tb_schema t) (cmp_left (cond_cmp c)) of None \<Rightarrow> False | Some i \<Rightarrow> has_index i t)"

definition lookup_fits :: "table \<Rightarrow> condition option \<Rightarrow> bool" where
  \<comment> \<open>the constants of such a condition can be keys of the index\<close>
  "lookup_fits t w \<longleftrightarrow>
     (case w of None \<Rightarrow> True
      | Some c \<Rightarrow>
          let k = cond_cmp c in
          if index_lookup t c then
            (case find_index (tb_schema t) (cmp_left k) of None \<Rightarrow> True
             | Some i \<Rightarrow>
                 literal_fits (cmp_right k) (col_type (columns_of t ! i))
                 \<and> (cmp_op k = BETWEEN \<longrightarrow> \<not> cmp_right2_col k \<and> literal_fits (cmp_right2 k) (col_type (columns_of t ! i))))
          else True)"

lemma column_of_inj: "column_of m c M \<Longrightarrow> \<forall>v v' i. m v = Some i \<longrightarrow> m v' = Some i \<longrightarrow> v = v'"
  unfolding column_of_def by fastforce

lemma find_candidates:
  assumes ok: "table_ok p t" and room: "pool_room 1 p" and ix: "map_of (tb_indexes t) col = Some ix"
    and fits: "literal_fits s (col_type (columns_of t ! col))"
  shows "\<exists>v p' found. parse_literal_for_column s (col_type (columns_of t ! col)) p = (Inr v, p') \<and> grows 1 p p'
    \<and> adapter_find p' v ix = Inr found
    \<and> (\<forall>i. found = Some i \<longleftrightarrow> (\<exists>row. map_of (tb_rows t) i = Some row \<and> denote p' (row ! col) = Some (key_datum s (col_type (columns_of t ! col)))))"
proof -
  let ?ty = "col_type (columns_of t ! col)"
  obtain v p' where v: "parse_literal_for_column s ?ty p = (Inr v, p')" "grows 1 p p'" "denote p' v = Some (key_datum s ?ty)"
    "v \<noteq> Null" "matches v ?ty" using parse_literal_ok [OF table_okD(1) [OF ok] room fits] by blast
  have ok': "table_ok p' t" using table_ok_extends [OF ok] v(2) by (auto simp: grows_def)
  have "index_ok p' (columns_of t) (map_of (tb_rows t)) col ix" by (rule table_okD(8) [OF ok' map_of_SomeD [OF ix]])
  then obtain m where m: "adapter_map p' ix m" "column_of m col (map_of (tb_rows t))" "kind_of ix = kind_for ?ty"
    by (auto simp: index_ok_def)
  have "value_ok p' v" using v(3) by (simp add: value_ok_def)
  then have "adapter_find p' v ix = Inr (m v)" by (intro ad.look_law [OF m(1)] matches_keyed [OF _ v(4,5) m(3)])
  moreover have "denote p' w = Some (key_datum s ?ty) \<longleftrightarrow> w = v" for w
    using denote_inject [OF table_okD(1) [OF ok'] v(3), of w] v(3) by auto
  then have "m v = Some i \<longleftrightarrow> (\<exists>row. map_of (tb_rows t) i = Some row \<and> denote p' (row ! col) = Some (key_datum s ?ty))" for i
    using m(2) unfolding column_of_def by simp
  ultimately show ?thesis using v(1,2) by metis
qed

lemma range_candidates:
  assumes ok: "table_ok p t" and room: "pool_room 2 p" and ix: "map_of (tb_indexes t) col = Some ix"
    and fits: "literal_fits s (col_type (columns_of t ! col))" "literal_fits s' (col_type (columns_of t ! col))"
  shows "\<exists>b e p1 p2 ids. parse_literal_for_column s (col_type (columns_of t ! col)) p = (Inr b, p1)
    \<and> parse_literal_for_column s' (col_type (columns_of t ! col)) p1 = (Inr e, p2) \<and> grows 2 p p2
    \<and> denote p2 b = Some (key_datum s (col_type (columns_of t ! col)))
    \<and> denote p2 e = Some (key_datum s' (col_type (columns_of t ! col)))
    \<and> adapter_range p2 b e ix = Inr ids \<and> distinct ids
    \<and> set ids = {i. \<exists>row. map_of (tb_rows t) i = Some row \<and> value_within p2 b e (row ! col)}"
proof -
  let ?ty = "col_type (columns_of t ! col)"
  have "pool_room 1 p" by (rule room_less [OF room]) simp
  then obtain b p1 where b: "parse_literal_for_column s ?ty p = (Inr b, p1)" "grows 1 p p1" "denote p1 b = Some (key_datum s ?ty)"
    "b \<noteq> Null" "matches b ?ty" using parse_literal_ok [OF table_okD(1) [OF ok] _ fits(1)] by blast
  have "pool_ok p1" "pool_room 1 p1" using b(2) grows_room [OF b(2), of 1] room by (auto simp: grows_def numeral_2_eq_2)
  then obtain e p2 where e: "parse_literal_for_column s' ?ty p1 = (Inr e, p2)" "grows 1 p1 p2" "denote p2 e = Some (key_datum s' ?ty)"
    "e \<noteq> Null" "matches e ?ty" using parse_literal_ok [OF _ _ fits(2)] by blast
  have g: "grows 2 p p2" using grows_trans [OF b(2) e(2)] by (simp add: numeral_2_eq_2)
  have b2: "denote p2 b = Some (key_datum s ?ty)" using denote_extends b(3) e(2) by (auto simp: grows_def)
  have ok2: "table_ok p2 t" using table_ok_extends [OF ok] g by (auto simp: grows_def)
  have "index_ok p2 (columns_of t) (map_of (tb_rows t)) col ix" by (rule table_okD(8) [OF ok2 map_of_SomeD [OF ix]])
  then obtain m where m: "adapter_map p2 ix m" "column_of m col (map_of (tb_rows t))" "kind_of ix = kind_for ?ty"
    by (auto simp: index_ok_def)
  have "value_keyed p2 ix b" "value_keyed p2 ix e"
    using matches_keyed [OF _ b(4,5) m(3)] matches_keyed [OF _ e(4,5) m(3)] b2 e(3) by (auto simp: value_ok_def)
  from adr.range_law [OF m(1) this] obtain ids where ids: "adapter_range p2 b e ix = Inr ids"
    "set ids = {i. \<exists>v. m v = Some i \<and> value_within p2 b e v}"
    "(\<forall>v v' i. m v = Some i \<longrightarrow> m v' = Some i \<longrightarrow> v = v') \<longrightarrow> distinct ids" by blast
  have "distinct ids" using ids(3) column_of_inj [OF m(2)] by blast
  moreover have "set ids = {i. \<exists>row. map_of (tb_rows t) i = Some row \<and> value_within p2 b e (row ! col)}"
    unfolding ids(2) using m(2) unfolding column_of_def by (intro Collect_cong) metis
  ultimately show ?thesis using b(1) e(1,3) g b2 ids(1) by blast
qed

definition where_runs :: "regex \<Rightarrow> table \<Rightarrow> condition option \<Rightarrow> bool" where
  "where_runs rx t w \<longleftrightarrow> (case w of None \<Rightarrow> True | Some c \<Rightarrow> condition_runs rx t c)"

definition where_truth :: "regex \<Rightarrow> pool \<Rightarrow> table \<Rightarrow> condition option \<Rightarrow> row \<Rightarrow> bool" where
  "where_truth rx p t w row \<longleftrightarrow>
     (case w of None \<Rightarrow> True | Some c \<Rightarrow> holds (comparison_truth rx (cell_datum p t row)) c)"

definition candidates_for :: "regex \<Rightarrow> pool \<Rightarrow> table \<Rightarrow> condition option \<Rightarrow> 64 word list \<Rightarrow> bool" where
  \<comment> \<open>ids of rows, each at most once, and no row that matches is missing\<close>
  "candidates_for rx p t w ids \<longleftrightarrow> distinct ids \<and> set ids \<subseteq> set (tb_order t)
     \<and> (\<forall>i row. map_of (tb_rows t) i = Some row \<longrightarrow> where_truth rx p t w row \<longrightarrow> i \<in> set ids)"

lemma row_id_in_order: "table_ok p t \<Longrightarrow> map_of (tb_rows t) i = Some row \<Longrightarrow> i \<in> set (tb_order t)"
  using table_ids by (metis option.distinct(1))

lemma scan_candidates: "table_ok p t \<Longrightarrow> candidates_for rx p t w (tb_order t)"
  using table_okD(4) row_id_in_order by (auto simp: candidates_for_def)

lemma lookup_candidates:
  assumes ok: "table_ok p t" and room: "pool_room 2 p" and lk: "index_lookup t c" and fits: "lookup_fits t (Some c)"
    and col: "find_index (tb_schema t) (cmp_left (cond_cmp c)) = Some col" and ix: "map_of (tb_indexes t) col = Some ix"
  shows "\<exists>ids p'. index_candidates (cond_cmp c) (col_type (columns_of t ! col)) ix p = (Inr ids, p') \<and> grows 2 p p'
    \<and> candidates_for rx p t (Some c) ids"
proof -
  let ?k = "cond_cmp c" and ?ty = "col_type (columns_of t ! col)"
  obtain l q where c: "c = Condition ?k l None None q" using lk by (cases c) (auto simp: index_lookup_def)
  have truth: "where_truth rx p t (Some c) row = comparison_truth rx (cell_datum p t row) ?k" for row
    unfolding where_truth_def by (subst c) simp
  have bound: "col < length (columns_of t)" by (rule column_index_bound [OF table_okD(2) [OF ok] col])
  have cell: "\<exists>d. denote p (row ! col) = Some d \<and> cell_datum p t row (cmp_left ?k) = d
      \<and> (d \<noteq> NullD \<longrightarrow> datum_typed d ?ty)" if "map_of (tb_rows t) i = Some row" for i row
  proof -
    have r: "conforms p t (Some i) row" "values_ok p row" using table_okD(6) [OF ok that] by simp_all
    then have "value_ok p (row ! col)" "matches (row ! col) ?ty"
      using bound by (auto simp: conforms_def values_ok_def cell_ok_def)
    then obtain d where d: "denote p (row ! col) = Some d" by (auto simp: value_ok_def)
    then have "d \<noteq> NullD \<longrightarrow> datum_typed d ?ty"
      using typed_cell [OF \<open>matches (row ! col) ?ty\<close> _ d] by (cases "row ! col") auto
    then show ?thesis using d col by (simp add: cell_datum_def)
  qed
  have fits1: "literal_fits (cmp_right ?k) ?ty" using fits lk col by (simp add: lookup_fits_def Let_def)
  consider (eq) "cmp_op ?k = EQ" | (between) "cmp_op ?k = BETWEEN" using lk by (auto simp: index_lookup_def)
  then show ?thesis
  proof cases
    case eq
    have "pool_room 1 p" by (rule room_less [OF room]) simp
    from find_candidates [OF ok this ix fits1] obtain v p' found where
      f: "parse_literal_for_column (cmp_right ?k) ?ty p = (Inr v, p')" "grows 1 p p'" "adapter_find p' v ix = Inr found"
        "\<And>i. found = Some i \<longleftrightarrow> (\<exists>row. map_of (tb_rows t) i = Some row \<and> denote p' (row ! col) = Some (key_datum (cmp_right ?k) ?ty))"
      by blast
    let ?ids = "case found of None \<Rightarrow> [] | Some i \<Rightarrow> [i]"
    have "index_candidates ?k ?ty ix p = (Inr ?ids, p')"
      using eq f(1,3) by (simp add: index_candidates_def bindS_def)
    moreover have "grows 2 p p'" by (rule grows_more [OF f(2)]) simp
    moreover have "candidates_for rx p t (Some c) ?ids"
      unfolding candidates_for_def truth
    proof (intro conjI allI impI)
      show "distinct ?ids" by (simp split: option.split)
      show "set ?ids \<subseteq> set (tb_order t)" using f(4) row_id_in_order [OF ok] by (auto split: option.split)
      fix i row assume row: "map_of (tb_rows t) i = Some row" and tr: "comparison_truth rx (cell_datum p t row) ?k"
      obtain d where d: "denote p (row ! col) = Some d" "cell_datum p t row (cmp_left ?k) = d" "d \<noteq> NullD \<longrightarrow> datum_typed d ?ty"
        using cell [OF row] by blast
      have cmp: "compare_data d (text_datum (cmp_right ?k)) = (0, True)"
        using tr eq d(2) lk by (auto simp: comparison_truth_def operand_datum_def index_lookup_def comparison_holds_def Let_def split: prod.splits)
      then have "d = text_datum (cmp_right ?k)" "d \<noteq> NullD" using compare_data_eq [OF cmp] by auto
      then have "d = key_datum (cmp_right ?k) ?ty" using text_is_key [OF _ cmp fits1] d(3) by simp
      then have "found = Some i" using f(2,4) row d(1) denote_extends by (auto simp: grows_def)
      then show "i \<in> set ?ids" by simp
    qed
    ultimately show ?thesis by blast
  next
    case between
    have r2: "\<not> cmp_right2_col ?k" and fits2: "literal_fits (cmp_right2 ?k) ?ty"
      using fits lk col between by (simp_all add: lookup_fits_def Let_def)
    obtain b e p1 p2 ids where f: "parse_literal_for_column (cmp_right ?k) ?ty p = (Inr b, p1)"
      "parse_literal_for_column (cmp_right2 ?k) ?ty p1 = (Inr e, p2)" "grows 2 p p2"
      "denote p2 b = Some (key_datum (cmp_right ?k) ?ty)" "denote p2 e = Some (key_datum (cmp_right2 ?k) ?ty)"
      "adapter_range p2 b e ix = Inr ids" "distinct ids"
      "set ids = {i. \<exists>row. map_of (tb_rows t) i = Some row \<and> value_within p2 b e (row ! col)}"
      using range_candidates [OF ok room ix fits1 fits2] by blast
    have "index_candidates ?k ?ty ix p = (Inr ids, p2)"
      using between f(1,2,6) by (simp add: index_candidates_def bindS_def)
    moreover have "candidates_for rx p t (Some c) ids"
      unfolding candidates_for_def truth
    proof (intro conjI allI impI)
      show "set ids \<subseteq> set (tb_order t)" using f(8) row_id_in_order [OF ok] by auto
      fix i row assume row: "map_of (tb_rows t) i = Some row" and tr: "comparison_truth rx (cell_datum p t row) ?k"
      obtain d where d: "denote p (row ! col) = Some d" "cell_datum p t row (cmp_left ?k) = d" "d \<noteq> NullD \<longrightarrow> datum_typed d ?ty"
        using cell [OF row] by blast
      obtain x y where xy: "compare_data d (text_datum (cmp_right ?k)) = (x, True)" "0 \<le> x"
        "compare_data d (text_datum (cmp_right2 ?k)) = (y, True)" "y < 0"
        using tr between d(2) lk r2
        by (auto simp: comparison_truth_def operand_datum_def index_lookup_def Let_def split: prod.splits)
      have "d \<noteq> NullD" using xy(1) by (cases d) auto
      then have ty: "datum_typed d ?ty" using d(3) by simp
      have "denote p2 (row ! col) = Some d" using d(1) f(3) denote_extends by (auto simp: grows_def)
      then have "value_within p2 b e (row ! col)"
        using value_within_data [OF f(4,5), of "row ! col" d x y] text_is_key [OF ty xy(1) fits1] text_is_key [OF ty xy(3) fits2] xy
        by simp
      then show "i \<in> set ids" using f(8) row by blast
    qed (rule f(7))
    ultimately show ?thesis using f(3) by blast
  qed
qed

lemma collect_candidate_rows_ok:
  assumes ok: "table_ok p t" and room: "pool_room 2 p" and run: "where_runs rx t w" and fits: "lookup_fits t w"
  shows "\<exists>ids used p'. collect_candidate_rows t w p = (Inr (ids, used), p') \<and> grows 2 p p' \<and> candidates_for rx p t w ids
    \<and> (used \<longleftrightarrow> (\<exists>c. w = Some c \<and> index_lookup t c))"
proof -
  have scan: "\<exists>ids used p'. retS (tb_order t, False) p = (Inr (ids, used), p') \<and> grows 2 p p' \<and> candidates_for rx p t w ids \<and> \<not> used"
    using scan_candidates [OF ok] grows_refl [OF table_okD(1) [OF ok]] by auto
  show ?thesis
  proof (cases w)
    case None
    then show ?thesis using scan by (auto simp: collect_candidate_rows_def)
  next
    case (Some c)
    let ?k = "cond_cmp c"
    let ?simple = "cond_left_tree c = None \<and> cond_next c = None \<and> cmp_left_col ?k \<and> \<not> cmp_right_col ?k"
    show ?thesis
    proof (cases ?simple)
      case False
      then have "\<not> index_lookup t c" by (auto simp: index_lookup_def)
      then show ?thesis using scan Some False by (auto simp: collect_candidate_rows_def Let_def)
    next
      case simple: True
      then obtain l q where c: "c = Condition ?k l None None q" by (cases c) auto
      have "comparisons c = [?k]" using arg_cong [OF c, of comparisons] by simp
      then have "comparison_runs rx t ?k" using run Some by (simp add: where_runs_def condition_runs_def)
      then obtain col where col: "find_index (tb_schema t) (cmp_left ?k) = Some col"
        using simple by (auto simp: comparison_runs_def column_known_def)
      then have rc: "require_column (cmp_left ?k) t = Inr (int col)" by (simp add: require_column_def)
      have bound: "col < length (columns_of t)" by (rule column_index_bound [OF table_okD(2) [OF ok] col])
      then have at: "column_at (tb_schema t) col = Inr (columns_of t ! col)" by (simp add: column_at_def)
      show ?thesis
      proof (cases "index_lookup t c")
        case True
        then obtain ix where ix: "map_of (tb_indexes t) col = Some ix" using col by (auto simp: index_lookup_def has_index_def)
        obtain ids p' where ids: "index_candidates ?k (col_type (columns_of t ! col)) ix p = (Inr ids, p')" "grows 2 p p'"
          "candidates_for rx p t w ids"
          using lookup_candidates [OF ok room True _ col ix] fits Some by blast
        have "cmp_op ?k = EQ \<or> cmp_op ?k = BETWEEN" using True by (simp add: index_lookup_def)
        then have "collect_candidate_rows t w p = (Inr (ids, True), p')"
          using Some simple rc at ix ids(1) by (simp add: collect_candidate_rows_def Let_def index_for_def bindS_def)
        then show ?thesis using ids True Some by auto
      next
        case False
        then have "\<not> has_index col t \<or> (cmp_op ?k \<noteq> EQ \<and> cmp_op ?k \<noteq> BETWEEN)" using simple col by (auto simp: index_lookup_def)
        then have "collect_candidate_rows t w p = retS (tb_order t, False) p"
          using Some simple rc at by (cases "map_of (tb_indexes t) col") (auto simp: collect_candidate_rows_def Let_def index_for_def has_index_def)
        then show ?thesis using scan False Some by auto
      qed
    qed
  qed
qed

end
