(* ===== verification/Query_Select.thy ===== *)
theory Query_Select
  imports Query_Props Table_Ops
begin

section \<open>SELECT and DELETE\<close>

text \<open>
  Both statements go over the candidates and keep the rows that match. On a well-formed table these
  are the rows for which the condition is true, whether the candidates come from an index or not;
  \<open>DELETE\<close> leaves exactly the others, \<open>SELECT\<close> prints their data.
\<close>

subsection \<open>Rows that match\<close>

lemma map_of_in_fst: "map_of xs n = Some y \<Longrightarrow> n \<in> fst ` set xs"
  by (force dest: map_of_SomeD)

lemma map_fst_update_same: "n \<in> fst ` set xs \<Longrightarrow> map fst (AList.update n y xs) = map fst xs"
  by (induction xs) auto

definition weight :: "condition option \<Rightarrow> nat" where
  \<comment> \<open>how many strings the evaluation of the condition may intern\<close>
  "weight w = (case w of None \<Rightarrow> 0 | Some c \<Rightarrow> 3 * length (comparisons c))"

definition id_matches :: "regex \<Rightarrow> pool \<Rightarrow> table \<Rightarrow> condition option \<Rightarrow> 64 word \<Rightarrow> bool" where
  "id_matches rx p t w i = (case map_of (tb_rows t) i of None \<Rightarrow> False | Some row \<Rightarrow> where_truth rx p t w row)"

lemma where_truth_grows: "row_ready p t row \<Longrightarrow> grows n p p' \<Longrightarrow> where_truth rx p' t w row = where_truth rx p t w row"
  using cell_datum_grows by (auto simp: where_truth_def split: option.split)

lemma id_matches_grows:
  assumes "table_ok p t" and "grows n p p'"
  shows "id_matches rx p' t w i = id_matches rx p t w i"
  using where_truth_grows [OF table_row_ready [OF assms(1)] assms(2)] by (auto simp: id_matches_def split: option.split)

lemma table_ok_grows: "table_ok p t \<Longrightarrow> grows n p p' \<Longrightarrow> table_ok p' t"
  by (auto simp: grows_def intro: table_ok_extends)

lemma order_has_row: "table_ok p t \<Longrightarrow> i \<in> set (tb_order t) \<Longrightarrow> \<exists>row. map_of (tb_rows t) i = Some row"
  using table_ids [of p t i] by auto

lemma row_matches_ok:
  assumes "table_ok p t" and "map_of (tb_rows t) i = Some row" and "where_runs rx t w" and "pool_room (weight w) p"
  shows "\<exists>p'. row_matches rx t row w p = (Inr (where_truth rx p t w row), p') \<and> grows (weight w) p p'"
proof (cases w)
  case None
  then show ?thesis using grows_refl [OF table_okD(1) [OF assms(1)]] by (simp add: row_matches_def where_truth_def)
next
  case (Some c)
  then show ?thesis
    using evaluate_condition_ok [OF table_row_ready [OF assms(1,2)] table_okD(1) [OF assms(1)], of c rx] assms(3,4)
    by (auto simp: row_matches_def where_truth_def where_runs_def weight_def)
qed

lemma when_matching_ok:
  assumes "table_ok p t" and "i \<in> set (tb_order t)" and "where_runs rx t w" and "pool_room (weight w) p"
  shows "\<exists>p' row. map_of (tb_rows t) i = Some row \<and> grows (weight w) p p'
    \<and> when_matching rx w i skip f (p, t) = (if id_matches rx p t w i then f row (p', t) else (Inr skip, (p', t)))"
proof -
  obtain row where row: "map_of (tb_rows t) i = Some row" using order_has_row [OF assms(1,2)] by blast
  obtain p' where "row_matches rx t row w p = (Inr (where_truth rx p t w row), p')" "grows (weight w) p p'"
    using row_matches_ok [OF assms(1) row assms(3,4)] by blast
  then show ?thesis using row
    by (auto simp: when_matching_def on_pool_def id_matches_def bindS_def)
qed

lemma map_matching_ok:
  assumes "table_ok p t" and "set ids \<subseteq> set (tb_order t)" and "where_runs rx t w" and "pool_room (weight w * length ids) p"
    and f: "\<And>i row q. i \<in> set ids \<Longrightarrow> map_of (tb_rows t) i = Some row \<Longrightarrow> table_ok q t \<Longrightarrow> extends p q
      \<Longrightarrow> f i row (q, t) = (Inr (Some (g i)), (q, t))"
  shows "\<exists>p'. map_each (\<lambda>i. when_matching rx w i None (f i)) ids (p, t)
      = (Inr (map (\<lambda>i. if id_matches rx p t w i then Some (g i) else None) ids), (p', t))
    \<and> grows (weight w * length ids) p p'"
  using assms
proof (induction ids arbitrary: p)
  case Nil
  then show ?case using grows_refl [OF table_okD(1)] by simp
next
  case (Cons i ids)
  have "pool_room (weight w) p" by (rule room_less [OF Cons.prems(4)]) simp
  then obtain p1 row where p1: "map_of (tb_rows t) i = Some row" "grows (weight w) p p1"
    "when_matching rx w i None (f i) (p, t) = (if id_matches rx p t w i then f i row (p1, t) else (Inr None, (p1, t)))"
    using when_matching_ok [OF Cons.prems(1) _ Cons.prems(3), of i] Cons.prems(2) by fastforce
  have ext: "extends p p1" using p1(2) by (simp add: grows_def)
  have ok1: "table_ok p1 t" by (rule table_ok_grows [OF Cons.prems(1) p1(2)])
  have "f i row (p1, t) = (Inr (Some (g i)), (p1, t))" by (rule Cons.prems(5)) (use p1(1) ok1 ext in auto)
  then have head: "when_matching rx w i None (f i) (p, t)
      = (Inr (if id_matches rx p t w i then Some (g i) else None), (p1, t))" using p1(3) by simp
  have "pool_room (weight w * length ids) p1" using grows_room [OF p1(2)] Cons.prems(4) by simp
  moreover have "f j r (q, t) = (Inr (Some (g j)), (q, t))" if "j \<in> set ids" "map_of (tb_rows t) j = Some r" "table_ok q t" "extends p1 q" for j r q
    by (rule Cons.prems(5)) (use that extends_trans [OF ext] in auto)
  ultimately obtain p2 where p2: "map_each (\<lambda>i. when_matching rx w i None (f i)) ids (p1, t)
      = (Inr (map (\<lambda>i. if id_matches rx p1 t w i then Some (g i) else None) ids), (p2, t))"
    "grows (weight w * length ids) p1 p2"
    using Cons.IH [OF ok1 _ Cons.prems(3)] Cons.prems(2) by force
  have "grows (weight w * length (i # ids)) p p2" using grows_trans [OF p1(2) p2(2)] by simp
  then show ?case using head p2(1) id_matches_grows [OF Cons.prems(1) p1(2)] by (auto simp: bindS_def)
qed

lemma kept_values: "map the (filter (\<lambda>x. x \<noteq> None) (map (\<lambda>i. if P i then Some (g i) else None) ids)) = map g (filter P ids)"
  by (induction ids) auto

lemma kept_ids: "map the (filter (\<lambda>x. x \<noteq> None) (map (\<lambda>i. if P i then Some i else None) ids)) = filter P ids"
  using kept_values [of P "\<lambda>i. i" ids] by simp

lemma matching_ids_ok:
  assumes "table_ok p t" and "set ids \<subseteq> set (tb_order t)" and "where_runs rx t w" and "pool_room (weight w * length ids) p"
  shows "\<exists>p'. matching_ids rx w ids (p, t) = (Inr (filter (id_matches rx p t w) ids), (p', t))
    \<and> grows (weight w * length ids) p p'"
proof -
  obtain p' where "map_each (\<lambda>i. when_matching rx w i None (\<lambda>_. retS (Some i))) ids (p, t)
      = (Inr (map (\<lambda>i. if id_matches rx p t w i then Some i else None) ids), (p', t))" "grows (weight w * length ids) p p'"
    using map_matching_ok [OF assms, of "\<lambda>i _. retS (Some i)" "\<lambda>i. i"] by auto
  then show ?thesis unfolding matching_ids_def bindS_def by (simp add: kept_ids del: not_None_eq)
qed

lemma candidates_filter:
  assumes ok: "table_ok p t" and c: "candidates_for rx p t w ids"
  shows "mset (filter (id_matches rx p t w) ids) = mset (filter (id_matches rx p t w) (tb_order t))"
proof -
  have "set (filter (id_matches rx p t w) ids) = set (filter (id_matches rx p t w) (tb_order t))"
    using c by (auto simp: candidates_for_def id_matches_def split: option.splits)
  moreover have "distinct (filter (id_matches rx p t w) ids)" "distinct (filter (id_matches rx p t w) (tb_order t))"
    using c table_okD(4) [OF ok] by (simp_all add: candidates_for_def)
  ultimately show ?thesis using set_eq_iff_mset_eq_distinct by blast
qed

subsection \<open>DELETE\<close>

lemma erase_all_ok:
  assumes "table_ok p t" and "distinct ids" and "set ids \<subseteq> set (tb_order t)" and "indexes_room n t"
  shows "\<exists>t'. for_each (\<lambda>i. on_rows (\<lambda>p. erase_row p i)) ids (p, t) = (Inr (), (p, t')) \<and> table_ok p t'
    \<and> map_of (tb_rows t') = map_of (tb_rows t) |` (- set ids) \<and> tb_order t' = filter (\<lambda>i. i \<notin> set ids) (tb_order t)
    \<and> tb_schema t' = tb_schema t \<and> tb_next t' = tb_next t \<and> tb_name t' = tb_name t \<and> indexes_room n t'"
  using assms
proof (induction ids arbitrary: t)
  case Nil
  then show ?case by simp
next
  case (Cons i ids)
  obtain row where row: "map_of (tb_rows t) i = Some row" using order_has_row [OF Cons.prems(1)] Cons.prems(3) by auto
  obtain t1 where t1: "erase_row p i t = (Inr (), t1)" "map_of (tb_rows t1) = (map_of (tb_rows t))(i := None)"
    "tb_order t1 = remove1 i (tb_order t)" "table_ok p t1" "tb_schema t1 = tb_schema t" "tb_next t1 = tb_next t"
    "tb_name t1 = tb_name t" "indexes_room n t1"
    using erase_row_ok [OF Cons.prems(1) row Cons.prems(4)] by blast
  have order: "tb_order t1 = filter (\<lambda>j. j \<noteq> i) (tb_order t)"
    using t1(3) distinct_remove1_removeAll [OF table_okD(4) [OF Cons.prems(1)]] by (simp add: removeAll_filter_not_eq neq_commute)
  have "set ids \<subseteq> set (tb_order t1)" using Cons.prems(2,3) order by auto
  then obtain t' where t': "for_each (\<lambda>i. on_rows (\<lambda>p. erase_row p i)) ids (p, t1) = (Inr (), (p, t'))" "table_ok p t'"
    "map_of (tb_rows t') = map_of (tb_rows t1) |` (- set ids)" "tb_order t' = filter (\<lambda>i. i \<notin> set ids) (tb_order t1)"
    "tb_schema t' = tb_schema t1" "tb_next t' = tb_next t1" "tb_name t' = tb_name t1" "indexes_room n t'"
    using Cons.IH [OF t1(4) _ _ t1(8)] Cons.prems(2) by auto
  have "for_each (\<lambda>i. on_rows (\<lambda>p. erase_row p i)) (i # ids) (p, t) = (Inr (), (p, t'))"
    using t1(1) t'(1) by (simp add: on_rows_def bindS_def)
  moreover have "map_of (tb_rows t') = map_of (tb_rows t) |` (- set (i # ids))"
    unfolding t'(3) t1(2) by (auto simp: fun_eq_iff restrict_map_def)
  moreover have "tb_order t' = filter (\<lambda>j. j \<notin> set (i # ids)) (tb_order t)"
    unfolding t'(4) order by (simp add: conj_commute)
  ultimately show ?case using t'(2,5-8) t1(5-7) by auto
qed

definition statement_room :: "condition option \<Rightarrow> table \<Rightarrow> nat" where
  \<comment> \<open>how many strings a statement with this condition may intern\<close>
  "statement_room w t = 2 + weight w * row_count t"

lemma candidates_length: "candidates_for rx p t w ids \<Longrightarrow> length ids \<le> row_count t"
  unfolding candidates_for_def row_count_def by (metis card_length card_mono distinct_card dual_order.trans finite_set)

lemma candidates_run:
  assumes ok: "table_ok p t" and run: "where_runs rx t w" and fits: "lookup_fits t w" and room: "pool_room (n + statement_room w t) p"
  obtains ids used p' where "on_pool (collect_candidate_rows t w) (p, t) = (Inr (ids, used), (p', t))" "grows 2 p p'"
    "table_ok p' t" "candidates_for rx p t w ids" "pool_room (n + weight w * length ids) p'"
    "candidates_for rx p' t w ids" "used \<longleftrightarrow> (\<exists>c. w = Some c \<and> index_lookup t c)"
proof -
  have "pool_room 2 p" by (rule room_less [OF room]) (simp add: statement_room_def)
  then obtain ids used p' where c: "collect_candidate_rows t w p = (Inr (ids, used), p')" "grows 2 p p'"
    "candidates_for rx p t w ids" "used \<longleftrightarrow> (\<exists>c. w = Some c \<and> index_lookup t c)"
    using collect_candidate_rows_ok [OF ok _ run fits] by blast
  have "pool_room (n + weight w * row_count t) p'"
    using grows_room [OF c(2)] room by (simp add: statement_room_def algebra_simps)
  then have "pool_room (n + weight w * length ids) p'"
    by (rule room_less) (simp add: candidates_length [OF c(3)])
  moreover have "candidates_for rx p' t w ids"
    using c(3) where_truth_grows [OF table_row_ready [OF ok] c(2)] by (auto simp: candidates_for_def)
  ultimately show thesis using that c table_ok_grows [OF ok c(2)] by (simp add: on_pool_def)
qed

lemma delete_rows_ok:
  assumes ok: "table_ok p t" and run: "where_runs rx t w" and fits: "lookup_fits t w"
    and room: "pool_room (k + statement_room w t) p" and iroom: "indexes_room n t"
  shows "\<exists>p' t'. delete_rows rx w (p, t) = (Inr (), (p', t')) \<and> table_ok p' t' \<and> extends p p' \<and> pool_room k p'
    \<and> tb_order t' = filter (\<lambda>i. \<not> id_matches rx p t w i) (tb_order t)
    \<and> map_of (tb_rows t') = (\<lambda>i. if id_matches rx p t w i then None else map_of (tb_rows t) i)
    \<and> tb_schema t' = tb_schema t \<and> tb_name t' = tb_name t \<and> indexes_room n t'"
proof -
  obtain ids used p1 where c: "on_pool (collect_candidate_rows t w) (p, t) = (Inr (ids, used), (p1, t))" "grows 2 p p1"
    "table_ok p1 t" "candidates_for rx p t w ids" "pool_room (k + weight w * length ids) p1"
    by (rule candidates_run [OF ok run fits room]) blast
  have ids: "set ids \<subseteq> set (tb_order t)" "distinct ids" using c(4) by (simp_all add: candidates_for_def)
  obtain p2 where m: "matching_ids rx w ids (p1, t) = (Inr (filter (id_matches rx p1 t w) ids), (p2, t))"
    "grows (weight w * length ids) p1 p2"
    using matching_ids_ok [OF c(3) ids(1) run room_less [OF c(5)]] by auto
  let ?found = "filter (id_matches rx p t w) ids"
  have same: "filter (id_matches rx p1 t w) ids = ?found" unfolding id_matches_grows [OF ok c(2)] ..
  have ok2: "table_ok p2 t" by (rule table_ok_grows [OF c(3) m(2)])
  have "distinct ?found" "set ?found \<subseteq> set (tb_order t)" using ids by auto
  from erase_all_ok [OF ok2 this iroom] obtain t' where
    t': "for_each (\<lambda>i. on_rows (\<lambda>p. erase_row p i)) ?found (p2, t) = (Inr (), (p2, t'))" "table_ok p2 t'"
      "map_of (tb_rows t') = map_of (tb_rows t) |` (- set ?found)" "tb_order t' = filter (\<lambda>i. i \<notin> set ?found) (tb_order t)"
      "tb_schema t' = tb_schema t" "tb_name t' = tb_name t" "indexes_room n t'" by blast
  have found: "i \<in> set ?found \<longleftrightarrow> id_matches rx p t w i" for i
    using c(4) by (auto simp: candidates_for_def id_matches_def split: option.splits)
  have "delete_rows rx w (p, t) = (Inr (), (p2, t'))"
    using c(1) m(1) same t'(1) by (simp add: delete_rows_def bindS_def)
  moreover have "extends p p2" using c(2) m(2) extends_trans by (auto simp: grows_def)
  moreover have "map_of (tb_rows t') = (\<lambda>i. if id_matches rx p t w i then None else map_of (tb_rows t) i)"
    unfolding t'(3) using found by (auto simp: fun_eq_iff restrict_map_def)
  moreover have "tb_order t' = filter (\<lambda>i. \<not> id_matches rx p t w i) (tb_order t)" unfolding t'(4) found ..
  moreover have "pool_room k p2" using grows_room [OF m(2), of k] c(5) by (simp add: add.commute)
  ultimately show ?thesis using t'(2,5-7) by blast
qed

subsection \<open>SELECT\<close>

definition datum_json :: "datum \<Rightarrow> string" where
  "datum_json d =
     (case d of NullD \<Rightarrow> ''null'' | IntD i \<Rightarrow> decimal i | StrD s \<Rightarrow> double_quoted (escape_json s))"

definition field_json :: "string \<Rightarrow> datum \<Rightarrow> string" where
  "field_json key d = double_quoted (escape_json key) @ '':'' @ datum_json d"

definition object_json :: "table \<Rightarrow> bool \<Rightarrow> select_column list \<Rightarrow> (string \<Rightarrow> datum) \<Rightarrow> string" where
  \<comment> \<open>the object that a row with these data becomes\<close>
  "object_json t star cols cell =
     ''{'' @ join_with '','' (if star then map (\<lambda>c. field_json (col_name c) (cell (col_name c))) (columns_of t)
       else map (\<lambda>c. field_json (if sc_alias c = [] then sc_name c else sc_alias c) (cell (sc_name c))) cols) @ ''}''"

definition select_runs :: "table \<Rightarrow> bool \<Rightarrow> select_column list \<Rightarrow> bool" where
  "select_runs t star cols \<longleftrightarrow> star \<or> list_all (\<lambda>c. column_known t (sc_name c)) cols"

lemma json_field_ok: "denote p v = Some d \<Longrightarrow> json_field p key v = Inr (field_json key d)"
  by (cases v) (auto simp: json_field_def field_json_def datum_json_def split: sum.splits)

lemma row_denotes: "row_ready p t row \<Longrightarrow> i < length row \<Longrightarrow> \<exists>d. denote p (row ! i) = Some d"
  by (auto simp: row_ready_def values_ok_def value_ok_def)

lemma star_fields_ok:
  assumes "length cols = length row" and "\<And>i. i < length row \<Longrightarrow> denote p (row ! i) = Some (ds ! i)" and "length ds = length row"
  shows "star_fields p cols row = Inr (map2 (\<lambda>c d. field_json (col_name c) d) cols ds)"
  using assms
proof (induction cols arbitrary: row ds)
  case (Cons c cols)
  then obtain v vs d es where l: "row = v # vs" "ds = d # es" by (cases row; cases ds) auto
  have "denote p v = Some d" using Cons.prems(2) [of 0] l by simp
  moreover have "denote p (vs ! i) = Some (es ! i)" if "i < length vs" for i using Cons.prems(2) [of "Suc i"] l that by simp
  ultimately show ?case using Cons.IH [of vs es] Cons.prems(1,3) l json_field_ok by simp
qed simp

lemma column_position:
  assumes "schema_ok (tb_schema t)" and "i < length (columns_of t)"
  shows "find_index (tb_schema t) (col_name (columns_of t ! i)) = Some i"
  using assms by (auto simp: schema_ok_def find_index_def)

lemma named_fields_ok:
  assumes "row_ready p t row" and "list_all (\<lambda>c. column_known t (sc_name c)) cols"
  shows "named_fields p (tb_schema t) row cols
    = Inr (map (\<lambda>c. field_json (if sc_alias c = [] then sc_name c else sc_alias c) (cell_datum p t row (sc_name c))) cols)"
  using assms(2)
proof (induction cols)
  case (Cons c cols)
  then obtain i where i: "find_index (tb_schema t) (sc_name c) = Some i" by (auto simp: column_known_def)
  then have "i < length row" using assms(1) column_index_bound by (auto simp: row_ready_def)
  moreover obtain d where "denote p (row ! i) = Some d" using row_denotes [OF assms(1) \<open>i < length row\<close>] by blast
  ultimately show ?case using i Cons json_field_ok [of p "row ! i" d]
    by (simp add: column_index_def cell_datum_def)
qed simp

lemma row_to_json_ok:
  assumes "row_ready p t row" and "select_runs t star cols"
  shows "row_to_json_object p t row star cols = Inr (object_json t star cols (cell_datum p t row))"
proof (cases star)
  case True
  let ?ds = "map (\<lambda>c. cell_datum p t row (col_name c)) (columns_of t)"
  have len: "length (columns_of t) = length row" and ok: "schema_ok (tb_schema t)" using assms(1) by (simp_all add: row_ready_def)
  have "denote p (row ! i) = Some (?ds ! i)" if "i < length row" for i
    using row_denotes [OF assms(1) that] column_position [OF ok, of i] that len by (auto simp: cell_datum_def)
  from star_fields_ok [OF len this] len
  have "star_fields p (columns_of t) row = Inr (map2 (\<lambda>c d. field_json (col_name c) d) (columns_of t) ?ds)" by simp
  moreover have "map2 (\<lambda>c d. field_json (col_name c) d) (columns_of t) ?ds
      = map (\<lambda>c. field_json (col_name c) (cell_datum p t row (col_name c))) (columns_of t)"
    by (simp add: zip_map2 zip_same_conv_map)
  ultimately show ?thesis using True by (simp add: row_to_json_object_def object_json_def)
next
  case False
  then show ?thesis using assms named_fields_ok [OF assms(1)]
    by (simp add: row_to_json_object_def object_json_def select_runs_def)
qed

definition id_json :: "pool \<Rightarrow> table \<Rightarrow> bool \<Rightarrow> select_column list \<Rightarrow> 64 word \<Rightarrow> string" where
  "id_json p t star cols i =
     (case map_of (tb_rows t) i of None \<Rightarrow> [] | Some row \<Rightarrow> object_json t star cols (cell_datum p t row))"

definition array_json :: "string list \<Rightarrow> string" where
  "array_json xs = ''['' @ join_with '','' xs @ '']''"

lemma cell_datum_extends:
  assumes "row_ready p t row" and "extends p q" and "pool_ok q"
  shows "cell_datum q t row = cell_datum p t row"
proof -
  have "grows (length (by_id q)) p q" using assms(2,3) by (simp add: grows_def)
  then show ?thesis by (rule cell_datum_grows [OF assms(1)])
qed

lemma select_json_ok:
  assumes ok: "table_ok p t" and ids: "set ids \<subseteq> set (tb_order t)" and run: "where_runs rx t w"
    and room: "pool_room (weight w * length ids) p" and cols: "select_runs t star cols"
  shows "\<exists>p'. select_json rx star cols w ids (p, t)
      = (Inr (array_json (map (id_json p t star cols) (filter (id_matches rx p t w) ids))), (p', t))
    \<and> grows (weight w * length ids) p p'"
proof -
  let ?f = "\<lambda>i row. bindS (on_rows (\<lambda>p. askE (\<lambda>t. row_to_json_object p t row star cols))) (\<lambda>s. retS (Some s))"
  have "?f i row (q, t) = (Inr (Some (id_json p t star cols i)), (q, t))"
    if "map_of (tb_rows t) i = Some row" "table_ok q t" "extends p q" for i row q
    using row_to_json_ok [OF table_row_ready [OF that(2,1)] cols] that(1)
      cell_datum_extends [OF table_row_ready [OF ok that(1)] that(3) table_okD(1) [OF that(2)]]
    by (simp add: bindS_def on_rows_def id_json_def)
  then obtain p' where "map_each (\<lambda>i. when_matching rx w i None (?f i)) ids (p, t)
      = (Inr (map (\<lambda>i. if id_matches rx p t w i then Some (id_json p t star cols i) else None) ids), (p', t))"
    "grows (weight w * length ids) p p'"
    using map_matching_ok [OF ok ids run room, of ?f "id_json p t star cols"] by blast
  then show ?thesis unfolding select_json_def bindS_def array_json_def by (simp add: kept_values del: not_None_eq)
qed

lemma select_rows_ok:
  assumes ok: "table_ok p t" and run: "where_runs rx t w" and fits: "lookup_fits t w"
    and room: "pool_room (statement_room w t) p" and cols: "select_runs t star cols"
  obtains ids found p1 p2 where "select_candidates w (p, t) = (Inr (ids, \<exists>c. w = Some c \<and> index_lookup t c), (p1, t))"
    and "select_json rx star cols w ids (p1, t) = (Inr (array_json (map (id_json p t star cols) found)), (p2, t))"
    and "mset found = mset (filter (id_matches rx p t w) (tb_order t))" and "table_ok p2 t" and "extends p p2"
    and "extends p p1" and "pool_ok p1"
proof -
  have "pool_room (0 + statement_room w t) p" using room by simp
  then obtain ids used p1 where c: "on_pool (collect_candidate_rows t w) (p, t) = (Inr (ids, used), (p1, t))" "grows 2 p p1"
    "table_ok p1 t" "candidates_for rx p t w ids" "pool_room (0 + weight w * length ids) p1"
    "used \<longleftrightarrow> (\<exists>c. w = Some c \<and> index_lookup t c)"
    by (rule candidates_run [OF ok run fits]) blast
  have ids: "set ids \<subseteq> set (tb_order t)" using c(4) by (simp add: candidates_for_def)
  obtain p2 where s: "select_json rx star cols w ids (p1, t)
      = (Inr (array_json (map (id_json p1 t star cols) (filter (id_matches rx p1 t w) ids))), (p2, t))"
    "grows (weight w * length ids) p1 p2"
    using select_json_ok [OF c(3) ids run _ cols] c(5) by auto
  have "filter (id_matches rx p1 t w) ids = filter (id_matches rx p t w) ids" unfolding id_matches_grows [OF ok c(2)] ..
  moreover have "id_json p1 t star cols = id_json p t star cols"
  proof
    show "id_json p1 t star cols i = id_json p t star cols i" for i
      using cell_datum_grows [OF table_row_ready [OF ok] c(2)] by (auto simp: id_json_def split: option.split)
  qed
  ultimately have "select_json rx star cols w ids (p1, t)
      = (Inr (array_json (map (id_json p t star cols) (filter (id_matches rx p t w) ids))), (p2, t))"
    using s(1) by simp
  moreover have "select_candidates w (p, t) = (Inr (ids, \<exists>c. w = Some c \<and> index_lookup t c), (p1, t))"
    using c(1,6) by (simp add: select_candidates_def)
  moreover have "extends p p2" "extends p p1" "pool_ok p1" using c(2) s(2) extends_trans by (auto simp: grows_def)
  ultimately show thesis using that candidates_filter [OF ok c(4)] table_ok_grows [OF c(3) s(2)] by blast
qed

end
