(* ===== verification/Dbms_Props.thy ===== *)
theory Dbms_Props
  imports Query_Engine Query_Select
begin

section \<open>The databases of a process\<close>

text \<open>
  The invariant of the whole state, and what every statement that changes something relies on: work
  on one table leaves the other tables alone, and saving always succeeds and puts the image of
  every table into its file.
\<close>

subsection \<open>The invariant\<close>

definition database_ok :: "pool \<Rightarrow> database \<Rightarrow> bool" where
  "database_ok p db \<longleftrightarrow> distinct (map fst db) \<and> (\<forall>(n, t) \<in> set db. table_ok p t \<and> tb_name t = n)"

definition dbms_ok :: "dbms \<Rightarrow> bool" where
  "dbms_ok s \<longleftrightarrow> pool_ok (dbms_pool s)
     \<and> distinct (map fst (dbms_databases s)) \<and> (\<forall>(n, db) \<in> set (dbms_databases s). database_ok (dbms_pool s) db)
     \<and> distinct (map fst (dbms_root s)) \<and> fst ` set (dbms_root s) = fst ` set (dbms_databases s)
     \<and> (\<forall>(n, dir) \<in> set (dbms_root s). distinct (map fst (dir_tables dir)))"

definition find_table :: "string \<times> string \<Rightarrow> dbms \<Rightarrow> table option" where
  "find_table ref s = Option.bind (map_of (dbms_databases s) (fst ref)) (\<lambda>db. map_of db (snd ref))"

lemma dbms_okD:
  assumes "dbms_ok s"
  shows "pool_ok (dbms_pool s)" and "distinct (map fst (dbms_databases s))"
    and "\<And>n db. map_of (dbms_databases s) n = Some db \<Longrightarrow> database_ok (dbms_pool s) db"
  using assms by (auto simp: dbms_ok_def dest: map_of_SomeD)

lemma database_table: "database_ok p db \<Longrightarrow> map_of db n = Some t \<Longrightarrow> table_ok p t \<and> tb_name t = n"
  by (auto simp: database_ok_def dest: map_of_SomeD)

lemma database_ok_extends: "database_ok p db \<Longrightarrow> extends p q \<Longrightarrow> pool_ok q \<Longrightarrow> database_ok q db"
  by (auto simp: database_ok_def intro: table_ok_extends)

lemma find_table_ok: "dbms_ok s \<Longrightarrow> find_table ref s = Some t \<Longrightarrow> table_ok (dbms_pool s) t \<and> tb_name t = snd ref"
  using database_table [OF dbms_okD(3)] by (auto simp: find_table_def bind_eq_Some_conv)

subsection \<open>Saving\<close>

definition table_image :: "pool \<Rightarrow> table \<Rightarrow> char list" where
  "table_image p t = (case save_table p t of Inr bs \<Rightarrow> bs | Inl _ \<Rightarrow> [])"

definition saved_in :: "pool \<Rightarrow> database \<Rightarrow> directory \<Rightarrow> bool" where
  \<comment> \<open>the directory holds the files of these tables and no others\<close>
  "saved_in p db dir \<longleftrightarrow> map_of (dir_tables dir) = map_option (table_image p) \<circ> map_of db \<and> distinct (map fst (dir_tables dir))"

definition all_saved :: "dbms \<Rightarrow> bool" where
  "all_saved s \<longleftrightarrow> (\<forall>n db. map_of (dbms_databases s) n = Some db \<longrightarrow> saved_in (dbms_pool s) db (directory_of n s))"

lemma save_table_image:
  assumes "table_ok p t" and "pool_room 1 p"
  shows "save_table p t = Inr (table_image p t)"
proof -
  obtain a where "serialize_pool p = Inr a"
    using serialize_pool_bytes [OF table_okD(1) [OF assms(1)]] assms(2) by (auto simp: pool_room_def)
  moreover have "row_images (map fst (tb_rows t)) t = Inr (concat (map row_image (tb_rows t)))"
    using table_okD(3,4) [OF assms(1)] by (intro row_images_ok [where pre = "[]"]) simp_all
  ultimately show ?thesis using table_okD(3) [OF assms(1)] by (simp add: table_image_def save_table_def)
qed

lemma save_tables_ok:
  assumes "\<forall>(n, t) \<in> set ts. table_ok p t" and "pool_room 1 p" and "distinct (map fst ts)" and "distinct (map fst files)"
  shows "\<exists>files'. save_tables p ts files = (Inr (), files') \<and> distinct (map fst files')
    \<and> map_of files' = (\<lambda>n. case map_of ts n of None \<Rightarrow> map_of files n | Some t \<Rightarrow> Some (table_image p t))"
  using assms
proof (induction ts arbitrary: files)
  case (Cons x ts)
  obtain n t where x: "x = (n, t)" by (cases x)
  let ?files = "AList.update n (table_image p t) files"
  have "distinct (map fst ?files)" using Cons.prems(4) by (rule distinct_update)
  then obtain files' where f: "save_tables p ts ?files = (Inr (), files')" "distinct (map fst files')"
    "map_of files' = (\<lambda>m. case map_of ts m of None \<Rightarrow> map_of ?files m | Some t \<Rightarrow> Some (table_image p t))"
    using Cons.IH [of ?files] Cons.prems(1-3) by auto
  have "map_of ts n = None" using Cons.prems(3) x by (simp add: map_of_eq_None_iff)
  then have "map_of files' = (\<lambda>m. case map_of (x # ts) m of None \<Rightarrow> map_of files m | Some t \<Rightarrow> Some (table_image p t))"
    unfolding f(3) using x by (auto simp: fun_eq_iff update_conv' split: option.split)
  then show ?case using f(1,2) x save_table_image [of p t] Cons.prems(1,2) by auto
qed simp

lemma map_of_filter_names: "map_of (filter (\<lambda>(n, _). P n) xs) n = (if P n then map_of xs n else None)"
  by (induction xs) auto

lemma save_to_ok:
  assumes "database_ok p db" and "pool_room 1 p" and "distinct (map fst (dir_tables dir))"
  shows "\<exists>dir'. save_to p db dir = (Inr (), dir') \<and> saved_in p db dir' \<and> dir_indexes dir' = dir_indexes dir"
proof -
  let ?kept = "filter (\<lambda>(n, _). has_table n db) (dir_tables dir)"
  have "distinct (map fst ?kept)" using assms(3) by (simp add: distinct_map_filter)
  then obtain files where f: "save_tables p db ?kept = (Inr (), files)" "distinct (map fst files)"
    "map_of files = (\<lambda>n. case map_of db n of None \<Rightarrow> map_of ?kept n | Some t \<Rightarrow> Some (table_image p t))"
    using save_tables_ok [of db p ?kept] assms(1,2) by (auto simp: database_ok_def)
  have "map_of files = map_option (table_image p) \<circ> map_of db"
    unfolding f(3) by (auto simp: fun_eq_iff map_of_filter_names has_table_def split: option.split)
  then show ?thesis using f(1,2) by (simp add: save_to_def saved_in_def)
qed

lemma save_database_ok:
  assumes db: "map_of (dbms_databases s) n = Some db" "database_ok (dbms_pool s) db" and room: "pool_room 1 (dbms_pool s)"
    and dir: "distinct (map fst (dir_tables (directory_of n s)))"
  shows "\<exists>dir'. save_database n s = (Inr (), set_directory n dir' s) \<and> saved_in (dbms_pool s) db dir'
    \<and> dir_indexes dir' = dir_indexes (directory_of n s)"
proof -
  obtain dir' where "save_to (dbms_pool s) db (directory_of n s) = (Inr (), dir')" "saved_in (dbms_pool s) db dir'"
    "dir_indexes dir' = dir_indexes (directory_of n s)"
    using save_to_ok [OF db(2) room dir] by blast
  then show ?thesis using db(1) by (auto simp: save_database_def require_database_def bindS_def)
qed

lemma directory_of_set: "directory_of m (set_directory n dir s) = (if m = n then dir else directory_of m s)"
  by (simp add: directory_of_def set_directory_def update_conv')

lemma save_each_ok:
  assumes "\<forall>n \<in> set ns. \<exists>db. map_of (dbms_databases s) n = Some db \<and> database_ok (dbms_pool s) db" and "pool_room 1 (dbms_pool s)"
    and "\<forall>n. distinct (map fst (dir_tables (directory_of n s)))" and "set ns \<subseteq> fst ` set (dbms_root s)"
  shows "\<exists>root. for_each save_database ns s = (Inr (), s\<lparr>dbms_root := root\<rparr>) \<and> map fst root = map fst (dbms_root s)
    \<and> (\<forall>n. dir_indexes (directory_of n (s\<lparr>dbms_root := root\<rparr>)) = dir_indexes (directory_of n s))
    \<and> (\<forall>n. if n \<in> set ns then saved_in (dbms_pool s) (the (map_of (dbms_databases s) n)) (directory_of n (s\<lparr>dbms_root := root\<rparr>))
           else directory_of n (s\<lparr>dbms_root := root\<rparr>) = directory_of n s)"
  using assms
proof (induction ns arbitrary: s)
  case Nil
  have "s = s\<lparr>dbms_root := dbms_root s\<rparr>" by simp
  then show ?case by (intro exI [of _ "dbms_root s"]) simp
next
  case (Cons n ns)
  obtain db where db: "map_of (dbms_databases s) n = Some db" "database_ok (dbms_pool s) db" using Cons.prems(1) by auto
  obtain dir where dir: "save_database n s = (Inr (), set_directory n dir s)" "saved_in (dbms_pool s) db dir"
    "dir_indexes dir = dir_indexes (directory_of n s)"
    using save_database_ok [OF db Cons.prems(2)] Cons.prems(3) by blast
  let ?s = "set_directory n dir s"
  have same: "dbms_databases ?s = dbms_databases s" "dbms_pool ?s = dbms_pool s" by (simp_all add: set_directory_def)
  have names: "map fst (dbms_root ?s) = map fst (dbms_root s)"
    using Cons.prems(4) by (simp add: set_directory_def map_fst_update_same)
  have "distinct (map fst (dir_tables (directory_of m ?s)))" for m
    using Cons.prems(3) dir(2) by (simp add: directory_of_set saved_in_def)
  moreover have "set ns \<subseteq> fst ` set (dbms_root ?s)" using Cons.prems(4) arg_cong [OF names, of set] by simp
  ultimately obtain root where r: "for_each save_database ns ?s = (Inr (), ?s\<lparr>dbms_root := root\<rparr>)" "map fst root = map fst (dbms_root ?s)"
    "\<forall>m. dir_indexes (directory_of m (?s\<lparr>dbms_root := root\<rparr>)) = dir_indexes (directory_of m ?s)"
    "\<forall>m. if m \<in> set ns then saved_in (dbms_pool ?s) (the (map_of (dbms_databases ?s) m)) (directory_of m (?s\<lparr>dbms_root := root\<rparr>))
           else directory_of m (?s\<lparr>dbms_root := root\<rparr>) = directory_of m ?s"
    using Cons.IH [of ?s] Cons.prems(1,2) same by auto
  have e: "?s\<lparr>dbms_root := root\<rparr> = s\<lparr>dbms_root := root\<rparr>" by (simp add: set_directory_def)
  show ?case
  proof (intro exI [of _ root] conjI)
    show "for_each save_database (n # ns) s = (Inr (), s\<lparr>dbms_root := root\<rparr>)" using dir(1) r(1) e by (simp add: bindS_def)
    show "map fst root = map fst (dbms_root s)" using r(2) names by simp
    show "\<forall>m. dir_indexes (directory_of m (s\<lparr>dbms_root := root\<rparr>)) = dir_indexes (directory_of m s)"
      using r(3) dir(3) unfolding e by (simp add: directory_of_set)
    show "\<forall>m. if m \<in> set (n # ns) then saved_in (dbms_pool s) (the (map_of (dbms_databases s) m)) (directory_of m (s\<lparr>dbms_root := root\<rparr>))
           else directory_of m (s\<lparr>dbms_root := root\<rparr>) = directory_of m s"
    proof
      fix m
      show "if m \<in> set (n # ns) then saved_in (dbms_pool s) (the (map_of (dbms_databases s) m)) (directory_of m (s\<lparr>dbms_root := root\<rparr>))
           else directory_of m (s\<lparr>dbms_root := root\<rparr>) = directory_of m s"
        using spec [OF r(4), of m] dir(2) db(1) unfolding e same
        by (cases "m \<in> set ns"; cases "m = n") (simp_all add: directory_of_set)
    qed
  qed
qed

lemma directory_distinct: "dbms_ok s \<Longrightarrow> distinct (map fst (dir_tables (directory_of n s)))"
  by (auto simp: dbms_ok_def directory_of_def empty_directory_def split: option.split dest: map_of_SomeD)

lemma dbms_ok_root:
  assumes "dbms_ok s" and "map fst root = map fst (dbms_root s)"
    and "\<And>n. distinct (map fst (dir_tables (directory_of n (s\<lparr>dbms_root := root\<rparr>))))"
  shows "dbms_ok (s\<lparr>dbms_root := root\<rparr>)"
proof -
  have d: "distinct (map fst root)" using assms(1,2) by (simp add: dbms_ok_def)
  have "distinct (map fst (dir_tables dir))" if "(n, dir) \<in> set root" for n dir
    using assms(3) [of n] d that by (simp add: directory_of_def)
  moreover have "fst ` set root = fst ` set (dbms_root s)" using arg_cong [OF assms(2), of set] by simp
  ultimately show ?thesis using assms(1) d by (auto simp: dbms_ok_def)
qed

lemma save_all_ok:
  assumes ok: "dbms_ok s" and room: "pool_room 1 (dbms_pool s)"
  shows "\<exists>root. save_all s = (Inr (), s\<lparr>dbms_root := root\<rparr>) \<and> dbms_ok (s\<lparr>dbms_root := root\<rparr>) \<and> all_saved (s\<lparr>dbms_root := root\<rparr>)
    \<and> (\<forall>n. dir_indexes (directory_of n (s\<lparr>dbms_root := root\<rparr>)) = dir_indexes (directory_of n s))"
proof -
  let ?ns = "map fst (dbms_databases s)"
  have a: "\<forall>n \<in> set ?ns. \<exists>db. map_of (dbms_databases s) n = Some db \<and> database_ok (dbms_pool s) db"
  proof
    fix n assume "n \<in> set ?ns"
    then obtain db where "map_of (dbms_databases s) n = Some db"
      by (metis image_set map_of_eq_None_iff not_None_eq)
    then show "\<exists>db. map_of (dbms_databases s) n = Some db \<and> database_ok (dbms_pool s) db" using dbms_okD(3) [OF ok] by blast
  qed
  have b: "\<forall>n. distinct (map fst (dir_tables (directory_of n s)))" using directory_distinct [OF ok] by blast
  have c: "set ?ns \<subseteq> fst ` set (dbms_root s)" using ok by (simp add: dbms_ok_def)
  from save_each_ok [OF a room b c] obtain root where r: "for_each save_database ?ns s = (Inr (), s\<lparr>dbms_root := root\<rparr>)"
    "map fst root = map fst (dbms_root s)"
    "\<forall>n. dir_indexes (directory_of n (s\<lparr>dbms_root := root\<rparr>)) = dir_indexes (directory_of n s)"
    "\<forall>n. if n \<in> set ?ns then saved_in (dbms_pool s) (the (map_of (dbms_databases s) n)) (directory_of n (s\<lparr>dbms_root := root\<rparr>))
           else directory_of n (s\<lparr>dbms_root := root\<rparr>) = directory_of n s" by blast
  have "distinct (map fst (dir_tables (directory_of n (s\<lparr>dbms_root := root\<rparr>))))" for n
    using spec [OF r(4), of n] b by (cases "n \<in> set ?ns") (auto simp: saved_in_def)
  then have "dbms_ok (s\<lparr>dbms_root := root\<rparr>)" by (rule dbms_ok_root [OF ok r(2)])
  moreover have "all_saved (s\<lparr>dbms_root := root\<rparr>)"
    unfolding all_saved_def
  proof (intro allI impI)
    fix n db assume n: "map_of (dbms_databases (s\<lparr>dbms_root := root\<rparr>)) n = Some db"
    then have "n \<in> set ?ns" by (simp add: map_of_in_fst)
    then show "saved_in (dbms_pool (s\<lparr>dbms_root := root\<rparr>)) db (directory_of n (s\<lparr>dbms_root := root\<rparr>))"
      using spec [OF r(4), of n] n by simp
  qed
  ultimately show ?thesis using r(3) by (intro exI [of _ root] conjI) (simp_all add: save_all_def r(1))
qed

subsection \<open>Work on one table\<close>

definition put_table :: "string \<times> string \<Rightarrow> pool \<Rightarrow> table \<Rightarrow> dbms \<Rightarrow> dbms" where
  "put_table ref p t s =
     s\<lparr>dbms_pool := p, dbms_databases :=
         AList.update (fst ref) (AList.update (snd ref) t (the (map_of (dbms_databases s) (fst ref)))) (dbms_databases s)\<rparr>"

lemma on_table_run:
  assumes "find_table ref s = Some t" and "m (dbms_pool s, t) = (r, (p', t'))"
  shows "on_table ref m s = (r, put_table ref p' t' s)"
  using assms by (auto simp: on_table_def find_table_def bind_eq_Some_conv require_database_def require_table_def
      set_database_def put_table_def)

lemma update_same: "map_of xs k = Some v \<Longrightarrow> AList.update k v xs = xs"
  by (induction xs) (auto split: if_splits)

lemma put_table_same: "find_table ref s = Some t \<Longrightarrow> put_table ref p t s = s\<lparr>dbms_pool := p\<rparr>"
  by (auto simp: find_table_def bind_eq_Some_conv put_table_def update_same)

lemma find_put_table:
  assumes "find_table ref s = Some t"
  shows "find_table ref' (put_table ref p t' s) = (if ref' = ref then Some t' else find_table ref' s)"
  using assms
  by (cases ref; cases ref') (auto simp: find_table_def bind_eq_Some_conv put_table_def update_conv')

lemma put_table_simps [simp]:
  "dbms_pool (put_table ref p t s) = p" "dbms_root (put_table ref p t s) = dbms_root s"
  "directory_of n (put_table ref p t s) = directory_of n s" "dbms_active (put_table ref p t s) = dbms_active s"
  by (simp_all add: put_table_def directory_of_def)

lemma put_database_ok:
  assumes ok: "dbms_ok s" and db: "map_of (dbms_databases s) n = Some db" and p: "pool_ok p" "extends (dbms_pool s) p"
    and new: "database_ok p db'"
  shows "dbms_ok (s\<lparr>dbms_pool := p, dbms_databases := AList.update n db' (dbms_databases s)\<rparr>)"
proof -
  have dok: "database_ok p x" if "(m, x) \<in> set (dbms_databases s)" for m x
    using ok that database_ok_extends [OF _ p(2,1)] by (auto simp: dbms_ok_def)
  let ?dbs = "AList.update n db' (dbms_databases s)"
  have names: "map fst ?dbs = map fst (dbms_databases s)" by (rule map_fst_update_same [OF map_of_in_fst [OF db]])
  have dist: "distinct (map fst (dbms_databases s))" by (rule dbms_okD(2) [OF ok])
  have "\<forall>(m, x) \<in> set ?dbs. database_ok p x" using set_update_distinct [OF dist] new dok by blast
  moreover have "fst ` set ?dbs = fst ` set (dbms_databases s)" using arg_cong [OF names, of set] by simp
  ultimately show ?thesis using ok p(1) dist unfolding dbms_ok_def by (simp add: names)
qed

lemma put_table_ok:
  assumes ok: "dbms_ok s" and t: "find_table ref s = Some t" and p: "pool_ok p" "extends (dbms_pool s) p"
    and t': "table_ok p t'" "tb_name t' = tb_name t"
  shows "dbms_ok (put_table ref p t' s)"
proof -
  obtain db where db: "map_of (dbms_databases s) (fst ref) = Some db" "map_of db (snd ref) = Some t"
    using t by (auto simp: find_table_def bind_eq_Some_conv)
  have "database_ok p db" using dbms_okD(3) [OF ok db(1)] database_ok_extends [OF _ p(2,1)] by blast
  moreover have "tb_name t' = snd ref" using find_table_ok [OF ok t] t'(2) by simp
  ultimately have "database_ok p (AList.update (snd ref) t' db)"
    using t'(1) set_update_distinct [of db _ _ "snd ref" t'] distinct_update [of db "snd ref" t']
    unfolding database_ok_def by blast
  from put_database_ok [OF ok db(1) p this] show ?thesis by (simp add: put_table_def db(1))
qed

lemma resolve_table_found:
  "resolve_table d n s = Inr ref \<Longrightarrow> \<exists>t. find_table ref s = Some t"
  by (auto simp: resolve_table_def require_database_def require_table_def find_table_def bindE_def
      split: sum.splits option.splits)

text \<open>
  The shape of every statement that changes a table: its work on the table, then saving.
\<close>

definition change_table :: "string \<Rightarrow> string \<Rightarrow> (pool \<times> table, unit) sx \<Rightarrow> (dbms, string) sx" where
  "change_table d n m =
     bindS (askE (resolve_table d n)) (\<lambda>ref. bindS (on_table ref m) (\<lambda>_. bindS save_all (\<lambda>_. retS OK)))"

lemma change_table_ok:
  assumes ok: "dbms_ok s" and ref: "resolve_table d n s = Inr ref" and t: "find_table ref s = Some t"
    and m: "m (dbms_pool s, t) = (Inr (), (p', t'))" and p': "extends (dbms_pool s) p'" "pool_room 1 p'"
    and t': "table_ok p' t'" "tb_name t' = tb_name t"
  shows "\<exists>s'. change_table d n m s = (Inr OK, s') \<and> dbms_ok s' \<and> all_saved s' \<and> dbms_pool s' = p'
    \<and> (\<forall>ref'. find_table ref' s' = (if ref' = ref then Some t' else find_table ref' s))"
proof -
  let ?s = "put_table ref p' t' s"
  have "dbms_ok ?s" by (rule put_table_ok [OF ok t table_okD(1) [OF t'(1)] p'(1) t'])
  then obtain root where r: "save_all ?s = (Inr (), ?s\<lparr>dbms_root := root\<rparr>)" "dbms_ok (?s\<lparr>dbms_root := root\<rparr>)"
    "all_saved (?s\<lparr>dbms_root := root\<rparr>)" using save_all_ok [of ?s] p'(2) by auto
  have "change_table d n m s = (Inr OK, ?s\<lparr>dbms_root := root\<rparr>)"
    using ref on_table_run [of ref s t m, OF t m] r(1) by (simp add: change_table_def bindS_def)
  moreover have "find_table ref' (?s\<lparr>dbms_root := root\<rparr>) = find_table ref' ?s" for ref' by (simp add: find_table_def)
  ultimately show ?thesis using r(2,3) find_put_table [OF t] by auto
qed

lemma change_table_fails:
  assumes ok: "dbms_ok s" and ref: "resolve_table d n s = Inr ref" and t: "find_table ref s = Some t"
    and m: "m (dbms_pool s, t) = (Inl e, (p', t'))" and p': "extends (dbms_pool s) p'"
    and t': "table_ok p' t'" "tb_name t' = tb_name t"
  shows "\<exists>s'. change_table d n m s = (Inl e, s') \<and> dbms_ok s' \<and> dbms_root s' = dbms_root s \<and> dbms_pool s' = p'
    \<and> (\<forall>ref'. find_table ref' s' = (if ref' = ref then Some t' else find_table ref' s))"
proof -
  have "dbms_ok (put_table ref p' t' s)" by (rule put_table_ok [OF ok t table_okD(1) [OF t'(1)] p' t'])
  moreover have "change_table d n m s = (Inl e, put_table ref p' t' s)"
    using ref on_table_run [of ref s t m, OF t m] by (simp add: change_table_def bindS_def)
  ultimately show ?thesis using find_put_table [OF t] by auto
qed

lemma change_table_run:
  assumes ok: "dbms_ok s" and ref: "resolve_table d n s = Inr ref" and t: "find_table ref s = Some t"
    and m: "m (dbms_pool s, t) = (x, (p', t'))" and p': "extends (dbms_pool s) p'" "pool_room 1 p'"
    and t': "table_ok p' t'" "tb_name t' = tb_name t"
  shows "\<exists>y s'. change_table d n m s = (y, s') \<and> (y = Inr OK \<longleftrightarrow> x = Inr ()) \<and> dbms_ok s' \<and> dbms_pool s' = p'
    \<and> (\<forall>ref'. find_table ref' s' = (if ref' = ref then Some t' else find_table ref' s))
    \<and> (if x = Inr () then all_saved s' else dbms_root s' = dbms_root s)"
proof (cases x)
  case (Inl e)
  with m have "m (dbms_pool s, t) = (Inl e, (p', t'))" by simp
  from change_table_fails [where m = m, OF ok ref t this p'(1) t'] Inl show ?thesis by auto
next
  case (Inr u)
  with m have "m (dbms_pool s, t) = (Inr (), (p', t'))" by simp
  from change_table_ok [where m = m, OF ok ref t this p' t'] Inr show ?thesis by auto
qed

lemma change_table_unfold:
  "execute_insert d t cols rows = change_table d t (insert_rows cols rows)"
  "execute_update rx d t as w = change_table d t (update_rows rx as w)"
  "execute_delete rx d t w = change_table d t (delete_rows rx w)"
  by (simp_all add: change_table_def execute_insert_def execute_update_def execute_delete_def)

end
