(* ===== verification/Query_Change.thy ===== *)
theory Query_Change
  imports Query_Select
begin

section \<open>INSERT and UPDATE\<close>

text \<open>
  What the two statements promise, on the data of a table (\<open>insert_spec\<close>, \<open>update_spec\<close>): rows and
  assignments are taken one after the other, and the first one that the schema or the uniqueness of
  a column refuses ends the statement and leaves what was done before. The engine refines this
  specification and keeps the table well-formed.
\<close>

subsection \<open>The data of a table\<close>

type_synonym data_rows = "(64 word \<times> datum list) list"

definition row_data :: "pool \<Rightarrow> row \<Rightarrow> datum list" where
  "row_data p r = map (\<lambda>v. the (denote p v)) r"

definition table_data :: "pool \<Rightarrow> table \<Rightarrow> data_rows" where
  "table_data p t = map (\<lambda>(i, r). (i, row_data p r)) (tb_rows t)"

definition datum_fits :: "column_def \<Rightarrow> datum \<Rightarrow> bool" where
  "datum_fits d x =
     (case x of NullD \<Rightarrow> \<not> col_not_null d \<and> \<not> col_indexed d | IntD _ \<Rightarrow> col_type d = IntType | StrD _ \<Rightarrow> col_type d = StrType)"

definition accepts :: "column_def list \<Rightarrow> data_rows \<Rightarrow> 64 word option \<Rightarrow> datum list \<Rightarrow> bool" where
  \<comment> \<open>the row \<open>excl\<close> is the one that is being changed\<close>
  "accepts cols rows excl ds \<longleftrightarrow> length ds = length cols
     \<and> (\<forall>c < length cols. datum_fits (cols ! c) (ds ! c)
          \<and> (col_indexed (cols ! c) \<longrightarrow> (\<forall>(i, r) \<in> set rows. excl \<noteq> Some i \<longrightarrow> r ! c \<noteq> ds ! c)))"

lemma row_data_nth: "i < length r \<Longrightarrow> row_data p r ! i = the (denote p (r ! i))"
  by (simp add: row_data_def)

lemma length_row_data [simp]: "length (row_data p r) = length r"
  by (simp add: row_data_def)

lemma denote_the: "value_ok p v \<Longrightarrow> denote p v = Some (the (denote p v))"
  by (auto simp: value_ok_def)

lemma row_data_extends: "values_ok p r \<Longrightarrow> extends p q \<Longrightarrow> row_data q r = row_data p r"
  using denote_extends denote_the by (fastforce simp: row_data_def values_ok_def)

lemma table_row: "table_ok p t \<Longrightarrow> (i, r) \<in> set (tb_rows t) \<Longrightarrow> length r = length (columns_of t) \<and> values_ok p r"
  using row_in_rows table_okD(6) by (metis conforms_def)

lemma table_data_extends: "table_ok p t \<Longrightarrow> extends p q \<Longrightarrow> table_data q t = table_data p t"
  using row_data_extends table_row by (fastforce simp: table_data_def)

lemma map_of_table_data: "map_of (table_data p t) i = map_option (row_data p) (map_of (tb_rows t) i)"
  by (simp add: table_data_def map_of_map)

lemma fits_cell: "value_ok p v \<Longrightarrow> cell_ok p d v \<longleftrightarrow> datum_fits d (the (denote p v))"
  by (cases v) (auto simp: cell_ok_def datum_fits_def split: sum.splits)

lemma denote_same:
  assumes "pool_ok p" and "value_ok p v" and "value_ok p w"
  shows "the (denote p v) = the (denote p w) \<longleftrightarrow> v = w"
  using denote_inject [OF assms(1) denote_the [OF assms(2)]] denote_the [OF assms(3)] by auto

lemma conforms_accepts:
  assumes ok: "table_ok p t" and r: "values_ok p r"
  shows "conforms p t excl r \<longleftrightarrow> accepts (columns_of t) (table_data p t) excl (row_data p r)"
proof (cases "length r = length (columns_of t)")
  case True
  have v: "value_ok p (r ! c)" if "c < length r" for c using r that by (simp add: values_ok_def)
  have u: "unique_in c (map_of (tb_rows t)) excl (r ! c)
      \<longleftrightarrow> (\<forall>(i, x) \<in> set (table_data p t). excl \<noteq> Some i \<longrightarrow> x ! c \<noteq> row_data p r ! c)"
    if c: "c < length r" for c
  proof -
    have "(row_data p x ! c \<noteq> row_data p r ! c) = (x ! c \<noteq> r ! c)" if "(i, x) \<in> set (tb_rows t)" for i x
    proof -
      have "c < length x" "value_ok p (x ! c)" using table_row [OF ok that] c True by (simp_all add: values_ok_def)
      then show ?thesis using denote_same [OF table_okD(1) [OF ok]] v c by (simp add: row_data_nth)
    qed
    then show ?thesis using row_in_rows [OF ok] by (fastforce simp: unique_in_def table_data_def)
  qed
  have f: "cell_ok p (columns_of t ! c) (r ! c) \<longleftrightarrow> datum_fits (columns_of t ! c) (row_data p r ! c)" if "c < length r" for c
    using fits_cell [OF v [OF that]] that by (simp add: row_data_nth)
  have "(\<forall>c < length (columns_of t). cell_ok p (columns_of t ! c) (r ! c)
        \<and> (col_indexed (columns_of t ! c) \<longrightarrow> unique_in c (map_of (tb_rows t)) excl (r ! c)))
      \<longleftrightarrow> (\<forall>c < length (columns_of t). datum_fits (columns_of t ! c) (row_data p r ! c)
        \<and> (col_indexed (columns_of t ! c) \<longrightarrow> (\<forall>(i, x) \<in> set (table_data p t). excl \<noteq> Some i \<longrightarrow> x ! c \<noteq> row_data p r ! c)))"
    using u f True by (intro all_cong) metis
  then show ?thesis using True unfolding conforms_def accepts_def by simp
qed (simp add: conforms_def accepts_def)

subsection \<open>Keys that an index can store\<close>

definition text_storable :: "string \<Rightarrow> bool" where
  "text_storable s \<longleftrightarrow> length s \<le> INDEX_STRING_KEY_SIZE \<and> CHR 0x00 \<notin> set s"

definition datum_storable :: "column_def \<Rightarrow> datum \<Rightarrow> bool" where
  "datum_storable d x \<longleftrightarrow> (col_indexed d \<longrightarrow> (\<forall>s. x = StrD s \<longrightarrow> text_storable s))"

lemma storable_value:
  assumes "table_ok p t" and "(c, ix) \<in> set (tb_indexes t)" and "value_ok p v" and "cell_ok p (columns_of t ! c) v"
    and "datum_storable (columns_of t ! c) (the (denote p v))"
  shows "value_storable p ix v"
proof -
  have "kind_of ix = kind_for (col_type (columns_of t ! c))" "col_indexed (columns_of t ! c)"
    using table_okD(8) [OF assms(1,2)] by (simp_all add: index_ok_def)
  then show ?thesis using assms(3,4,5)
    by (cases v) (auto simp: value_storable_def cell_ok_def datum_storable_def text_storable_def kind_for_def)
qed

lemma storable_rowI:
  assumes ok: "table_ok p t" and r: "values_ok p r" "conforms p t excl r"
    and d: "\<forall>c < length (columns_of t). datum_storable (columns_of t ! c) (row_data p r ! c)"
  shows "storable_row p r t"
proof -
  have "value_storable p ix (r ! c)" if ix: "(c, ix) \<in> set (tb_indexes t)" for c ix
  proof (rule storable_value [OF ok ix])
    have c: "c < length (columns_of t)" using table_okD(8) [OF ok ix] by (simp add: index_ok_def)
    moreover from this have l: "c < length r" using r(2) by (simp add: conforms_def)
    ultimately show "value_ok p (r ! c)" "cell_ok p (columns_of t ! c) (r ! c)"
      "datum_storable (columns_of t ! c) (the (denote p (r ! c)))"
      using r d by (auto simp: values_ok_def conforms_def row_data_nth)
  qed
  then show ?thesis by (auto simp: storable_row_def)
qed

subsection \<open>Literals\<close>

lemma map_each_grows:
  assumes step: "\<And>x p. x \<in> set xs \<Longrightarrow> pool_ok p \<Longrightarrow> pool_room 1 p \<Longrightarrow> \<exists>y p'. f x p = (Inr y, p') \<and> grows 1 p p' \<and> R x p' y"
    and later: "\<And>x y p p' n. R x p y \<Longrightarrow> grows n p p' \<Longrightarrow> R x p' y"
    and "pool_ok p" and "pool_room (length xs) p"
  shows "\<exists>ys p'. map_each f xs p = (Inr ys, p') \<and> grows (length xs) p p' \<and> list_all2 (\<lambda>x. R x p') xs ys"
  using assms(1,3,4)
proof (induction xs arbitrary: p)
  case Nil
  then show ?case using grows_refl by auto
next
  case (Cons x xs)
  have "pool_room 1 p" by (rule room_less [OF Cons.prems(3)]) simp
  then obtain y p1 where y: "f x p = (Inr y, p1)" "grows 1 p p1" "R x p1 y" using Cons.prems(1,2) by fastforce
  have "pool_ok p1" using y(2) by (simp add: grows_def)
  moreover have "pool_room (length xs) p1" by (rule grows_room [OF y(2)]) (use Cons.prems(3) in simp)
  ultimately obtain ys p2 where ys: "map_each f xs p1 = (Inr ys, p2)" "grows (length xs) p1 p2" "list_all2 (\<lambda>x. R x p2) xs ys"
    using Cons.IH [of p1] Cons.prems(1) by force
  have "grows (length (x # xs)) p p2" using grows_trans [OF y(2) ys(2)] by simp
  then show ?case using y(1) ys(1,3) later [OF y(3) ys(2)] by (auto simp: bindS_def)
qed

definition slot_holds :: "literal option \<Rightarrow> pool \<Rightarrow> sql_value option \<Rightarrow> bool" where
  "slot_holds s p v \<longleftrightarrow> (case s of None \<Rightarrow> v = None | Some l \<Rightarrow> \<exists>x. v = Some x \<and> denote p x = Some (literal_datum l))"

definition slot_datum :: "literal option \<Rightarrow> datum" where
  "slot_datum s = (case s of None \<Rightarrow> NullD | Some l \<Rightarrow> literal_datum l)"

lemma slots_ok:
  assumes "pool_ok p" and "pool_room (length slots) p"
  shows "\<exists>vs p'. map_each slot_value slots p = (Inr vs, p') \<and> grows (length slots) p p' \<and> list_all2 (\<lambda>s. slot_holds s p') slots vs"
proof (rule map_each_grows [OF _ _ assms])
  show "\<exists>y p'. slot_value s p = (Inr y, p') \<and> grows 1 p p' \<and> slot_holds s p' y" if p: "pool_ok p" "pool_room 1 p" for s p
  proof (cases s)
    case None
    then show ?thesis using grows_more [OF grows_refl [OF p(1)], of 1] by (auto simp: slot_value_def slot_holds_def)
  next
    case (Some l)
    obtain v q where "literal_value l p = (Inr v, q)" "denote q v = Some (literal_datum l)" "grows 1 p q"
      using literal_value_ok [OF p] by blast
    then show ?thesis using Some by (auto simp: slot_value_def slot_holds_def bindS_def)
  qed
  show "slot_holds s p' y" if "slot_holds s p y" "grows n p p'" for s y p p' n
    using that denote_extends by (auto simp: slot_holds_def grows_def split: option.splits)
qed

lemma listed_slots_ok:
  assumes "pool_ok p" and "pool_room (length slots) p"
  shows "\<exists>vs p'. map_each (\<lambda>v. case v of None \<Rightarrow> retS Null | Some l \<Rightarrow> literal_value l) slots p = (Inr vs, p')
    \<and> grows (length slots) p p' \<and> list_all2 (\<lambda>s v. denote p' v = Some (slot_datum s)) slots vs"
proof (rule map_each_grows [where R = "\<lambda>s p v. denote p v = Some (slot_datum s)", OF _ _ assms])
  show "\<exists>y p'. (case s of None \<Rightarrow> retS Null | Some l \<Rightarrow> literal_value l) p = (Inr y, p') \<and> grows 1 p p' \<and> denote p' y = Some (slot_datum s)"
    if p: "pool_ok p" "pool_room 1 p" for s p
  proof (cases s)
    case None
    then show ?thesis using grows_more [OF grows_refl [OF p(1)], of 1] by (auto simp: slot_datum_def)
  next
    case (Some l)
    then show ?thesis using literal_value_ok [OF p, of l] by (auto simp: slot_datum_def)
  qed
qed (use denote_extends in \<open>auto simp: grows_def\<close>)

subsection \<open>INSERT\<close>

definition default_datum :: "pool \<Rightarrow> column_def \<Rightarrow> datum" where
  "default_datum p d = (case col_default d of None \<Rightarrow> NullD | Some v \<Rightarrow> the (denote p v))"

fun with_defaults :: "pool \<Rightarrow> column_def list \<Rightarrow> literal option list \<Rightarrow> datum list" where
  "with_defaults p [] slots = []"
| "with_defaults p (d # cols) slots =
     (case (if slots = [] then None else hd slots) of None \<Rightarrow> default_datum p d | Some l \<Rightarrow> literal_datum l)
     # with_defaults p cols (tl slots)"

definition planned_row :: "pool \<Rightarrow> table \<Rightarrow> string list \<Rightarrow> literal option list \<Rightarrow> datum list option" where
  \<comment> \<open>the data a row of an \<open>INSERT\<close> stands for; \<open>None\<close> if it does not fit the list of columns\<close>
  "planned_row p t names slots =
     (if names = [] then
        if length slots \<le> length (columns_of t) then Some (with_defaults p (columns_of t) slots) else None
      else if length slots = length names \<and> distinct names then
        Some (map (\<lambda>d. case map_of (zip names slots) (col_name d) of None \<Rightarrow> NullD | Some s \<Rightarrow> slot_datum s) (columns_of t))
      else None)"

fun insert_spec :: "column_def list \<Rightarrow> 64 word \<Rightarrow> data_rows \<Rightarrow> datum list option list \<Rightarrow> data_rows \<times> bool" where
  \<comment> \<open>the rows afterwards, and whether every row was stored\<close>
  "insert_spec cols i rows [] = (rows, True)"
| "insert_spec cols i rows (None # xs) = (rows, False)"
| "insert_spec cols i rows (Some ds # xs) =
     (if accepts cols rows None ds then insert_spec cols (i + 1) (rows @ [(i, ds)]) xs else (rows, False))"

definition defaults_ok :: "pool \<Rightarrow> table \<Rightarrow> bool" where
  "defaults_ok p t \<longleftrightarrow> (\<forall>d \<in> set (columns_of t). \<forall>v. col_default d = Some v \<longrightarrow> value_ok p v)"

definition plan_storable :: "table \<Rightarrow> datum list option \<Rightarrow> bool" where
  "plan_storable t x \<longleftrightarrow>
     (case x of None \<Rightarrow> True | Some ds \<Rightarrow> list_all2 datum_storable (columns_of t) ds)"

lemma with_defaults_length [simp]: "length (with_defaults p cols slots) = length cols"
  by (induction cols arbitrary: slots) simp_all

lemma with_defaults_extends:
  assumes "\<forall>d \<in> set cols. \<forall>v. col_default d = Some v \<longrightarrow> value_ok p v" and "extends p q"
  shows "with_defaults q cols slots = with_defaults p cols slots"
  using assms(1)
proof (induction cols arbitrary: slots)
  case (Cons d cols)
  have "default_datum q d = default_datum p d"
  proof (cases "col_default d")
    case (Some v)
    then have "value_ok p v" using Cons.prems by simp
    from denote_extends [OF assms(2) denote_the [OF this]] Some show ?thesis by (simp add: default_datum_def)
  qed (simp add: default_datum_def)
  moreover have "with_defaults q cols (tl slots) = with_defaults p cols (tl slots)" using Cons by simp
  ultimately show ?case by (simp split: option.split)
qed simp

lemma planned_row_extends:
  assumes "defaults_ok p t" and "extends p q" and "columns_of t' = columns_of t"
  shows "planned_row q t' names slots = planned_row p t names slots"
  using with_defaults_extends [of "columns_of t" p q slots] assms by (simp add: planned_row_def defaults_ok_def)

lemma fill_defaults_ok:
  assumes "list_all2 (\<lambda>s. slot_holds s p) slots vs" and "\<forall>d \<in> set cols. \<forall>v. col_default d = Some v \<longrightarrow> value_ok p v"
  shows "case fill_defaults cols vs of
      Inl e \<Rightarrow> \<exists>c < length cols. \<not> datum_fits (cols ! c) (with_defaults p cols slots ! c)
    | Inr row \<Rightarrow> values_ok p row \<and> row_data p row = with_defaults p cols slots"
  using assms
proof (induction cols arbitrary: slots vs)
  case Nil
  then show ?case by (simp add: values_ok_def row_data_def)
next
  case (Cons d cols)
  have tl: "list_all2 (\<lambda>s. slot_holds s p) (tl slots) (tl vs)" using Cons.prems(1) by (cases slots; cases vs) auto
  note rest = Cons.IH [OF tl]
  have hd: "slot_holds (if slots = [] then None else hd slots) p (if vs = [] then None else hd vs)"
    using Cons.prems(1) by (cases slots; cases vs) (auto simp: slot_holds_def)
  show ?case
  proof (cases "fill_defaults cols (tl vs)")
    case (Inl e)
    then obtain c where "c < length cols" "\<not> datum_fits (cols ! c) (with_defaults p cols (tl slots) ! c)"
      using rest Cons.prems(2) by auto
    then have bad: "\<exists>c < length (d # cols). \<not> datum_fits ((d # cols) ! c) (with_defaults p (d # cols) slots ! c)"
      by (intro exI [of _ "Suc c"]) simp
    obtain e' where e': "fill_defaults (d # cols) vs = Inl e'" using Inl
      by (cases "if vs = [] then None else hd vs"; cases "col_default d"; cases "col_not_null d") (simp_all add: Let_def)
    show ?thesis unfolding e' sum.case by (rule bad)
  next
    case (Inr row)
    then have row: "values_ok p row" "row_data p row = with_defaults p cols (tl slots)" using rest Cons.prems(2) by auto
    show ?thesis
    proof (cases "if vs = [] then None else hd vs")
      case (Some x)
      then obtain l where l: "(if slots = [] then None else hd slots) = Some l" "denote p x = Some (literal_datum l)"
        using hd by (auto simp: slot_holds_def split: option.splits)
      then show ?thesis using Inr row Some by (simp add: values_ok_def value_ok_def row_data_def Let_def)
    next
      case None
      then have n: "(if slots = [] then None else hd slots) = None" using hd by (auto simp: slot_holds_def split: option.splits)
      show ?thesis
      proof (cases "col_default d")
        case (Some v)
        then show ?thesis using Inr row None n Cons.prems(2) by (simp add: values_ok_def row_data_def default_datum_def Let_def)
      next
        case no: None
        have "\<exists>c < length (d # cols). \<not> datum_fits ((d # cols) ! c) (with_defaults p (d # cols) slots ! c)" if "col_not_null d"
          using that no n by (intro exI [of _ 0]) (simp add: datum_fits_def default_datum_def)
        then show ?thesis using Inr row None n no
          by (cases "col_not_null d") (auto simp: values_ok_def row_data_def default_datum_def Let_def)
      qed
    qed
  qed
qed

lemma stored_row:
  assumes ok: "table_ok p t" and r: "values_ok p r" and st: "list_all2 datum_storable (columns_of t) (row_data p r)"
    and room: "indexes_room (Suc n) t" and nx: "tb_next t \<noteq> - 1"
  shows "if accepts (columns_of t) (table_data p t) None (row_data p r)
    then \<exists>t'. insert_full_row p r t = (Inr (tb_next t), t') \<and> table_data p t' = table_data p t @ [(tb_next t, row_data p r)]
      \<and> table_ok p t' \<and> tb_schema t' = tb_schema t \<and> tb_next t' = tb_next t + 1 \<and> tb_name t' = tb_name t \<and> indexes_room n t'
    else \<exists>e. insert_full_row p r t = (Inl e, t)"
proof (cases "conforms p t None r")
  case True
  have "storable_row p r t" using storable_rowI [OF ok r True] st by (simp add: list_all2_conv_all_nth)
  from insert_full_row_ok [OF ok r True this room nx] obtain t' where t': "insert_full_row p r t = (Inr (tb_next t), t')"
    "tb_rows t' = tb_rows t @ [(tb_next t, r)]" "table_ok p t'" "tb_schema t' = tb_schema t" "tb_next t' = tb_next t + 1"
    "tb_name t' = tb_name t" "indexes_room n t'" by blast
  moreover have "table_data p t' = table_data p t @ [(tb_next t, row_data p r)]" using t'(2) by (simp add: table_data_def)
  ultimately show ?thesis using True conforms_accepts [OF ok r] by auto
next
  case False
  then show ?thesis using insert_full_row_refused [OF ok r] conforms_accepts [OF ok r] by auto
qed

abbreviation names_known :: "table \<Rightarrow> string list \<Rightarrow> bool" where
  "names_known t names \<equiv> list_all (column_known t) names"

abbreviation positions_of :: "table \<Rightarrow> string list \<Rightarrow> int list" where
  "positions_of t names \<equiv> map (\<lambda>n. int (the (find_index (tb_schema t) n))) names"

lemma schema_position:
  "schema_ok s \<Longrightarrow> find_index s n = Some i \<longleftrightarrow> i < length (sch_columns s) \<and> col_name (sch_columns s ! i) = n"
  by (simp add: schema_ok_def find_index_def)

lemma position_bound:
  assumes "schema_ok (tb_schema t)" and "column_known t n"
  shows "the (find_index (tb_schema t) n) < length (columns_of t)"
proof -
  obtain i where i: "find_index (tb_schema t) n = Some i" using assms(2) by (auto simp: column_known_def)
  then have "i < length (columns_of t)" using schema_position [OF assms(1)] by blast
  then show ?thesis using i by simp
qed

lemma position_name:
  assumes "schema_ok (tb_schema t)" and "column_known t n" and "k < length (columns_of t)"
  shows "the (find_index (tb_schema t) n) = k \<longleftrightarrow> col_name (columns_of t ! k) = n"
  using assms schema_position [OF assms(1), of n] by (cases "find_index (tb_schema t) n") (auto simp: column_known_def)

lemma positions_listed:
  assumes "schema_ok (tb_schema t)" and "names_known t names"
  shows "column_list_ok (positions_of t names) t \<longleftrightarrow> distinct names"
proof -
  have "inj_on (\<lambda>n. int (the (find_index (tb_schema t) n))) (set names)"
  proof (rule inj_onI)
    fix a b assume n: "a \<in> set names" "b \<in> set names"
      and e: "int (the (find_index (tb_schema t) a)) = int (the (find_index (tb_schema t) b))"
    have "column_known t a" "column_known t b" using assms(2) n by (simp_all add: list_all_iff)
    then show "a = b" using position_name [OF assms(1) _ position_bound [OF assms(1)]] e by fastforce
  qed
  moreover have "\<forall>q \<in> set (positions_of t names). 0 \<le> q \<and> q < int (length (columns_of t))"
    using position_bound [OF assms(1)] assms(2) by (auto simp: list_all_iff)
  ultimately show ?thesis by (simp add: column_list_ok_def distinct_map)
qed

lemma listed_value:
  assumes "schema_ok (tb_schema t)" and "k < length (columns_of t)"
    and "list_all2 (\<lambda>s v. denote p v = Some (slot_datum s)) slots vs" and "length names = length slots" and "names_known t names"
  shows "denote p (case map_of (zip (positions_of t names) vs) (int k) of Some v \<Rightarrow> v | None \<Rightarrow> Null)
    = Some (case map_of (zip names slots) (col_name (columns_of t ! k)) of None \<Rightarrow> NullD | Some s \<Rightarrow> slot_datum s)"
  using assms(3-5)
proof (induction slots vs arbitrary: names rule: list_all2_induct)
  case (Cons s slots v vs)
  then obtain n ns where names: "names = n # ns" by (cases names) auto
  then have "column_known t n" using Cons.prems by simp
  from position_name [OF assms(1) this assms(2)] show ?case
    using names Cons by (cases "the (find_index (tb_schema t) n) = k") auto
qed simp

lemma filled_row_data:
  assumes "schema_ok (tb_schema t)" and "names_known t names"
    and "list_all2 (\<lambda>s v. denote p v = Some (slot_datum s)) slots vs" and "length names = length slots"
  shows "values_ok p (filled_row (positions_of t names) vs t)"
    and "row_data p (filled_row (positions_of t names) vs t)
      = map (\<lambda>d. case map_of (zip names slots) (col_name d) of None \<Rightarrow> NullD | Some s \<Rightarrow> slot_datum s) (columns_of t)"
proof -
  let ?r = "filled_row (positions_of t names) vs t"
  have v: "denote p (?r ! k) = Some (case map_of (zip names slots) (col_name (columns_of t ! k)) of None \<Rightarrow> NullD | Some s \<Rightarrow> slot_datum s)"
    if "k < length (columns_of t)" for k
    using listed_value [OF assms(1) that assms(3,4,2)] that by (simp add: filled_row_def)
  have len: "length ?r = length (columns_of t)" by (simp add: filled_row_def)
  show "values_ok p ?r" using v len by (auto simp: values_ok_def value_ok_def in_set_conv_nth)
  show "row_data p ?r = map (\<lambda>d. case map_of (zip names slots) (col_name d) of None \<Rightarrow> NullD | Some s \<Rightarrow> slot_datum s) (columns_of t)"
    by (rule nth_equalityI) (simp_all add: len v row_data_nth)
qed

text \<open>One row of the statement, then all of them.\<close>

definition insert_one :: "string list \<Rightarrow> int list \<Rightarrow> literal option list \<Rightarrow> (pool \<times> table, unit) sx" where
  "insert_one names positions slots = (if names = [] then insert_slots slots else insert_listed positions slots)"

definition row_stored :: "pool \<Rightarrow> table \<Rightarrow> datum list option \<Rightarrow> bool" where
  "row_stored p t plan \<longleftrightarrow> (case plan of None \<Rightarrow> False | Some ds \<Rightarrow> accepts (columns_of t) (table_data p t) None ds)"

lemma insert_one_run:
  assumes ok: "table_ok p t" and dfl: "defaults_ok p t" and known: "names_known t names" and room: "pool_room (length slots) p"
  obtains p' where "grows (length slots) p p'"
    and "(\<exists>r. values_ok p' r \<and> planned_row p t names slots = Some (row_data p' r)
            \<and> insert_one names (positions_of t names) slots (p, t)
              = (case insert_full_row p' r t of (x, t') \<Rightarrow> (case x of Inl e \<Rightarrow> Inl e | Inr _ \<Rightarrow> Inr (), (p', t'))))
       \<or> (\<not> row_stored p t (planned_row p t names slots) \<and> (\<exists>e. insert_one names (positions_of t names) slots (p, t) = (Inl e, (p', t))))"
proof (cases "names = []")
  case True
  obtain vs p' where vs: "map_each slot_value slots p = (Inr vs, p')" "grows (length slots) p p'" "list_all2 (\<lambda>s. slot_holds s p') slots vs"
    using slots_ok [OF table_okD(1) [OF ok] room] by blast
  have len: "length vs = length slots" using vs(3) by (simp add: list_all2_lengthD)
  have ext: "extends p p'" using vs(2) by (simp add: grows_def)
  have dfl': "\<forall>d \<in> set (columns_of t). \<forall>v. col_default d = Some v \<longrightarrow> value_ok p' v"
    using dfl value_ok_extends [OF ext] by (auto simp: defaults_ok_def)
  have plan: "planned_row p t names slots
      = (if length slots \<le> length (columns_of t) then Some (with_defaults p' (columns_of t) slots) else None)"
    using planned_row_extends [OF dfl ext, of t names slots] True by (simp add: planned_row_def)
  have run: "insert_one names (positions_of t names) slots (p, t) = (case insert_row p' vs t of (r, t') \<Rightarrow> (r, (p', t')))"
    using True vs(1) by (simp add: insert_one_def insert_slots_def on_pool_def on_rows_def bindS_def)
  note fill = fill_defaults_ok [OF vs(3) dfl']
  show thesis
  proof (cases "length slots \<le> length (columns_of t)")
    case False
    then show thesis using that [OF vs(2)] run plan len
      by (auto simp: insert_row_def column_count_def bindS_def row_stored_def guardE_def)
  next
    case few: True
    show thesis
    proof (cases "fill_defaults (columns_of t) vs")
      case (Inl e)
      then have "\<not> row_stored p t (planned_row p t names slots)"
        using fill few plan by (auto simp: row_stored_def accepts_def)
      then show thesis using that [OF vs(2)] run few len Inl by (auto simp: insert_row_def column_count_def bindS_def)
    next
      case (Inr r)
      then have "values_ok p' r" "planned_row p t names slots = Some (row_data p' r)" using fill few plan by auto
      moreover have "insert_one names (positions_of t names) slots (p, t)
          = (case insert_full_row p' r t of (x, t') \<Rightarrow> (case x of Inl e \<Rightarrow> Inl e | Inr _ \<Rightarrow> Inr (), (p', t')))"
        using run few len Inr by (auto simp: insert_row_def column_count_def bindS_def split: prod.splits sum.splits)
      ultimately show thesis using that [OF vs(2)] by blast
    qed
  qed
next
  case False
  obtain vs p' where vs: "map_each (\<lambda>v. case v of None \<Rightarrow> retS Null | Some l \<Rightarrow> literal_value l) slots p = (Inr vs, p')"
    "grows (length slots) p p'" "list_all2 (\<lambda>s v. denote p' v = Some (slot_datum s)) slots vs"
    using listed_slots_ok [OF table_okD(1) [OF ok] room] by blast
  have len: "length vs = length slots" using vs(3) by (simp add: list_all2_lengthD)
  note sok = table_okD(2) [OF ok]
  let ?ps = "positions_of t names"
  have run: "insert_one names ?ps slots (p, t)
      = (case materialize ?ps vs t of Inl e \<Rightarrow> (Inl e, (p', t))
         | Inr r \<Rightarrow> (case insert_full_row p' r t of (x, t') \<Rightarrow> (case x of Inl e \<Rightarrow> Inl e | Inr _ \<Rightarrow> Inr (), (p', t'))))"
    using False vs(1)
    by (auto simp: insert_one_def insert_listed_def on_pool_def on_rows_def bindS_def split: sum.splits prod.splits)
  show thesis
  proof (cases "length slots = length names \<and> distinct names")
    case True
    then have "materialize ?ps vs t = Inr (filled_row ?ps vs t)"
      using materialize_iff positions_listed [OF sok known] len by simp
    moreover have "values_ok p' (filled_row ?ps vs t)" "planned_row p t names slots = Some (row_data p' (filled_row ?ps vs t))"
      using filled_row_data [OF sok known vs(3)] True False by (simp_all add: planned_row_def)
    ultimately show thesis using that [OF vs(2)] run by auto
  next
    case bad: False
    then have "materialize ?ps vs t \<noteq> Inr r" for r using materialize_iff positions_listed [OF sok known] len by auto
    then obtain e where "materialize ?ps vs t = Inl e" by (cases "materialize ?ps vs t") auto
    moreover have "planned_row p t names slots = None" using bad False by (simp add: planned_row_def)
    ultimately show thesis using that [OF vs(2)] run by (simp add: row_stored_def)
  qed
qed

lemma insert_one_ok:
  assumes ok: "table_ok p t" and dfl: "defaults_ok p t" and known: "names_known t names" and room: "pool_room (length slots) p"
    and st: "plan_storable t (planned_row p t names slots)" and iroom: "indexes_room (Suc n) t" and nx: "tb_next t \<noteq> - 1"
  shows "\<exists>p'. grows (length slots) p p' \<and> (if row_stored p t (planned_row p t names slots)
    then \<exists>t'. insert_one names (positions_of t names) slots (p, t) = (Inr (), (p', t')) \<and> table_ok p' t'
      \<and> table_data p' t' = table_data p t @ [(tb_next t, the (planned_row p t names slots))]
      \<and> tb_schema t' = tb_schema t \<and> tb_next t' = tb_next t + 1 \<and> tb_name t' = tb_name t \<and> indexes_room n t'
    else \<exists>e. insert_one names (positions_of t names) slots (p, t) = (Inl e, (p', t)))"
proof -
  let ?plan = "planned_row p t names slots" and ?ins = "insert_one names (positions_of t names) slots (p, t)"
  obtain p' where g: "grows (length slots) p p'" and c: "(\<exists>r. values_ok p' r \<and> ?plan = Some (row_data p' r)
            \<and> ?ins = (case insert_full_row p' r t of (x, t') \<Rightarrow> (case x of Inl e \<Rightarrow> Inl e | Inr _ \<Rightarrow> Inr (), (p', t'))))
       \<or> (\<not> row_stored p t ?plan \<and> (\<exists>e. ?ins = (Inl e, (p', t))))"
    by (rule insert_one_run [OF ok dfl known room])
  have ok': "table_ok p' t" by (rule table_ok_grows [OF ok g])
  have data: "table_data p' t = table_data p t" by (rule table_data_extends [OF ok]) (use g in \<open>simp add: grows_def\<close>)
  from c show ?thesis
  proof
    assume "\<exists>r. values_ok p' r \<and> ?plan = Some (row_data p' r)
      \<and> ?ins = (case insert_full_row p' r t of (x, t') \<Rightarrow> (case x of Inl e \<Rightarrow> Inl e | Inr _ \<Rightarrow> Inr (), (p', t')))"
    then obtain r where r: "values_ok p' r" "?plan = Some (row_data p' r)"
      "?ins = (case insert_full_row p' r t of (x, t') \<Rightarrow> (case x of Inl e \<Rightarrow> Inl e | Inr _ \<Rightarrow> Inr (), (p', t')))" by blast
    have "list_all2 datum_storable (columns_of t) (row_data p' r)" using st r(2) by (simp add: plan_storable_def)
    note row = stored_row [OF ok' r(1) this iroom nx, unfolded data]
    have acc: "row_stored p t ?plan \<longleftrightarrow> accepts (columns_of t) (table_data p t) None (row_data p' r)"
      by (simp add: row_stored_def r(2))
    show ?thesis
    proof (cases "row_stored p t ?plan")
      case True
      then obtain t' where t': "insert_full_row p' r t = (Inr (tb_next t), t')" "table_ok p' t'"
        "table_data p' t' = table_data p t @ [(tb_next t, row_data p' r)]" "tb_schema t' = tb_schema t"
        "tb_next t' = tb_next t + 1" "tb_name t' = tb_name t" "indexes_room n t'"
        using row acc by auto
      have "?ins = (Inr (), (p', t'))" using r(3) t'(1) by simp
      then show ?thesis using True t'(2-7) g r(2) by auto
    next
      case False
      then obtain e where "insert_full_row p' r t = (Inl e, t)" using row acc by auto
      then have "?ins = (Inl e, (p', t))" using r(3) by simp
      then show ?thesis using False g by auto
    qed
  qed (use g in auto)
qed

lemma indexes_room_less: "indexes_room n t \<Longrightarrow> m \<le> n \<Longrightarrow> indexes_room m t"
  by (fastforce simp: indexes_room_def room_for_def)

lemma insert_all_ok:
  assumes "table_ok p t" and "defaults_ok p t" and "names_known t names" and "pool_room (k + sum_list (map length rows)) p"
    and "indexes_room (length rows + n) t" and "unat (tb_next t) + length rows < 2 ^ 64"
    and "\<forall>slots \<in> set rows. plan_storable t (planned_row p t names slots)"
  shows "\<exists>x p' t'. for_each (insert_one names (positions_of t names)) rows (p, t) = (x, (p', t')) \<and> table_ok p' t' \<and> extends p p'
    \<and> pool_room k p' \<and> tb_schema t' = tb_schema t \<and> tb_name t' = tb_name t \<and> indexes_room n t'
    \<and> (table_data p' t', x = Inr ())
      = insert_spec (columns_of t) (tb_next t) (table_data p t) (map (planned_row p t names) rows)"
  using assms
proof (induction rows arbitrary: p t)
  case Nil
  then show ?case by (simp add: extends_def)
next
  case (Cons slots rows)
  let ?plan = "planned_row p t names slots" and ?ps = "positions_of t names"
  have nx: "tb_next t \<noteq> - 1"
  proof
    assume "tb_next t = - 1"
    then have "unat (tb_next t) = 2 ^ 64 - 1" by (simp add: unsigned_minus_1_eq_mask mask_eq_exp_minus_1)
    then show False using Cons.prems(6) by simp
  qed
  have room: "pool_room (length slots) p" by (rule room_less [OF Cons.prems(4)]) simp
  have "indexes_room (Suc (length rows + n)) t" using Cons.prems(5) by simp
  then obtain p1 where g: "grows (length slots) p p1" and step: "if row_stored p t ?plan
    then \<exists>t'. insert_one names ?ps slots (p, t) = (Inr (), (p1, t')) \<and> table_ok p1 t'
      \<and> table_data p1 t' = table_data p t @ [(tb_next t, the ?plan)]
      \<and> tb_schema t' = tb_schema t \<and> tb_next t' = tb_next t + 1 \<and> tb_name t' = tb_name t \<and> indexes_room (length rows + n) t'
    else \<exists>e. insert_one names ?ps slots (p, t) = (Inl e, (p1, t))"
    using insert_one_ok [OF Cons.prems(1-3) room _ _ nx] Cons.prems(7) by auto
  have ext: "extends p p1" using g by (simp add: grows_def)
  have room1: "pool_room (k + sum_list (map length rows)) p1" by (rule grows_room [OF g]) (use Cons.prems(4) in \<open>simp add: ac_simps\<close>)
  show ?case
  proof (cases "row_stored p t ?plan")
    case False
    then obtain e where "insert_one names ?ps slots (p, t) = (Inl e, (p1, t))" using step by auto
    moreover have "insert_spec (columns_of t) (tb_next t) (table_data p t) (map (planned_row p t names) (slots # rows)) = (table_data p t, False)"
      using False by (cases ?plan) (simp_all add: row_stored_def)
    moreover have "table_data p1 t = table_data p t" by (rule table_data_extends [OF Cons.prems(1) ext])
    moreover have "pool_room k p1" by (rule room_less [OF room1]) simp
    moreover have "indexes_room n t" by (rule indexes_room_less [OF Cons.prems(5)]) simp
    ultimately show ?thesis using table_ok_grows [OF Cons.prems(1) g] ext by (simp add: bindS_def)
  next
    case True
    then obtain t1 where t1: "insert_one names ?ps slots (p, t) = (Inr (), (p1, t1))" "table_ok p1 t1"
      "table_data p1 t1 = table_data p t @ [(tb_next t, the ?plan)]" "tb_schema t1 = tb_schema t" "tb_next t1 = tb_next t + 1"
      "tb_name t1 = tb_name t" "indexes_room (length rows + n) t1" using step by auto
    have plans: "planned_row p1 t1 names x = planned_row p t names x" for x
      by (rule planned_row_extends [OF Cons.prems(2) ext]) (simp add: t1(4))
    then have plan_fun: "planned_row p1 t1 names = planned_row p t names" by (simp add: fun_eq_iff)
    have "defaults_ok p1 t1" using Cons.prems(2) value_ok_extends [OF ext] by (auto simp: defaults_ok_def t1(4))
    moreover have "names_known t1 names" using Cons.prems(3) by (simp add: list_all_iff column_known_def t1(4))
    moreover have "unat (tb_next t1) + length rows < 2 ^ 64"
      using Cons.prems(6) nx by (simp add: t1(5) unat_plus_if' split: if_splits)
    moreover have "\<forall>x \<in> set rows. plan_storable t1 (planned_row p1 t1 names x)"
    proof
      fix x assume "x \<in> set rows"
      then have "plan_storable t (planned_row p t names x)" using Cons.prems(7) by simp
      then show "plan_storable t1 (planned_row p1 t1 names x)" unfolding plans by (simp add: plan_storable_def t1(4) split: option.splits)
    qed
    ultimately obtain x p2 t2 where t2: "for_each (insert_one names (positions_of t1 names)) rows (p1, t1) = (x, (p2, t2))"
      "table_ok p2 t2" "extends p1 p2" "pool_room k p2" "tb_schema t2 = tb_schema t1" "tb_name t2 = tb_name t1" "indexes_room n t2"
      "(table_data p2 t2, x = Inr ())
        = insert_spec (columns_of t1) (tb_next t1) (table_data p1 t1) (map (planned_row p1 t1 names) rows)"
      using Cons.IH [OF t1(2) _ _ room1 t1(7)] by blast
    have "for_each (insert_one names ?ps) (slots # rows) (p, t) = (x, (p2, t2))"
      using t1(1) t2(1) by (simp add: bindS_def t1(4))
    moreover have "insert_spec (columns_of t) (tb_next t) (table_data p t) (map (planned_row p t names) (slots # rows))
        = insert_spec (columns_of t1) (tb_next t1) (table_data p1 t1) (map (planned_row p1 t1 names) rows)"
      using True by (auto simp: row_stored_def t1(3-5) plan_fun split: option.splits)
    ultimately show ?thesis using t2(2-8) t1(4,6) extends_trans [OF ext t2(3)] by simp
  qed
qed

lemma positions_run:
  assumes "names_known t names"
  shows "map_each (\<lambda>n. on_rows (\<lambda>p. askE (require_column n))) names (p, t) = (Inr (positions_of t names), (p, t))"
  using assms
proof (induction names)
  case (Cons n names)
  then have "require_column n t = Inr (int (the (find_index (tb_schema t) n)))"
    by (auto simp: require_column_def column_known_def)
  then show ?case using Cons by (simp add: on_rows_def bindS_def)
qed simp

lemma positions_fail:
  assumes "\<not> names_known t names"
  shows "\<exists>e. map_each (\<lambda>n. on_rows (\<lambda>p. askE (require_column n))) names (p, t) = (Inl e, (p, t))"
  using assms
proof (induction names)
  case (Cons n names)
  show ?case
  proof (cases "column_known t n")
    case True
    then obtain i where "require_column n t = Inr i" by (auto simp: require_column_def column_known_def)
    then show ?thesis using Cons True by (auto simp: on_rows_def bindS_def)
  next
    case False
    then show ?thesis by (auto simp: require_column_def column_known_def on_rows_def bindS_def)
  qed
qed simp

definition insert_plan :: "pool \<Rightarrow> table \<Rightarrow> string list \<Rightarrow> literal option list list \<Rightarrow> datum list option list" where
  \<comment> \<open>a list with an unknown column stores nothing\<close>
  "insert_plan p t names rows = (if names_known t names then map (planned_row p t names) rows else [None])"

lemma insert_rows_ok:
  assumes ok: "table_ok p t" and dfl: "defaults_ok p t" and room: "pool_room (k + sum_list (map length rows)) p"
    and iroom: "indexes_room (length rows + n) t" and nx: "unat (tb_next t) + length rows < 2 ^ 64"
    and st: "list_all (plan_storable t) (insert_plan p t names rows)"
  shows "\<exists>x p' t'. insert_rows names rows (p, t) = (x, (p', t')) \<and> table_ok p' t' \<and> extends p p'
    \<and> pool_room k p' \<and> tb_schema t' = tb_schema t \<and> tb_name t' = tb_name t \<and> indexes_room n t'
    \<and> (table_data p' t', x = Inr ()) = insert_spec (columns_of t) (tb_next t) (table_data p t) (insert_plan p t names rows)"
proof (cases "names_known t names")
  case True
  then have "\<forall>slots \<in> set rows. plan_storable t (planned_row p t names slots)"
    using st by (simp add: insert_plan_def list_all_iff)
  from insert_all_ok [OF ok dfl True room iroom nx this] positions_run [OF True, of p] True show ?thesis
    by (simp add: insert_rows_def bindS_def insert_plan_def insert_one_def [abs_def])
next
  case False
  have "pool_room k p" by (rule room_less [OF room]) simp
  moreover have "indexes_room n t" by (rule indexes_room_less [OF iroom]) simp
  ultimately show ?thesis using positions_fail [OF False, of p] False ok
    by (auto simp: insert_rows_def bindS_def insert_plan_def extends_def)
qed

end
