(* ===== verification/Query_Update.thy ===== *)
theory Query_Update
  imports Query_Change
begin

section \<open>UPDATE\<close>

text \<open>
  The rows that match are those that matched when the statement began: a row is visited once, and
  whether it matches depends on its own cells, so the changes made to other rows do not matter. Each
  assignment changes one cell if the changed row is accepted; the first that is not ends the
  statement.
\<close>

fun assign_spec :: "column_def list \<Rightarrow> (string \<Rightarrow> nat option) \<Rightarrow> 64 word \<Rightarrow> data_rows \<Rightarrow> (string \<times> literal) list \<Rightarrow> data_rows \<times> bool" where
  "assign_spec cols pos i rows [] = (rows, True)"
| "assign_spec cols pos i rows ((n, l) # as) =
     (case pos n of
        None \<Rightarrow> (rows, False)
      | Some c \<Rightarrow>
          let ds = (the (map_of rows i))[c := literal_datum l] in
          if accepts cols rows (Some i) ds then assign_spec cols pos i (AList.update i ds rows) as else (rows, False))"

fun update_spec :: "column_def list \<Rightarrow> (string \<Rightarrow> nat option) \<Rightarrow> (string \<times> literal) list \<Rightarrow> data_rows \<Rightarrow> 64 word list \<Rightarrow> data_rows \<times> bool" where
  "update_spec cols pos as rows [] = (rows, True)"
| "update_spec cols pos as rows (i # ids) =
     (case assign_spec cols pos i rows as of
        (rows', ok) \<Rightarrow> if ok then update_spec cols pos as rows' ids else (rows', False))"

lemma assign_spec_others: "j \<noteq> i \<Longrightarrow> map_of (fst (assign_spec cols pos i rows as)) j = map_of rows j"
  by (induction as arbitrary: rows) (auto simp: Let_def update_conv' split: option.split)

subsection \<open>Refinement\<close>

definition changes_to :: "nat \<Rightarrow> nat \<Rightarrow> pool \<Rightarrow> table \<Rightarrow> (exn + unit) \<times> (pool \<times> table) \<Rightarrow> data_rows \<times> bool \<Rightarrow> bool" where
  \<comment> \<open>the outcome of a change that interns at most \<open>g\<close> strings and leaves room for \<open>n\<close> insertions\<close>
  "changes_to g n p t out spec \<longleftrightarrow>
     (\<exists>x p' t'. out = (x, (p', t')) \<and> table_ok p' t' \<and> grows g p p' \<and> tb_schema t' = tb_schema t \<and> tb_name t' = tb_name t
        \<and> tb_order t' = tb_order t \<and> indexes_room n t' \<and> (table_data p' t', x = Inr ()) = spec)"

lemma same_alist:
  assumes "map fst xs = map fst ys" and "distinct (map fst xs)" and "map_of xs = map_of ys"
  shows "xs = ys"
  using assms
proof (induction xs arbitrary: ys)
  case (Cons x xs)
  then obtain y zs where ys: "ys = y # zs" "fst y = fst x" "map fst xs = map fst zs" by (cases ys) auto
  have y: "y = x" using fun_cong [OF Cons.prems(3), of "fst x"] ys by (cases x; cases y) simp
  have "map_of xs k = map_of zs k" for k
  proof (cases "k = fst x")
    case True
    have "fst x \<notin> set (map fst xs)" using Cons.prems(2) by simp
    moreover from this have "fst x \<notin> set (map fst zs)" using ys(3) by simp
    ultimately show ?thesis using True by (simp add: map_of_eq_None_iff [THEN iffD2])
  next
    case False
    then show ?thesis using fun_cong [OF Cons.prems(3), of k] ys y by (cases x) simp
  qed
  then have "xs = zs" using Cons.IH [OF ys(3)] Cons.prems(2) by (simp add: fun_eq_iff)
  then show ?case using y ys by simp
qed simp

lemma table_data_order: "table_ok p t \<Longrightarrow> map fst (table_data p t) = tb_order t"
  by (simp add: table_data_def comp_def case_prod_beta table_okD(3))

lemma row_data_update: "c < length r \<Longrightarrow> row_data p (r[c := v]) = (row_data p r)[c := the (denote p v)]"
  by (simp add: row_data_def map_update)

lemma assign_cell_ok:
  assumes ok: "table_ok p t" and row: "map_of (tb_rows t) i = Some r" and room: "pool_room 1 p"
    and st: "\<forall>c. find_index (tb_schema t) n = Some c \<longrightarrow> datum_storable (columns_of t ! c) (literal_datum l)"
    and iroom: "indexes_room (Suc m) t"
  shows "changes_to 1 m p t (assign_cell i (n, l) (p, t))
    (assign_spec (columns_of t) (find_index (tb_schema t)) i (table_data p t) [(n, l)])"
proof (cases "find_index (tb_schema t) n")
  case None
  have "assign_cell i (n, l) (p, t) = (Inl (RuntimeError (''Table::require_column: unknown column '' @ quoted n)), (p, t))"
    using None by (simp add: assign_cell_def require_column_def on_rows_def bindS_def)
  then show ?thesis using None ok grows_more [OF grows_refl [OF table_okD(1) [OF ok]], of 1] indexes_room_less [OF iroom]
    by (simp add: changes_to_def)
next
  case (Some c)
  have c: "c < length (columns_of t)" by (rule column_index_bound [OF table_okD(2) [OF ok] Some])
  obtain v p' where v: "literal_value l p = (Inr v, p')" "denote p' v = Some (literal_datum l)" "grows 1 p p'"
    using literal_value_ok [OF table_okD(1) [OF ok] room] by blast
  have ok': "table_ok p' t" by (rule table_ok_grows [OF ok v(3)])
  have ext: "extends p p'" using v(3) by (simp add: grows_def)
  have data: "table_data p' t = table_data p t" by (rule table_data_extends [OF ok ext])
  have r: "values_ok p' r" "length r = length (columns_of t)"
    using table_okD(6) [OF ok' row] by (simp_all add: conforms_def)
  have vok: "value_ok p' v" using v(2) by (simp add: value_ok_def)
  have r': "values_ok p' (r[c := v])" using r(1) vok by (auto simp: values_ok_def dest!: set_update_subset_insert [THEN subsetD])
  let ?ds = "(the (map_of (table_data p t) i))[c := literal_datum l]"
  have ds: "row_data p' (r[c := v]) = ?ds"
    using c r(2) v(2) row map_of_table_data [of p' t i] by (simp add: row_data_update data)
  have run: "assign_cell i (n, l) (p, t) = (case update_cell p' i c v t of (x, t') \<Rightarrow> (x, (p', t')))"
    using Some v(1) by (simp add: assign_cell_def require_column_def on_rows_def on_pool_def bindS_def)
  have acc: "conforms p' t (Some i) (r[c := v]) \<longleftrightarrow> accepts (columns_of t) (table_data p t) (Some i) ?ds"
    using conforms_accepts [OF ok' r'] by (simp add: data ds)
  show ?thesis
  proof (cases "conforms p' t (Some i) (r[c := v])")
    case False
    then obtain e where "update_cell p' i c v t = (Inl e, t)" using update_cell_refused [OF ok' row c vok] by blast
    then have "assign_cell i (n, l) (p, t) = (Inl e, (p', t))" using run by simp
    moreover have "\<not> accepts (columns_of t) (table_data p t) (Some i) ?ds" using False acc by simp
    moreover have "indexes_room m t" by (rule indexes_room_less [OF iroom]) simp
    ultimately show ?thesis using Some ok' v(3) data by (simp add: changes_to_def)
  next
    case True
    have "value_storable p' ix v" if ix: "(c, ix) \<in> set (tb_indexes t)" for ix
    proof (rule storable_value [OF ok' ix vok])
      show "cell_ok p' (columns_of t ! c) v" using True c r(2) by (auto simp: conforms_def)
      show "datum_storable (columns_of t ! c) (the (denote p' v))" using st Some v(2) by simp
    qed
    from update_cell_ok [OF ok' row c vok True this iroom] obtain t' where
      t': "update_cell p' i c v t = (Inr (), t')" "map_of (tb_rows t') = (map_of (tb_rows t))(i \<mapsto> r[c := v])"
        "tb_order t' = tb_order t" "table_ok p' t'" "tb_schema t' = tb_schema t" "tb_name t' = tb_name t" "indexes_room m t'"
      by blast
    have "table_data p' t' = AList.update i ?ds (table_data p t)"
    proof (rule same_alist)
      have "i \<in> fst ` set (table_data p t)" using row map_of_in_fst [of "table_data p t" i] by (simp add: map_of_table_data)
      then have "map fst (AList.update i ?ds (table_data p t)) = tb_order t"
        using map_fst_update_same table_data_order [OF ok] by metis
      then show "map fst (table_data p' t') = map fst (AList.update i ?ds (table_data p t))"
        using table_data_order [OF t'(4)] t'(3) by simp
      show "distinct (map fst (table_data p' t'))" using table_data_order [OF t'(4)] table_okD(4) [OF t'(4)] by simp
      show "map_of (table_data p' t') = map_of (AList.update i ?ds (table_data p t))"
        using map_of_table_data [of p' t] by (simp add: fun_eq_iff map_of_table_data t'(2) update_conv' ds flip: data)
    qed
    moreover have "assign_cell i (n, l) (p, t) = (Inr (), (p', t'))" using run t'(1) by simp
    moreover have "accepts (columns_of t) (table_data p t) (Some i) ?ds" using True acc by simp
    ultimately show ?thesis using Some t'(3-7) v(3) by (simp add: changes_to_def)
  qed
qed

lemma changes_to_next:
  assumes "changes_to g m p t (f (p, t)) (rows, ok)" and "g + h \<le> gh"
    and fail: "\<not> ok \<Longrightarrow> spec = (rows, False)" and less: "n \<le> m"
    and go: "\<And>p' t'. ok \<Longrightarrow> table_ok p' t' \<Longrightarrow> grows g p p' \<Longrightarrow> tb_schema t' = tb_schema t \<Longrightarrow> tb_order t' = tb_order t
      \<Longrightarrow> indexes_room m t' \<Longrightarrow> table_data p' t' = rows \<Longrightarrow> changes_to h n p' t' (rest (p', t')) spec"
  shows "changes_to gh n p t (bindS f (\<lambda>_. rest) (p, t)) spec"
proof -
  obtain x p' t' where a: "f (p, t) = (x, (p', t'))" "table_ok p' t'" "grows g p p'" "tb_schema t' = tb_schema t"
    "tb_name t' = tb_name t" "tb_order t' = tb_order t" "indexes_room m t'" "table_data p' t' = rows" "x = Inr () \<longleftrightarrow> ok"
    using assms(1) by (auto simp: changes_to_def)
  show ?thesis
  proof (cases ok)
    case False
    then obtain e where "x = Inl e" using a(9) by (cases x) auto
    moreover have "grows gh p p'" by (rule grows_more [OF a(3)]) (use assms(2) in simp)
    moreover have "indexes_room n t'" by (rule indexes_room_less [OF a(7) less])
    ultimately show ?thesis using a fail [OF False] by (simp add: changes_to_def bindS_def)
  next
    case True
    then obtain y q u where b: "rest (p', t') = (y, (q, u))" "table_ok q u" "grows h p' q" "tb_schema u = tb_schema t'"
      "tb_name u = tb_name t'" "tb_order u = tb_order t'" "indexes_room n u" "(table_data q u, y = Inr ()) = spec"
      using go [OF True a(2-4,6-8)] by (auto simp: changes_to_def)
    have "grows gh p q" by (rule grows_more [OF grows_trans [OF a(3) b(3)] assms(2)])
    moreover have "bindS f (\<lambda>_. rest) (p, t) = (y, (q, u))" using a(1,9) True b(1) by (simp add: bindS_def)
    ultimately show ?thesis using a b by (simp add: changes_to_def)
  qed
qed

definition assigns_storable :: "table \<Rightarrow> (string \<times> literal) list \<Rightarrow> bool" where
  "assigns_storable t as \<longleftrightarrow> list_all (\<lambda>(n, l). \<forall>c. find_index (tb_schema t) n = Some c
     \<longrightarrow> datum_storable (columns_of t ! c) (literal_datum l)) as"

lemma changes_none: "table_ok p t \<Longrightarrow> indexes_room n t \<Longrightarrow> changes_to g n p t (Inr (), (p, t)) (table_data p t, True)"
  using grows_more [OF grows_refl [OF table_okD(1)], of p t g] by (simp add: changes_to_def)

lemma assign_all_ok:
  assumes "table_ok p t" and "i \<in> set (tb_order t)" and "pool_room (length as) p" and "assigns_storable t as"
    and "indexes_room (length as + n) t"
  shows "changes_to (length as) n p t (for_each (assign_cell i) as (p, t))
    (assign_spec (columns_of t) (find_index (tb_schema t)) i (table_data p t) as)"
  using assms
proof (induction as arbitrary: p t)
  case Nil
  then show ?case using changes_none by simp
next
  case (Cons a as)
  obtain m l where a: "a = (m, l)" by (cases a)
  let ?cols = "columns_of t" and ?pos = "find_index (tb_schema t)"
  obtain r where r: "map_of (tb_rows t) i = Some r" using order_has_row [OF Cons.prems(1,2)] by blast
  have room: "pool_room 1 p" by (rule room_less [OF Cons.prems(3)]) simp
  have st: "\<forall>c. ?pos m = Some c \<longrightarrow> datum_storable (?cols ! c) (literal_datum l)" "assigns_storable t as"
    using Cons.prems(4) a by (simp_all add: assigns_storable_def)
  have iroom: "indexes_room (Suc (length as + n)) t" using Cons.prems(5) by simp
  obtain rows ok where spec: "assign_spec ?cols ?pos i (table_data p t) [(m, l)] = (rows, ok)"
    by (cases "assign_spec ?cols ?pos i (table_data p t) [(m, l)]")
  have "changes_to (length (a # as)) n p t (bindS (assign_cell i a) (\<lambda>_. for_each (assign_cell i) as) (p, t))
      (assign_spec ?cols ?pos i (table_data p t) (a # as))"
  proof (rule changes_to_next)
    show "changes_to 1 (length as + n) p t (assign_cell i a (p, t)) (rows, ok)"
      using assign_cell_ok [OF Cons.prems(1) r room st(1) iroom] spec a by simp
    show "assign_spec ?cols ?pos i (table_data p t) (a # as) = (rows, False)" if "\<not> ok"
      using spec a that by (auto simp: Let_def split: option.splits if_splits)
    fix p' t' assume ok: ok and t': "table_ok p' t'" "grows 1 p p'" "tb_schema t' = tb_schema t" "tb_order t' = tb_order t"
      "indexes_room (length as + n) t'" "table_data p' t' = rows"
    have "pool_room (length as) p'" by (rule grows_room [OF t'(2)]) (use Cons.prems(3) in simp)
    moreover have "assigns_storable t' as" using st(2) t'(3) by (simp add: assigns_storable_def)
    moreover have "i \<in> set (tb_order t')" using Cons.prems(2) t'(4) by simp
    moreover have "assign_spec ?cols ?pos i (table_data p t) (a # as) = assign_spec ?cols ?pos i rows as"
      using spec a ok by (auto simp: Let_def split: option.splits if_splits)
    ultimately show "changes_to (length as) n p' t' (for_each (assign_cell i) as (p', t'))
        (assign_spec ?cols ?pos i (table_data p t) (a # as))"
      using Cons.IH [OF t'(1) _ _ _ t'(5)] t'(3,6) by simp
  qed simp_all
  then show ?case by simp
qed

subsection \<open>The rows that match\<close>

lemma cell_datum_data:
  assumes "table_ok p t" and "map_of (tb_rows t) i = Some r"
  shows "cell_datum p t r n = (case find_index (tb_schema t) n of None \<Rightarrow> NullD | Some c \<Rightarrow> row_data p r ! c)"
proof (cases "find_index (tb_schema t) n")
  case (Some c)
  have "c < length (columns_of t)" by (rule column_index_bound [OF table_okD(2) [OF assms(1)] Some])
  then have c: "c < length r" using table_okD(6) [OF assms] by (simp add: conforms_def)
  moreover obtain d where "denote p (r ! c) = Some d" using row_denotes [OF table_row_ready [OF assms] c] by blast
  ultimately show ?thesis using Some by (simp add: cell_datum_def row_data_nth)
qed (simp add: cell_datum_def)

lemma id_matches_data:
  assumes "table_ok p t" and "table_ok p' t'" and "tb_schema t' = tb_schema t"
    and "map_of (table_data p' t') i = map_of (table_data p t) i"
  shows "id_matches rx p' t' w i = id_matches rx p t w i"
proof (cases "map_of (tb_rows t) i")
  case None
  then have "map_of (tb_rows t') i = None" using assms(4) by (simp add: map_of_table_data)
  then show ?thesis using None by (simp add: id_matches_def)
next
  case (Some r)
  then obtain r' where r': "map_of (tb_rows t') i = Some r'" "row_data p' r' = row_data p r"
    using assms(4) by (auto simp: map_of_table_data)
  have "cell_datum p' t' r' = cell_datum p t r"
    by (rule ext) (simp add: cell_datum_data [OF assms(1) Some] cell_datum_data [OF assms(2) r'(1)] r'(2) assms(3) split: option.split)
  then show ?thesis using Some r'(1) by (simp add: id_matches_def where_truth_def split: option.split)
qed

lemma update_loop_ok:
  assumes "table_ok p t" and "distinct ids" and "set ids \<subseteq> set (tb_order t)" and "where_runs rx t w"
    and "pool_room ((weight w + length as) * length ids) p" and "assigns_storable t as"
    and "indexes_room (length as * length ids + n) t"
  shows "changes_to ((weight w + length as) * length ids) n p t
      (for_each (\<lambda>i. when_matching rx w i () (\<lambda>_. for_each (assign_cell i) as)) ids (p, t))
      (update_spec (columns_of t) (find_index (tb_schema t)) as (table_data p t) (filter (id_matches rx p t w) ids))"
  using assms
proof (induction ids arbitrary: p t)
  case Nil
  then show ?case using changes_none by simp
next
  case (Cons i ids)
  let ?cols = "columns_of t" and ?pos = "find_index (tb_schema t)" and ?k = "length as"
  let ?one = "when_matching rx w i () (\<lambda>_. for_each (assign_cell i) as)"
  have room: "pool_room (weight w) p" by (rule room_less [OF Cons.prems(5)]) simp
  have i: "i \<in> set (tb_order t)" using Cons.prems(3) by simp
  obtain p1 row where p1: "grows (weight w) p p1"
    "?one (p, t) = (if id_matches rx p t w i then for_each (assign_cell i) as (p1, t) else (Inr (), (p1, t)))"
    using when_matching_ok [OF Cons.prems(1) i Cons.prems(4) room, where skip = "()" and f = "\<lambda>_. for_each (assign_cell i) as"] by blast
  have ok1: "table_ok p1 t" by (rule table_ok_grows [OF Cons.prems(1) p1(1)])
  have ext: "extends p p1" using p1(1) by (simp add: grows_def)
  have data1: "table_data p1 t = table_data p t" by (rule table_data_extends [OF Cons.prems(1) ext])
  let ?rows = "if id_matches rx p t w i then fst (assign_spec ?cols ?pos i (table_data p t) as) else table_data p t"
  let ?ok = "if id_matches rx p t w i then snd (assign_spec ?cols ?pos i (table_data p t) as) else True"
  have iroom: "indexes_room (?k + (?k * length ids + n)) t" using Cons.prems(7) by (simp add: ac_simps)
  have one: "changes_to (weight w + ?k) (?k * length ids + n) p t (?one (p, t)) (?rows, ?ok)"
  proof (cases "id_matches rx p t w i")
    case True
    have "pool_room ?k p1" by (rule grows_room [OF p1(1)]) (rule room_less [OF Cons.prems(5)], simp)
    from assign_all_ok [OF ok1 i this Cons.prems(6) iroom] show ?thesis
      using True p1 grows_trans [OF p1(1)] by (auto simp: changes_to_def data1)
  next
    case False
    have "indexes_room (?k * length ids + n) t" by (rule indexes_room_less [OF iroom]) simp
    from changes_none [OF ok1 this, of ?k] show ?thesis using False p1 grows_trans [OF p1(1)] by (auto simp: changes_to_def data1)
  qed
  have "changes_to ((weight w + ?k) * length (i # ids)) n p t
      (bindS ?one (\<lambda>_. for_each (\<lambda>i. when_matching rx w i () (\<lambda>_. for_each (assign_cell i) as)) ids) (p, t))
      (update_spec ?cols ?pos as (table_data p t) (filter (id_matches rx p t w) (i # ids)))"
  proof (rule changes_to_next [where f = ?one, OF one])
    show "update_spec ?cols ?pos as (table_data p t) (filter (id_matches rx p t w) (i # ids)) = (?rows, False)" if "\<not> ?ok"
      using that by (auto split: if_splits prod.split)
    fix p' t' assume ok: "?ok" and t': "table_ok p' t'" "grows (weight w + ?k) p p'" "tb_schema t' = tb_schema t" "tb_order t' = tb_order t"
      "indexes_room (?k * length ids + n) t'" "table_data p' t' = ?rows"
    have same: "id_matches rx p' t' w j = id_matches rx p t w j" if "j \<in> set ids" for j
    proof (rule id_matches_data [OF Cons.prems(1) t'(1,3)])
      have "j \<noteq> i" using that Cons.prems(2) by auto
      then show "map_of (table_data p' t') j = map_of (table_data p t) j" using t'(6) by (simp add: assign_spec_others)
    qed
    then have found: "filter (id_matches rx p' t' w) ids = filter (id_matches rx p t w) ids" by (rule filter_cong [OF refl])
    have "pool_room ((weight w + ?k) * length ids) p'" by (rule grows_room [OF t'(2)]) (use Cons.prems(5) in simp)
    moreover have "assigns_storable t' as" using Cons.prems(6) t'(3) by (simp add: assigns_storable_def)
    moreover have "where_runs rx t' w" using Cons.prems(4) t'(3)
      by (simp add: where_runs_def condition_runs_def comparison_runs_def column_known_def split: option.splits)
    moreover have "distinct ids" "set ids \<subseteq> set (tb_order t')" using Cons.prems(2,3) t'(4) by simp_all
    ultimately have "changes_to ((weight w + ?k) * length ids) n p' t'
      (for_each (\<lambda>i. when_matching rx w i () (\<lambda>_. for_each (assign_cell i) as)) ids (p', t'))
      (update_spec ?cols ?pos as ?rows (filter (id_matches rx p t w) ids))"
      using Cons.IH [OF t'(1) _ _ _ _ _ t'(5)] t'(3,6) found by simp
    moreover have "update_spec ?cols ?pos as (table_data p t) (filter (id_matches rx p t w) (i # ids))
        = update_spec ?cols ?pos as ?rows (filter (id_matches rx p t w) ids)"
      using ok by (auto split: if_splits prod.split)
    ultimately show "changes_to ((weight w + ?k) * length ids) n p' t'
      (for_each (\<lambda>i. when_matching rx w i () (\<lambda>_. for_each (assign_cell i) as)) ids (p', t'))
      (update_spec ?cols ?pos as (table_data p t) (filter (id_matches rx p t w) (i # ids)))" by simp
  qed simp_all
  then show ?case by simp
qed

definition update_room :: "(string \<times> literal) list \<Rightarrow> condition option \<Rightarrow> table \<Rightarrow> nat" where
  \<comment> \<open>how many strings an \<open>UPDATE\<close> may intern\<close>
  "update_room as w t = 2 + (weight w + length as) * row_count t"

lemma update_rows_run:
  assumes ok: "table_ok p t" and run: "where_runs rx t w" and fits: "lookup_fits t w"
    and room: "pool_room (k + update_room as w t) p" and st: "assigns_storable t as"
    and iroom: "indexes_room (length as * row_count t + n) t"
  shows "\<exists>found x p' t'. update_rows rx as w (p, t) = (x, (p', t'))
    \<and> mset found = mset (filter (id_matches rx p t w) (tb_order t))
    \<and> table_ok p' t' \<and> extends p p' \<and> pool_room k p' \<and> tb_schema t' = tb_schema t \<and> tb_name t' = tb_name t
    \<and> tb_order t' = tb_order t \<and> indexes_room n t'
    \<and> (table_data p' t', x = Inr ()) = update_spec (columns_of t) (find_index (tb_schema t)) as (table_data p t) found"
proof -
  have "pool_room ((k + length as * row_count t) + statement_room w t) p"
    using room by (simp add: statement_room_def update_room_def algebra_simps)
  then obtain ids used p1 where c: "on_pool (collect_candidate_rows t w) (p, t) = (Inr (ids, used), (p1, t))" "grows 2 p p1"
    "table_ok p1 t" "candidates_for rx p t w ids" "pool_room (k + length as * row_count t + weight w * length ids) p1"
    by (rule candidates_run [OF ok run fits]) blast
  have ids: "set ids \<subseteq> set (tb_order t)" "distinct ids" using c(4) by (simp_all add: candidates_for_def)
  have len: "length ids \<le> row_count t" by (rule candidates_length [OF c(4)])
  then have len2: "length as * length ids \<le> length as * row_count t" by simp
  have room1: "pool_room (k + (weight w + length as) * length ids) p1"
    by (rule room_less [OF c(5)]) (use len2 in \<open>simp add: algebra_simps\<close>)
  have "indexes_room (length as * length ids + n) t" by (rule indexes_room_less [OF iroom]) (use len2 in simp)
  from update_loop_ok [OF c(3) ids(2,1) run room_less [OF room1] st this] obtain x p2 t2 where
    u: "for_each (\<lambda>i. when_matching rx w i () (\<lambda>_. for_each (assign_cell i) as)) ids (p1, t) = (x, (p2, t2))" "table_ok p2 t2"
      "grows ((weight w + length as) * length ids) p1 p2" "tb_schema t2 = tb_schema t" "tb_name t2 = tb_name t"
      "tb_order t2 = tb_order t" "indexes_room n t2"
      "(table_data p2 t2, x = Inr ())
        = update_spec (columns_of t) (find_index (tb_schema t)) as (table_data p1 t) (filter (id_matches rx p1 t w) ids)"
    by (auto simp: changes_to_def)
  have e1: "extends p p1" using c(2) by (simp add: grows_def)
  have "update_rows rx as w (p, t) = (x, (p2, t2))" using c(1) u(1) by (simp add: update_rows_def bindS_def)
  moreover have "filter (id_matches rx p1 t w) ids = filter (id_matches rx p t w) ids" unfolding id_matches_grows [OF ok c(2)] ..
  moreover have "table_data p1 t = table_data p t" by (rule table_data_extends [OF ok e1])
  moreover have "extends p p2" using extends_trans [OF e1] u(3) by (simp add: grows_def)
  moreover have "pool_room k p2" by (rule grows_room [OF u(3)]) (use room1 in \<open>simp add: add.commute\<close>)
  ultimately show ?thesis using candidates_filter [OF ok c(4)] u(2,4-8)
    by (intro exI [of _ "filter (id_matches rx p t w) ids"] exI [of _ x] exI [of _ p2] exI [of _ t2]) simp
qed

end
