(* ===== verification/Query_Contract.thy ===== *)
theory Query_Contract
  imports Dbms_Props Query_Update Table_Contract
begin

section \<open>Properties of the query engine\<close>

text \<open>
  What a client sees of the statements, with a witness for each. The samples are an engine that has
  just started and one that holds a table.
\<close>

subsection \<open>Samples\<close>

definition sample_dbms :: "pool \<Rightarrow> table \<Rightarrow> dbms" where
  "sample_dbms p t =
     \<lparr>dbms_pool = p, dbms_databases = [(''d'', [(''t'', t)])], dbms_active = ''d'', dbms_root = [(''d'', empty_directory)]\<rparr>"

lemma sample_dbms_ok: "table_ok p t \<Longrightarrow> tb_name t = ''t'' \<Longrightarrow> dbms_ok (sample_dbms p t)"
  by (auto simp: sample_dbms_def dbms_ok_def database_ok_def empty_directory_def dest: table_okD)

lemma sample_dbms_table:
  "resolve_table [] ''t'' (sample_dbms p t) = Inr (''d'', ''t'')" "find_table (''d'', ''t'') (sample_dbms p t) = Some t"
  "dbms_pool (sample_dbms p t) = p"
  by (simp_all add: sample_dbms_def resolve_table_def resolve_database_def active_db_def require_database_def require_table_def
      find_table_def)

lemma new_pool_room: "n < 1000 \<Longrightarrow> pool_room n new_pool"
  by (simp add: pool_room_def new_pool_def)

definition id_equals :: "string \<Rightarrow> condition" where
  "id_equals s = Condition \<lparr>cmp_left = ''id'', cmp_left_col = True, cmp_op = EQ, cmp_right = s, cmp_right_col = False,
     cmp_right2 = [], cmp_right2_col = False\<rparr> L_NONE None None False"

subsection \<open>SELECT\<close>

text \<open>
  C24: \<open>SELECT\<close> answers with the JSON array of exactly the rows for which the condition is true,
  each once, printed from their data; whether the candidates come from an index or from a scan only
  shows in \<open>last_select_used_index\<close> and in the order. No table changes.
\<close>

theorem select_returns_matching_rows:
  assumes "dbms_ok (eng_dbms e)" and "resolve_table d n (eng_dbms e) = Inr ref" and "find_table ref (eng_dbms e) = Some t"
    and "where_runs rx t w" and "lookup_fits t w" and "select_runs t star cols"
    and "pool_room (statement_room w t) (dbms_pool (eng_dbms e))"
  shows "\<exists>found p. execute_select rx d n star cols w e =
      (Inr (array_json (map (id_json (dbms_pool (eng_dbms e)) t star cols) found)),
       e\<lparr>eng_dbms := (eng_dbms e)\<lparr>dbms_pool := p\<rparr>, eng_used_index := (\<exists>c. w = Some c \<and> index_lookup t c)\<rparr>)
    \<and> mset found = mset (filter (id_matches rx (dbms_pool (eng_dbms e)) t w) (tb_order t))
    \<and> dbms_ok ((eng_dbms e)\<lparr>dbms_pool := p\<rparr>)"
proof -
  let ?s = "eng_dbms e"
  have ok: "table_ok (dbms_pool ?s) t" using find_table_ok [OF assms(1,3)] by simp
  obtain ids found p1 p2 where c: "select_candidates w (dbms_pool ?s, t) = (Inr (ids, \<exists>c. w = Some c \<and> index_lookup t c), (p1, t))"
    and s: "select_json rx star cols w ids (p1, t) = (Inr (array_json (map (id_json (dbms_pool ?s) t star cols) found)), (p2, t))"
    and found: "mset found = mset (filter (id_matches rx (dbms_pool ?s) t w) (tb_order t))"
    and p: "table_ok p2 t" "extends (dbms_pool ?s) p2"
    by (rule select_rows_ok [OF ok assms(4,5,7,6)]) blast
  have ran: "on_table ref (select_candidates w) ?s = (Inr (ids, \<exists>c. w = Some c \<and> index_lookup t c), ?s\<lparr>dbms_pool := p1\<rparr>)"
    using on_table_run [where m = "select_candidates w", OF assms(3) c] put_table_same [OF assms(3)] by simp
  have t1: "find_table ref (?s\<lparr>dbms_pool := p1\<rparr>) = Some t" using assms(3) by (simp add: find_table_def)
  have "on_table ref (select_json rx star cols w ids) (?s\<lparr>dbms_pool := p1\<rparr>)
      = (Inr (array_json (map (id_json (dbms_pool ?s) t star cols) found)), ?s\<lparr>dbms_pool := p2\<rparr>)"
    using on_table_run [OF t1, of "select_json rx star cols w ids"] s put_table_same [OF t1] by simp
  with ran assms(2) have "execute_select rx d n star cols w e =
      (Inr (array_json (map (id_json (dbms_pool ?s) t star cols) found)),
       e\<lparr>eng_dbms := ?s\<lparr>dbms_pool := p2\<rparr>, eng_used_index := (\<exists>c. w = Some c \<and> index_lookup t c)\<rparr>)"
    by (simp add: execute_select_def on_dbms_def bindS_def)
  moreover have "dbms_ok (?s\<lparr>dbms_pool := p2\<rparr>)"
    using put_table_ok [OF assms(1,3) table_okD(1) [OF p(1)] p(2,1)] put_table_same [OF assms(3)] by simp
  ultimately show ?thesis using found by blast
qed

lemma sample_condition:
  assumes "columns_of t = [id_column]" and "table_ok p t"
  shows "where_runs rx t (Some (id_equals ''5''))" and "lookup_fits t (Some (id_equals ''5''))"
    and "find_index (tb_schema t) ''id'' = Some 0"
proof -
  show i: "find_index (tb_schema t) ''id'' = Some 0"
    using column_position [OF table_okD(2) [OF assms(2)], of 0] assms(1) by (simp add: id_column_def)
  then show "where_runs rx t (Some (id_equals ''5''))"
    by (simp add: where_runs_def condition_runs_def comparison_runs_def id_equals_def column_known_def)
  have "stoll ''5'' = Inr (5, 1)" by code_simp
  with i show "lookup_fits t (Some (id_equals ''5''))"
    by (simp add: lookup_fits_def literal_fits_def id_equals_def Let_def)
qed

lemma sample_match:
  assumes "columns_of t = [id_column]" and "table_ok p t" and "tb_rows t = [(1, [VInt 5])]" and "tb_order t = [1]"
  shows "filter (id_matches rx p t (Some (id_equals ''5''))) (tb_order t) = [1]"
proof -
  have "stoll ''5'' = Inr (5, 1)" by code_simp
  then show ?thesis using sample_condition(3) [OF assms(1,2)] assms(3,4)
    by (simp add: id_matches_def where_truth_def id_equals_def comparison_truth_def operand_datum_def cell_datum_def
        text_datum_def comparison_holds_def Let_def)
qed

theorem select_returns_matching_rows_witness:
  "\<exists>e e'. execute_select (\<lambda>_ _. Inr True) [] ''t'' True [] (Some (id_equals ''5'')) e
      = (Inr ([CHR ''['', CHR ''{'', CHR 0x22] @ ''id'' @ [CHR 0x22] @ '':5}]''), e') \<and> eng_used_index e'"
proof -
  obtain ix t t' where s: "open_index None KindInt64 = Inr ix"
    "attach_index new_pool 0 (Some ix) True
       (new_table ''t'' \<lparr>sch_columns = [id_column], sch_index = [''id'' \<mapsto> 0]\<rparr>) = (Inr (), t)"
    "insert_full_row new_pool [VInt 5] t = (Inr 1, t')" "tb_rows t' = [(1, [VInt 5])]" "table_ok new_pool t'"
    "columns_of t' = [id_column]" "indexes_room 999 t'" "map fst (tb_indexes t') = [0]" "tb_order t' = [1]"
    "tb_name t' = ''t''" by (rule one_row_table)
  let ?e = "\<lparr>eng_dbms = sample_dbms new_pool t', eng_used_index = False\<rparr>"
  note c = sample_condition [OF s(6,5)]
  have ok: "dbms_ok (eng_dbms ?e)" using sample_dbms_ok [OF s(5,10)] by simp
  have at: "resolve_table [] ''t'' (eng_dbms ?e) = Inr (''d'', ''t'')" "find_table (''d'', ''t'') (eng_dbms ?e) = Some t'"
    using sample_dbms_table by simp_all
  have runs: "select_runs t' True []" by (simp add: select_runs_def)
  have "statement_room (Some (id_equals ''5'')) t' < 1000"
    using s(9) by (simp add: statement_room_def weight_def row_count_def id_equals_def)
  then have room: "pool_room (statement_room (Some (id_equals ''5'')) t') (dbms_pool (eng_dbms ?e))"
    using new_pool_room sample_dbms_table(3) by simp
  from select_returns_matching_rows [OF ok at c(1,2) runs room, of "\<lambda>_ _. Inr True"] sample_match [OF s(6,5,4,9)]
  obtain found p where f: "execute_select (\<lambda>_ _. Inr True) [] ''t'' True [] (Some (id_equals ''5'')) ?e
      = (Inr (array_json (map (id_json new_pool t' True []) found)),
         ?e\<lparr>eng_dbms := (eng_dbms ?e)\<lparr>dbms_pool := p\<rparr>,
           eng_used_index := (\<exists>c. Some (id_equals ''5'') = Some c \<and> index_lookup t' c)\<rparr>)"
    "mset found = mset [1]" by (auto simp: sample_dbms_table(3))
  have "found = [1]" using f(2) by (simp add: mset_single_iff)
  moreover have "id_json new_pool t' True [] 1 = [CHR ''{'', CHR 0x22] @ ''id'' @ [CHR 0x22] @ '':5}''"
  proof -
    have "datum_json (IntD 5) = ''5''" "escape_json ''id'' = ''id''" by code_simp+
    then show ?thesis using s(4,6) c(3)
      by (simp add: id_json_def object_json_def field_json_def double_quoted_def id_column_def cell_datum_def)
  qed
  moreover have "index_lookup t' (id_equals ''5'')"
  proof -
    have "map_of (tb_indexes t') 0 \<noteq> None" using s(8) by (auto simp: map_of_eq_None_iff)
    then show ?thesis using c(3) by (simp add: index_lookup_def id_equals_def has_index_def)
  qed
  ultimately have "execute_select (\<lambda>_ _. Inr True) [] ''t'' True [] (Some (id_equals ''5'')) ?e
      = (Inr ([CHR ''['', CHR ''{'', CHR 0x22] @ ''id'' @ [CHR 0x22] @ '':5}]''),
         ?e\<lparr>eng_dbms := (eng_dbms ?e)\<lparr>dbms_pool := p\<rparr>, eng_used_index := True\<rparr>)"
    using f(1) by (simp add: array_json_def)
  moreover have "eng_used_index (?e\<lparr>eng_dbms := (eng_dbms ?e)\<lparr>dbms_pool := p\<rparr>, eng_used_index := True\<rparr>)" by simp
  ultimately show ?thesis by blast
qed

subsection \<open>DELETE\<close>

text \<open>
  C25: \<open>DELETE\<close> removes exactly the rows for which the condition is true and keeps the others in
  their order; the other tables stay as they are, the databases stay well-formed, and the files
  hold the new state.
\<close>

theorem delete_removes_matching_rows:
  assumes "dbms_ok s" and "resolve_table d n s = Inr ref" and "find_table ref s = Some t"
    and "where_runs rx t w" and "lookup_fits t w" and "pool_room (1 + statement_room w t) (dbms_pool s)" and "indexes_room m t"
  shows "\<exists>s' t'. execute_delete rx d n w s = (Inr OK, s') \<and> dbms_ok s' \<and> all_saved s'
    \<and> (\<forall>ref'. find_table ref' s' = (if ref' = ref then Some t' else find_table ref' s))
    \<and> tb_order t' = filter (\<lambda>i. \<not> id_matches rx (dbms_pool s) t w i) (tb_order t)
    \<and> map_of (tb_rows t') = (\<lambda>i. if id_matches rx (dbms_pool s) t w i then None else map_of (tb_rows t) i)
    \<and> tb_schema t' = tb_schema t \<and> indexes_room m t'"
proof -
  have ok: "table_ok (dbms_pool s) t" using find_table_ok [OF assms(1,3)] by simp
  from delete_rows_ok [OF ok assms(4,5,6,7)] obtain p' t' where
    m: "delete_rows rx w (dbms_pool s, t) = (Inr (), (p', t'))" and t': "table_ok p' t'" "tb_name t' = tb_name t"
    and p': "extends (dbms_pool s) p'" "pool_room 1 p'"
    and rest: "tb_order t' = filter (\<lambda>i. \<not> id_matches rx (dbms_pool s) t w i) (tb_order t)"
      "map_of (tb_rows t') = (\<lambda>i. if id_matches rx (dbms_pool s) t w i then None else map_of (tb_rows t) i)"
      "tb_schema t' = tb_schema t" "indexes_room m t'"
    by blast
  from change_table_ok [where m = "delete_rows rx w", OF assms(1-3) m p' t'] rest show ?thesis unfolding change_table_unfold by blast
qed

theorem delete_removes_matching_rows_witness:
  "\<exists>s s' t'. execute_delete (\<lambda>_ _. Inr True) [] ''t'' (Some (id_equals ''5'')) s = (Inr OK, s')
    \<and> find_table (''d'', ''t'') s' = Some t' \<and> row_count t' = 0 \<and> all_saved s'"
proof -
  obtain ix t t' where s: "open_index None KindInt64 = Inr ix"
    "attach_index new_pool 0 (Some ix) True
       (new_table ''t'' \<lparr>sch_columns = [id_column], sch_index = [''id'' \<mapsto> 0]\<rparr>) = (Inr (), t)"
    "insert_full_row new_pool [VInt 5] t = (Inr 1, t')" "tb_rows t' = [(1, [VInt 5])]" "table_ok new_pool t'"
    "columns_of t' = [id_column]" "indexes_room 999 t'" "map fst (tb_indexes t') = [0]" "tb_order t' = [1]"
    "tb_name t' = ''t''" by (rule one_row_table)
  note c = sample_condition [OF s(6,5)]
  have "1 + statement_room (Some (id_equals ''5'')) t' < 1000"
    using s(9) by (simp add: statement_room_def weight_def row_count_def id_equals_def)
  then have room: "pool_room (1 + statement_room (Some (id_equals ''5'')) t') (dbms_pool (sample_dbms new_pool t'))"
    using new_pool_room sample_dbms_table(3) by simp
  from delete_removes_matching_rows [OF sample_dbms_ok [OF s(5,10)] sample_dbms_table(1,2) c(1,2) room s(7), of "\<lambda>_ _. Inr True"]
  obtain s' t2 where d: "execute_delete (\<lambda>_ _. Inr True) [] ''t'' (Some (id_equals ''5'')) (sample_dbms new_pool t') = (Inr OK, s')"
    "all_saved s'" "find_table (''d'', ''t'') s' = Some t2"
    "tb_order t2 = filter (\<lambda>i. \<not> id_matches (\<lambda>_ _. Inr True) new_pool t' (Some (id_equals ''5'')) i) (tb_order t')"
    by (auto simp: sample_dbms_table(3))
  have "tb_order t2 = []" using sample_match [OF s(6,5,4,9), of "\<lambda>_ _. Inr True"] d(4) s(9) by (simp split: if_splits)
  then show ?thesis using d(1-3) by (auto simp: row_count_def)
qed

subsection \<open>INSERT\<close>

text \<open>
  C26: \<open>INSERT\<close> refines \<open>insert_spec\<close>: row after row, a row that fits the columns, their types, their
  NULL constraints and the uniqueness of indexed columns is stored under the next row id, with the
  defaults of missing columns if no columns are listed and NULL for unlisted ones otherwise; the
  first row that does not fit ends the statement with an exception and the rows before it stay.
  Other tables do not change, and the files are written only if every row was stored.
\<close>

theorem insert_refines_spec:
  assumes "dbms_ok s" and "resolve_table d n s = Inr ref" and "find_table ref s = Some t"
    and "defaults_ok (dbms_pool s) t" and "list_all (plan_storable t) (insert_plan (dbms_pool s) t names rows)"
    and "pool_room (1 + sum_list (map length rows)) (dbms_pool s)" and "indexes_room (length rows + m) t"
    and "unat (tb_next t) + length rows < 2 ^ 64"
  shows "\<exists>x s' t'. execute_insert d n names rows s = (x, s') \<and> dbms_ok s'
    \<and> (\<forall>ref'. find_table ref' s' = (if ref' = ref then Some t' else find_table ref' s))
    \<and> (table_data (dbms_pool s') t', x = Inr OK)
      = insert_spec (columns_of t) (tb_next t) (table_data (dbms_pool s) t) (insert_plan (dbms_pool s) t names rows)
    \<and> (if x = Inr OK then all_saved s' else dbms_root s' = dbms_root s)"
proof -
  have ok: "table_ok (dbms_pool s) t" using find_table_ok [OF assms(1,3)] by simp
  from insert_rows_ok [OF ok assms(4,6,7,8,5)] obtain x p' t' where
    m: "insert_rows names rows (dbms_pool s, t) = (x, (p', t'))" and t': "table_ok p' t'" "tb_name t' = tb_name t"
    and p': "extends (dbms_pool s) p'" "pool_room 1 p'"
    and spec: "(table_data p' t', x = Inr ())
      = insert_spec (columns_of t) (tb_next t) (table_data (dbms_pool s) t) (insert_plan (dbms_pool s) t names rows)"
    by blast
  from change_table_run [where m = "insert_rows names rows", OF assms(1-3) m p' t'] obtain y s' where
    "change_table d n (insert_rows names rows) s = (y, s')" "y = Inr OK \<longleftrightarrow> x = Inr ()" "dbms_ok s'" "dbms_pool s' = p'"
    "\<forall>ref'. find_table ref' s' = (if ref' = ref then Some t' else find_table ref' s)"
    "if x = Inr () then all_saved s' else dbms_root s' = dbms_root s" by blast
  then show ?thesis using spec unfolding change_table_unfold by auto
qed

lemma notify_keeps_next: "notify_indexes_insert p i r t = (x, t') \<Longrightarrow> tb_next t' = tb_next t"
  by (auto simp: notify_indexes_insert_def on_indexes_def split: prod.splits)

lemma insert_next: "insert_full_row p r t = (Inr i, t') \<Longrightarrow> tb_next t' = i + 1"
  by (auto simp: insert_full_row_def bindS_eq_Inr dest!: notify_keeps_next)

lemma sample_defaults: "columns_of t = [id_column] \<Longrightarrow> defaults_ok p t"
  by (simp add: defaults_ok_def id_column_def)

lemma sample_data: "tb_rows t = [(1, [VInt 5])] \<Longrightarrow> table_data p t = [(1, [IntD 5])]"
  by (simp add: table_data_def row_data_def)

theorem insert_refines_spec_witness:
  "\<exists>s x s' t'. execute_insert [] ''t'' [] [[Some (IntLit 7)], [Some (IntLit 5)], [Some (IntLit 8)]] s = (x, s')
    \<and> find_table (''d'', ''t'') s' = Some t' \<and> table_data (dbms_pool s') t' = [(1, [IntD 5]), (2, [IntD 7])]
    \<and> x \<noteq> Inr OK \<and> dbms_root s' = dbms_root s"
proof -
  obtain ix t t' where s: "open_index None KindInt64 = Inr ix"
    "attach_index new_pool 0 (Some ix) True
       (new_table ''t'' \<lparr>sch_columns = [id_column], sch_index = [''id'' \<mapsto> 0]\<rparr>) = (Inr (), t)"
    "insert_full_row new_pool [VInt 5] t = (Inr 1, t')" "tb_rows t' = [(1, [VInt 5])]" "table_ok new_pool t'"
    "columns_of t' = [id_column]" "indexes_room 999 t'" "map fst (tb_indexes t') = [0]" "tb_order t' = [1]"
    "tb_name t' = ''t''" by (rule one_row_table)
  let ?s = "sample_dbms new_pool t'" and ?rows = "[[Some (IntLit 7)], [Some (IntLit 5)], [Some (IntLit 8)]]"
  have plan: "insert_plan new_pool t' [] ?rows = [Some [IntD 7], Some [IntD 5], Some [IntD 8]]"
    by (simp add: insert_plan_def planned_row_def s(6) literal_datum_def)
  have st: "list_all (plan_storable t') (insert_plan (dbms_pool ?s) t' [] ?rows)"
    by (simp add: sample_dbms_table(3) plan plan_storable_def s(6) datum_storable_def)
  have dfl: "defaults_ok (dbms_pool ?s) t'" by (rule sample_defaults [OF s(6)])
  have room: "pool_room (1 + sum_list (map length ?rows)) (dbms_pool ?s)"
    using new_pool_room by (simp add: sample_dbms_table(3))
  have iroom: "indexes_room (length ?rows + 0) t'" by (rule indexes_room_less [OF s(7)]) simp
  have nx: "tb_next t' = 2" using insert_next [OF s(3)] by simp
  then have nxt: "unat (tb_next t') + length ?rows < 2 ^ 64" by simp
  have "insert_spec (columns_of t') (tb_next t') (table_data (dbms_pool ?s) t') (insert_plan (dbms_pool ?s) t' [] ?rows)
      = ([(1, [IntD 5]), (2, [IntD 7])], False)"
    by (simp add: sample_dbms_table(3) plan sample_data [OF s(4)] nx s(6) accepts_def datum_fits_def id_column_def)
  with insert_refines_spec [OF sample_dbms_ok [OF s(5,10)] sample_dbms_table(1,2) dfl st room iroom nxt]
  obtain x s' t2 where r: "execute_insert [] ''t'' [] ?rows ?s = (x, s')"
    "\<forall>ref'. find_table ref' s' = (if ref' = (''d'', ''t'') then Some t2 else find_table ref' ?s)"
    "(table_data (dbms_pool s') t2, x = Inr OK) = ([(1, [IntD 5]), (2, [IntD 7])], False)"
    "if x = Inr OK then all_saved s' else dbms_root s' = dbms_root ?s" by metis
  have "find_table (''d'', ''t'') s' = Some t2" using r(2) by simp
  moreover have "dbms_root s' = dbms_root ?s" "x \<noteq> Inr OK" using r(3,4) by simp_all
  ultimately show ?thesis using r(1,3) by blast
qed

subsection \<open>UPDATE\<close>

text \<open>
  C27: \<open>UPDATE\<close> refines \<open>update_spec\<close> on the rows for which the condition was true when it began, in
  the order of the candidates: each assignment changes one cell if the changed row still conforms,
  the first that is refused ends the statement with an exception. No row is added, removed or moved,
  and rows that do not match keep their data.
\<close>

theorem update_refines_spec:
  assumes "dbms_ok s" and "resolve_table d n s = Inr ref" and "find_table ref s = Some t"
    and "where_runs rx t w" and "lookup_fits t w" and "assigns_storable t as"
    and "pool_room (1 + update_room as w t) (dbms_pool s)" and "indexes_room (length as * row_count t + m) t"
  shows "\<exists>found x s' t'. execute_update rx d n as w s = (x, s') \<and> dbms_ok s'
    \<and> mset found = mset (filter (id_matches rx (dbms_pool s) t w) (tb_order t))
    \<and> (\<forall>ref'. find_table ref' s' = (if ref' = ref then Some t' else find_table ref' s))
    \<and> (table_data (dbms_pool s') t', x = Inr OK)
      = update_spec (columns_of t) (find_index (tb_schema t)) as (table_data (dbms_pool s) t) found
    \<and> tb_order t' = tb_order t \<and> (if x = Inr OK then all_saved s' else dbms_root s' = dbms_root s)"
proof -
  have ok: "table_ok (dbms_pool s) t" using find_table_ok [OF assms(1,3)] by simp
  from update_rows_run [OF ok assms(4,5,7,6,8)] obtain found x p' t' where
    m: "update_rows rx as w (dbms_pool s, t) = (x, (p', t'))" and t': "table_ok p' t'" "tb_name t' = tb_name t"
    and p': "extends (dbms_pool s) p'" "pool_room 1 p'"
    and found: "mset found = mset (filter (id_matches rx (dbms_pool s) t w) (tb_order t))" "tb_order t' = tb_order t"
    and spec: "(table_data p' t', x = Inr ())
      = update_spec (columns_of t) (find_index (tb_schema t)) as (table_data (dbms_pool s) t) found"
    by blast
  from change_table_run [where m = "update_rows rx as w", OF assms(1-3) m p' t'] obtain y s' where
    "change_table d n (update_rows rx as w) s = (y, s')" "y = Inr OK \<longleftrightarrow> x = Inr ()" "dbms_ok s'" "dbms_pool s' = p'"
    "\<forall>ref'. find_table ref' s' = (if ref' = ref then Some t' else find_table ref' s)"
    "if x = Inr () then all_saved s' else dbms_root s' = dbms_root s" by blast
  then show ?thesis using spec found unfolding change_table_unfold
    by (intro exI [of _ found] exI [of _ y] exI [of _ s'] exI [of _ t']) simp
qed

theorem update_refines_spec_witness:
  "\<exists>s x s' t'. execute_update (\<lambda>_ _. Inr True) [] ''t'' [(''id'', IntLit 8)] (Some (id_equals ''5'')) s = (Inr OK, s')
    \<and> find_table (''d'', ''t'') s' = Some t' \<and> table_data (dbms_pool s') t' = [(1, [IntD 8])] \<and> all_saved s'"
proof -
  obtain ix t t' where s: "open_index None KindInt64 = Inr ix"
    "attach_index new_pool 0 (Some ix) True
       (new_table ''t'' \<lparr>sch_columns = [id_column], sch_index = [''id'' \<mapsto> 0]\<rparr>) = (Inr (), t)"
    "insert_full_row new_pool [VInt 5] t = (Inr 1, t')" "tb_rows t' = [(1, [VInt 5])]" "table_ok new_pool t'"
    "columns_of t' = [id_column]" "indexes_room 999 t'" "map fst (tb_indexes t') = [0]" "tb_order t' = [1]"
    "tb_name t' = ''t''" by (rule one_row_table)
  let ?s = "sample_dbms new_pool t'" and ?as = "[(''id'', IntLit 8)]"
  note c = sample_condition [OF s(6,5)]
  have st: "assigns_storable t' ?as" by (simp add: assigns_storable_def c(3) s(6) datum_storable_def literal_datum_def)
  have "1 + update_room ?as (Some (id_equals ''5'')) t' < 1000"
    using s(9) by (simp add: update_room_def weight_def row_count_def id_equals_def)
  then have room: "pool_room (1 + update_room ?as (Some (id_equals ''5'')) t') (dbms_pool ?s)"
    using new_pool_room by (simp add: sample_dbms_table(3))
  have iroom: "indexes_room (length ?as * row_count t' + 0) t'"
    by (rule indexes_room_less [OF s(7)]) (simp add: row_count_def s(9))
  from update_refines_spec [OF sample_dbms_ok [OF s(5,10)] sample_dbms_table(1,2) c(1,2) st room iroom, of "\<lambda>_ _. Inr True"]
  obtain found x s' t2 where u: "execute_update (\<lambda>_ _. Inr True) [] ''t'' ?as (Some (id_equals ''5'')) ?s = (x, s')"
    "mset found = mset [1]" "find_table (''d'', ''t'') s' = Some t2"
    "(table_data (dbms_pool s') t2, x = Inr OK) = update_spec [id_column] (find_index (tb_schema t')) ?as [(1, [IntD 5])] found"
    "if x = Inr OK then all_saved s' else dbms_root s' = dbms_root ?s"
    using sample_match [OF s(6,5,4,9), of "\<lambda>_ _. Inr True"] sample_data [OF s(4)] s(6)
    by (auto simp: sample_dbms_table(3))
  have "found = [1]" using u(2) by (simp add: mset_single_iff)
  then have "(table_data (dbms_pool s') t2, x = Inr OK) = ([(1, [IntD 8])], True)"
    using u(4) by (simp add: c(3) literal_datum_def accepts_def datum_fits_def id_column_def)
  with u(1,3,5) show ?thesis by auto
qed

end
