(* ===== verification/Query_Restart.thy ===== *)
theory Query_Restart
  imports Dbms_Props Query_Change
begin

section \<open>A restart of the server\<close>

text \<open>
  What a new process finds: \<open>load_all\<close> reads every table back from its file, into a pool of its own,
  and the engine then attaches the indexes. Without \<open>INDEXED\<close> columns the new process holds the same
  data; with one, the index file already holds the keys that the rebuild inserts.
\<close>

subsection \<open>Loading\<close>

definition loaded_from :: "pool \<Rightarrow> pool \<Rightarrow> table \<Rightarrow> table \<Rightarrow> bool" where
  "loaded_from p q t t' \<longleftrightarrow> table_ok q t' \<and> table_view q t' = table_view p t"

definition all_savable :: "pool \<Rightarrow> database \<Rightarrow> bool" where
  "all_savable p db \<longleftrightarrow> list_all (\<lambda>(n, t). savable p t) db"

lemma view_defaults:
  assumes "table_view q t' = table_view p t" and "savable p t"
  shows "defaults_ok q t'"
proof -
  have cols: "map (column_view q) (columns_of t') = map (column_view p) (columns_of t)" using assms(1) by (simp add: table_view_def)
  show ?thesis
    unfolding defaults_ok_def
  proof (intro ballI allI impI)
    fix d v assume d: "d \<in> set (columns_of t')" and v: "col_default d = Some v"
    have "column_view q d \<in> set (map (column_view q) (columns_of t'))" using d by simp
    then obtain d' where d': "d' \<in> set (columns_of t)" "column_view q d = column_view p d'" unfolding cols by auto
    then obtain w where w: "col_default d' = Some w" "denote q v = denote p w"
      using v by (cases "col_default d'") (auto simp: column_view_def)
    have "value_ok p w" using assms(2) d'(1) w(1) by (auto simp: savable_def column_savable_def)
    then show "value_ok q v" using w(2) by (simp add: value_ok_def)
  qed
qed

lemma view_extends:
  assumes ok: "table_ok q t" and dfl: "defaults_ok q t" and e: "extends q q'"
  shows "table_view q' t = table_view q t"
proof -
  have "column_view q' d = column_view q d" if "d \<in> set (columns_of t)" for d
  proof (cases "col_default d")
    case (Some v)
    then have "value_ok q v" using dfl that by (simp add: defaults_ok_def)
    from denote_extends [OF e denote_the [OF this]] denote_the [OF this] show ?thesis using Some by (simp add: column_view_def)
  qed (simp add: column_view_def)
  then have cols: "map (column_view q') (columns_of t) = map (column_view q) (columns_of t)" by simp
  have "denote q' v = denote q v" if "(i, r) \<in> set (tb_rows t)" "v \<in> set r" for i r v
  proof -
    have "value_ok q v" using table_row [OF ok that(1)] that(2) by (simp add: values_ok_def)
    from denote_extends [OF e denote_the [OF this]] denote_the [OF this] show ?thesis by simp
  qed
  then have "map (\<lambda>(i, r). (i, map (denote q') r)) (tb_rows t) = map (\<lambda>(i, r). (i, map (denote q) r)) (tb_rows t)" by auto
  with cols show ?thesis by (simp add: table_view_def)
qed

lemma loaded_from_grows: "loaded_from p q t t' \<Longrightarrow> savable p t \<Longrightarrow> grows n q q' \<Longrightarrow> loaded_from p q' t t'"
  using view_extends [OF _ view_defaults, of q t' p t q'] table_ok_grows by (auto simp: loaded_from_def grows_def)

definition db_loaded :: "pool \<Rightarrow> pool \<Rightarrow> database \<Rightarrow> database \<Rightarrow> bool" where
  \<comment> \<open>the same tables, perhaps in another order\<close>
  "db_loaded p q db db' \<longleftrightarrow> distinct (map fst db') \<and> fst ` set db' \<subseteq> fst ` set db
     \<and> (\<forall>n t. map_of db n = Some t \<longrightarrow> (\<exists>t'. map_of db' n = Some t' \<and> loaded_from p q t t'))"

lemma load_table_image:
  assumes "table_ok p t" and "savable p t" and "pool_ok q" and "pool_room (length (by_id p)) q" and "pool_room 1 p"
  shows "\<exists>t' q'. load_table (table_image p t) q = (Inr t', q') \<and> loaded_from p q' t t' \<and> grows (length (by_id p)) q q'"
  using save_load_grows [OF assms(1-4)] save_table_image [OF assms(1,5)] table_okD(1)
  by (fastforce simp: loaded_from_def grows_def)

lemma load_tables_ok:
  assumes "\<forall>(n, bs) \<in> set files. \<exists>t. map_of db n = Some t \<and> bs = table_image p t" and "database_ok p db" and "all_savable p db"
    and "pool_ok q" and "pool_room (length files * length (by_id p)) q" and "pool_room 1 p"
  shows "\<exists>db' q'. load_tables files q = (Inr db', q') \<and> map fst db' = map fst files
    \<and> grows (length files * length (by_id p)) q q'
    \<and> (\<forall>(n, t') \<in> set db'. \<exists>t. map_of db n = Some t \<and> loaded_from p q' t t')"
  using assms
proof (induction files arbitrary: q)
  case Nil
  then show ?case using grows_refl by simp
next
  case (Cons f files)
  let ?L = "length (by_id p)"
  obtain n bs where f: "f = (n, bs)" by (cases f)
  then obtain t where t: "map_of db n = Some t" "bs = table_image p t" using Cons.prems(1) by auto
  have tok: "table_ok p t" using database_table [OF Cons.prems(2) t(1)] by simp
  have sv: "savable p x" if "map_of db m = Some x" for m x
    using Cons.prems(3) map_of_SomeD [OF that] by (auto simp: all_savable_def list_all_iff)
  have "pool_room ?L q" by (rule room_less [OF Cons.prems(5)]) simp
  then obtain t' q1 where t': "load_table bs q = (Inr t', q1)" "loaded_from p q1 t t'" "grows ?L q q1"
    using load_table_image [OF tok sv [OF t(1)] Cons.prems(4) _ Cons.prems(6)] t(2) by blast
  have "pool_ok q1" using t'(3) by (simp add: grows_def)
  moreover have "pool_room (length files * ?L) q1" by (rule grows_room [OF t'(3)]) (use Cons.prems(5) in simp)
  ultimately obtain db' q2 where d: "load_tables files q1 = (Inr db', q2)" "map fst db' = map fst files"
    "grows (length files * ?L) q1 q2" "\<forall>(n, t') \<in> set db'. \<exists>t. map_of db n = Some t \<and> loaded_from p q2 t t'"
    using Cons.IH [of q1] Cons.prems(1-3,6) by auto
  have "loaded_from p q2 t t'" by (rule loaded_from_grows [OF t'(2) sv [OF t(1)] d(3)])
  moreover have "grows (length (f # files) * ?L) q q2" using grows_trans [OF t'(3) d(3)] by simp
  ultimately show ?case using f t(1) t'(1) d(1,2,4) by (auto simp: bindS_def)
qed

lemma load_directory:
  assumes saved: "saved_in p db dir" and ok: "database_ok p db" "all_savable p db"
    and q: "pool_ok q" "pool_room (length (dir_tables dir) * length (by_id p)) q" and p: "pool_room 1 p"
  shows "\<exists>db' q'. load_tables (dir_tables dir) q = (Inr db', q') \<and> db_loaded p q' db db'
    \<and> grows (length (dir_tables dir) * length (by_id p)) q q'"
proof -
  have m: "map_of (dir_tables dir) = map_option (table_image p) \<circ> map_of db" and dist: "distinct (map fst (dir_tables dir))"
    using saved by (simp_all add: saved_in_def)
  have "\<forall>(n, bs) \<in> set (dir_tables dir). \<exists>t. map_of db n = Some t \<and> bs = table_image p t"
  proof (clarify)
    fix n bs assume "(n, bs) \<in> set (dir_tables dir)"
    then have "map_of (dir_tables dir) n = Some bs" using dist by simp
    then show "\<exists>t. map_of db n = Some t \<and> bs = table_image p t" unfolding m by auto
  qed
  from load_tables_ok [OF this ok q p] obtain db' q' where d: "load_tables (dir_tables dir) q = (Inr db', q')"
    "map fst db' = map fst (dir_tables dir)" "grows (length (dir_tables dir) * length (by_id p)) q q'"
    "\<forall>(n, t') \<in> set db'. \<exists>t. map_of db n = Some t \<and> loaded_from p q' t t'" by blast
  have "db_loaded p q' db db'"
    unfolding db_loaded_def
  proof (intro conjI allI impI)
    show "distinct (map fst db')" using dist d(2) by simp
    show "fst ` set db' \<subseteq> fst ` set db"
    proof (clarify)
      fix n t' assume "(n, t') \<in> set db'"
      then obtain t where "map_of db n = Some t" using d(4) by blast
      then show "fst (n, t') \<in> fst ` set db" using map_of_in_fst by simp
    qed
    fix n t assume t: "map_of db n = Some t"
    then have "map_of (dir_tables dir) n = Some (table_image p t)" unfolding m by simp
    then have "n \<in> set (map fst db')" unfolding d(2) using map_of_in_fst by simp
    then obtain t' where t': "map_of db' n = Some t'" by (cases "map_of db' n") (auto simp: map_of_eq_None_iff)
    then have "\<exists>x. map_of db n = Some x \<and> loaded_from p q' x t'" using d(4) map_of_SomeD [OF t'] by blast
    then show "\<exists>t'. map_of db' n = Some t' \<and> loaded_from p q' t t'" using t' t by auto
  qed
  then show ?thesis using d(1,3) by blast
qed

lemma db_loaded_grows:
  assumes "db_loaded p q db db'" and "all_savable p db" and "grows n q q'"
  shows "db_loaded p q' db db'"
  unfolding db_loaded_def
proof (intro conjI allI impI)
  fix m t assume t: "map_of db m = Some t"
  then obtain t' where t': "map_of db' m = Some t'" "loaded_from p q t t'" using assms(1) unfolding db_loaded_def by blast
  have "savable p t" using assms(2) map_of_SomeD [OF t] by (auto simp: all_savable_def list_all_iff)
  from loaded_from_grows [OF t'(2) this assms(3)] t'(1)
  show "\<exists>t'. map_of db' m = Some t' \<and> loaded_from p q' t t'" by blast
qed (use assms(1) in \<open>simp_all add: db_loaded_def\<close>)

definition table_files :: "(string \<times> directory) list \<Rightarrow> nat" where
  "table_files root = sum_list (map (\<lambda>(n, dir). length (dir_tables dir)) root)"

lemma load_databases_ok:
  assumes "\<forall>(n, dir) \<in> set root. \<exists>db. map_of dbs n = Some db \<and> saved_in p db dir \<and> database_ok p db \<and> all_savable p db"
    and "pool_ok q" and "pool_room (table_files root * length (by_id p)) q" and p: "pool_room 1 p"
  shows "\<exists>dbs' q'. load_databases root q = (Inr dbs', q') \<and> map fst dbs' = map fst root
    \<and> grows (table_files root * length (by_id p)) q q'
    \<and> (\<forall>(n, db') \<in> set dbs'. \<exists>db. map_of dbs n = Some db \<and> db_loaded p q' db db')"
  using assms
proof (induction root arbitrary: q)
  case Nil
  then show ?case using grows_refl by (simp add: table_files_def)
next
  case (Cons f root)
  let ?L = "length (by_id p)"
  obtain n dir where f: "f = (n, dir)" by (cases f)
  then obtain db where db: "map_of dbs n = Some db" "saved_in p db dir" "database_ok p db" "all_savable p db" using Cons.prems(1) by auto
  have sum: "table_files (f # root) * ?L = length (dir_tables dir) * ?L + table_files root * ?L"
    using f by (simp add: table_files_def distrib_right)
  have "pool_room (length (dir_tables dir) * ?L) q" by (rule room_less [OF Cons.prems(3)]) (simp add: sum)
  then obtain db' q1 where d: "load_tables (dir_tables dir) q = (Inr db', q1)" "db_loaded p q1 db db'" "grows (length (dir_tables dir) * ?L) q q1"
    using load_directory [OF db(2-4) Cons.prems(2) _ p] by blast
  have "pool_ok q1" using d(3) by (simp add: grows_def)
  moreover have "pool_room (table_files root * ?L) q1"
    by (rule grows_room [OF d(3)]) (use Cons.prems(3) in \<open>simp add: sum add.commute\<close>)
  ultimately obtain dbs' q2 where r: "load_databases root q1 = (Inr dbs', q2)" "map fst dbs' = map fst root"
    "grows (table_files root * ?L) q1 q2" "\<forall>(n, db') \<in> set dbs'. \<exists>db. map_of dbs n = Some db \<and> db_loaded p q2 db db'"
    using Cons.IH [of q1] Cons.prems(1) p by auto
  have "db_loaded p q2 db db'" by (rule db_loaded_grows [OF d(2) db(4) r(3)])
  moreover have "grows (table_files (f # root) * ?L) q q2" using grows_trans [OF d(3) r(3)] sum by simp
  ultimately show ?case using f db(1) d(1) r(1,2,4) by (auto simp: bindS_def)
qed

subsection \<open>Without indexes\<close>

definition unindexed :: "table \<Rightarrow> bool" where
  "unindexed t \<longleftrightarrow> list_all (\<lambda>d. \<not> col_indexed d) (columns_of t)"

definition no_indexes :: "dbms \<Rightarrow> bool" where
  "no_indexes s \<longleftrightarrow> (\<forall>ref t. find_table ref s = Some t \<longrightarrow> unindexed t)"

lemma unindexed_table: "table_ok p t \<Longrightarrow> unindexed t \<Longrightarrow> tb_indexes t = []"
  using table_okD(8) [of p t] by (cases "tb_indexes t") (fastforce simp: index_ok_def unindexed_def list_all_length)+

lemma close_tables_same: "\<forall>(n, t) \<in> set db. tb_indexes t = [] \<Longrightarrow> fold close_table db dir = dir"
  by (induction db) (auto simp: close_table_def)

lemma close_all_same:
  assumes ok: "dbms_ok s" and none: "no_indexes s"
  shows "close_all s = dbms_root s"
proof -
  have "(case map_of (dbms_databases s) n of None \<Rightarrow> dir | Some db \<Rightarrow> fold close_table db dir) = dir" for n dir
  proof (cases "map_of (dbms_databases s) n")
    case (Some db)
    have "database_ok (dbms_pool s) db" by (rule dbms_okD(3) [OF ok Some])
    have "tb_indexes t = []" if t: "(m, t) \<in> set db" for m t
    proof (rule unindexed_table)
      show "table_ok (dbms_pool s) t" using t \<open>database_ok (dbms_pool s) db\<close> by (auto simp: database_ok_def)
      have "map_of db m = Some t" using t \<open>database_ok (dbms_pool s) db\<close> by (simp add: database_ok_def)
      then have "find_table (n, m) s = Some t" using Some by (simp add: find_table_def)
      then show "unindexed t" using none by (simp add: no_indexes_def)
    qed
    then have "fold close_table db dir = dir" by (intro close_tables_same) auto
    then show ?thesis using Some by simp
  qed simp
  then show ?thesis by (simp add: close_all_def)
qed

lemma attach_columns_none: "list_all (\<lambda>d. \<not> col_indexed d) cols \<Longrightarrow> attach_columns dir n i cols st = (Inr (), st)"
  by (induction cols arbitrary: i) simp_all

lemma attach_table_none:
  assumes "find_table ref s = Some t" and "unindexed t"
  shows "attach_indexes_for_table ref s = (Inr (), s)"
proof -
  let ?m = "bindS (getS snd) (\<lambda>t. attach_columns (directory_of (fst ref) s) (snd ref) 0 (columns_of t))"
  have m: "?m (dbms_pool s, t) = (Inr (), (dbms_pool s, t))" using attach_columns_none assms(2) by (simp add: unindexed_def)
  have "on_table ref ?m s = (Inr (), s)"
    using on_table_run [where m = ?m, OF assms(1) m] put_table_same [OF assms(1)] by simp
  then show ?thesis by (simp add: attach_indexes_for_table_def)
qed

lemma for_each_idle: "(\<And>x. x \<in> set xs \<Longrightarrow> f x s = (Inr (), s)) \<Longrightarrow> for_each f xs s = (Inr (), s)"
  by (induction xs) (simp_all add: bindS_def)

lemma attach_all_none:
  assumes ok: "dbms_ok s" and none: "no_indexes s"
  shows "attach_indexes_for_loaded_data s = (Inr (), s)"
proof -
  let ?refs = "concat (map (\<lambda>(n, db). map (\<lambda>(t, _). (n, t)) db) (dbms_databases s))"
  have "for_each attach_indexes_for_table ?refs s = (Inr (), s)"
  proof (rule for_each_idle)
    fix ref assume "ref \<in> set ?refs"
    then obtain n db m t where r: "ref = (n, m)" "(n, db) \<in> set (dbms_databases s)" "(m, t) \<in> set db" by auto
    have db: "map_of (dbms_databases s) n = Some db" using r(2) dbms_okD(2) [OF ok] by simp
    then have "map_of db m = Some t" using r(3) dbms_okD(3) [OF ok db] by (simp add: database_ok_def)
    then have t: "find_table ref s = Some t" using r(1) db by (simp add: find_table_def)
    then show "attach_indexes_for_table ref s = (Inr (), s)"
      using none unfolding no_indexes_def by (intro attach_table_none [OF t]) blast
  qed
  then show ?thesis by (simp add: attach_indexes_for_loaded_data_def)
qed

lemma view_unindexed: "table_view q t' = table_view p t \<Longrightarrow> unindexed t \<Longrightarrow> unindexed t'"
proof -
  assume a: "table_view q t' = table_view p t" "unindexed t"
  have "map col_indexed (columns_of t') = map (\<lambda>v. fst (snd (snd (snd v)))) (map (column_view q) (columns_of t'))"
    by (simp add: column_view_def comp_def)
  also have "\<dots> = map (\<lambda>v. fst (snd (snd (snd v)))) (map (column_view p) (columns_of t))"
    using a(1) by (simp add: table_view_def)
  also have "\<dots> = map col_indexed (columns_of t)" by (simp add: column_view_def comp_def)
  finally have "list_all Not (map col_indexed (columns_of t')) \<longleftrightarrow> list_all Not (map col_indexed (columns_of t))" by simp
  then show "unindexed t'" using a(2) by (simp add: unindexed_def list_all_iff)
qed

lemma restart_ok:
  assumes ok: "dbms_ok s" and disk: "all_saved s" and none: "no_indexes s"
    and sv: "\<forall>(n, db) \<in> set (dbms_databases s). all_savable (dbms_pool s) db" and p: "pool_room 1 (dbms_pool s)"
    and room: "pool_room (table_files (dbms_root s) * length (by_id (dbms_pool s))) new_pool"
  shows "\<exists>e. start_engine (close_all s) = Inr e \<and> dbms_ok (eng_dbms e) \<and> dbms_active (eng_dbms e) = []
    \<and> (\<forall>ref. map_option (table_view (dbms_pool (eng_dbms e))) (find_table ref (eng_dbms e))
            = map_option (table_view (dbms_pool s)) (find_table ref s))"
proof -
  let ?p = "dbms_pool s" and ?dbs = "dbms_databases s" and ?root = "dbms_root s"
  have names: "fst ` set ?root = fst ` set ?dbs" and rdist: "distinct (map fst ?root)" using ok by (simp_all add: dbms_ok_def)
  have sv1: "all_savable ?p db" if "map_of ?dbs n = Some db" for n db using sv map_of_SomeD [OF that] by blast
  have "\<exists>db. map_of ?dbs n = Some db \<and> saved_in ?p db dir \<and> database_ok ?p db \<and> all_savable ?p db" if r: "(n, dir) \<in> set ?root" for n dir
  proof -
    have "n \<in> fst ` set ?dbs" using r names by force
    then obtain db where db: "map_of ?dbs n = Some db" by (cases "map_of ?dbs n") (simp_all add: map_of_eq_None_iff)
    moreover have "directory_of n s = dir" using r rdist by (simp add: directory_of_def)
    then have "saved_in ?p db dir" using disk db by (auto simp: all_saved_def)
    ultimately show ?thesis using dbms_okD(3) [OF ok db] sv1 [OF db] by blast
  qed
  then have "\<forall>(n, dir) \<in> set ?root. \<exists>db. map_of ?dbs n = Some db \<and> saved_in ?p db dir \<and> database_ok ?p db \<and> all_savable ?p db"
    by blast
  from load_databases_ok [OF this new_pool_ok room p] obtain dbs' q where l: "load_databases ?root new_pool = (Inr dbs', q)"
    "map fst dbs' = map fst ?root" "grows (table_files ?root * length (by_id ?p)) new_pool q"
    "\<forall>(n, db') \<in> set dbs'. \<exists>db. map_of ?dbs n = Some db \<and> db_loaded ?p q db db'" by blast
  let ?s' = "\<lparr>dbms_pool = q, dbms_databases = dbs', dbms_active = [], dbms_root = ?root\<rparr>"
  have dist: "distinct (map fst dbs')" using l(2) rdist by simp
  have q: "pool_ok q" using l(3) by (simp add: grows_def)
  have look: "(case map_of ?dbs n of None \<Rightarrow> map_of dbs' n = None
      | Some db \<Rightarrow> \<exists>db'. map_of dbs' n = Some db' \<and> db_loaded ?p q db db')" for n
  proof (cases "map_of ?dbs n")
    case None
    then have "n \<notin> set (map fst dbs')" unfolding l(2) using names by (simp add: map_of_eq_None_iff)
    then have "map_of dbs' n = None" by (simp add: map_of_eq_None_iff)
    then show ?thesis using None by simp
  next
    case (Some db)
    then have "n \<in> set (map fst dbs')" unfolding l(2) using names map_of_in_fst [OF Some] by simp
    then obtain db' where db': "map_of dbs' n = Some db'" by (cases "map_of dbs' n") (simp_all add: map_of_eq_None_iff)
    then have "\<exists>x. map_of ?dbs n = Some x \<and> db_loaded ?p q x db'" using l(4) map_of_SomeD [OF db'] by blast
    then show ?thesis using Some db' by simp
  qed
  have found: "case find_table ref s of None \<Rightarrow> find_table ref ?s' = None
      | Some t \<Rightarrow> \<exists>t'. find_table ref ?s' = Some t' \<and> loaded_from ?p q t t'" for ref
  proof (cases "map_of ?dbs (fst ref)")
    case None
    then show ?thesis using look [of "fst ref"] by (simp add: find_table_def)
  next
    case (Some db)
    then obtain db' where db': "map_of dbs' (fst ref) = Some db'" "db_loaded ?p q db db'" using look [of "fst ref"] by auto
    have "map_of db' (snd ref) = None" if "map_of db (snd ref) = None"
      using db'(2) that by (auto simp: db_loaded_def map_of_eq_None_iff)
    then show ?thesis using Some db' by (cases "map_of db (snd ref)") (auto simp: find_table_def db_loaded_def)
  qed
  have ok': "dbms_ok ?s'"
  proof -
    have "database_ok q db'" if mem: "(n, db') \<in> set dbs'" for n db'
    proof -
      obtain db where db: "map_of ?dbs n = Some db" "db_loaded ?p q db db'" using bspec [OF l(4) mem] by auto
      have "table_ok q t' \<and> tb_name t' = m" if "(m, t') \<in> set db'" for m t'
      proof -
        have m: "map_of db' m = Some t'" using that db(2) by (simp add: db_loaded_def)
        have "m \<in> fst ` set db" using that db(2) by (force simp: db_loaded_def)
        then obtain t where t: "map_of db m = Some t" by (cases "map_of db m") (simp_all add: map_of_eq_None_iff)
        from t obtain t2 where "map_of db' m = Some t2" "loaded_from ?p q t t2"
          using db(2) unfolding db_loaded_def by blast
        then have "loaded_from ?p q t t'" using m by simp
        moreover have "tb_name t = m" using database_table [OF dbms_okD(3) [OF ok db(1)] t] by simp
        ultimately show ?thesis by (simp add: loaded_from_def table_view_def)
      qed
      then show ?thesis using db(2) by (auto simp: database_ok_def db_loaded_def)
    qed
    moreover have "fst ` set ?root = fst ` set dbs'" using arg_cong [OF l(2), of set] by simp
    ultimately show ?thesis using q dist ok by (auto simp: dbms_ok_def)
  qed
  have "no_indexes ?s'"
    unfolding no_indexes_def
  proof (intro allI impI)
    fix ref t' assume t': "find_table ref ?s' = Some t'"
    then obtain t where t: "find_table ref s = Some t" "loaded_from ?p q t t'" using found [of ref] by (cases "find_table ref s") auto
    then have "unindexed t" using none unfolding no_indexes_def by blast
    then show "unindexed t'" using view_unindexed t(2) by (auto simp: loaded_from_def)
  qed
  from attach_all_none [OF ok' this] have "start_engine (close_all s) = Inr \<lparr>eng_dbms = ?s', eng_used_index = False\<rparr>"
    using l(1) by (simp add: start_engine_def close_all_same [OF ok none] load_all_def bindS_def)
  moreover have "map_option (table_view q) (find_table ref ?s') = map_option (table_view ?p) (find_table ref s)" for ref
    using found [of ref] by (cases "find_table ref s") (auto simp: loaded_from_def)
  ultimately show ?thesis using ok' by auto
qed

subsection \<open>With an index\<close>

lemma same_data:
  assumes "table_view q t' = table_view p t" and "map_of (tb_rows t) i = Some r"
  shows "\<exists>r'. map_of (tb_rows t') i = Some r' \<and> map (denote q) r' = map (denote p) r"
proof -
  have e: "map (\<lambda>(i, r). (i, map (denote q) r)) (tb_rows t') = map (\<lambda>(i, r). (i, map (denote p) r)) (tb_rows t)"
    using assms(1) by (simp add: table_view_def)
  have "map_of (map (\<lambda>(i, r). (i, map (denote q) r)) (tb_rows t')) i = Some (map (denote p) r)"
    unfolding e using assms(2) by (simp add: map_of_map)
  then show ?thesis by (simp add: map_of_map)
qed

lemma same_order:
  assumes "table_ok p t" and "table_ok q t'" and "table_view q t' = table_view p t"
  shows "tb_order t' = tb_order t"
proof -
  have "map fst (map (\<lambda>(i, r). (i, map (denote q) r)) (tb_rows t')) = map fst (map (\<lambda>(i, r). (i, map (denote p) r)) (tb_rows t))"
    using assms(3) by (simp add: table_view_def)
  then have "map fst (tb_rows t') = map fst (tb_rows t)" by (simp add: comp_def case_prod_beta)
  then show ?thesis using table_okD(3) [OF assms(1)] table_okD(3) [OF assms(2)] by simp
qed

lemma same_key: "denote q v' = denote p v \<Longrightarrow> to_index_key p v = Inr k \<Longrightarrow> to_index_key q v' = Inr k"
  by (cases v; cases v') (auto simp: bindE_eq_Inr sint_inject split: sum.splits)

lemma loaded_without_indexes: "load_table bs p = (Inr t, q) \<Longrightarrow> tb_indexes t = []"
  by (auto simp: load_table_def load_body_def bindS_eq_Inr table_of_rows_def retS_def split: prod.splits)

lemma attach_again:
  assumes ok: "table_ok p t" and ix: "(c, ix) \<in> set (tb_indexes t)" and l: "loaded_from p q t t'" and ne: "tb_order t \<noteq> []"
  shows "fst (attach_index q c (Some ix) True t') = Inl (InvalidArgument ''Duplicate index key'')"
proof -
  have ok': "table_ok q t'" and view: "table_view q t' = table_view p t" using l by (simp_all add: loaded_from_def)
  obtain i rest where ids: "tb_order t = i # rest" using ne by (cases "tb_order t") auto
  obtain r where r: "map_of (tb_rows t) i = Some r" using order_has_row [OF ok, of i] ids by auto
  obtain r' where r': "map_of (tb_rows t') i = Some r'" "map (denote q) r' = map (denote p) r" using same_data [OF view r] by blast
  note io = table_okD(8) [OF ok ix]
  then obtain m where m: "adapter_map p ix m" "column_of m c (map_of (tb_rows t))" by (auto simp: index_ok_def)
  then obtain km where km: "index_map ix km" "\<And>v k. to_index_key p v = Inr k \<Longrightarrow> m v = km k" unfolding adapter_map_def by blast
  have cf: "conforms p t (Some i) r" "values_ok p r" using table_okD(6) [OF ok r] by simp_all
  have c: "c < length r" and keyed: "value_keyed p ix (r ! c)" using index_keyed [OF ok io cf] by simp_all
  then obtain k where k: "to_index_key p (r ! c) = Inr k" "key_matches_kind k (kind_of ix)" by (auto simp: value_keyed_def)
  have "m (r ! c) = Some i" using m(2) r by (auto simp: column_of_def)
  then have has: "km k \<noteq> None" using km(2) [OF k(1)] by simp
  have len: "length r' = length r" using arg_cong [OF r'(2), of length] by simp
  have "denote q (r' ! c) = denote p (r ! c)" using arg_cong [OF r'(2), of "\<lambda>xs. xs ! c"] c len by simp
  then have "to_index_key q (r' ! c) = Inr k" using same_key k(1) by blast
  then have dup: "adapter_insert q (r' ! c) i ix = (Inl (InvalidArgument ''Duplicate index key''), ix)"
    using bp.dup_law [OF km(1) k(2) has, of i] by (simp add: adapter_insert_def)
  have "length r' = length (columns_of t')" using table_okD(6) [OF ok' r'(1)] by (simp add: conforms_def)
  then show ?thesis using same_order [OF ok ok' view] ids r'(1) c len dup
    by (simp add: attach_index_def column_count_def row_at_def bindS_def)
qed

text \<open>
  The index of a column is written to the file from which the next process opens it, unchanged. (With
  one index there is no question of two indexes sharing a file.)
\<close>

lemma reopened:
  assumes "table_ok p t" and "tb_indexes t = [(c, ix)]"
  shows "make_index_for_column (close_table (n, t) dir) n (columns_of t ! c) = Inr ix"
proof -
  have "index_ok p (columns_of t) (map_of (tb_rows t)) c ix" using table_okD(8) [OF assms(1)] assms(2) by simp
  then have c: "c < length (columns_of t)" and "\<exists>m. adapter_map p ix m" by (auto simp: index_ok_def)
  then obtain kvs where "index_rep ix kvs" by (auto simp: adapter_map_def index_map_def)
  from reopen_index [OF this] c assms(2) show ?thesis
    by (simp add: make_index_for_column_def close_table_def update_conv')
qed

lemma column_view_name: "column_view q d' = column_view p d \<Longrightarrow> col_name d' = col_name d \<and> col_type d' = col_type d \<and> col_indexed d' = col_indexed d"
  by (simp add: column_view_def)

lemma attach_columns_fails:
  assumes "\<forall>k < length cols. col_indexed (cols ! k) \<longleftrightarrow> k = j" and "j < length cols" and "tb_indexes t = []"
    and "make_index_for_column dir n (cols ! j) = Inr ix" and "fst (attach_index q (i + j) (Some ix) True t) = Inl e"
  shows "fst (attach_columns dir n i cols (q, t)) = Inl e"
  using assms
proof (induction cols arbitrary: i j)
  case (Cons d cols)
  show ?case
  proof (cases j)
    case 0
    then have "col_indexed d" using Cons.prems(1) by force
    then show ?thesis using 0 Cons.prems(3-5) by (auto simp: has_index_def bindS_def on_rows_def split: prod.splits)
  next
    case (Suc j')
    then have "\<not> col_indexed d" using Cons.prems(1) by force
    moreover have "\<forall>k < length cols. col_indexed (cols ! k) \<longleftrightarrow> k = j'" using Cons.prems(1) Suc by force
    then have "fst (attach_columns dir n (i + 1) cols (q, t)) = Inl e"
      using Cons.IH [of j' "i + 1"] Cons.prems(2-5) Suc by simp
    ultimately show ?thesis by simp
  qed
qed simp

lemma single_alist:
  assumes "distinct (map fst xs)" and "fst ` set xs = {k}"
  obtains y where "xs = [(k, y)]"
proof -
  have "set (map fst xs) = {k}" using assms(2) by simp
  moreover from this have "length (map fst xs) = 1" using distinct_card [OF assms(1)] by simp
  ultimately have "map fst xs = [k]" by (cases xs) auto
  then show thesis using that by (cases xs) auto
qed

lemma single_saved:
  assumes ok: "dbms_ok s" and disk: "all_saved s" and one: "dbms_databases s = [(d, [(n, t)])]"
  obtains dir where "dbms_root s = [(d, dir)]" "dir_tables dir = [(n, table_image (dbms_pool s) t)]"
proof -
  have "distinct (map fst (dbms_root s))" "fst ` set (dbms_root s) = {d}" using ok one by (simp_all add: dbms_ok_def)
  then obtain dir where root: "dbms_root s = [(d, dir)]" by (rule single_alist)
  then have saved: "saved_in (dbms_pool s) [(n, t)] dir"
    using disk [unfolded all_saved_def, rule_format, of d "[(n, t)]"] one by (simp add: directory_of_def)
  then have "distinct (map fst (dir_tables dir))" "dom (map_of (dir_tables dir)) = {n}"
    by (auto simp: saved_in_def dom_def split: if_splits)
  then obtain bs where "dir_tables dir = [(n, bs)]" using single_alist by (metis dom_map_of_conv_image_fst)
  then have "dir_tables dir = [(n, table_image (dbms_pool s) t)]"
    using saved by (auto simp: saved_in_def fun_eq_iff split: if_splits)
  with root show thesis by (rule that)
qed

lemma on_table_fst:
  "require_database (fst ref) s = Inr db \<Longrightarrow> require_table (snd ref) db = Inr t
    \<Longrightarrow> fst (on_table ref m s) = fst (m (dbms_pool s, t))"
  by (simp add: on_table_def split: prod.split)

lemma restart_fails:
  assumes ok: "dbms_ok s" and disk: "all_saved s" and one: "dbms_databases s = [(d, [(n, t)])]"
    and ix: "tb_indexes t = [(c, ix)]" and only: "\<forall>k < length (columns_of t). col_indexed (columns_of t ! k) \<longleftrightarrow> k = c"
    and ne: "tb_order t \<noteq> []" and sv: "savable (dbms_pool s) t"
    and p: "pool_room 1 (dbms_pool s)" and room: "pool_room (length (by_id (dbms_pool s))) new_pool"
  shows "start_engine (close_all s) = Inl (InvalidArgument ''Duplicate index key'')"
proof -
  let ?p = "dbms_pool s"
  have t: "find_table (d, n) s = Some t" using one by (simp add: find_table_def)
  have tok: "table_ok ?p t" using find_table_ok [OF ok t] by simp
  have c: "c < length (columns_of t)" using table_okD(8) [OF tok] ix by (auto simp: index_ok_def)
  obtain dir where root: "dbms_root s = [(d, dir)]" and files: "dir_tables dir = [(n, table_image ?p t)]"
    by (rule single_saved [OF ok disk one])
  let ?dir = "close_table (n, t) dir"
  have closed: "close_all s = [(d, ?dir)]" using root one by (simp add: close_all_def)
  have "dir_tables ?dir = dir_tables dir" using ix c by (simp add: close_table_def)
  moreover obtain t' q where l: "load_table (table_image ?p t) new_pool = (Inr t', q)" "loaded_from ?p q t t'"
    using load_table_image [OF tok sv new_pool_ok room p] by blast
  ultimately have load: "load_databases [(d, ?dir)] new_pool = (Inr [(d, [(n, t')])], q)"
    using files by (simp add: bindS_def)
  let ?s' = "\<lparr>dbms_pool = q, dbms_databases = [(d, [(n, t')])], dbms_active = [], dbms_root = [(d, ?dir)]\<rparr>"
  have view: "map (column_view q) (columns_of t') = map (column_view ?p) (columns_of t)"
    using l(2) by (simp add: loaded_from_def table_view_def)
  have len: "length (columns_of t') = length (columns_of t)" using arg_cong [OF view, of length] by simp
  have col: "column_view q (columns_of t' ! k) = column_view ?p (columns_of t ! k)" if "k < length (columns_of t)" for k
    using arg_cong [OF view, of "\<lambda>xs. xs ! k"] len that by simp
  have "make_index_for_column ?dir n (columns_of t' ! c) = make_index_for_column ?dir n (columns_of t ! c)"
    using column_view_name [OF col [OF c]] by (simp add: make_index_for_column_def)
  then have make: "make_index_for_column ?dir n (columns_of t' ! c) = Inr ix" using reopened [OF tok ix] by simp
  have none: "tb_indexes t' = []" by (rule loaded_without_indexes [OF l(1)])
  have "fst (attach_index q (0 + c) (Some ix) True t') = Inl (InvalidArgument ''Duplicate index key'')"
    using attach_again [OF tok _ l(2) ne] ix by simp
  moreover have "\<forall>k < length (columns_of t'). col_indexed (columns_of t' ! k) \<longleftrightarrow> k = c"
  proof (intro allI impI)
    fix k assume "k < length (columns_of t')"
    then have k: "k < length (columns_of t)" using len by simp
    show "col_indexed (columns_of t' ! k) \<longleftrightarrow> k = c" using column_view_name [OF col [OF k]] only k by blast
  qed
  ultimately have "fst (attach_columns ?dir n 0 (columns_of t') (q, t')) = Inl (InvalidArgument ''Duplicate index key'')"
    using attach_columns_fails [OF _ _ none make] c len by simp
  moreover have "directory_of d ?s' = ?dir" by (simp add: directory_of_def)
  ultimately have "fst ((bindS (getS snd) (\<lambda>t. attach_columns (directory_of d ?s') n 0 (columns_of t))) (q, t'))
      = Inl (InvalidArgument ''Duplicate index key'')" by (simp add: bindS_def getS_def)
  then have "fst (on_table (d, n) (bindS (getS snd) (\<lambda>t. attach_columns (directory_of d ?s') n 0 (columns_of t))) ?s')
      = Inl (InvalidArgument ''Duplicate index key'')"
    by (simp add: on_table_fst require_database_def require_table_def)
  then have attach: "fst (attach_indexes_for_table (d, n) ?s') = Inl (InvalidArgument ''Duplicate index key'')"
    by (simp add: attach_indexes_for_table_def bindS_def getS_def)
  have "fst (attach_indexes_for_loaded_data ?s') = Inl (InvalidArgument ''Duplicate index key'')"
    using attach by (simp add: attach_indexes_for_loaded_data_def bindS_def case_prod_beta)
  then have "fst (bindS attach_indexes_for_loaded_data (\<lambda>_. getS id) ?s') = Inl (InvalidArgument ''Duplicate index key'')"
    by (simp add: bindS_def case_prod_beta)
  moreover have "load_all \<lparr>dbms_pool = new_pool, dbms_databases = [], dbms_active = [], dbms_root = [(d, ?dir)]\<rparr> = (Inr (), ?s')"
    using load by (simp add: load_all_def)
  ultimately show ?thesis unfolding start_engine_def closed by (simp add: bindS_def)
qed

end
