(* ===== verification/Restart_Contract.thy ===== *)
theory Restart_Contract
  imports Query_Contract Query_Restart
begin

section \<open>Properties of a restart\<close>

text \<open>
  What the files of one process mean for the next: tables without indexes come back with their data,
  a table with an index does not, and neither does one that is dropped and created again.
\<close>

subsection \<open>Samples\<close>

definition free_column :: column_def where
  "free_column = id_column\<lparr>col_indexed := False\<rparr>"

text \<open>A saved database with one table and one row.\<close>

lemma one_free_row:
  obtains t where "table_ok new_pool t" "tb_rows t = [(1, [VInt 5])]" "columns_of t = [free_column]" "tb_name t = ''t''"
proof -
  let ?s = "\<lparr>sch_columns = [free_column], sch_index = [col_name free_column \<mapsto> 0]\<rparr>"
  let ?new = "new_table ''t'' ?s"
  have ok: "table_ok new_pool ?new" by (rule new_table_ok [OF new_pool_ok sample_schema_ok]) (simp add: free_column_def id_column_def)
  have "values_ok new_pool [VInt 5]" by (simp add: values_ok_def)
  moreover have "conforms new_pool ?new None [VInt 5]" by (simp add: conforms_def new_table_def free_column_def id_column_def cell_ok_def)
  moreover have "storable_row new_pool [VInt 5] ?new" "indexes_room (Suc 0) ?new" "tb_next ?new \<noteq> - 1"
    by (simp_all add: storable_row_def indexes_room_def new_table_def)
  ultimately obtain t where "table_ok new_pool t" "tb_rows t = tb_rows ?new @ [(tb_next ?new, [VInt 5])]"
    "tb_schema t = tb_schema ?new" "tb_name t = tb_name ?new" using insert_full_row_ok [OF ok] by blast
  then show thesis by (intro that) (simp_all add: new_table_def)
qed

lemma sample_savable: "columns_of t = [c] \<Longrightarrow> c = id_column \<or> c = free_column \<Longrightarrow> tb_name t = ''t'' \<Longrightarrow> length (tb_order t) < 2
  \<Longrightarrow> savable new_pool t"
  by (auto simp: savable_def new_pool_def strings_short_def id_column_def free_column_def column_savable_def)

lemma saved_sample:
  assumes "table_ok new_pool t" and "tb_name t = ''t''"
  obtains s where "save_all (sample_dbms new_pool t) = (Inr (), s)" "dbms_ok s" "all_saved s" "dbms_pool s = new_pool"
    "dbms_databases s = [(''d'', [(''t'', t)])]" "table_files (dbms_root s) = 1"
proof -
  have "pool_room 1 (dbms_pool (sample_dbms new_pool t))" using new_pool_room by (simp add: sample_dbms_def)
  from save_all_ok [OF sample_dbms_ok [OF assms] this] obtain root where
    s: "save_all (sample_dbms new_pool t) = (Inr (), (sample_dbms new_pool t)\<lparr>dbms_root := root\<rparr>)"
    "dbms_ok ((sample_dbms new_pool t)\<lparr>dbms_root := root\<rparr>)" "all_saved ((sample_dbms new_pool t)\<lparr>dbms_root := root\<rparr>)" by blast
  have one: "dbms_databases ((sample_dbms new_pool t)\<lparr>dbms_root := root\<rparr>) = [(''d'', [(''t'', t)])]"
    by (simp add: sample_dbms_def)
  show thesis
    by (rule that [OF s _ one], simp add: sample_dbms_def, rule single_saved [OF s(2,3) one]) (simp add: table_files_def)
qed

subsection \<open>Without an index\<close>

text \<open>
  C30: After a statement has been saved, ending the process and starting a new one gives back every
  database and every table with its columns, rows and row ids, and a well-formed state, provided no
  column is \<open>INDEXED\<close>; no database is active. The bounds are those of the file's counters and of the
  pool's ids.
\<close>

theorem restart_restores_data:
  assumes "dbms_ok s" and "all_saved s" and "no_indexes s"
    and "\<forall>(n, db) \<in> set (dbms_databases s). all_savable (dbms_pool s) db" and "pool_room 1 (dbms_pool s)"
    and "pool_room (table_files (dbms_root s) * length (by_id (dbms_pool s))) new_pool"
  shows "\<exists>e. start_engine (close_all s) = Inr e \<and> dbms_ok (eng_dbms e) \<and> dbms_active (eng_dbms e) = []
    \<and> (\<forall>ref. map_option (table_view (dbms_pool (eng_dbms e))) (find_table ref (eng_dbms e))
            = map_option (table_view (dbms_pool s)) (find_table ref s))"
  by (rule restart_ok [OF assms])

theorem restart_restores_data_witness:
  "\<exists>t s e. save_all (sample_dbms new_pool t) = (Inr (), s) \<and> tb_rows t = [(1, [VInt 5])] \<and> start_engine (close_all s) = Inr e
    \<and> (\<exists>t'. find_table (''d'', ''t'') (eng_dbms e) = Some t' \<and> table_view (dbms_pool (eng_dbms e)) t' = table_view new_pool t)"
proof -
  obtain t where t: "table_ok new_pool t" "tb_rows t = [(1, [VInt 5])]" "columns_of t = [free_column]" "tb_name t = ''t''"
    by (rule one_free_row)
  obtain s where s: "save_all (sample_dbms new_pool t) = (Inr (), s)" "dbms_ok s" "all_saved s" "dbms_pool s = new_pool"
    "dbms_databases s = [(''d'', [(''t'', t)])]" "table_files (dbms_root s) = 1" by (rule saved_sample [OF t(1,4)])
  have ft: "find_table ref s = (if ref = (''d'', ''t'') then Some t else None)" for ref
    using s(5) by (cases ref) (simp add: find_table_def)
  have none: "no_indexes s" by (simp add: no_indexes_def ft unindexed_def t(3) free_column_def)
  have "length (tb_order t) < 2" using arg_cong [OF table_okD(3) [OF t(1)], of length] t(2) by simp
  then have sv: "\<forall>(n, db) \<in> set (dbms_databases s). all_savable (dbms_pool s) db"
    using sample_savable [OF t(3) _ t(4)] by (simp add: s(4,5) all_savable_def)
  have room: "pool_room 1 (dbms_pool s)" "pool_room (table_files (dbms_root s) * length (by_id (dbms_pool s))) new_pool"
    using new_pool_room s(6) by (simp_all add: s(4)) (simp add: new_pool_def pool_room_def)
  from restart_restores_data [OF s(2,3) none sv room] obtain e where e: "start_engine (close_all s) = Inr e"
    "\<forall>ref. map_option (table_view (dbms_pool (eng_dbms e))) (find_table ref (eng_dbms e))
         = map_option (table_view (dbms_pool s)) (find_table ref s)" by blast
  from e(2) have "map_option (table_view (dbms_pool (eng_dbms e))) (find_table (''d'', ''t'') (eng_dbms e)) = Some (table_view new_pool t)"
    by (simp add: ft s(4))
  then show ?thesis using s(1) t(2) e(1) by auto
qed

subsection \<open>With an index\<close>



subsection \<open>Dropped and created again\<close>




end
