(* ===== verification/Query_Create.thy ===== *)
theory Query_Create
  imports Query_Restart Table_Contract
begin

section \<open>CREATE and DROP\<close>

text \<open>
  The statements that change what databases and tables there are. A table is created with the columns
  the statement describes, without rows, and with an index for each \<open>INDEXED\<close> column; it is well-formed
  provided that the database's directory has no index file of its name left.
\<close>

subsection \<open>Columns\<close>

definition spec_view :: "col_spec \<Rightarrow> string \<times> data_type \<times> bool \<times> bool \<times> datum option option" where
  \<comment> \<open>the column a description stands for\<close>
  "spec_view c =
     (cs_name c, (if cs_type c = T_INT then IntType else StrType), cs_modifier c \<noteq> M_NONE, cs_modifier c = M_INDEXED,
      map_option (\<lambda>l. Some (literal_datum l)) (cs_default c))"

definition column_stands :: "col_spec \<Rightarrow> pool \<Rightarrow> column_def \<Rightarrow> bool" where
  "column_stands c p d \<longleftrightarrow> column_view p d = spec_view c"

lemma storage_column_ok:
  assumes "pool_ok p" and "pool_room 1 p"
  shows "\<exists>d p'. storage_column c p = (Inr d, p') \<and> grows 1 p p' \<and> column_stands c p' d"
proof -
  have nn: "(cs_modifier c = M_NOT_NULL \<or> cs_modifier c = M_INDEXED) = (cs_modifier c \<noteq> M_NONE)" by (cases "cs_modifier c") auto
  show ?thesis
  proof (cases "cs_default c")
    case None
    then show ?thesis using grows_more [OF grows_refl [OF assms(1)], of 1] nn
      by (simp add: storage_column_def column_stands_def column_view_def spec_view_def)
  next
    case (Some l)
    obtain v q where "literal_value l p = (Inr v, q)" "denote q v = Some (literal_datum l)" "grows 1 p q"
      using literal_value_ok [OF assms] by blast
    then show ?thesis using Some nn
      by (simp add: storage_column_def column_stands_def column_view_def spec_view_def bindS_def)
  qed
qed

lemma column_stands_grows: "column_stands c p d \<Longrightarrow> grows n p p' \<Longrightarrow> column_stands c p' d"
  using denote_extends
  by (cases "col_default d"; cases "cs_default c") (auto simp: column_stands_def column_view_def spec_view_def grows_def)

lemma build_schema_ok:
  assumes "pool_ok p" and "pool_room (length cols) p"
  shows "\<exists>x p'. build_schema cols p = (x, p') \<and> grows (length cols) p p'
    \<and> (case x of
         Inl e \<Rightarrow> (\<exists>c \<in> set cols. cs_name c = []) \<or> \<not> distinct (map cs_name cols)
       | Inr s \<Rightarrow> (\<forall>c \<in> set cols. cs_name c \<noteq> []) \<and> distinct (map cs_name cols)
           \<and> schema_ok s \<and> map (column_view p') (sch_columns s) = map spec_view cols)"
proof -
  have "\<exists>cs p'. map_each storage_column cols p = (Inr cs, p') \<and> grows (length cols) p p' \<and> list_all2 (\<lambda>c. column_stands c p') cols cs"
    by (rule map_each_grows [where R = column_stands, OF _ _ assms]) (use storage_column_ok column_stands_grows in blast)+
  then obtain cs p' where cs: "map_each storage_column cols p = (Inr cs, p')" "grows (length cols) p p'"
    "list_all2 (\<lambda>c. column_stands c p') cols cs" by blast
  have views: "map (column_view p') cs = map spec_view cols"
    using cs(3) by (induction rule: list_all2_induct) (simp_all add: column_stands_def)
  have names: "map col_name cs = map cs_name cols"
    using arg_cong [OF views, of "map fst"] by (simp add: comp_def column_view_def spec_view_def)
  have ne: "(\<forall>c \<in> set cs. col_name c \<noteq> []) \<longleftrightarrow> (\<forall>c \<in> set cols. cs_name c \<noteq> [])"
    using arg_cong [OF names, of set] by (metis (no_types, lifting) image_iff list.set_map)
  have run: "build_schema cols p = (make_schema cs, p')" using cs(1) by (simp add: build_schema_def bindS_def)
  show ?thesis
  proof (cases "make_schema cs")
    case (Inl e)
    have "\<not> ((\<forall>c \<in> set cs. col_name c \<noteq> []) \<and> distinct (map col_name cs))"
    proof
      assume a: "(\<forall>c \<in> set cs. col_name c \<noteq> []) \<and> distinct (map col_name cs)"
      then obtain s where "make_schema cs = Inr s" using add_columns_ok [OF empty_schema_ok, of cs]
        by (cases "make_schema cs") (auto simp: make_schema_def empty_schema_def)
      then show False using Inl by simp
    qed
    then show ?thesis using run cs(2) Inl ne names by auto
  next
    case (Inr s)
    then show ?thesis using run cs(2) ne names views make_schema_iff [of cs s] by auto
  qed
qed

subsection \<open>Fresh indexes\<close>

definition no_index_files :: "directory \<Rightarrow> string \<Rightarrow> column_def list \<Rightarrow> bool" where
  "no_index_files dir n cols \<longleftrightarrow>
     (\<forall>d \<in> set cols. col_indexed d \<longrightarrow> map_of (dir_indexes dir) (index_file_name n (col_name d)) = None)"

lemma attach_fresh:
  assumes "table_ok p t" and "columns_of t = pre @ cols" and "tb_rows t = []" and "indexes_room m t" and "m < 2 ^ 40"
    and "no_index_files dir n cols"
    and "\<forall>k. has_index k t \<longleftrightarrow> k < length pre \<and> col_indexed (pre ! k)"
  shows "\<exists>t'. attach_columns dir n (length pre) cols (p, t) = (Inr (), (p, t')) \<and> table_ok p t' \<and> tb_rows t' = []
    \<and> tb_schema t' = tb_schema t \<and> tb_next t' = tb_next t \<and> tb_name t' = tb_name t \<and> indexes_room m t'
    \<and> (\<forall>k. has_index k t' \<longleftrightarrow> k < length (columns_of t') \<and> col_indexed (columns_of t' ! k))"
  using assms
proof (induction cols arbitrary: pre t)
  case (Cons d cols)
  show ?case
  proof (cases "col_indexed d")
    case False
    have "\<forall>k. has_index k t \<longleftrightarrow> k < length (pre @ [d]) \<and> col_indexed ((pre @ [d]) ! k)"
      using Cons.prems(7) False by (auto simp: nth_append less_Suc_eq)
    moreover have "no_index_files dir n cols" using Cons.prems(6) by (simp add: no_index_files_def)
    ultimately have "\<exists>t'. attach_columns dir n (length (pre @ [d])) cols (p, t) = (Inr (), (p, t')) \<and> table_ok p t' \<and> tb_rows t' = []
        \<and> tb_schema t' = tb_schema t \<and> tb_next t' = tb_next t \<and> tb_name t' = tb_name t \<and> indexes_room m t'
        \<and> (\<forall>k. has_index k t' \<longleftrightarrow> k < length (columns_of t') \<and> col_indexed (columns_of t' ! k))"
      using Cons.prems(1-5) by (intro Cons.IH) simp_all
    then show ?thesis using False by simp
  next
    case True
    let ?c = "length pre" and ?kk = "kind_for (col_type d)"
    have kk: "?kk \<in> {KindInt64, KindString}" by (cases "col_type d") (simp_all add: kind_for_def)
    obtain ix where ix: "open_index None ?kk = Inr ix" "adapter_map p ix Map.empty" "kind_of ix = ?kk" "room_for m ix"
      by (rule fresh_index [OF kk table_okD(1) [OF Cons.prems(1)] Cons.prems(5)])
    have kind: "(if col_type d = IntType then KindInt64 else KindString) = ?kk"
      by (cases "col_type d") (simp_all add: kind_for_def)
    have make: "make_index_for_column dir n d = Inr ix"
      using Cons.prems(6) True ix(1) by (simp add: make_index_for_column_def no_index_files_def kind)
    have c: "?c < length (columns_of t)" "columns_of t ! ?c = d" using Cons.prems(2) by simp_all
    have empty: "row_count t = 0" using table_okD(3) [OF Cons.prems(1)] Cons.prems(3) by (simp add: row_count_def)
    have ixb: "indexable p t ?c ix" using ix Cons.prems(3) c(2) by (simp add: indexable_def)
    obtain t1 where t1: "attach_index p ?c (Some ix) True t = (Inr (), t1)" "table_ok p t1"
      "tb_rows t1 = []" "tb_schema t1 = tb_schema t" "tb_next t1 = tb_next t" "indexes_room m t1"
      using attach_index_ok [OF Cons.prems(1) c(1) _ ixb, of m] ix(4) True c(2) empty Cons.prems(3,4) by auto
    have kept: "tb_indexes t1 = AList.update ?c ix (tb_indexes t)" "tb_name t1 = tb_name t"
    proof -
      have "tb_order t = []" using empty by (simp add: row_count_def)
      then show "tb_indexes t1 = AList.update ?c ix (tb_indexes t)" "tb_name t1 = tb_name t"
        using t1(1) c(1) by (auto simp: attach_index_def column_count_def)
    qed
    have has: "\<forall>k. has_index k t1 \<longleftrightarrow> k < length (pre @ [d]) \<and> col_indexed ((pre @ [d]) ! k)"
      using Cons.prems(7) True kept(1) by (auto simp: has_index_def update_conv' nth_append less_Suc_eq)
    have "no_index_files dir n cols" using Cons.prems(6) by (simp add: no_index_files_def)
    then have "\<exists>t'. attach_columns dir n (length (pre @ [d])) cols (p, t1) = (Inr (), (p, t')) \<and> table_ok p t' \<and> tb_rows t' = []
        \<and> tb_schema t' = tb_schema t1 \<and> tb_next t' = tb_next t1 \<and> tb_name t' = tb_name t1 \<and> indexes_room m t'
        \<and> (\<forall>k. has_index k t' \<longleftrightarrow> k < length (columns_of t') \<and> col_indexed (columns_of t' ! k))"
      using Cons.prems(2,5) t1 has by (intro Cons.IH) simp_all
    moreover have "\<not> has_index ?c t" using Cons.prems(7) by simp
    ultimately show ?thesis using True make t1 kept(2) by (simp add: bindS_def on_rows_def)
  qed
qed simp

subsection \<open>CREATE TABLE\<close>

lemma resolved: "resolve_database d s = Inr dn \<Longrightarrow> \<exists>db. map_of (dbms_databases s) dn = Some db"
  by (auto simp: resolve_database_def active_db_def require_database_def bindE_def split: if_splits option.splits sum.splits)

lemma pool_grows_ok:
  assumes "dbms_ok s" and "grows k (dbms_pool s) p"
  shows "dbms_ok (s\<lparr>dbms_pool := p\<rparr>)"
proof -
  have "database_ok p db" if "(n, db) \<in> set (dbms_databases s)" for n db
    using assms that database_ok_extends by (auto simp: dbms_ok_def grows_def)
  then show ?thesis using assms by (auto simp: dbms_ok_def grows_def)
qed

lemma find_after_create:
  assumes "map_of (dbms_databases s) dn = Some db" and "map_of db n = None"
  shows "find_table ref (s\<lparr>dbms_pool := p, dbms_databases := AList.update dn (db @ [(n, t)]) (dbms_databases s)\<rparr>)
    = (if ref = (dn, n) then Some t else find_table ref s)"
  using assms by (cases ref) (auto simp: find_table_def update_conv' map_add_def split: option.splits)

lemma new_table_columns: "columns_of (new_table n s) = sch_columns s"
  by (simp add: new_table_def)

lemma create_table_run:
  assumes ok: "dbms_ok s" and d: "resolve_database d s = Inr dn" and room: "pool_room (1 + length cols) (dbms_pool s)"
    and free: "\<forall>c \<in> set cols. cs_modifier c = M_INDEXED
      \<longrightarrow> map_of (dir_indexes (directory_of dn s)) (index_file_name n (cs_name c)) = None" and m: "m < 2 ^ 40"
  shows "\<exists>x s'. execute_create_table d n cols s = (x, s') \<and> dbms_ok s'
    \<and> (x = Inr OK \<longleftrightarrow> find_table (dn, n) s = None \<and> (\<forall>c \<in> set cols. cs_name c \<noteq> []) \<and> distinct (map cs_name cols))
    \<and> (if x = Inr OK
       then all_saved s' \<and> (\<exists>t. find_table (dn, n) s' = Some t \<and> tb_rows t = [] \<and> tb_next t = 1
              \<and> map (column_view (dbms_pool s')) (columns_of t) = map spec_view cols
              \<and> (\<forall>k. has_index k t \<longleftrightarrow> k < length (columns_of t) \<and> col_indexed (columns_of t ! k)) \<and> indexes_room m t)
            \<and> (\<forall>ref. ref \<noteq> (dn, n) \<longrightarrow> find_table ref s' = find_table ref s)
       else dbms_root s' = dbms_root s \<and> (\<forall>ref. find_table ref s' = find_table ref s))"
proof -
  let ?p = "dbms_pool s"
  obtain db where db: "map_of (dbms_databases s) dn = Some db" using resolved [OF d] by blast
  have p: "pool_ok ?p" by (rule dbms_okD(1) [OF ok])
  have "pool_room (length cols) ?p" by (rule room_less [OF room]) simp
  from build_schema_ok [OF p this] obtain x p' where b: "build_schema cols ?p = (x, p')" and g: "grows (length cols) ?p p'"
    and x: "case x of Inl e \<Rightarrow> (\<exists>c \<in> set cols. cs_name c = []) \<or> \<not> distinct (map cs_name cols)
       | Inr sch \<Rightarrow> (\<forall>c \<in> set cols. cs_name c \<noteq> []) \<and> distinct (map cs_name cols)
           \<and> schema_ok sch \<and> map (column_view p') (sch_columns sch) = map spec_view cols" by blast
  let ?s1 = "s\<lparr>dbms_pool := p'\<rparr>"
  have p': "pool_ok p'" "extends ?p p'" using g by (simp_all add: grows_def)
  have ok1: "dbms_ok ?s1" by (rule pool_grows_ok [OF ok g])
  have same1: "find_table ref ?s1 = find_table ref s" for ref by (simp add: find_table_def)
  have fn: "find_table (dn, n) s = map_of db n" by (simp add: find_table_def db)
  have start: "execute_create_table d n cols s =
      bindS (with_pool (build_schema cols)) (\<lambda>schema.
      bindS (askE (require_database dn)) (\<lambda>db.
      bindS (case create_table n schema db of (r, db') \<Rightarrow> bindS (modS (set_database dn db')) (\<lambda>_. liftE r)) (\<lambda>_.
      bindS (attach_indexes_for_table (dn, n)) (\<lambda>_. bindS save_all (\<lambda>_. retS OK))))) s"
    by (simp add: execute_create_table_def bindS_askE [where h = "resolve_database d", OF d])
  have pool: "with_pool (build_schema cols) s = (x, ?s1)" by (simp add: with_pool_def b)
  show ?thesis
  proof (cases x)
    case (Inl e)
    then have "execute_create_table d n cols s = (Inl e, ?s1)" unfolding start using pool by (simp add: bindS_def)
    then show ?thesis using Inl x ok1 same1 by (intro exI [of _ "Inl e"] exI [of _ ?s1]) auto
  next
    case (Inr sch)
    have req: "require_database dn ?s1 = Inr db" by (simp add: require_database_def db)
    show ?thesis
    proof (cases "has_table n db")
      case True
      have "set_database dn db ?s1 = ?s1" using update_same [OF db] by (simp add: set_database_def)
      then have "\<exists>e. execute_create_table d n cols s = (Inl e, ?s1)"
        unfolding start using pool Inr req True by (simp add: bindS_def create_table_def)
      moreover have "find_table (dn, n) s \<noteq> None" using True fn by (simp add: has_table_def)
      ultimately show ?thesis using ok1 same1 by (elim exE) (rule exI, rule exI [of _ ?s1], auto)
    next
      case False
      then have none: "map_of db n = None" by (simp add: has_table_def)
      let ?t = "new_table n sch"
      let ?s2 = "s\<lparr>dbms_pool := p', dbms_databases := AList.update dn (db @ [(n, ?t)]) (dbms_databases s)\<rparr>"
      have sch: "schema_ok sch" "map (column_view p') (sch_columns sch) = map spec_view cols" using x Inr by simp_all
      have tok: "table_ok p' ?t" by (rule new_table_ok [OF p'(1) sch(1)])
      have "database_ok p' db" using dbms_okD(3) [OF ok db] database_ok_extends [OF _ p'(2,1)] by blast
      then have "database_ok p' (db @ [(n, ?t)])"
        using tok none by (auto simp: database_ok_def new_table_def map_of_eq_None_iff)
      from put_database_ok [OF ok db p' this] have ok2: "dbms_ok ?s2" .
      have find2: "find_table ref ?s2 = (if ref = (dn, n) then Some ?t else find_table ref s)" for ref
        by (rule find_after_create [OF db none])
      have dir2: "directory_of dn ?s2 = directory_of dn s" by (simp add: directory_of_def)
      have names: "map col_name (sch_columns sch) = map cs_name cols" "map col_indexed (sch_columns sch) = map (\<lambda>c. cs_modifier c = M_INDEXED) cols"
        using arg_cong [OF sch(2), of "map fst"] arg_cong [OF sch(2), of "map (\<lambda>x. fst (snd (snd (snd x))))"]
        by (simp_all add: comp_def column_view_def spec_view_def)
      have "no_index_files (directory_of dn s) n (sch_columns sch)"
        unfolding no_index_files_def
      proof (intro ballI impI)
        fix c assume "c \<in> set (sch_columns sch)" "col_indexed c"
        then obtain k where k: "k < length (sch_columns sch)" "sch_columns sch ! k = c" by (auto simp: in_set_conv_nth)
        have l: "length cols = length (sch_columns sch)" using arg_cong [OF names(1), of length] by simp
        have "col_name c = cs_name (cols ! k)" "cs_modifier (cols ! k) = M_INDEXED"
          using arg_cong [OF names(1), of "\<lambda>xs. xs ! k"] arg_cong [OF names(2), of "\<lambda>xs. xs ! k"] k l \<open>col_indexed c\<close> by simp_all
        then show "map_of (dir_indexes (directory_of dn s)) (index_file_name n (col_name c)) = None"
          using free k(1) l by simp
      qed
      then have "\<exists>t. attach_columns (directory_of dn s) n (length ([] :: column_def list)) (sch_columns sch) (p', ?t) = (Inr (), (p', t))
        \<and> table_ok p' t \<and> tb_rows t = [] \<and> tb_schema t = tb_schema ?t \<and> tb_next t = tb_next ?t \<and> tb_name t = tb_name ?t
        \<and> indexes_room m t \<and> (\<forall>k. has_index k t \<longleftrightarrow> k < length (columns_of t) \<and> col_indexed (columns_of t ! k))"
        by (intro attach_fresh [OF tok _ _ _ m]) (simp_all add: new_table_def indexes_room_def has_index_def)
      then obtain t where t: "attach_columns (directory_of dn s) n 0 (sch_columns sch) (p', ?t) = (Inr (), (p', t))"
        "table_ok p' t" "tb_rows t = []" "tb_schema t = sch" "tb_next t = 1" "tb_name t = n" "indexes_room m t"
        "\<forall>k. has_index k t \<longleftrightarrow> k < length (columns_of t) \<and> col_indexed (columns_of t ! k)"
        by (auto simp: new_table_def)
      have ran: "attach_indexes_for_table (dn, n) ?s2 = (Inr (), put_table (dn, n) p' t ?s2)"
      proof -
        have "find_table (dn, n) ?s2 = Some ?t" using find2 by simp
        from on_table_run [where m = "bindS (getS snd) (\<lambda>t. attach_columns (directory_of dn s) n 0 (columns_of t))", OF this]
        have "on_table (dn, n) (bindS (getS snd) (\<lambda>t. attach_columns (directory_of dn s) n 0 (columns_of t))) ?s2
            = (Inr (), put_table (dn, n) p' t ?s2)" using t(1) by (simp add: new_table_columns)
        then show ?thesis by (simp add: attach_indexes_for_table_def dir2)
      qed
      let ?s3 = "put_table (dn, n) p' t ?s2"
      have f2: "find_table (dn, n) ?s2 = Some ?t" using find2 by simp
      have ok3: "dbms_ok ?s3"
        using put_table_ok [OF ok2 f2, of p' t] p'(1) t(2,6) by (simp add: extends_refl new_table_def)
      have "pool_room 1 p'" by (rule grows_room [OF g]) (use room in simp)
      then obtain root where r: "save_all ?s3 = (Inr (), ?s3\<lparr>dbms_root := root\<rparr>)" "dbms_ok (?s3\<lparr>dbms_root := root\<rparr>)"
        "all_saved (?s3\<lparr>dbms_root := root\<rparr>)" using save_all_ok [OF ok3] by auto
      let ?s4 = "?s3\<lparr>dbms_root := root\<rparr>"
      have "set_database dn (db @ [(n, ?t)]) ?s1 = ?s2" by (simp add: set_database_def)
      then have "execute_create_table d n cols s = (Inr OK, ?s4)"
        unfolding start using pool Inr req False ran r(1) by (simp add: bindS_def create_table_def)
      moreover have "find_table ref ?s4 = (if ref = (dn, n) then Some t else find_table ref s)" for ref
        using find_put_table [OF f2, of ref p' t] find2 by (simp add: find_table_def)
      ultimately show ?thesis
        using r(2,3) t sch(2) none fn x Inr by (intro exI [of _ "Inr OK"] exI [of _ ?s4]) simp
    qed
  qed
qed

subsection \<open>DROP TABLE\<close>

lemma close_keeps_tables: "dir_tables (close_table nt dir) = dir_tables dir"
proof -
  have "dir_tables (close_indexes tn cols bs dir) = dir_tables dir" for tn cols bs
    by (induction tn cols bs dir rule: close_indexes.induct) auto
  then show ?thesis by (simp add: close_table_def)
qed

lemma close_leaves_files:
  "(c, ix) \<in> set bs \<Longrightarrow> c < length cols
    \<Longrightarrow> map_of (dir_indexes (close_indexes tn cols bs dir)) (index_file_name tn (col_name (cols ! c))) \<noteq> None"
proof -
  have kept: "map_of (dir_indexes dir) k \<noteq> None \<Longrightarrow> map_of (dir_indexes (close_indexes tn cols bs dir)) k \<noteq> None" for k tn cols bs dir
    by (induction tn cols bs dir rule: close_indexes.induct) (auto simp: update_conv')
  show "(c, ix) \<in> set bs \<Longrightarrow> c < length cols
    \<Longrightarrow> map_of (dir_indexes (close_indexes tn cols bs dir)) (index_file_name tn (col_name (cols ! c))) \<noteq> None"
  proof (induction tn cols bs dir rule: close_indexes.induct)
    case (2 tn cols k x bs dir)
    show ?case
    proof (cases "(c, ix) = (k, x)")
      case True
      let ?name = "index_file_name tn (col_name (cols ! c))"
      have "map_of (dir_indexes (dir\<lparr>dir_indexes := AList.update ?name (disk_file (bx_disk ix)) (dir_indexes dir)\<rparr>)) ?name \<noteq> None"
        by (simp add: update_conv')
      from kept [OF this] show ?thesis using True 2(3) by simp
    next
      case False
      then have "(c, ix) \<in> set bs" using 2(2) by auto
      then show ?thesis using 2(1) [OF _ 2(3)] by simp
    qed
  qed simp
qed

lemma set_directory_ok:
  assumes "dbms_ok s" and "map_of (dbms_databases s) n \<noteq> None" and "distinct (map fst (dir_tables dir))"
  shows "dbms_ok (set_directory n dir s)"
proof -
  have "n \<in> fst ` set (dbms_root s)" using assms(1,2) by (auto simp: dbms_ok_def map_of_eq_None_iff)
  then have "map fst (AList.update n dir (dbms_root s)) = map fst (dbms_root s)" by (rule map_fst_update_same)
  moreover have "distinct (map fst (dir_tables (directory_of m (s\<lparr>dbms_root := AList.update n dir (dbms_root s)\<rparr>))))" for m
    using directory_distinct [OF assms(1), of m] assms(3) by (simp add: directory_of_def update_conv' split: option.splits)
  ultimately show ?thesis unfolding set_directory_def by (rule dbms_ok_root [OF assms(1)])
qed

lemma drop_table_run:
  assumes ok: "dbms_ok s" and d: "resolve_database d s = Inr dn" and room: "pool_room 1 (dbms_pool s)"
  shows "\<exists>x s'. execute_drop_table d n s = (x, s') \<and> dbms_ok s'
    \<and> (x = Inr OK \<longleftrightarrow> find_table (dn, n) s \<noteq> None) \<and> (if x = Inr OK then all_saved s' else s' = s)
    \<and> (\<forall>ref. find_table ref s' = (if ref = (dn, n) then None else find_table ref s))
    \<and> (\<forall>t c ix. find_table (dn, n) s = Some t \<and> (c, ix) \<in> set (tb_indexes t)
         \<longrightarrow> map_of (dir_indexes (directory_of dn s')) (index_file_name n (col_name (columns_of t ! c))) \<noteq> None)"
proof -
  obtain db where db: "map_of (dbms_databases s) dn = Some db" using resolved [OF d] by blast
  have fn: "find_table (dn, n) s = map_of db n" by (simp add: find_table_def db)
  have start: "execute_drop_table d n s = bindS (drop_table dn n) (\<lambda>_. bindS save_all (\<lambda>_. retS OK)) s"
    by (simp add: execute_drop_table_def bindS_askE [where h = "resolve_database d", OF d])
  show ?thesis
  proof (cases "map_of db n")
    case None
    then have "execute_drop_table d n s = (Inl (RuntimeError (''Unknown table '' @ quoted n)), s)"
      unfolding start by (simp add: drop_table_def bindS_def require_database_def db)
    then show ?thesis using ok fn None by auto
  next
    case (Some t)
    let ?s1 = "set_database dn (AList.delete n db) s"
    let ?dir = "close_table (n, t) (directory_of dn s)"
    let ?s2 = "set_directory dn ?dir ?s1"
    have "database_ok (dbms_pool s) db" by (rule dbms_okD(3) [OF ok db])
    then have "database_ok (dbms_pool s) (AList.delete n db)" by (auto simp: database_ok_def AList.delete_eq distinct_map_filter)
    from put_database_ok [OF ok db dbms_okD(1) [OF ok] _ this] have ok1: "dbms_ok ?s1" by (simp add: set_database_def)
    have ok2: "dbms_ok ?s2"
      by (rule set_directory_ok [OF ok1]) (simp_all add: set_database_def update_conv' close_keeps_tables directory_distinct [OF ok])
    have "pool_room 1 (dbms_pool ?s2)" using room by (simp add: set_directory_def set_database_def)
    from save_all_ok [OF ok2 this] obtain root where r: "save_all ?s2 = (Inr (), ?s2\<lparr>dbms_root := root\<rparr>)"
      "dbms_ok (?s2\<lparr>dbms_root := root\<rparr>)" "all_saved (?s2\<lparr>dbms_root := root\<rparr>)"
      "\<forall>m. dir_indexes (directory_of m (?s2\<lparr>dbms_root := root\<rparr>)) = dir_indexes (directory_of m ?s2)" by blast
    let ?s3 = "?s2\<lparr>dbms_root := root\<rparr>"
    have "drop_table dn n s = (Inr (), ?s2)" by (simp add: drop_table_def bindS_def require_database_def db Some)
    then have ran: "execute_drop_table d n s = (Inr OK, ?s3)" unfolding start using r(1) by (simp add: bindS_def)
    have find: "find_table ref ?s3 = (if ref = (dn, n) then None else find_table ref s)" for ref
      using db by (cases ref) (auto simp: find_table_def set_directory_def set_database_def update_conv' delete_conv')
    have "map_of (dir_indexes (directory_of dn ?s3)) (index_file_name n (col_name (columns_of t ! c))) \<noteq> None"
      if "(c, ix) \<in> set (tb_indexes t)" for c ix
    proof -
      have "table_ok (dbms_pool s) t" using find_table_ok [OF ok] fn Some by simp
      then have "c < length (columns_of t)" using table_okD(8) that by (simp add: index_ok_def)
      then show ?thesis using close_leaves_files [OF that] r(4) by (simp add: directory_of_set close_table_def)
    qed
    then show ?thesis using ran r(2,3) find fn Some by (intro exI [of _ "Inr OK"] exI [of _ ?s3]) auto
  qed
qed

subsection \<open>Databases\<close>

lemma update_new: "k \<notin> fst ` set xs \<Longrightarrow> AList.update k v xs = xs @ [(k, v)]"
  by (induction xs) auto

lemma create_database_run:
  assumes ok: "dbms_ok s" and room: "pool_room 1 (dbms_pool s)"
  shows "\<exists>x s'. execute_create_database n s = (x, s') \<and> dbms_ok s' \<and> dbms_active s' = dbms_active s
    \<and> (x = Inr OK \<longleftrightarrow> \<not> has_database n s) \<and> (if x = Inr OK then all_saved s' else s' = s)
    \<and> (\<forall>m. has_database m s' \<longleftrightarrow> m = n \<or> has_database m s) \<and> (\<forall>ref. find_table ref s' = find_table ref s)"
proof (cases "has_database n s")
  case True
  then show ?thesis using ok by (auto simp: execute_create_database_def create_database_def bindS_def)
next
  case False
  then have new: "map_of (dbms_databases s) n = None" by (simp add: has_database_def)
  then have fresh: "n \<notin> fst ` set (dbms_databases s)" "n \<notin> fst ` set (dbms_root s)"
    using ok by (auto simp: dbms_ok_def map_of_eq_None_iff)
  then have "map_of (dbms_root s) n = None" by (simp add: map_of_eq_None_iff)
  then have dir: "directory_of n s = empty_directory" by (simp add: directory_of_def)
  let ?s1 = "create_directory n (s\<lparr>dbms_databases := dbms_databases s @ [(n, [])]\<rparr>)"
  have s1: "?s1 = s\<lparr>dbms_databases := dbms_databases s @ [(n, [])], dbms_root := AList.update n empty_directory (dbms_root s)\<rparr>"
    using dir by (simp add: create_directory_def set_directory_def directory_of_def)
  have root: "AList.update n empty_directory (dbms_root s) = dbms_root s @ [(n, empty_directory)]"
    using fresh(2) by (rule update_new)
  have ok1: "dbms_ok ?s1"
    using ok fresh unfolding s1 root by (auto simp: dbms_ok_def database_ok_def empty_directory_def)
  have "pool_room 1 (dbms_pool ?s1)" using room by (simp add: s1)
  from save_all_ok [OF ok1 this] obtain r where r: "save_all ?s1 = (Inr (), ?s1\<lparr>dbms_root := r\<rparr>)" "dbms_ok (?s1\<lparr>dbms_root := r\<rparr>)"
    "all_saved (?s1\<lparr>dbms_root := r\<rparr>)" by blast
  let ?s2 = "?s1\<lparr>dbms_root := r\<rparr>"
  have "execute_create_database n s = (Inr OK, ?s2)"
    using False r(1) by (simp add: execute_create_database_def create_database_def bindS_def)
  moreover have "find_table ref ?s2 = find_table ref s" for ref
    using new by (cases ref) (auto simp: find_table_def s1 map_add_def split: option.splits)
  moreover have "has_database m ?s2 \<longleftrightarrow> m = n \<or> has_database m s" for m
    by (auto simp: has_database_def s1 map_add_def split: option.splits)
  moreover have "dbms_active ?s2 = dbms_active s" by (simp add: s1)
  ultimately show ?thesis using False r(2,3) by (intro exI [of _ "Inr OK"] exI [of _ ?s2]) auto
qed

lemma drop_database_run:
  assumes ok: "dbms_ok s" and room: "pool_room 1 (dbms_pool s)"
  shows "\<exists>x s'. execute_drop_database n s = (x, s') \<and> dbms_ok s'
    \<and> dbms_active s' = (if x = Inr OK \<and> dbms_active s = n then [] else dbms_active s)
    \<and> (x = Inr OK \<longleftrightarrow> has_database n s) \<and> (if x = Inr OK then all_saved s' else s' = s)
    \<and> (\<forall>m. has_database m s' \<longleftrightarrow> m \<noteq> n \<and> has_database m s)
    \<and> (\<forall>ref. find_table ref s' = (if fst ref = n then None else find_table ref s))"
proof (cases "has_database n s")
  case False
  then show ?thesis using ok
    by (auto simp: execute_drop_database_def drop_database_def bindS_def has_database_def find_table_def)
next
  case True
  let ?s1 = "s\<lparr>dbms_databases := AList.delete n (dbms_databases s), dbms_active := (if dbms_active s = n then [] else dbms_active s),
    dbms_root := AList.delete n (dbms_root s)\<rparr>"
  have "fst ` set (AList.delete n (dbms_root s)) = fst ` set (AList.delete n (dbms_databases s))"
    using ok by (auto simp: dbms_ok_def AList.delete_eq image_iff set_eq_iff) (metis fst_conv surj_pair)+
  then have ok1: "dbms_ok ?s1" using ok by (auto simp: dbms_ok_def AList.delete_eq distinct_map_filter)
  have "pool_room 1 (dbms_pool ?s1)" using room by simp
  from save_all_ok [OF ok1 this] obtain r where r: "save_all ?s1 = (Inr (), ?s1\<lparr>dbms_root := r\<rparr>)" "dbms_ok (?s1\<lparr>dbms_root := r\<rparr>)"
    "all_saved (?s1\<lparr>dbms_root := r\<rparr>)" by blast
  let ?s2 = "?s1\<lparr>dbms_root := r\<rparr>"
  have "execute_drop_database n s = (Inr OK, ?s2)"
    using True r(1) by (simp add: execute_drop_database_def drop_database_def bindS_def)
  moreover have "find_table ref ?s2 = (if fst ref = n then None else find_table ref s)" for ref
    by (simp add: find_table_def delete_conv')
  moreover have "has_database m ?s2 \<longleftrightarrow> m \<noteq> n \<and> has_database m s" for m by (auto simp: has_database_def delete_conv')
  ultimately show ?thesis using True r(2,3) by (intro exI [of _ "Inr OK"] exI [of _ ?s2]) simp
qed

lemma use_database_run:
  assumes "dbms_ok s"
  shows "\<exists>x s'. execute_use_database n s = (x, s') \<and> dbms_ok s' \<and> (x = Inr OK \<longleftrightarrow> has_database n s)
    \<and> s' = (if x = Inr OK then s\<lparr>dbms_active := n\<rparr> else s)"
  using assms
  by (auto simp: execute_use_database_def use_database_def require_database_def has_database_def bindS_def dbms_ok_def
      split: option.split)

end
