(* ===== verification/Create_Contract.thy ===== *)
theory Create_Contract
  imports Restart_Contract Query_Create
begin

section \<open>Properties of CREATE and DROP\<close>





text \<open>
  C29: The other statements on tables and databases do what their names say and nothing else, or refuse and
  change nothing, and keep the databases well-formed: \<open>DROP TABLE\<close> removes the table (but leaves its
  index files), \<open>CREATE DATABASE\<close> adds an empty database, \<open>DROP DATABASE\<close> removes a database with its
  tables, which is then no longer the active one, and \<open>USE\<close> makes a database the active one.
\<close>

theorem schema_statements_keep_databases:
  assumes "dbms_ok s" and "pool_room 1 (dbms_pool s)" and "resolve_database d s = Inr dn"
  shows "(\<exists>x s'. execute_drop_table d n s = (x, s') \<and> dbms_ok s'
        \<and> (x = Inr OK \<longleftrightarrow> find_table (dn, n) s \<noteq> None) \<and> (if x = Inr OK then all_saved s' else s' = s)
        \<and> (\<forall>ref. find_table ref s' = (if ref = (dn, n) then None else find_table ref s))
        \<and> (\<forall>t c ix. find_table (dn, n) s = Some t \<and> (c, ix) \<in> set (tb_indexes t)
             \<longrightarrow> map_of (dir_indexes (directory_of dn s')) (index_file_name n (col_name (columns_of t ! c))) \<noteq> None))
    \<and> (\<exists>x s'. execute_create_database n s = (x, s') \<and> dbms_ok s' \<and> dbms_active s' = dbms_active s
        \<and> (x = Inr OK \<longleftrightarrow> \<not> has_database n s) \<and> (if x = Inr OK then all_saved s' else s' = s)
        \<and> (\<forall>m. has_database m s' \<longleftrightarrow> m = n \<or> has_database m s) \<and> (\<forall>ref. find_table ref s' = find_table ref s))
    \<and> (\<exists>x s'. execute_drop_database n s = (x, s') \<and> dbms_ok s'
        \<and> dbms_active s' = (if x = Inr OK \<and> dbms_active s = n then [] else dbms_active s)
        \<and> (x = Inr OK \<longleftrightarrow> has_database n s) \<and> (if x = Inr OK then all_saved s' else s' = s)
        \<and> (\<forall>m. has_database m s' \<longleftrightarrow> m \<noteq> n \<and> has_database m s)
        \<and> (\<forall>ref. find_table ref s' = (if fst ref = n then None else find_table ref s)))
    \<and> (\<exists>x s'. execute_use_database n s = (x, s') \<and> dbms_ok s' \<and> (x = Inr OK \<longleftrightarrow> has_database n s)
        \<and> s' = (if x = Inr OK then s\<lparr>dbms_active := n\<rparr> else s))"
  by (intro conjI drop_table_run [OF assms(1,3,2)] create_database_run [OF assms(1,2)] drop_database_run [OF assms(1,2)]
      use_database_run [OF assms(1)])

theorem schema_statements_keep_databases_witness:
  "\<exists>s s1 s2. execute_drop_table [] ''t'' s = (Inr OK, s1) \<and> find_table (''d'', ''t'') s \<noteq> None \<and> find_table (''d'', ''t'') s1 = None
    \<and> execute_create_database ''t'' s = (Inr OK, s2) \<and> has_database ''t'' s2"
proof -
  obtain t where t: "table_ok new_pool t" "tb_rows t = [(1, [VInt 5])]" "columns_of t = [free_column]" "tb_name t = ''t''"
    by (rule one_free_row)
  let ?s = "sample_dbms new_pool t"
  have room: "pool_room 1 (dbms_pool ?s)" using new_pool_room by (simp add: sample_dbms_def)
  have d: "resolve_database [] ?s = Inr ''d''" by (simp add: sample_dbms_def resolve_database_def active_db_def require_database_def)
  have new: "\<not> has_database ''t'' ?s" by (simp add: sample_dbms_def has_database_def)
  note all = schema_statements_keep_databases [OF sample_dbms_ok [OF t(1,4)] room d, of "''t''"]
  from conjunct1 [OF all] obtain s1 where s1: "execute_drop_table [] ''t'' ?s = (Inr OK, s1)" "find_table (''d'', ''t'') s1 = None"
    using sample_dbms_table(2) [of new_pool t] by auto
  from conjunct1 [OF conjunct2 [OF all]] obtain s2 where "execute_create_database ''t'' ?s = (Inr OK, s2)" "has_database ''t'' s2"
    using new by auto
  then show ?thesis using s1 sample_dbms_table(2) [of new_pool t] by (intro exI [of _ ?s] exI [of _ s1] exI [of _ s2]) simp
qed

end
