(* ===== verification/Executor_Text.thy ===== *)
theory Executor_Text
  imports C_Runtime
begin

section \<open>The texts of the executor service\<close>

text \<open>
  The executor reads and writes text only: it tells \<open>GET STATUS\<close> and \<open>GET RESULT\<close> from statements
  (\<open>request_api.cpp\<close>), statements that may take long from others (\<open>query_classifier.cpp\<close>), makes
  request ids and recognises them (\<open>request_types.cpp\<close>), and answers in JSON
  (\<open>json_response.cpp\<close>). Time points are counts of nanoseconds; how one is printed depends on the
  time zone of the host and is a parameter.
\<close>

unbundle bit_operations_syntax

subsection \<open>\<open>string_utils.h\<close>\<close>

definition trim :: "string \<Rightarrow> string" where
  "trim s = rev (dropWhile is_space (rev (dropWhile is_space s)))"

definition toUpperAscii :: "string \<Rightarrow> string" where
  "toUpperAscii s = map to_upper s"

subsection \<open>Which statements are queued\<close>

datatype execution_mode = Sync | Async

definition firstToken :: "string \<Rightarrow> string" where
  "firstToken s = takeWhile is_alpha s"

definition classifyExecutionMode :: "string \<Rightarrow> execution_mode" where
  "classifyExecutionMode query =
     (let normalized = toUpperAscii (trim query) in
      if normalized = [] then Sync
      else
        let keyword = firstToken normalized in
        if keyword = ''CREATE'' \<or> keyword = ''DROP'' \<or> keyword = ''INSERT'' \<or> keyword = ''UPDATE'' \<or> keyword = ''DELETE''
        then Async else Sync)"

subsection \<open>The commands of a client\<close>

datatype api_command = SubmitQuery string | GetStatus string | GetResult string

definition removeOptionalSemicolon :: "string \<Rightarrow> string" where
  "removeOptionalSemicolon s = trim (if s \<noteq> [] \<and> last s = CHR '';'' then butlast s else s)"

fun split_words :: "string \<Rightarrow> string \<Rightarrow> string list" where
  \<comment> \<open>the loop of \<open>splitBySpace\<close>, with the word that is being read\<close>
  "split_words current [] = (if current \<noteq> [] then [current] else [])"
| "split_words current (c # cs) =
     (if is_space c then (if current \<noteq> [] then current # split_words [] cs else split_words [] cs)
      else split_words (current @ [c]) cs)"

definition splitBySpace :: "string \<Rightarrow> string list" where
  "splitBySpace s = split_words [] s"

definition parseApiCommand :: "string \<Rightarrow> api_command" where
  "parseApiCommand raw =
     (case splitBySpace (removeOptionalSemicolon (trim raw)) of
        [a, b, c] \<Rightarrow>
          if toUpperAscii a = ''GET'' then
            let operation = toUpperAscii b in
            if operation = ''STATUS'' then GetStatus c
            else if operation = ''RESULT'' then GetResult c
            else SubmitQuery raw
          else SubmitQuery raw
      | _ \<Rightarrow> SubmitQuery raw)"

subsection \<open>Request ids\<close>

definition hex_char :: "nat \<Rightarrow> char" where
  "hex_char d = char_of (if d < 10 then 48 + d else 87 + d)"

fun hex_digits :: "nat \<Rightarrow> nat \<Rightarrow> string" where
  \<comment> \<open>\<open>%0kx\<close> of a number below 16^k\<close>
  "hex_digits 0 n = []"
| "hex_digits (Suc k) n = hex_digits k (n div 16) @ [hex_char (n mod 16)]"

definition generateRequestId :: "32 word \<Rightarrow> 32 word \<Rightarrow> 32 word \<Rightarrow> 32 word \<Rightarrow> 32 word \<Rightarrow> 32 word \<Rightarrow> string" where
  \<comment> \<open>the six numbers are what the random engine delivers, in this order\<close>
  "generateRequestId r1 r2 r3 r4 r5 r6 =
     (let timeLow = r1;
          timeMid = ucast (r2 AND 0xFFFF) :: 16 word;
          timeHiAndVersion = ucast ((r3 AND 0x0FFF) OR 0x4000) :: 16 word;
          clockSeq = ucast ((r4 AND 0x3FFF) OR 0x8000) :: 16 word;
          nodeLow = r5;
          nodeHigh = ucast (r6 AND 0xFFFF) :: 16 word in
      hex_digits 8 (unat timeLow) @ ''-'' @ hex_digits 4 (unat timeMid) @ ''-'' @ hex_digits 4 (unat timeHiAndVersion)
      @ ''-'' @ hex_digits 4 (unat clockSeq) @ ''-'' @ hex_digits 4 (unat nodeHigh) @ hex_digits 8 (unat nodeLow))"

definition is_hex :: "char \<Rightarrow> bool" where
  "is_hex c \<longleftrightarrow> is_digit c \<or> (CHR ''a'' \<le> c \<and> c \<le> CHR ''f'')"

definition id_pattern :: "(char \<Rightarrow> bool) list" where
  \<comment> \<open>the regular expression, one class for each character\<close>
  "id_pattern = replicate 8 is_hex @ [(=) CHR ''-''] @ replicate 4 is_hex @ [(=) CHR ''-'', (=) CHR ''4'']
     @ replicate 3 is_hex @ [(=) CHR ''-'', \<lambda>c. c \<in> set ''89ab''] @ replicate 3 is_hex @ [(=) CHR ''-''] @ replicate 12 is_hex"

definition isValidRequestId :: "string \<Rightarrow> bool" where
  "isValidRequestId s = list_all2 (\<lambda>p c. p c) id_pattern s"

subsection \<open>Requests\<close>

type_synonym time = int

datatype request_status = Pending | Running | Completed | Failed

fun toString :: "request_status \<Rightarrow> string" where
  "toString Pending = ''pending''"
| "toString Running = ''running''"
| "toString Completed = ''completed''"
| "toString Failed = ''failed''"

datatype return_code = Ok | Error | NotFound | NotReady

fun code_of :: "return_code \<Rightarrow> int" where
  "code_of Ok = 0"
| "code_of Error = 1"
| "code_of NotFound = 404"
| "code_of NotReady = 202"

record snapshot =
  sn_id :: string
  sn_status :: request_status
  sn_result :: "string option"
  sn_error :: "string option"
  sn_submitted :: time
  sn_started :: "time option"
  sn_finished :: "time option"

record status_info =
  si_id :: string
  si_status :: request_status
  si_submitted :: time
  si_started :: "time option"
  si_finished :: "time option"
  si_position :: "nat option"

record result_info =
  ri_ready :: bool
  ri_id :: string
  ri_status :: request_status
  ri_result :: "string option"
  ri_error :: "string option"

record access_entry =
  ae_body :: string
  ae_client :: string
  ae_handler :: string
  ae_start :: time
  ae_end :: time
  ae_code :: int
  ae_message :: string

subsection \<open>Answers in JSON\<close>

definition escape_char :: "char \<Rightarrow> string" where
  "escape_char c =
     (if c = CHR 0x22 then [CHR 0x5C, CHR 0x22]
      else if c = CHR 0x5C then [CHR 0x5C, CHR 0x5C]
      else if c = CHR 0x08 then CHR 0x5C # ''b''
      else if c = CHR 0x0C then CHR 0x5C # ''f''
      else if c = CHR 0x0A then CHR 0x5C # ''n''
      else if c = CHR 0x0D then CHR 0x5C # ''r''
      else if c = CHR 0x09 then CHR 0x5C # ''t''
      else if (of_char c :: nat) < 0x20 then CHR 0x5C # CHR ''u'' # hex_digits 4 (of_char c)
      else [c])"

definition escapeJsonString :: "string \<Rightarrow> string" where
  "escapeJsonString s = concat (map escape_char s)"

definition json_string :: "string \<Rightarrow> string" where
  "json_string s = double_quoted (escapeJsonString s)"

definition json_member :: "string \<Rightarrow> string \<Rightarrow> string" where
  "json_member key value = double_quoted key @ '':'' @ value"

definition looksLikeJsonValue :: "string \<Rightarrow> bool" where
  "looksLikeJsonValue s \<longleftrightarrow> s \<noteq> [] \<and> (hd s = CHR ''['' \<or> hd s = CHR ''{'')"

definition jsonOrString :: "string \<Rightarrow> string" where
  \<comment> \<open>\<open>appendJsonOrStringField\<close>\<close>
  "jsonOrString s = (if looksLikeJsonValue s then s else json_string s)"

definition buildSyncResponse :: "string \<Rightarrow> int \<Rightarrow> string" where
  "buildSyncResponse result code =
     ''{'' @ json_member ''mode'' (double_quoted ''sync'') @ '','' @ json_member ''status_code'' (decimal code) @ '',''
     @ json_member ''result'' (jsonOrString result) @ ''}''"

definition buildAsyncAcceptedResponse :: "string \<Rightarrow> string" where
  "buildAsyncAcceptedResponse requestId =
     ''{'' @ json_member ''mode'' (double_quoted ''async'') @ '','' @ json_member ''request_id'' (json_string requestId) @ ''}''"

definition optionalTimestamp :: "(time \<Rightarrow> string) \<Rightarrow> string \<Rightarrow> time option \<Rightarrow> string" where
  \<comment> \<open>\<open>appendOptionalTimestamp\<close>\<close>
  "optionalTimestamp ts key tp =
     '','' @ json_member key (case tp of None \<Rightarrow> ''null'' | Some t \<Rightarrow> json_string (ts t))"

definition buildStatusResponse :: "(time \<Rightarrow> string) \<Rightarrow> status_info \<Rightarrow> string" where
  "buildStatusResponse ts i =
     ''{'' @ json_member ''request_id'' (json_string (si_id i)) @ '',''
     @ json_member ''status'' (double_quoted (toString (si_status i))) @ '',''
     @ json_member ''submitted_at'' (json_string (ts (si_submitted i)))
     @ optionalTimestamp ts ''started_at'' (si_started i) @ optionalTimestamp ts ''finished_at'' (si_finished i)
     @ (case si_position i of None \<Rightarrow> [] | Some k \<Rightarrow> '','' @ json_member ''queue_position'' (decimal (int k))) @ ''}''"

definition buildResultResponse :: "result_info \<Rightarrow> string" where
  "buildResultResponse i =
     ''{'' @ json_member ''request_id'' (json_string (ri_id i)) @ '',''
     @ json_member ''ready'' (if ri_ready i then ''true'' else ''false'') @ '',''
     @ json_member ''status'' (double_quoted (toString (ri_status i)))
     @ (case ri_result i of Some r \<Rightarrow> if ri_ready i then '','' @ json_member ''result'' (jsonOrString r) else [] | None \<Rightarrow> [])
     @ (case ri_error i of Some e \<Rightarrow> if ri_ready i then '','' @ json_member ''error'' (jsonOrString e) else [] | None \<Rightarrow> [])
     @ ''}''"

definition buildErrorResponse :: "string \<Rightarrow> int \<Rightarrow> string" where
  "buildErrorResponse message code =
     ''{'' @ json_member ''error'' (json_string message) @ '','' @ json_member ''code'' (decimal code) @ ''}''"

subsection \<open>The access log\<close>

definition duration_ms :: "time \<Rightarrow> time \<Rightarrow> int" where
  \<comment> \<open>\<open>duration_cast<milliseconds>\<close> truncates towards zero\<close>
  "duration_ms t0 t1 = sgn (t1 - t0) * (\<bar>t1 - t0\<bar> div 1000000)"

definition logRequest :: "(time \<Rightarrow> string) \<Rightarrow> access_entry \<Rightarrow> string" where
  "logRequest ts e =
     ''[ACCESS] client_id='' @ ae_client e @ '' handler_id='' @ ae_handler e @ '' start='' @ ts (ae_start e)
     @ '' end='' @ ts (ae_end e) @ '' duration_ms='' @ decimal (duration_ms (ae_start e) (ae_end e))
     @ '' status_code='' @ decimal (ae_code e) @ '' status_msg='' @ double_quoted (ae_message e)
     @ '' body='' @ double_quoted (ae_body e) @ [CHR 0x0A]"

subsection \<open>Words and spaces\<close>

lemma trim_word: "s \<noteq> [] \<Longrightarrow> \<not> is_space (hd s) \<Longrightarrow> \<not> is_space (last s) \<Longrightarrow> trim s = s"
proof -
  assume a: "s \<noteq> []" "\<not> is_space (hd s)" "\<not> is_space (last s)"
  then have d: "dropWhile is_space s = s" by (cases s) simp_all
  have "dropWhile is_space (rev s) = rev s" using a(1,3) by (cases s rule: rev_cases) simp_all
  then show ?thesis by (simp add: trim_def d)
qed

lemma split_words_word:
  "list_all (\<lambda>c. \<not> is_space c) w \<Longrightarrow> split_words cur (w @ rest) = split_words (cur @ w) rest"
  by (induction w arbitrary: cur) simp_all

lemma split_words_last: "list_all (\<lambda>c. \<not> is_space c) w \<Longrightarrow> w \<noteq> [] \<Longrightarrow> split_words cur w = [cur @ w]"
  using split_words_word [of w cur "[]"] by simp

text \<open>A command of three words, as the client writes it, is read as these words.\<close>

lemma three_words:
  assumes "\<forall>w \<in> {a, b, c}. w \<noteq> [] \<and> list_all (\<lambda>x. \<not> is_space x) w"
  shows "splitBySpace (a @ '' '' @ b @ '' '' @ c) = [a, b, c]"
proof -
  have sp: "is_space (CHR '' '')" by (simp add: is_space_def)
  have "split_words [] (a @ '' '' @ b @ '' '' @ c) = a # split_words [] (b @ '' '' @ c)"
    using assms sp by (subst split_words_word) simp_all
  also have "split_words [] (b @ '' '' @ c) = b # split_words [] c"
    using assms sp by (subst split_words_word) simp_all
  also have "split_words [] c = [c]" using assms split_words_last [of c "[]"] by simp
  finally show ?thesis by (simp add: splitBySpace_def)
qed

subsection \<open>Request ids are valid\<close>

lemma is_hex_char: "d < 16 \<Longrightarrow> is_hex (hex_char d)"
  by (auto simp: hex_char_def is_hex_def is_digit_def char_le_iff)

lemma variant_char: "hex_char 8 = CHR ''8''" "hex_char 9 = CHR ''9''" "hex_char 10 = CHR ''a''" "hex_char 11 = CHR ''b''"
    "hex_char 4 = CHR ''4''"
  by code_simp+

lemma hex_digits_hex: "list_all is_hex (hex_digits k n)"
  by (induction k arbitrary: n) (simp_all add: is_hex_char)

lemma length_hex_digits [simp]: "length (hex_digits k n) = k"
  by (induction k arbitrary: n) simp_all

lemma hex_digits_append: "hex_digits (j + k) n = hex_digits j (n div 16 ^ k) @ hex_digits k n"
  by (induction k arbitrary: n) (simp_all add: div_mult2_eq)

lemma hex_digits_first: "hex_digits (Suc k) n = hex_char (n div 16 ^ k mod 16) # hex_digits k n"
  using hex_digits_append [of 1 k n] by simp

text \<open>The version and the variant of an id are bits that the random ones cannot touch.\<close>

lemma low_or_high:
  fixes m b :: nat
  assumes "\<forall>k < n. \<not> bit b k"
  shows "take_bit n m OR b = m mod 2 ^ n + b"
proof -
  have "take_bit n m AND b = 0" using assms by (auto simp: bit_eq_iff bit_simps)
  then show ?thesis by (simp add: disjunctive_add_eq_or take_bit_eq_mask flip: take_bit_eq_mod)
qed

lemma masked_16:
  fixes r b :: "32 word"
  assumes "\<forall>k < n. \<not> bit (unat b) k" and "mask n + unat b < 2 ^ 16"
  shows "unat (ucast ((r AND mask n) OR b) :: 16 word) = unat r mod 2 ^ n + unat b"
proof -
  have "unat ((r AND mask n) OR b) = unat r mod 2 ^ n + unat b"
    using low_or_high [OF assms(1)] by (simp add: unsigned_or_eq unsigned_take_bit_eq flip: take_bit_eq_mask)
  moreover have "unat r mod 2 ^ n \<le> mask n" by (simp add: mask_nat_def less_eq_iff_succ_less)
  ultimately show ?thesis using assms(2) by (simp add: unsigned_ucast_eq take_bit_eq_mod)
qed

lemma low_bits: "n \<le> m \<Longrightarrow> \<forall>k < n. \<not> bit (2 ^ m :: nat) k"
  using bit_exp_iff [where ?'a = nat, of m] by auto

lemma version_number:
  fixes r :: "32 word"
  shows "unat (ucast ((r AND 0x0FFF) OR 0x4000) :: 16 word) = unat r mod 2 ^ 12 + 4 * 16 ^ 3"
proof -
  have "\<forall>k < 12. \<not> bit (unat (0x4000 :: 32 word)) k" using low_bits [of 12 14] by simp
  from masked_16 [OF this, of r] show ?thesis by (simp add: mask_eq_exp_minus_1)
qed

lemma variant_number:
  fixes r :: "32 word"
  shows "unat (ucast ((r AND 0x3FFF) OR 0x8000) :: 16 word) = unat r mod 2 ^ 14 + 8 * 16 ^ 3"
proof -
  have "\<forall>k < 14. \<not> bit (unat (0x8000 :: 32 word)) k" using low_bits [of 14 15] by simp
  from masked_16 [OF this, of r] show ?thesis by (simp add: mask_eq_exp_minus_1)
qed

lemma hex_four: "hex_digits 4 n = hex_char (n div 16 ^ 3 mod 16) # hex_digits 3 n"
  using hex_digits_first [of 3 n] by simp

lemma version_digit:
  "hex_digits 4 (unat (ucast (((r :: 32 word) AND 0x0FFF) OR 0x4000) :: 16 word)) = CHR ''4'' # hex_digits 3 (unat r mod 2 ^ 12 + 4 * 16 ^ 3)"
proof -
  have "(unat r mod 2 ^ 12 + 4 * 16 ^ 3) div 16 ^ 3 mod 16 = 4" by simp
  then show ?thesis unfolding version_number hex_four by (simp only: variant_char)
qed

lemma variant_digit: "\<exists>d. hex_digits 4 (unat (ucast (((r :: 32 word) AND 0x3FFF) OR 0x8000) :: 16 word))
    = d # hex_digits 3 (unat r mod 2 ^ 14 + 8 * 16 ^ 3) \<and> d \<in> set ''89ab''"
proof -
  let ?n = "unat r mod 2 ^ 14 + 8 * 16 ^ 3"
  have "?n div 16 ^ 3 mod 16 \<in> {8, 9, 10, 11}"
  proof -
    have "?n div 4096 = unat r mod 16384 div 4096 + 8" by simp
    moreover have "unat r mod 16384 div 4096 < 4" by (simp add: less_mult_imp_div_less)
    ultimately show ?thesis by auto
  qed
  then have "hex_char (?n div 16 ^ 3 mod 16) \<in> set ''89ab''" by (auto simp: variant_char)
  then show ?thesis unfolding variant_number by (simp only: hex_four) blast
qed

lemma classes_hex:
  "list_all2 (\<lambda>p c. p c) (replicate k is_hex @ ps) (hex_digits k n @ cs) = list_all2 (\<lambda>p c. p c) ps cs"
  "list_all2 (\<lambda>p c. p c) (replicate k is_hex) (hex_digits k n)"
proof -
  have "list_all2 (\<lambda>p c. p c) (replicate (length cs) is_hex) cs" if "list_all is_hex cs" for cs
    using that by (induction cs) auto
  from this [OF hex_digits_hex] show 2: "list_all2 (\<lambda>p c. p c) (replicate k is_hex) (hex_digits k n)" by (metis length_hex_digits)
  show "list_all2 (\<lambda>p c. p c) (replicate k is_hex @ ps) (hex_digits k n @ cs) = list_all2 (\<lambda>p c. p c) ps cs"
    using 2 by (simp add: list_all2_append)
qed

lemma generated_id_valid: "isValidRequestId (generateRequestId r1 r2 r3 r4 r5 r6)"
proof -
  obtain d where d: "hex_digits 4 (unat (ucast ((r4 AND 0x3FFF) OR 0x8000) :: 16 word))
      = d # hex_digits 3 (unat r4 mod 2 ^ 14 + 8 * 16 ^ 3)" "d \<in> set ''89ab''" using variant_digit [of r4] by blast
  have twelve: "replicate 12 is_hex = replicate 4 is_hex @ replicate 8 is_hex" by (simp flip: replicate_add)
  show ?thesis using d(2)
    by (simp add: isValidRequestId_def generateRequestId_def id_pattern_def Let_def version_digit d(1) twelve classes_hex)
qed

end
