(* ===== verification/Async_Executor.thy ===== *)
theory Async_Executor
  imports Executor_Text "HOL-Library.AList"
begin

section \<open>\<open>AsyncExecutor\<close>\<close>

text \<open>
  The queue of statements, the worker thread that runs them and the snapshots of their progress. The
  handler is what the executor was built with; in the server it is the query engine, and what it works
  on is the engine's state. Each critical section of \<open>mutex_\<close> is one definition, and the worker's
  position between them is part of the state, so that other threads can act there. The queries of a
  state take no step. The snapshots are a list whose order stands for the iteration order of
  the \<open>unordered_map\<close>.
\<close>

type_synonym 'e handler = "string \<Rightarrow> ('e, string) sx"

fun exn_text :: "exn \<Rightarrow> string option" where
  \<comment> \<open>\<open>what()\<close> of a \<open>std::exception\<close>; the others end the process\<close>
  "exn_text (RuntimeError m) = Some m"
| "exn_text (InvalidArgument m) = Some m"
| "exn_text (OutOfRange m) = Some m"
| "exn_text (LengthError m) = Some m"
| "exn_text (LogicError m) = Some m"
| "exn_text (ParseError m) = Some m"
| "exn_text NoReturn = None"
| "exn_text Undefined = None"
| "exn_text Terminated = None"

record job =
  job_id :: string
  job_client :: string
  job_query :: string

datatype worker =
    Waiting
  | Took job
  | Began job
  | Ran job time string "string option" "string option" int string
    \<comment> \<open>start, handler id, \<open>result\<close>, \<open>error\<close>, \<open>statusCode\<close>, \<open>statusMessage\<close>\<close>
  | Told access_entry
  | Exited
  | Crashed job

record 'e exec =
  ex_engine :: 'e
  ex_queue :: "job list"
  ex_snapshots :: "(string \<times> snapshot) list"
  ex_limit :: nat
  ex_stop :: bool
  ex_worker :: worker
  ex_handlers :: "64 word"
  ex_log :: "access_entry list option"

definition start_executor :: "'e \<Rightarrow> nat \<Rightarrow> bool \<Rightarrow> 'e exec" where
  \<comment> \<open>the handler's state, \<open>maxStoredRequests\<close>, and whether there is a logger\<close>
  "start_executor e limit logging =
     \<lparr>ex_engine = e, ex_queue = [], ex_snapshots = [], ex_limit = limit, ex_stop = False, ex_worker = Waiting,
      ex_handlers = 1, ex_log = (if logging then Some [] else None)\<rparr>"

subsection \<open>Snapshots\<close>

definition blank_snapshot :: snapshot where
  "blank_snapshot =
     \<lparr>sn_id = [], sn_status = Pending, sn_result = None, sn_error = None, sn_submitted = 0, sn_started = None, sn_finished = None\<rparr>"

definition finished :: "request_status \<Rightarrow> bool" where
  "finished st \<longleftrightarrow> st = Completed \<or> st = Failed"

fun older :: "snapshot \<Rightarrow> snapshot \<Rightarrow> bool" where
  "older a b = (case (sn_finished a, sn_finished b) of (Some x, Some y) \<Rightarrow> x < y | _ \<Rightarrow> False)"

fun oldest_finished :: "(string \<times> snapshot) option \<Rightarrow> (string \<times> snapshot) list \<Rightarrow> (string \<times> snapshot) option" where
  \<comment> \<open>the loop of \<open>pruneOldSnapshotsLocked\<close>\<close>
  "oldest_finished best [] = best"
| "oldest_finished best ((i, sn) # sns) =
     (if \<not> finished (sn_status sn) then oldest_finished best sns
      else case best of
        None \<Rightarrow> oldest_finished (Some (i, sn)) sns
      | Some b \<Rightarrow> oldest_finished (Some (if older sn (snd b) then (i, sn) else b)) sns)"

definition pruneOldSnapshots :: "nat \<Rightarrow> (string \<times> snapshot) list \<Rightarrow> (string \<times> snapshot) list" where
  "pruneOldSnapshots limit sns =
     (if length sns < limit then sns
      else case oldest_finished None sns of None \<Rightarrow> sns | Some b \<Rightarrow> AList.delete (fst b) sns)"

definition updateSnapshot :: "string \<Rightarrow> request_status \<Rightarrow> string option \<Rightarrow> string option \<Rightarrow> bool \<Rightarrow> bool \<Rightarrow> time
    \<Rightarrow> (string \<times> snapshot) list \<Rightarrow> (string \<times> snapshot) list" where
  "updateSnapshot i status result error setStarted setFinished now sns =
     (let sn = (case map_of sns i of None \<Rightarrow> blank_snapshot | Some sn \<Rightarrow> sn) in
      AList.update i
        (sn\<lparr>sn_id := i, sn_status := status, sn_result := result, sn_error := error,
            sn_started := (if setStarted then Some now else sn_started sn),
            sn_finished := (if setFinished then Some now else sn_finished sn)\<rparr>) sns)"

subsection \<open>Accepting and looking up\<close>

definition submit_job :: "string \<Rightarrow> time \<Rightarrow> string \<Rightarrow> string \<Rightarrow> 'e exec \<Rightarrow> 'e exec" where
  \<comment> \<open>\<open>submit\<close>, with the generated id and the time\<close>
  "submit_job i now query client s =
     s\<lparr>ex_snapshots := AList.update i (blank_snapshot\<lparr>sn_id := i, sn_status := Pending, sn_submitted := now\<rparr>)
                         (pruneOldSnapshots (ex_limit s) (ex_snapshots s)),
       ex_queue := ex_queue s @ [\<lparr>job_id = i, job_client = client, job_query = query\<rparr>]\<rparr>"

definition getSnapshot :: "string \<Rightarrow> 'e exec \<Rightarrow> snapshot option" where
  "getSnapshot i s = map_of (ex_snapshots s) i"

fun getQueuePosition :: "string \<Rightarrow> job list \<Rightarrow> nat option" where
  "getQueuePosition i [] = None"
| "getQueuePosition i (j # js) = (if job_id j = i then Some 0 else map_option Suc (getQueuePosition i js))"

definition toStatusInfo :: "snapshot \<Rightarrow> status_info" where
  "toStatusInfo sn =
     \<lparr>si_id = sn_id sn, si_status = sn_status sn, si_submitted = sn_submitted sn, si_started = sn_started sn,
      si_finished = sn_finished sn, si_position = None\<rparr>"

definition toResultInfo :: "snapshot \<Rightarrow> result_info" where
  "toResultInfo sn =
     (let info = \<lparr>ri_ready = False, ri_id = sn_id sn, ri_status = sn_status sn, ri_result = None, ri_error = None\<rparr> in
      if sn_status sn = Completed then info\<lparr>ri_ready := True, ri_result := sn_result sn\<rparr>
      else if sn_status sn = Failed then info\<lparr>ri_ready := True, ri_error := sn_error sn\<rparr>
      else info)"

definition getStatus :: "string \<Rightarrow> 'e exec \<Rightarrow> status_info option" where
  "getStatus i s =
     (case getSnapshot i s of
        None \<Rightarrow> None
      | Some sn \<Rightarrow>
          let info = toStatusInfo sn in
          Some (if si_status info = Pending then info\<lparr>si_position := getQueuePosition i (ex_queue s)\<rparr> else info))"

definition getResult :: "string \<Rightarrow> 'e exec \<Rightarrow> result_info option" where
  "getResult i s = (case getSnapshot i s of None \<Rightarrow> None | Some sn \<Rightarrow> Some (toResultInfo sn))"

definition wait_is_over :: "string \<Rightarrow> 'e exec \<Rightarrow> bool" where
  \<comment> \<open>what \<open>waitUntilFinished\<close> waits for, and what it returns when the time is up\<close>
  "wait_is_over i s = (case getSnapshot i s of None \<Rightarrow> True | Some sn \<Rightarrow> finished (sn_status sn))"

subsection \<open>The worker\<close>

definition stop_executor :: "'e exec \<Rightarrow> 'e exec" where
  "stop_executor s = s\<lparr>ex_stop := True\<rparr>"

definition take_job :: "'e exec \<Rightarrow> 'e exec option" where
  \<comment> \<open>None while the worker waits on \<open>cv_\<close>\<close>
  "take_job s =
     (case ex_queue s of
        [] \<Rightarrow> if ex_stop s then Some (s\<lparr>ex_worker := Exited\<rparr>) else None
      | j # js \<Rightarrow> Some (s\<lparr>ex_queue := js, ex_worker := Took j\<rparr>))"

definition begin_job :: "job \<Rightarrow> time \<Rightarrow> 'e exec \<Rightarrow> 'e exec" where
  "begin_job j now s =
     s\<lparr>ex_snapshots := updateSnapshot (job_id j) Running None None True False now (ex_snapshots s), ex_worker := Began j\<rparr>"

definition allocateHandlerId :: "64 word \<Rightarrow> string" where
  "allocateHandlerId n = ''handler-'' @ decimal (uint n)"

definition run_job :: "'e handler \<Rightarrow> job \<Rightarrow> time \<Rightarrow> 'e exec \<Rightarrow> 'e exec" where
  "run_job h j now s =
     (let hid = allocateHandlerId (ex_handlers s) in
      case h (job_query j) (ex_engine s) of (r, e) \<Rightarrow>
        s\<lparr>ex_handlers := ex_handlers s + 1, ex_engine := e,
          ex_worker :=
            (case r of
               Inr x \<Rightarrow> Ran j now hid (Some x) None (code_of Ok) ''OK''
             | Inl x \<Rightarrow>
                 (case exn_text x of
                    Some m \<Rightarrow> Ran j now hid None (Some m) (code_of Error) m
                  | None \<Rightarrow> Crashed j))\<rparr>)"

definition end_job :: "job \<Rightarrow> time \<Rightarrow> string \<Rightarrow> string option \<Rightarrow> string option \<Rightarrow> int \<Rightarrow> string \<Rightarrow> time \<Rightarrow> time \<Rightarrow> 'e exec \<Rightarrow> 'e exec" where
  \<comment> \<open>with the readings of the clock for \<open>endTime\<close> and for the snapshot\<close>
  "end_job j start hid result error code message endt now s =
     s\<lparr>ex_snapshots :=
         (if error \<noteq> None then updateSnapshot (job_id j) Failed None error False True now (ex_snapshots s)
          else updateSnapshot (job_id j) Completed result None False True now (ex_snapshots s)),
       ex_worker := Told \<lparr>ae_body = job_query j, ae_client = job_client j, ae_handler = hid, ae_start = start,
                         ae_end = endt, ae_code = code, ae_message = message\<rparr>\<rparr>"

definition add_entry :: "access_entry \<Rightarrow> 'e exec \<Rightarrow> 'e exec" where
  "add_entry e s = s\<lparr>ex_log := map_option (\<lambda>es. es @ [e]) (ex_log s)\<rparr>"

definition log_job :: "access_entry \<Rightarrow> 'e exec \<Rightarrow> 'e exec" where
  "log_job e s = (add_entry e s)\<lparr>ex_worker := Waiting\<rparr>"

definition worker_turn :: "'e handler \<Rightarrow> time \<Rightarrow> time \<Rightarrow> 'e exec \<Rightarrow> 'e exec option" where
  \<comment> \<open>\<open>workerLoop\<close> and \<open>processJob\<close>, from where the worker is; None if it waits or has ended\<close>
  "worker_turn h t t' s =
     (case ex_worker s of
        Waiting \<Rightarrow> take_job s
      | Took j \<Rightarrow> Some (begin_job j t s)
      | Began j \<Rightarrow> Some (run_job h j t s)
      | Ran j start hid result error code message \<Rightarrow> Some (end_job j start hid result error code message t t' s)
      | Told e \<Rightarrow> Some (log_job e s)
      | Exited \<Rightarrow> None
      | Crashed j \<Rightarrow> None)"

subsection \<open>Snapshots as a map\<close>

lemma map_of_update [simp]: "map_of (AList.update k v xs) = (map_of xs)(k \<mapsto> v)"
  by (rule update_conv')

lemma map_of_updateSnapshot:
  "map_of (updateSnapshot i st r e b c now sns) = (map_of sns)(i \<mapsto>
     ((case map_of sns i of None \<Rightarrow> blank_snapshot | Some sn \<Rightarrow> sn)
        \<lparr>sn_id := i, sn_status := st, sn_result := r, sn_error := e,
         sn_started := (if b then Some now else sn_started (case map_of sns i of None \<Rightarrow> blank_snapshot | Some sn \<Rightarrow> sn)),
         sn_finished := (if c then Some now else sn_finished (case map_of sns i of None \<Rightarrow> blank_snapshot | Some sn \<Rightarrow> sn))\<rparr>))"
  by (simp add: updateSnapshot_def Let_def)

text \<open>Pruning removes at most one snapshot, a finished one, and only when the limit is reached.\<close>

lemma oldest_finished_member:
  "oldest_finished best sns = Some b \<Longrightarrow> (\<And>c. best = Some c \<Longrightarrow> finished (sn_status (snd c)))
    \<Longrightarrow> finished (sn_status (snd b)) \<and> (best = Some b \<or> b \<in> set sns)"
proof (induction best sns rule: oldest_finished.induct)
  case (2 best i sn sns)
  then show ?case by (fastforce split: if_splits option.splits)
qed auto

lemma prune_map:
  assumes "distinct (map fst sns)"
  shows "map_of (pruneOldSnapshots limit sns) = map_of sns
    \<or> (\<exists>i sn. map_of sns i = Some sn \<and> finished (sn_status sn) \<and> limit \<le> length sns
         \<and> map_of (pruneOldSnapshots limit sns) = (map_of sns)(i := None))"
proof (cases "length sns < limit \<or> oldest_finished None sns = None")
  case False
  then obtain b where b: "oldest_finished None sns = Some b" by auto
  from oldest_finished_member [OF this] have "finished (sn_status (snd b))" "b \<in> set sns" by auto
  moreover from this have "map_of sns (fst b) = Some (snd b)" using assms by simp
  moreover have "map_of (pruneOldSnapshots limit sns) = (map_of sns)(fst b := None)"
    using False b by (simp add: pruneOldSnapshots_def delete_conv')
  ultimately show ?thesis using False by (metis not_less)
qed (auto simp: pruneOldSnapshots_def)

lemma prune_distinct: "distinct (map fst sns) \<Longrightarrow> distinct (map fst (pruneOldSnapshots limit sns))"
  by (simp add: pruneOldSnapshots_def distinct_delete split: option.split)

end
