(* ===== verification/Executor_Service.thy ===== *)
theory Executor_Service
  imports Async_Executor
begin

section \<open>\<open>ExecutorService\<close>\<close>

text \<open>
  What the server hands every request to: \<open>handleClientCommand\<close> answers questions about requests,
  runs short statements at once and queues the others. The state is that of the executor, whose log
  and handler the service shares. A request brings along what the code takes from its environment:
  the id that \<open>generateRequestId\<close> returns and two readings of the clock. Then the steps of the whole:
  commands on the thread of the sockets, turns of the worker, and the destructor's request to stop.
\<close>

subsection \<open>Commands\<close>

record environment =
  env_id :: string
  env_start :: time
  env_end :: time

definition executeSync :: "'e handler \<Rightarrow> environment \<Rightarrow> string \<Rightarrow> string \<Rightarrow> ('e exec, string) sx" where
  "executeSync h env query client s =
     (case h query (ex_engine s) of (r, e) \<Rightarrow>
        let s1 = s\<lparr>ex_engine := e\<rparr>;
            entry = (\<lambda>code message. \<lparr>ae_body = query, ae_client = client, ae_handler = ''sync-'' @ env_id env,
                       ae_start = env_start env, ae_end = env_end env, ae_code = code, ae_message = message\<rparr>) in
        case r of
          Inr body \<Rightarrow>
            (Inr (let trimmed = trim body in
                  if trimmed \<noteq> [] \<and> hd trimmed = CHR ''['' then trimmed else buildSyncResponse body (code_of Ok)),
             add_entry (entry (code_of Ok) ''OK'') s1)
        | Inl x \<Rightarrow>
            (case exn_text x of
               None \<Rightarrow> (Inl x, s1)
             | Some m \<Rightarrow>
                 (Inr (buildSyncResponse (''ERROR: '' @ m) (code_of Error)), add_entry (entry (code_of Error) m) s1)))"

definition service_submit :: "'e handler \<Rightarrow> environment \<Rightarrow> string \<Rightarrow> string \<Rightarrow> ('e exec, string) sx" where
  "service_submit h env query client s =
     (if classifyExecutionMode query = Async
      then (Inr (buildAsyncAcceptedResponse (env_id env)), submit_job (env_id env) (env_start env) query client s)
      else executeSync h env query client s)"

definition getStatusJson :: "(time \<Rightarrow> string) \<Rightarrow> string \<Rightarrow> 'e exec \<Rightarrow> string" where
  "getStatusJson ts i s =
     (if \<not> isValidRequestId i then buildErrorResponse ''Invalid request_id format'' (code_of Error)
      else case getStatus i s of
        None \<Rightarrow> buildErrorResponse ''Request not found'' (code_of NotFound)
      | Some info \<Rightarrow> buildStatusResponse ts info)"

definition getResultJson :: "string \<Rightarrow> 'e exec \<Rightarrow> string" where
  "getResultJson i s =
     (if \<not> isValidRequestId i then buildErrorResponse ''Invalid request_id format'' (code_of Error)
      else case getResult i s of
        None \<Rightarrow> buildErrorResponse ''Request not found'' (code_of NotFound)
      | Some info \<Rightarrow> buildResultResponse info)"

definition handleClientCommand :: "'e handler \<Rightarrow> (time \<Rightarrow> string) \<Rightarrow> environment \<Rightarrow> string \<Rightarrow> string \<Rightarrow> ('e exec, string) sx" where
  "handleClientCommand h ts env command client s =
     (case parseApiCommand command of
        GetStatus i \<Rightarrow> (Inr (getStatusJson ts i s), s)
      | GetResult i \<Rightarrow> (Inr (getResultJson i s), s)
      | SubmitQuery q \<Rightarrow> service_submit h env q client s)"

subsection \<open>Steps\<close>

datatype event =
    Submitted job
  | Answered string
  | Asked
  | Executed job
  | Turned
  | Stopping

definition command_event :: "environment \<Rightarrow> string \<Rightarrow> string \<Rightarrow> event" where
  "command_event env command client =
     (case parseApiCommand command of
        SubmitQuery q \<Rightarrow>
          if classifyExecutionMode q = Async then Submitted \<lparr>job_id = env_id env, job_client = client, job_query = q\<rparr>
          else Answered q
      | _ \<Rightarrow> Asked)"

definition turn_event :: "'e exec \<Rightarrow> event" where
  "turn_event s = (case ex_worker s of Began j \<Rightarrow> Executed j | _ \<Rightarrow> Turned)"

inductive service_step :: "'e handler \<Rightarrow> 'e exec \<Rightarrow> event \<Rightarrow> 'e exec \<Rightarrow> bool" for h where
  command: "handleClientCommand h ts env cmd client s = (Inr answer, s') \<Longrightarrow> service_step h s (command_event env cmd client) s'"
| turn: "worker_turn h t t' s = Some s' \<Longrightarrow> service_step h s (turn_event s) s'"
| stop: "service_step h s Stopping (stop_executor s)"

inductive service_run :: "'e handler \<Rightarrow> 'e exec \<Rightarrow> event list \<Rightarrow> 'e exec \<Rightarrow> bool" for h s0 where
  nil: "service_run h s0 [] s0"
| snoc: "service_run h s0 tr s \<Longrightarrow> service_step h s ev s' \<Longrightarrow> service_run h s0 (tr @ [ev]) s'"

inductive_simps service_run_snoc: "service_run h s0 (tr @ [ev]) s"
inductive_simps service_run_nil: "service_run h s0 [] s"

text \<open>
  Every step is one of six, which the proofs of invariants go through: a submission, an answer, a
  question, a request to stop, and the worker's run of a handler or another of its turns.
\<close>

lemma service_step_elim:
  assumes "service_step h s ev s'"
  obtains (submit) i now q client where "ev = Submitted \<lparr>job_id = i, job_client = client, job_query = q\<rparr>" "s' = submit_job i now q client s"
  | (answer) q r e es where "ev = Answered q" "h q (ex_engine s) = (r, e)" "s' = s\<lparr>ex_engine := e, ex_log := es\<rparr>"
  | (asked) "ev = Asked" "s' = s"
  | (turn) t t' where "ev = turn_event s" "worker_turn h t t' s = Some s'"
  | (stop) "ev = Stopping" "s' = stop_executor s"
proof -
  show thesis
    using assms
  proof (cases rule: service_step.cases)
    case (command ts env cmd client answer)
    show thesis
    proof (cases "parseApiCommand cmd")
      case (SubmitQuery q)
      show thesis
      proof (cases "classifyExecutionMode q = Async")
        case True
        then show thesis using command SubmitQuery
          by (intro submit [of "env_id env" client q "env_start env"])
            (simp_all add: handleClientCommand_def service_submit_def command_event_def)
      next
        case False
        obtain r e where h: "h q (ex_engine s) = (r, e)" by (cases "h q (ex_engine s)")
        have ev: "ev = Answered q" using command(1) SubmitQuery False by (simp add: command_event_def)
        have run: "executeSync h env q client s = (Inr answer, s')"
          using command(2) SubmitQuery False by (simp add: handleClientCommand_def service_submit_def)
        then obtain es where "s' = s\<lparr>ex_engine := e, ex_log := es\<rparr>"
          by (auto simp: executeSync_def h add_entry_def Let_def split: sum.splits option.splits)
        then show thesis using answer [OF ev h] by blast
      qed
    qed (use command asked in \<open>simp_all add: handleClientCommand_def command_event_def\<close>)
  qed (use turn stop in blast)+
qed

end
