(* ===== verification/Client.thy ===== *)
theory Client
  imports Executor_Text
begin

section \<open>The client\<close>

text \<open>
  What the client program does with text: it cuts its input into commands (\<open>main_client.cpp\<close>), sends
  each, and asks for the result of those that the server has only accepted (\<open>client_protocol.h\<close>),
  recognising the answers by substrings. Sending is an argument: it hands a command to the server
  and returns its answer, or throws if the connection is lost; so is what happens to the server
  while the client sleeps. \<open>Programs\<close> has \<open>Client::send\<close> and \<open>main\<close> with what it prints.
\<close>

subsection \<open>Substrings\<close>

fun starts_with :: "string \<Rightarrow> string \<Rightarrow> bool" where
  "starts_with [] s = True"
| "starts_with (x # xs) [] = False"
| "starts_with (x # xs) (y # ys) = (x = y \<and> starts_with xs ys)"

fun find_sub :: "string \<Rightarrow> string \<Rightarrow> nat option" where
  \<comment> \<open>\<open>haystack.find(needle)\<close>\<close>
  "find_sub needle [] = (if needle = [] then Some 0 else None)"
| "find_sub needle (c # cs) = (if starts_with needle (c # cs) then Some 0 else map_option Suc (find_sub needle cs))"

definition contains :: "string \<Rightarrow> string \<Rightarrow> bool" where
  "contains haystack needle = (find_sub needle haystack \<noteq> None)"

subsection \<open>\<open>client_protocol.h\<close>\<close>

definition request_id_key :: "string" where
  "request_id_key = double_quoted ''request_id'' @ CHR '':'' # [CHR 0x22]"

definition extractRequestId :: "string \<Rightarrow> string option" where
  "extractRequestId json =
     (case find_sub request_id_key json of
        None \<Rightarrow> None
      | Some pos \<Rightarrow>
          let rest = drop (pos + length request_id_key) json in
          case find_sub [CHR 0x22] rest of
            None \<Rightarrow> None
          | Some n \<Rightarrow> if n = 0 then None else Some (take n rest))"

definition isAsyncAccepted :: "string \<Rightarrow> bool" where
  "isAsyncAccepted response = contains response (json_member ''mode'' (double_quoted ''async''))"

definition isResultReady :: "string \<Rightarrow> bool" where
  "isResultReady response = contains response (json_member ''ready'' ''true'')"

definition result_command :: "string \<Rightarrow> string" where
  "result_command requestId = ''GET RESULT '' @ requestId @ '';''"

fun poll_result :: "(string \<Rightarrow> ('s, string) sx) \<Rightarrow> ('s \<Rightarrow> 's) \<Rightarrow> string \<Rightarrow> string \<Rightarrow> nat \<Rightarrow> ('s, string) sx" where
  \<comment> \<open>the loop of \<open>sendAndWait\<close>, with the attempts that are left\<close>
  "poll_result send sleep response requestId 0 = retS response"
| "poll_result send sleep response requestId (Suc n) =
     bindS (send (result_command requestId)) (\<lambda>resultJson.
     if isResultReady resultJson then retS resultJson
     else bindS (modS sleep) (\<lambda>_. poll_result send sleep response requestId n))"

definition sendAndWait :: "(string \<Rightarrow> ('s, string) sx) \<Rightarrow> ('s \<Rightarrow> 's) \<Rightarrow> nat \<Rightarrow> string \<Rightarrow> ('s, string) sx" where
  "sendAndWait send sleep maxPolls command =
     bindS (send command) (\<lambda>response.
     if \<not> isAsyncAccepted response then retS response
     else case extractRequestId response of
       None \<Rightarrow> retS response
     | Some requestId \<Rightarrow> poll_result send sleep response requestId maxPolls)"

subsection \<open>\<open>main_client.cpp\<close>\<close>

definition trimQuery :: "string \<Rightarrow> string" where
  "trimQuery s = rev (dropWhile (\<lambda>c. c = CHR 0x0D \<or> c = CHR 0x0A \<or> c = CHR '' '' \<or> c = CHR 0x09) (rev s))"

definition isIgnorableQuery :: "string \<Rightarrow> bool" where
  "isIgnorableQuery s = list_all (\<lambda>c. is_space c \<or> c = CHR '';'') s"

fun readQuery :: "string \<Rightarrow> string \<times> string" where
  \<comment> \<open>also \<open>readQueryFromFile\<close>: the query and what is left of the input\<close>
  "readQuery [] = ([], [])"
| "readQuery (c # cs) =
     (if c = CHR '';'' then ([c], cs) else case readQuery cs of (q, rest) \<Rightarrow> (c # q, rest))"

lemma readQuery_parts: "readQuery s = (q, rest) \<Longrightarrow> s = q @ rest"
  by (induction s arbitrary: q) (auto split: if_splits prod.splits)

lemma readQuery_shorter: "readQuery s = (q, rest) \<Longrightarrow> q \<noteq> [] \<Longrightarrow> length rest < length s"
  using readQuery_parts [of s q rest] by (cases q) simp_all

lemma trimQuery_Nil [simp]: "trimQuery [] = []"
  by (simp add: trimQuery_def)

lemma script_rest_shorter: "(q, rest) = readQuery s \<Longrightarrow> trimQuery q \<noteq> [] \<Longrightarrow> length rest < length s"
  using readQuery_shorter [of s q rest] by (cases q) auto

function script_commands :: "string \<Rightarrow> string list" where
  \<comment> \<open>what the loop of \<open>main\<close> sends in script mode\<close>
  "script_commands s =
     (case readQuery s of (q, rest) \<Rightarrow>
        let cmd = trimQuery q in
        if cmd = [] then []
        else if isIgnorableQuery cmd then script_commands rest
        else cmd # script_commands rest)"
  by auto

termination
  by (relation "measure length") (auto intro: script_rest_shorter)

declare script_commands.simps [simp del]

text \<open>
  In interactive mode the loop runs as long as the stream is good, which it is no longer once a query
  ended because there was no more input. It sends the same commands.
\<close>

lemma good_rest_shorter: "(q, rest) = readQuery s \<Longrightarrow> q \<noteq> [] \<Longrightarrow> length rest < length s"
  using readQuery_shorter [of s q rest] by simp

function interactive_commands :: "string \<Rightarrow> string list" where
  "interactive_commands s =
     (case readQuery s of (q, rest) \<Rightarrow>
        let cmd = trimQuery q;
            sent = (if cmd = [] \<or> isIgnorableQuery cmd then [] else [cmd]) in
        if q \<noteq> [] \<and> last q = CHR '';'' then sent @ interactive_commands rest else sent)"
  by auto

termination
  by (relation "measure length") (auto intro: good_rest_shorter)

declare interactive_commands.simps [simp del]

lemma unfinished_query: "readQuery s = (q, rest) \<Longrightarrow> \<not> (q \<noteq> [] \<and> last q = CHR '';'') \<Longrightarrow> rest = []"
  by (induction s arbitrary: q) (auto split: if_splits prod.splits)

lemma trimmed_query: "last q = CHR '';'' \<Longrightarrow> q \<noteq> [] \<Longrightarrow> trimQuery q = q"
  by (cases q rule: rev_cases) (simp_all add: trimQuery_def)

lemma script_commands_Nil [simp]: "script_commands [] = []"
  by (simp add: script_commands.simps)

lemma interactive_as_script: "interactive_commands s = script_commands s"
proof (induction s rule: interactive_commands.induct)
  case (1 s)
  obtain q rest where q: "readQuery s = (q, rest)" by (cases "readQuery s")
  show ?case
  proof (cases "q \<noteq> [] \<and> last q = CHR '';''")
    case True
    then have "interactive_commands rest = script_commands rest" using 1 q by simp
    moreover have "trimQuery q = q" using trimmed_query True by blast
    ultimately show ?thesis using True q by (simp add: interactive_commands.simps [of s] script_commands.simps [of s] Let_def)
  next
    case False
    then have "rest = []" using unfinished_query q by blast
    then show ?thesis using False q by (auto simp: interactive_commands.simps [of s] script_commands.simps [of s] Let_def)
  qed
qed

subsection \<open>Finding substrings\<close>

lemma starts_with_append [simp]: "starts_with xs (xs @ ys)"
  by (induction xs) simp_all

lemma find_sub_skip:
  "list_all (\<lambda>c. c \<noteq> x) xs \<Longrightarrow> find_sub (x # n) (xs @ ys) = map_option (\<lambda>k. length xs + k) (find_sub (x # n) ys)"
  by (cases "find_sub (x # n) ys"; induction xs) auto

lemma contains_middle: "contains (a @ n @ b) n"
proof -
  have "find_sub n (n @ b) \<noteq> None" by (cases "n @ b") (auto split: if_splits, metis starts_with_append)
  then have "find_sub n (a @ n @ b) \<noteq> None" by (induction a) auto
  then show ?thesis by (simp add: contains_def)
qed

subsection \<open>What the server's answers look like to the client\<close>

lemma valid_id_chars:
  assumes "isValidRequestId i"
  shows "length i = 36" and "list_all (\<lambda>c. is_hex c \<or> c = CHR ''-'') i"
proof -
  show "length i = 36" using list_all2_lengthD [OF assms [unfolded isValidRequestId_def]] by (simp add: id_pattern_def)
  have "\<forall>p \<in> set id_pattern. \<forall>c. p c \<longrightarrow> is_hex c \<or> c = CHR ''-''"
    by (auto simp: id_pattern_def is_hex_def is_digit_def char_le_iff)
  then show "list_all (\<lambda>c. is_hex c \<or> c = CHR ''-'') i"
    using assms unfolding isValidRequestId_def list_all2_conv_all_nth list_all_length by (metis nth_mem)
qed

lemma valid_id_plain:
  assumes "isValidRequestId i"
  shows "list_all (\<lambda>c. c \<noteq> CHR 0x22) i" and "escapeJsonString i = i" and "list_all (\<lambda>c. \<not> is_space c) i" and "i \<noteq> []"
    and "\<exists>c i'. i = c # i' \<and> c \<noteq> CHR ''r''"
proof -
  have c: "c \<noteq> CHR 0x22 \<and> escape_char c = [c] \<and> \<not> is_space c \<and> c \<noteq> CHR '';'' \<and> c \<noteq> CHR ''r''" if "is_hex c \<or> c = CHR ''-''" for c
  proof -
    have "45 \<le> (of_char c :: nat)" "of_char c \<noteq> (92 :: nat)" "of_char c \<noteq> (59 :: nat)" "of_char c \<noteq> (114 :: nat)"
      using that by (auto simp: is_hex_def is_digit_def char_le_iff)
    note b = this
    have ne: "c \<noteq> d" if "(of_char d :: nat) < 45 \<or> of_char d = (92 :: nat) \<or> of_char d = (59 :: nat) \<or> of_char d = (114 :: nat)" for d
      using b that by fastforce
    have d: "c \<noteq> CHR 0x22" "c \<noteq> CHR 0x5C" "c \<noteq> CHR 0x08" "c \<noteq> CHR 0x0C" "c \<noteq> CHR 0x0A" "c \<noteq> CHR 0x0D" "c \<noteq> CHR 0x09"
      "c \<noteq> CHR '' ''" "c \<noteq> CHR '';''" "c \<noteq> CHR ''r''" by (rule ne, simp)+
    have "\<not> (of_char c :: nat) < 32" "\<not> (of_char c :: nat) \<le> 13" using b(1) by linarith+
    then show ?thesis using d by (simp add: escape_char_def is_space_def char_le_iff)
  qed
  note v = valid_id_chars [OF assms]
  show "list_all (\<lambda>c. c \<noteq> CHR 0x22) i" "list_all (\<lambda>c. \<not> is_space c) i" using v(2) c by (auto simp: list_all_iff)
  show "escapeJsonString i = i" using v(2) c unfolding escapeJsonString_def by (induction i) (auto simp: list_all_iff)
  show "i \<noteq> []" using v(1) by auto
  then show "\<exists>c i'. i = c # i' \<and> c \<noteq> CHR ''r''" using v(2) c by (cases i) auto
qed

lemma accepted_is_recognised:
  assumes "isValidRequestId i"
  shows "isAsyncAccepted (buildAsyncAcceptedResponse i)" and "extractRequestId (buildAsyncAcceptedResponse i) = Some i"
proof -
  let ?r = "buildAsyncAcceptedResponse i"
  note p = valid_id_plain [OF assms]
  show "isAsyncAccepted ?r"
    unfolding isAsyncAccepted_def buildAsyncAcceptedResponse_def by (rule contains_middle)
  have r: "?r = (''{'' @ json_member ''mode'' (double_quoted ''async'') @ '','') @ request_id_key @ i @ [CHR 0x22] @ ''}''"
    by (simp add: buildAsyncAcceptedResponse_def json_member_def request_id_key_def json_string_def double_quoted_def p(2))
  have pos: "find_sub request_id_key ?r = Some (length (''{'' @ json_member ''mode'' (double_quoted ''async'') @ '',''))"
    unfolding r by (simp add: json_member_def request_id_key_def double_quoted_def)
  have "find_sub [CHR 0x22] (i @ [CHR 0x22] @ ''}'') = Some (length i)"
    using find_sub_skip [OF p(1), of "[]" "[CHR 0x22] @ ''}''"] by simp
  moreover have "drop (length (''{'' @ json_member ''mode'' (double_quoted ''async'') @ '','') + length request_id_key) ?r = i @ [CHR 0x22] @ ''}''"
    unfolding r by simp
  ultimately show "extractRequestId ?r = Some i" using p(4) unfolding extractRequestId_def pos by (simp add: Let_def)
qed

lemma unready_is_recognised:
  assumes "isValidRequestId i"
  shows "\<not> isResultReady (buildResultResponse \<lparr>ri_ready = False, ri_id = i, ri_status = Pending, ri_result = a, ri_error = b\<rparr>)"
proof -
  note p = valid_id_plain [OF assms]
  obtain c i' where i: "i = c # i'" "c \<noteq> CHR ''r''" using p(5) by blast
  let ?needle = "json_member ''ready'' ''true''"
  have n: "?needle = CHR 0x22 # CHR ''r'' # CHR ''e'' # CHR ''a'' # CHR ''d'' # CHR ''y'' # CHR 0x22 # '':true''"
    by (simp add: json_member_def double_quoted_def)
  let ?tail = "CHR 0x22 # '','' @ json_member ''ready'' ''false'' @ '','' @ json_member ''status'' (double_quoted ''pending'') @ ''}''"
  have "find_sub ?needle ?tail = None" by (simp add: json_member_def double_quoted_def)
  then have tail: "find_sub ?needle (i @ ?tail) = None" using find_sub_skip [OF p(1)] unfolding n by simp
  have "buildResultResponse \<lparr>ri_ready = False, ri_id = i, ri_status = Pending, ri_result = a, ri_error = b\<rparr>
      = ''{'' @ request_id_key @ i @ ?tail"
    by (simp add: buildResultResponse_def json_member_def request_id_key_def json_string_def double_quoted_def p(2) split: option.split)
  moreover have "find_sub ?needle (''{'' @ request_id_key @ i @ ?tail) = None"
    using tail i unfolding n by (simp add: request_id_key_def double_quoted_def)
  ultimately show ?thesis by (simp add: isResultReady_def contains_def)
qed

lemma ready_is_recognised: "ri_ready info \<Longrightarrow> isResultReady (buildResultResponse info)"
  using contains_middle [of "''{'' @ json_member ''request_id'' (json_string (ri_id info)) @ '',''" "json_member ''ready'' ''true''"]
  by (simp add: isResultReady_def buildResultResponse_def)

lemma result_command_parses:
  assumes "isValidRequestId i"
  shows "parseApiCommand (result_command i) = GetResult i"
proof -
  note p = valid_id_plain [OF assms]
  have t: "trim (result_command i) = result_command i" by (rule trim_word) (simp_all add: result_command_def is_space_def)
  have "\<not> is_space (last i)" using p(3,4) by (simp add: list_all_iff)
  then have "trim (''GET RESULT '' @ i) = ''GET RESULT '' @ i" using p(4) by (intro trim_word) (simp_all add: is_space_def)
  then have "removeOptionalSemicolon (result_command i) = ''GET RESULT '' @ i"
    by (simp add: removeOptionalSemicolon_def result_command_def butlast_append)
  moreover have "splitBySpace (''GET RESULT '' @ i) = [''GET'', ''RESULT'', i]"
    using three_words [of "''GET''" "''RESULT''" i] p(3,4) by (simp add: is_space_def)
  moreover have "toUpperAscii ''GET'' = ''GET''" "toUpperAscii ''RESULT'' = ''RESULT''" by code_simp+
  ultimately show ?thesis by (simp add: parseApiCommand_def t Let_def)
qed

end
