(* ===== verification/Session.thy ===== *)
theory Session
  imports Executor_Service Client
begin

section \<open>Frames and sessions\<close>

text \<open>
  A request and an answer each travel as a frame: the length as four bytes, little end first, and
  the bytes. \<open>Session\<close> (\<open>server_socket.cpp\<close>) reads a frame, hands its body to the handler, writes the
  frame of the answer and starts again, until the client closes the connection or sends a length
  it does not accept. The stream of a session is everything the client will have sent when it closes;
  the asynchronous calls of one session follow each other, so that the session is a loop. \<open>Server_Net\<close>
  has the callbacks themselves, of all sessions, with operations that fail and the connection log, and proves
  that the callbacks of a session amount to this loop.
\<close>

subsection \<open>Frames\<close>

definition frame :: "string \<Rightarrow> char list" where
  \<comment> \<open>what \<open>Client::send\<close> and \<open>Session::sendResponse\<close> write; the length is cut to 32 bits\<close>
  "frame s = le_bytes 4 (length s mod 2 ^ 32) @ s"

definition read_frame :: "char list \<Rightarrow> (string \<times> char list) option" where
  \<comment> \<open>the second half of \<open>Client::send\<close>; None when the connection is closed too early\<close>
  "read_frame bs =
     (if length bs < 4 then None
      else let n = le_nat (take 4 bs); rest = drop 4 bs in
        if length rest < n then None else Some (take n rest, drop n rest))"

fun read_frames :: "nat \<Rightarrow> char list \<Rightarrow> string list option" where
  \<comment> \<open>the answers to so many commands\<close>
  "read_frames 0 bs = Some []"
| "read_frames (Suc n) bs =
     (case read_frame bs of None \<Rightarrow> None | Some (r, rest) \<Rightarrow> map_option ((#) r) (read_frames n rest))"

lemma read_frame_frame [simp]: "length s < 2 ^ 32 \<Longrightarrow> read_frame (frame s @ rest) = Some (s, rest)"
  by (simp add: read_frame_def frame_def Let_def)

lemma read_frames_frames [simp]:
  "list_all (\<lambda>s. length s < 2 ^ 32) rs \<Longrightarrow> read_frames (length rs) (concat (map frame rs)) = Some rs"
  by (induction rs) simp_all

subsection \<open>\<open>Session\<close>\<close>

definition kMaxRequestBodySize :: nat where
  "kMaxRequestBodySize = 4 * 1024 * 1024"

definition answer_request :: "(string \<Rightarrow> string \<Rightarrow> ('s, string) sx) \<Rightarrow> string \<Rightarrow> string \<Rightarrow> ('s, string) sx" where
  \<comment> \<open>the handler, with its exceptions caught\<close>
  "answer_request handler client body s =
     (case handler body client s of
        (Inr response, s') \<Rightarrow> (Inr response, s')
      | (Inl e, s') \<Rightarrow>
          (case exn_text e of
             Some m \<Rightarrow> (Inr (buildErrorResponse m (code_of Error)), s')
           | None \<Rightarrow> (Inl e, s')))"

definition read_body :: "char list \<Rightarrow> (string \<times> char list) option" where
  \<comment> \<open>\<open>readRequest\<close> and \<open>readBody\<close> up to the handler; None ends the session\<close>
  "read_body inp =
     (if length inp < 4 then None
      else let bodySize = le_nat (take 4 inp); rest = drop 4 inp in
        if bodySize = 0 \<or> bodySize > kMaxRequestBodySize then None
        else if length rest < bodySize then None
        else Some (take bodySize rest, drop bodySize rest))"

lemma read_body_shorter: "read_body inp = Some (body, rest) \<Longrightarrow> length rest < length inp"
  by (auto simp: read_body_def Let_def split: if_splits)

function serve :: "(string \<Rightarrow> string \<Rightarrow> ('s, string) sx) \<Rightarrow> string \<Rightarrow> char list \<Rightarrow> ('s \<times> char list, unit) sx" where
  \<comment> \<open>the state of the server and the bytes written so far\<close>
  "serve handler client inp (s, out) =
     (case read_body inp of
        None \<Rightarrow> (Inr (), (s, out))
      | Some (body, rest) \<Rightarrow>
          (case answer_request handler client body s of
             (Inl e, s') \<Rightarrow> (Inl e, (s', out))
           | (Inr response, s') \<Rightarrow> serve handler client rest (s', out @ frame response)))"
  by auto

termination
  by (relation "measure (\<lambda>(handler, client, inp, s, out). length inp)") (auto simp: read_body_shorter)

declare serve.simps [simp del]

subsection \<open>\<open>Server\<close>\<close>

definition accept_client :: "32 word \<Rightarrow> string \<times> 32 word" where
  \<comment> \<open>the name of the next client, and \<open>nextClientId_\<close> afterwards\<close>
  "accept_client n = (''client_'' @ decimal (uint n), n + 1)"

subsection \<open>The answers of a session\<close>

fun answers :: "(string \<Rightarrow> ('s, string) sx) \<Rightarrow> string list \<Rightarrow> ('s, string list) sx" where
  \<comment> \<open>the specification: one command after the other\<close>
  "answers ask [] = retS []"
| "answers ask (c # cs) = bindS (ask c) (\<lambda>r. bindS (answers ask cs) (\<lambda>rs. retS (r # rs)))"

lemma read_body_frame:
  "c \<noteq> [] \<Longrightarrow> length c \<le> kMaxRequestBodySize \<Longrightarrow> read_body (frame c @ rest) = Some (c, rest)"
  by (simp add: read_body_def frame_def kMaxRequestBodySize_def Let_def)

lemma serve_frames:
  assumes "list_all (\<lambda>c. c \<noteq> [] \<and> length c \<le> kMaxRequestBodySize) cs" and "answers (answer_request handler client) cs s = (Inr rs, s')"
  shows "serve handler client (concat (map frame cs) @ rest) (s, out) = serve handler client rest (s', out @ concat (map frame rs))"
  using assms
proof (induction cs arbitrary: s out rs)
  case (Cons c cs)
  from Cons.prems(2) obtain r s1 rs' where r: "answer_request handler client c s = (Inr r, s1)"
    "answers (answer_request handler client) cs s1 = (Inr rs', s')" "rs = r # rs'"
    by (auto simp: bindS_eq_Inr)
  have "read_body (concat (map frame (c # cs)) @ rest) = Some (c, concat (map frame cs) @ rest)"
    using Cons.prems(1) read_body_frame by simp
  then have "serve handler client (concat (map frame (c # cs)) @ rest) (s, out)
      = serve handler client (concat (map frame cs) @ rest) (s1, out @ frame r)"
    using r(1) by (subst serve.simps) simp
  also have "\<dots> = serve handler client rest (s', (out @ frame r) @ concat (map frame rs'))"
    by (rule Cons.IH) (use Cons.prems(1) r in simp_all)
  finally show ?case using r(3) by simp
qed simp

lemma serve_refuses:
  assumes "c = [] \<or> kMaxRequestBodySize < length c" and "length c < 2 ^ 32"
  shows "serve handler client (frame c @ rest) (s, out) = (Inr (), (s, out))"
proof -
  have "read_body (frame c @ rest) = None" using assms by (auto simp: read_body_def frame_def Let_def)
  then show ?thesis by (simp add: serve.simps)
qed

end
