(* ===== verification/Server_Main.thy ===== *)
theory Server_Main
  imports Session Query_Engine
begin

section \<open>The server program\<close>

text \<open>
  How \<open>main_server.cpp\<close> puts the parts together: the query engine is the handler of the executor
  service, and the service's commands are what a session calls. The limit of the service is the default
  of \<open>ExecutorConfig\<close>. An exception of the engine's constructor is outside of every \<open>try\<close> and ends the
  process. Then the lines of the connection log (\<open>logger.cpp\<close>). \<open>Programs\<close> has \<open>main\<close> as a whole.
\<close>

subsection \<open>\<open>main\<close>\<close>

fun parse_port :: "string \<Rightarrow> string + 32 word" where
  \<comment> \<open>the same in client and server: the message, or the port\<close>
  "parse_port arg =
     (case stoi arg of
        Inl e \<Rightarrow> Inl (''Invalid port: '' @ arg)
      | Inr port \<Rightarrow> if sint port < 0 \<or> sint port > 65535 then Inl ''Invalid port number'' else Inr port)"

definition default_limit :: nat where
  "default_limit = 4096"

definition start_service :: "'e \<Rightarrow> 'e exec" where
  \<comment> \<open>the constructor of \<open>ExecutorService\<close>, with a logger\<close>
  "start_service e = start_executor e default_limit True"

definition start_server :: "(string \<times> directory) list \<Rightarrow> exn + engine exec" where
  "start_server root =
     (case start_engine root of Inl e \<Rightarrow> Inl Terminated | Inr e \<Rightarrow> Inr (start_service e))"

definition server_handler :: "regex \<Rightarrow> (time \<Rightarrow> string) \<Rightarrow> environment \<Rightarrow> string \<Rightarrow> string \<Rightarrow> (engine exec, string) sx" where
  "server_handler rx ts io query client = handleClientCommand (execute rx) ts io query client"

subsection \<open>The connection log\<close>

definition logConnect :: "(time \<Rightarrow> string) \<Rightarrow> time \<Rightarrow> string \<Rightarrow> string" where
  "logConnect ts now client = ''[CONNECT] client_id='' @ client @ '' time='' @ ts now @ [CHR 0x0A]"

definition logDisconnect :: "(time \<Rightarrow> string) \<Rightarrow> time \<Rightarrow> string \<Rightarrow> string" where
  "logDisconnect ts now client = ''[DISCONNECT] client_id='' @ client @ '' time='' @ ts now @ [CHR 0x0A]"

definition logRequestLine :: "(time \<Rightarrow> string) \<Rightarrow> access_entry \<Rightarrow> string" where
  \<comment> \<open>\<open>Logger::logRequest\<close>, whose record has the fields of an access log entry\<close>
  "logRequestLine ts e =
     ''[REQUEST] client_id='' @ ae_client e @ '' handler_id='' @ ae_handler e @ '' start='' @ ts (ae_start e)
     @ '' end='' @ ts (ae_end e) @ '' duration_ms='' @ decimal (duration_ms (ae_start e) (ae_end e))
     @ '' status='' @ (if ae_code e = 0 then ''OK'' else ''ERROR'') @ '' status_msg='' @ double_quoted (ae_message e)
     @ '' body='' @ double_quoted (ae_body e) @ [CHR 0x0A]"

subsection \<open>The first statement\<close>

lemma port_range: "parse_port arg = Inr p \<Longrightarrow> 0 \<le> sint p \<and> sint p \<le> 65535"
  by (auto split: sum.splits if_splits)

lemma empty_server: "start_server [] = Inr (start_service \<lparr>eng_dbms =
    \<lparr>dbms_pool = new_pool, dbms_databases = [], dbms_active = [], dbms_root = []\<rparr>, eng_used_index = False\<rparr>)"
  by (simp add: start_server_def start_engine_def load_all_def attach_indexes_for_loaded_data_def bindS_def)

lemma create_database_text: "parse_text (with_semicolon_if_missing ''CREATE DATABASE d;'') = Inr (CreateDatabaseCmd ''d'')"
  by code_simp

text \<open>A server on an empty directory that is sent its first statement.\<close>

lemma first_statement:
  obtains e where "execute rx ''CREATE DATABASE d;'' \<lparr>eng_dbms =
      \<lparr>dbms_pool = new_pool, dbms_databases = [], dbms_active = [], dbms_root = []\<rparr>, eng_used_index = False\<rparr> = (Inr ''OK'', e)"
    "dbms_databases (eng_dbms e) = [(''d'', [])]"
proof -
  let ?s = "\<lparr>dbms_pool = new_pool, dbms_databases = [], dbms_active = [], dbms_root = []\<rparr> :: dbms"
  have "create_database ''d'' ?s = (Inr (), create_directory ''d'' (?s\<lparr>dbms_databases := [(''d'', [])]\<rparr>))"
    by (simp add: create_database_def has_database_def)
  moreover obtain s1 where s1: "save_all (create_directory ''d'' (?s\<lparr>dbms_databases := [(''d'', [])]\<rparr>)) = (Inr (), s1)"
    "dbms_databases s1 = [(''d'', [])]"
    by (simp add: save_all_def save_database_def require_database_def create_directory_def save_to_def bindS_def
        set_directory_def directory_of_def split: prod.split)
  ultimately have "execute_create_database ''d'' ?s = (Inr ''OK'', s1)"
    by (simp add: execute_create_database_def bindS_def OK_def)
  then have "execute rx ''CREATE DATABASE d;'' \<lparr>eng_dbms = ?s, eng_used_index = False\<rparr>
      = (Inr ''OK'', \<lparr>eng_dbms = s1, eng_used_index = False\<rparr>)"
    by (simp add: execute_def create_database_text on_dbms_def)
  from that [OF this] show thesis using s1(2) by simp
qed

end
