(* ===== verification/Server_Net.thy ===== *)
theory Server_Net
  imports Server_Main
begin

section \<open>The server and its connections\<close>

text \<open>
  \<open>server_socket.cpp\<close> as what it is: callbacks that the event loop of \<open>main\<close> runs one after the other, on
  one thread. A connection is in one of four phases, between the callbacks of its session: it waits for
  the length of a request, for its body, or for its answer to be written, or it is over. The
  network decides when bytes arrive, when an operation fails and how much of a failed write has
  gone out, so these are steps of their own. What the handler works on may also change between
  two callbacks, because another thread works on it: \<open>work\<close> says how. The begin and the end of a session are
  written to the connection log. A callback whose handler throws what is no \<open>std::exception\<close> ends the process
  and is no step.
\<close>

subsection \<open>Sessions\<close>

datatype phase = ReadingSize | ReadingBody nat | Writing string | Over

record session =
  se_client :: string
  se_phase :: phase
  se_in :: "char list" \<comment> \<open>bytes that have arrived and are not read yet\<close>
  se_out :: "char list" \<comment> \<open>all bytes written\<close>

datatype log_line = Connect time string | Disconnect time string

fun line_text :: "(time \<Rightarrow> string) \<Rightarrow> log_line \<Rightarrow> string" where
  "line_text ts (Connect t c) = logConnect ts t c"
| "line_text ts (Disconnect t c) = logDisconnect ts t c"

fun line_client :: "log_line \<Rightarrow> string" where
  "line_client (Connect t c) = c"
| "line_client (Disconnect t c) = c"

fun is_connect :: "log_line \<Rightarrow> bool" where
  "is_connect (Connect t c) = True"
| "is_connect (Disconnect t c) = False"

definition new_session :: "string \<Rightarrow> session" where
  \<comment> \<open>the constructor and \<open>start\<close>\<close>
  "new_session client = \<lparr>se_client = client, se_phase = ReadingSize, se_in = [], se_out = []\<rparr>"

definition disconnect :: "time \<Rightarrow> session \<Rightarrow> session \<times> log_line list" where
  "disconnect now s = (s\<lparr>se_phase := Over\<rparr>, [Disconnect now (se_client s)])"

definition bytes_arrived :: "char list \<Rightarrow> session \<Rightarrow> session" where
  "bytes_arrived bytes s = s\<lparr>se_in := se_in s @ bytes\<rparr>"

definition size_read :: "time \<Rightarrow> session \<Rightarrow> session \<times> log_line list" where
  \<comment> \<open>the callback of \<open>readRequest\<close>, without an error\<close>
  "size_read now s =
     (let bodySize = le_nat (take 4 (se_in s)); s1 = s\<lparr>se_in := drop 4 (se_in s)\<rparr> in
      if bodySize = 0 \<or> bodySize > kMaxRequestBodySize then disconnect now s1
      else (s1\<lparr>se_phase := ReadingBody bodySize\<rparr>, []))"

definition body_read :: "nat \<Rightarrow> string \<Rightarrow> session \<Rightarrow> session" where
  \<comment> \<open>the callback of \<open>readBody\<close> once the handler has answered, with \<open>sendResponse\<close>\<close>
  "body_read bodySize response s = s\<lparr>se_in := drop bodySize (se_in s), se_phase := Writing response\<rparr>"

definition response_written :: "string \<Rightarrow> session \<Rightarrow> session" where
  \<comment> \<open>the callback of \<open>sendResponse\<close>, without an error\<close>
  "response_written response s = s\<lparr>se_out := se_out s @ frame response, se_phase := ReadingSize\<rparr>"

subsection \<open>The server\<close>

record 's net =
  net_server :: 's \<comment> \<open>what the handler works on\<close>
  net_next :: "32 word" \<comment> \<open>\<open>nextClientId_\<close>\<close>
  net_sessions :: "session list" \<comment> \<open>one per accepted connection\<close>
  net_log :: "log_line list"

definition start_net :: "'s \<Rightarrow> 's net" where
  "start_net s = \<lparr>net_server = s, net_next = 1, net_sessions = [], net_log = []\<rparr>"

definition accepted :: "time \<Rightarrow> 's net \<Rightarrow> 's net" where
  \<comment> \<open>the callback of \<open>accept\<close>, without an error; with one it does nothing\<close>
  "accepted now n =
     (case accept_client (net_next n) of (client, following) \<Rightarrow>
        n\<lparr>net_next := following, net_log := net_log n @ [Connect now client], net_sessions := net_sessions n @ [new_session client]\<rparr>)"

definition set_session :: "nat \<Rightarrow> session \<Rightarrow> 's net \<Rightarrow> 's net" where
  "set_session i s n = n\<lparr>net_sessions := (net_sessions n)[i := s]\<rparr>"

definition set_logged :: "nat \<Rightarrow> session \<times> log_line list \<Rightarrow> 's net \<Rightarrow> 's net" where
  "set_logged i r n = (case r of (s, l) \<Rightarrow> set_session i s (n\<lparr>net_log := net_log n @ l\<rparr>))"

datatype net_event =
    Joined
  | Arrived nat "char list"
  | Handled nat string string \<comment> \<open>the body and the answer to it\<close>
  | Silent

inductive net_step :: "(string \<Rightarrow> string \<Rightarrow> ('s, string) sx) \<Rightarrow> ('s \<Rightarrow> 's \<Rightarrow> bool) \<Rightarrow> 's net \<Rightarrow> net_event \<Rightarrow> 's net \<Rightarrow> bool"
  for handler work where
  work: "work (net_server n) server \<Longrightarrow> net_step handler work n Silent (n\<lparr>net_server := server\<rparr>)"
| join: "net_step handler work n Joined (accepted now n)"
| arrive: "i < length (net_sessions n) \<Longrightarrow> s = net_sessions n ! i
    \<Longrightarrow> net_step handler work n (Arrived i bytes) (set_session i (bytes_arrived bytes s) n)"
| size: "i < length (net_sessions n) \<Longrightarrow> s = net_sessions n ! i \<Longrightarrow> se_phase s = ReadingSize \<Longrightarrow> 4 \<le> length (se_in s)
    \<Longrightarrow> net_step handler work n Silent (set_logged i (size_read now s) n)"
| body: "i < length (net_sessions n) \<Longrightarrow> s = net_sessions n ! i \<Longrightarrow> se_phase s = ReadingBody k \<Longrightarrow> k \<le> length (se_in s)
    \<Longrightarrow> answer_request handler (se_client s) (take k (se_in s)) (net_server n) = (Inr response, server)
    \<Longrightarrow> net_step handler work n (Handled i (take k (se_in s)) response) (set_session i (body_read k response s) (n\<lparr>net_server := server\<rparr>))"
| written: "i < length (net_sessions n) \<Longrightarrow> s = net_sessions n ! i \<Longrightarrow> se_phase s = Writing response
    \<Longrightarrow> net_step handler work n Silent (set_session i (response_written response s) n)"
| read_fails: "i < length (net_sessions n) \<Longrightarrow> s = net_sessions n ! i \<Longrightarrow> se_phase s = ReadingSize \<or> se_phase s = ReadingBody k
    \<Longrightarrow> net_step handler work n Silent (set_logged i (disconnect now s) n)"
| write_fails: "i < length (net_sessions n) \<Longrightarrow> s = net_sessions n ! i \<Longrightarrow> se_phase s = Writing response
    \<Longrightarrow> net_step handler work n Silent (set_logged i (disconnect now (s\<lparr>se_out := se_out s @ take k (frame response)\<rparr>)) n)"

inductive net_run :: "(string \<Rightarrow> string \<Rightarrow> ('s, string) sx) \<Rightarrow> ('s \<Rightarrow> 's \<Rightarrow> bool) \<Rightarrow> 's \<Rightarrow> net_event list \<Rightarrow> 's net \<Rightarrow> bool"
  for handler work s0 where
  nil: "net_run handler work s0 [] (start_net s0)"
| snoc: "net_run handler work s0 tr n \<Longrightarrow> net_step handler work n ev n' \<Longrightarrow> net_run handler work s0 (tr @ [ev]) n'"

inductive_simps net_run_Nil: "net_run handler work s0 [] n"
inductive_simps net_run_snoc: "net_run handler work s0 (tr @ [ev]) n"

subsection \<open>What a run did\<close>

fun arrivals :: "nat \<Rightarrow> net_event list \<Rightarrow> char list" where
  \<comment> \<open>the bytes that have arrived on a connection\<close>
  "arrivals i [] = []"
| "arrivals i (ev # tr) = (case ev of Arrived j bytes \<Rightarrow> if j = i then bytes else [] | _ \<Rightarrow> []) @ arrivals i tr"

fun handled :: "net_event list \<Rightarrow> (nat \<times> string \<times> string) list" where
  \<comment> \<open>all calls of the handler\<close>
  "handled [] = []"
| "handled (ev # tr) = (case ev of Handled j q r \<Rightarrow> [(j, q, r)] | _ \<Rightarrow> []) @ handled tr"

definition exchanges :: "nat \<Rightarrow> net_event list \<Rightarrow> (string \<times> string) list" where
  \<comment> \<open>the requests of a connection and their answers\<close>
  "exchanges i tr = map snd (filter (\<lambda>c. fst c = i) (handled tr))"

inductive served :: "(string \<Rightarrow> string \<Rightarrow> ('s, string) sx) \<Rightarrow> ('s \<Rightarrow> 's \<Rightarrow> bool) \<Rightarrow> (nat \<Rightarrow> string) \<Rightarrow> 's
    \<Rightarrow> (nat \<times> string \<times> string) list \<Rightarrow> 's \<Rightarrow> bool" for handler work client s0 where
  \<comment> \<open>the specification: the handler called for one request after the other, with work in between\<close>
  idle: "served handler work client s0 [] s0"
| call: "served handler work client s0 cs s \<Longrightarrow> answer_request handler (client i) q s = (Inr r, s')
    \<Longrightarrow> served handler work client s0 (cs @ [(i, q, r)]) s'"
| work: "served handler work client s0 cs s \<Longrightarrow> work s s' \<Longrightarrow> served handler work client s0 cs s'"

lemma arrivals_append [simp]: "arrivals i (tr @ tr') = arrivals i tr @ arrivals i tr'"
  by (induction tr) simp_all

lemma handled_append [simp]: "handled (tr @ tr') = handled tr @ handled tr'"
  by (induction tr) simp_all

lemma exchanges_append: "exchanges i (tr @ tr') = exchanges i tr @ exchanges i tr'"
  by (simp add: exchanges_def)

lemma exchanges_simps [simp]:
  "exchanges i [] = []"
  "exchanges i (tr @ [ev]) = exchanges i tr @ (case ev of Handled j q r \<Rightarrow> if j = i then [(q, r)] else [] | _ \<Rightarrow> [])"
  by (simp_all add: exchanges_def split: net_event.split)

lemma exchanges_single [simp]: "exchanges i [ev] = (case ev of Handled j q r \<Rightarrow> if j = i then [(q, r)] else [] | _ \<Rightarrow> [])"
  by (simp add: exchanges_def split: net_event.split)

definition requests :: "(string \<times> string) list \<Rightarrow> char list" where
  "requests xs = concat (map (\<lambda>(q, r). frame q) xs)"

definition responses :: "(string \<times> string) list \<Rightarrow> char list" where
  "responses xs = concat (map (\<lambda>(q, r). frame r) xs)"

lemma requests_simps [simp]: "requests [] = []" "requests (xs @ [(q, r)]) = requests xs @ frame q"
  by (simp_all add: requests_def)

lemma responses_simps [simp]: "responses [] = []" "responses (xs @ [(q, r)]) = responses xs @ frame r"
  by (simp_all add: responses_def)

subsection \<open>The invariant of a session\<close>

fun session_inv :: "char list \<Rightarrow> (string \<times> string) list \<Rightarrow> session \<Rightarrow> bool" where
  "session_inv inp xs s =
     (case se_phase s of
        ReadingSize \<Rightarrow> inp = requests xs @ se_in s \<and> se_out s = responses xs
      | ReadingBody k \<Rightarrow> 0 < k \<and> k \<le> kMaxRequestBodySize \<and> inp = requests xs @ le_bytes 4 k @ se_in s \<and> se_out s = responses xs
      | Writing r \<Rightarrow> inp = requests xs @ se_in s \<and> se_out s @ frame r = responses xs
      | Over \<Rightarrow> (\<exists>lost. inp = requests xs @ lost) \<and> (\<exists>lost. se_out s @ lost = responses xs))"

declare session_inv.simps [simp del]

lemmas session_phases = session_inv.simps disconnect_def size_read_def body_read_def response_written_def

definition acceptable :: "string \<times> string \<Rightarrow> bool" where
  "acceptable x \<longleftrightarrow> fst x \<noteq> [] \<and> length (fst x) \<le> kMaxRequestBodySize"

lemma inv_arrive: "session_inv inp xs s \<Longrightarrow> session_inv (inp @ bytes) xs (bytes_arrived bytes s)"
  by (auto simp: session_inv.simps bytes_arrived_def split: phase.splits)

lemma inv_size:
  assumes "session_inv inp xs s" and "se_phase s = ReadingSize" and "4 \<le> length (se_in s)"
  shows "session_inv inp xs (fst (size_read now s))"
proof -
  have "le_bytes 4 (le_nat (take 4 (se_in s))) = take 4 (se_in s)" using assms(3) by simp
  then have "se_in s = le_bytes 4 (le_nat (take 4 (se_in s))) @ drop 4 (se_in s)" by (metis append_take_drop_id)
  then show ?thesis using assms(1,2) by (auto simp: session_phases Let_def)
qed

lemma inv_body:
  assumes "session_inv inp xs s" and "se_phase s = ReadingBody k" and "k \<le> length (se_in s)"
  shows "session_inv inp (xs @ [(take k (se_in s), r)]) (body_read k r s)" and "acceptable (take k (se_in s), r)"
proof -
  have k: "0 < k" "k \<le> kMaxRequestBodySize" using assms(1,2) by (simp_all add: session_inv.simps)
  then have "frame (take k (se_in s)) = le_bytes 4 k @ take k (se_in s)"
    using assms(3) by (simp add: frame_def kMaxRequestBodySize_def)
  then show "session_inv inp (xs @ [(take k (se_in s), r)]) (body_read k r s)"
    using assms(1,2) by (simp add: session_phases)
  have "se_in s \<noteq> []" using k(1) assms(3) by auto
  then show "acceptable (take k (se_in s), r)" using k assms(3) by (simp add: acceptable_def)
qed

lemma inv_written: "session_inv inp xs s \<Longrightarrow> se_phase s = Writing r \<Longrightarrow> session_inv inp xs (response_written r s)"
  by (simp add: session_phases)

lemma inv_disconnect: "session_inv inp xs s \<Longrightarrow> session_inv inp xs (fst (disconnect now s))"
  by (auto simp: session_phases split: phase.splits)

lemma inv_write_fails:
  assumes "session_inv inp xs s" and "se_phase s = Writing r"
  shows "session_inv inp xs (fst (disconnect now (s\<lparr>se_out := se_out s @ take k (frame r)\<rparr>)))"
proof -
  have "(se_out s @ take k (frame r)) @ drop k (frame r) = responses xs" using assms by (simp add: session_inv.simps)
  then have "\<exists>lost. (se_out s @ take k (frame r)) @ lost = responses xs" by blast
  then show ?thesis using assms by (simp add: session_phases)
qed

subsection \<open>The invariant of the server\<close>

definition client_name :: "nat \<Rightarrow> string" where
  \<comment> \<open>of the connection that was accepted after so many others\<close>
  "client_name i = fst (accept_client (1 + of_nat i))"

definition log_of :: "nat \<Rightarrow> 's net \<Rightarrow> bool list" where
  \<comment> \<open>the lines of the log about a client: True for a connect, False for a disconnect\<close>
  "log_of i n = map is_connect (filter (\<lambda>l. line_client l = client_name i) (net_log n))"

definition sessions_inv :: "net_event list \<Rightarrow> 's net \<Rightarrow> bool" where
  "sessions_inv tr n \<longleftrightarrow>
     (\<forall>i. (i < length (net_sessions n) \<longrightarrow> se_client (net_sessions n ! i) = client_name i
             \<and> session_inv (arrivals i tr) (exchanges i tr) (net_sessions n ! i))
        \<and> (length (net_sessions n) \<le> i \<longrightarrow> arrivals i tr = [] \<and> exchanges i tr = [])
        \<and> list_all acceptable (exchanges i tr))"

lemma sessions_invD:
  assumes "sessions_inv tr n"
  shows "i < length (net_sessions n) \<Longrightarrow> se_client (net_sessions n ! i) = client_name i"
    and "i < length (net_sessions n) \<Longrightarrow> session_inv (arrivals i tr) (exchanges i tr) (net_sessions n ! i)"
    and "length (net_sessions n) \<le> i \<Longrightarrow> arrivals i tr = [] \<and> exchanges i tr = []"
    and "list_all acceptable (exchanges i tr)"
  using assms by (auto simp: sessions_inv_def)

lemma set_session_simps [simp]:
  "net_server (set_session i s n) = net_server n" "net_next (set_session i s n) = net_next n"
  "net_log (set_session i s n) = net_log n" "net_sessions (set_session i s n) = (net_sessions n)[i := s]"
  by (simp_all add: set_session_def)

lemma set_logged_simps [simp]:
  "net_server (set_logged i r n) = net_server n" "net_next (set_logged i r n) = net_next n"
  "net_log (set_logged i r n) = net_log n @ snd r" "net_sessions (set_logged i r n) = (net_sessions n)[i := fst r]"
  by (simp_all add: set_logged_def split: prod.split)

lemma sessions_inv_change:
  assumes "sessions_inv tr n" and "i < length (net_sessions n)" and "net_sessions n' = (net_sessions n)[i := s]"
    and "se_client s = se_client (net_sessions n ! i)"
    and "session_inv (arrivals i (tr @ [ev])) (exchanges i (tr @ [ev])) s"
    and "\<And>j. j \<noteq> i \<Longrightarrow> arrivals j [ev] = [] \<and> exchanges j [ev] = []" and "list_all acceptable (exchanges i [ev])"
  shows "sessions_inv (tr @ [ev]) n'"
  unfolding sessions_inv_def
proof
  fix j
  show "(j < length (net_sessions n') \<longrightarrow> se_client (net_sessions n' ! j) = client_name j
             \<and> session_inv (arrivals j (tr @ [ev])) (exchanges j (tr @ [ev])) (net_sessions n' ! j))
        \<and> (length (net_sessions n') \<le> j \<longrightarrow> arrivals j (tr @ [ev]) = [] \<and> exchanges j (tr @ [ev]) = [])
        \<and> list_all acceptable (exchanges j (tr @ [ev]))"
    using assms(2-5,7) assms(6) [of j] sessions_invD [OF assms(1), of j] by (cases "j = i") (simp_all add: exchanges_append del: exchanges_simps exchanges_single arrivals.simps)
qed

lemma sessions_inv_step:
  assumes inv: "sessions_inv tr n" and "net_step handler work n ev n'" and nxt: "net_next n = 1 + of_nat (length (net_sessions n))"
  shows "sessions_inv (tr @ [ev]) n'"
  using assms(2)
proof cases
  case (join now)
  have "session_inv [] [] (new_session c)" for c by (simp add: session_inv.simps new_session_def)
  then have "sessions_inv tr (accepted now n)"
    using inv nxt by (auto simp: sessions_inv_def accepted_def nth_append less_Suc_eq client_name_def new_session_def
      accept_client_def split: prod.split)
  then show ?thesis using join by (simp add: sessions_inv_def)
next
  case (work server)
  then show ?thesis using inv by (simp add: sessions_inv_def)
next
  case (arrive i s bytes)
  then show ?thesis
    by (intro sessions_inv_change [OF inv arrive(3), of _ "bytes_arrived bytes s"])
      (simp_all add: inv_arrive sessions_invD [OF inv], simp add: bytes_arrived_def sessions_invD [OF inv])
next
  case (size i s now)
  note s = sessions_invD(2) [OF inv size(3), folded size(4)]
  have "se_client (fst (size_read now s)) = se_client s" by (simp add: size_read_def disconnect_def Let_def)
  then show ?thesis using size inv_size [OF s size(5,6)]
    by (intro sessions_inv_change [OF inv size(3), of _ "fst (size_read now s)"]) simp_all
next
  case (body i s k response server)
  note s = sessions_invD(2) [OF inv body(3), folded body(4)]
  show ?thesis using body inv_body [OF s body(5,6)]
    by (intro sessions_inv_change [OF inv body(3), of _ "body_read k response s"]) (simp_all add: body_read_def)
next
  case (written i s response)
  then show ?thesis
    by (intro sessions_inv_change [OF inv written(3), of _ "response_written response s"])
      (simp_all add: inv_written sessions_invD [OF inv], simp add: response_written_def sessions_invD [OF inv])
next
  case (read_fails i s k now)
  note s = sessions_invD(2) [OF inv read_fails(3), folded read_fails(4)]
  have "se_client (fst (disconnect now s)) = se_client s" by (simp add: disconnect_def)
  then show ?thesis using read_fails inv_disconnect [OF s]
    by (intro sessions_inv_change [OF inv read_fails(3), of _ "fst (disconnect now s)"]) simp_all
next
  case (write_fails i s response now k)
  note s = sessions_invD(2) [OF inv write_fails(3), folded write_fails(4)]
  have "se_client (fst (disconnect now (s\<lparr>se_out := se_out s @ take k (frame response)\<rparr>))) = se_client s" by (simp add: disconnect_def)
  then show ?thesis using write_fails inv_write_fails [OF s write_fails(5)]
    by (intro sessions_inv_change [OF inv write_fails(3), of _ "fst (disconnect now (s\<lparr>se_out := se_out s @ take k (frame response)\<rparr>))"]) simp_all
qed

lemma next_step: "net_step handler work n ev n' \<Longrightarrow> net_next n = 1 + of_nat (length (net_sessions n))
    \<Longrightarrow> net_next n' = 1 + of_nat (length (net_sessions n'))"
  by (erule net_step.cases) (auto simp: accepted_def accept_client_def)

lemma run_next: "net_run handler work s0 tr n \<Longrightarrow> net_next n = 1 + of_nat (length (net_sessions n))"
  by (induction rule: net_run.induct) (simp add: start_net_def, blast intro: next_step)

lemma run_sessions: "net_run handler work s0 tr n \<Longrightarrow> sessions_inv tr n"
proof (induction rule: net_run.induct)
  case nil
  show ?case by (simp add: sessions_inv_def start_net_def)
next
  case (snoc tr n ev n')
  show ?case by (rule sessions_inv_step [OF snoc.IH snoc.hyps(2) run_next [OF snoc.hyps(1)]])
qed

lemma run_served: "net_run handler work s0 tr n \<Longrightarrow> served handler work client_name s0 (handled tr) (net_server n)"
proof (induction rule: net_run.induct)
  case nil
  show ?case by (simp add: start_net_def served.idle)
next
  case (snoc tr n ev n')
  note inv = run_sessions [OF snoc.hyps(1)]
  show ?case using snoc.hyps(2)
  proof cases
    case (work server)
    then show ?thesis using served.work [OF snoc.IH] by simp
  next
    case (body i s k response server)
    then show ?thesis using served.call [OF snoc.IH] sessions_invD(1) [OF inv body(3)] by simp
  qed (use snoc.IH in \<open>simp_all add: accepted_def split: prod.split\<close>)
qed

subsection \<open>The connection log\<close>

text \<open>Names repeat only after \<open>2 ^ 32\<close> connections, when the counter starts again.\<close>

lemma client_name_inject:
  assumes "client_name i = client_name j" and "i < 2 ^ 32" and "j < 2 ^ 32"
  shows "i = j"
proof -
  have "decimal (uint (1 + of_nat i :: 32 word)) = decimal (uint (1 + of_nat j :: 32 word))"
    using assms(1) by (simp add: client_name_def accept_client_def)
  then have "nat_of_digits (digits_of_nat (nat (uint (1 + of_nat i :: 32 word))))
      = nat_of_digits (digits_of_nat (nat (uint (1 + of_nat j :: 32 word))))"
    by (simp add: decimal_def)
  then have "1 + of_nat i = (1 + of_nat j :: 32 word)" by (simp add: word_unat_eq_iff)
  then have "(of_nat i :: 32 word) = of_nat j" by simp
  then have "unat (of_nat i :: 32 word) = unat (of_nat j :: 32 word)" by simp
  then show ?thesis using assms(2,3) by (simp add: unat_of_nat)
qed

definition logged :: "'s net \<Rightarrow> bool" where
  "logged n \<longleftrightarrow>
     (\<forall>i < length (net_sessions n). log_of i n = (if se_phase (net_sessions n ! i) = Over then [True, False] else [True]))
     \<and> (\<forall>l \<in> set (net_log n). \<exists>i < length (net_sessions n). line_client l = client_name i)"

lemma logged_same:
  assumes "logged n" and "i < length (net_sessions n)" and "net_log n' = net_log n" and "net_sessions n' = (net_sessions n)[i := s]"
    and "se_phase s = Over \<longleftrightarrow> se_phase (net_sessions n ! i) = Over"
  shows "logged n'"
  using assms by (simp add: logged_def log_of_def nth_list_update)

lemma logged_disconnect:
  assumes "logged n" and "i < length (net_sessions n)" and "net_log n' = net_log n @ [Disconnect now (client_name i)]"
    and "net_sessions n' = (net_sessions n)[i := s]" and "se_phase s = Over" and "se_phase (net_sessions n ! i) \<noteq> Over"
    and "length (net_sessions n) \<le> 2 ^ 32"
  shows "logged n'"
proof -
  have "client_name i = client_name j \<longleftrightarrow> i = j" if "j < length (net_sessions n)" for j
    using client_name_inject that assms(2,7) by fastforce
  then show ?thesis using assms(1-6) by (auto simp: logged_def log_of_def nth_list_update)
qed

lemma logged_join:
  assumes "logged n" and "net_next n = 1 + of_nat (length (net_sessions n))" and "length (net_sessions n) < 2 ^ 32"
  shows "logged (accepted now n)"
proof -
  let ?k = "length (net_sessions n)"
  have new: "client_name i = client_name ?k \<longleftrightarrow> i = ?k" if "i \<le> ?k" for i
    using client_name_inject that assms(3) by fastforce
  have none: "filter (\<lambda>l. line_client l = client_name ?k) (net_log n) = []"
    using assms(1) new by (fastforce simp: logged_def filter_empty_conv)
  have a: "net_log (accepted now n) = net_log n @ [Connect now (client_name ?k)]"
    "net_sessions (accepted now n) = net_sessions n @ [new_session (client_name ?k)]"
    using assms(2) by (simp_all add: accepted_def client_name_def split: prod.split)
  have "log_of i (accepted now n) = (if se_phase (net_sessions (accepted now n) ! i) = Over then [True, False] else [True])"
    if "i < length (net_sessions (accepted now n))" for i
    using that assms(1) new [of i] none
    by (auto simp: a log_of_def logged_def nth_append less_Suc_eq new_session_def)
  moreover have "\<exists>i < length (net_sessions (accepted now n)). line_client l = client_name i" if "l \<in> set (net_log (accepted now n))" for l
    using that assms(1) by (fastforce simp: a logged_def less_Suc_eq)
  ultimately show ?thesis by (simp add: logged_def)
qed

lemma logged_step:
  assumes "net_run handler work s0 tr n" and "net_step handler work n ev n'" and "logged n" and "length (net_sessions n') \<le> 2 ^ 32"
  shows "logged n'"
  using assms(2)
proof cases
  case (join now)
  have "length (net_sessions n) < 2 ^ 32" using assms(4) join by (simp add: accepted_def split: prod.splits)
  then show ?thesis using logged_join [OF assms(3) run_next [OF assms(1)]] join by simp
next
  case (size i s now)
  note c = sessions_invD(1) [OF run_sessions [OF assms(1)] size(3)]
  show ?thesis
  proof (cases "se_phase (fst (size_read now s)) = Over")
    case True
    then have "snd (size_read now s) = [Disconnect now (client_name i)]"
      using size(4) c by (auto simp: size_read_def disconnect_def Let_def split: if_splits)
    then show ?thesis using True size assms(4) by (intro logged_disconnect [OF assms(3) size(3)]) simp_all
  next
    case False
    then have "snd (size_read now s) = []" by (auto simp: size_read_def disconnect_def Let_def split: if_splits)
    then show ?thesis using False size by (intro logged_same [OF assms(3) size(3)]) simp_all
  qed
next
  case (read_fails i s k now)
  note c = sessions_invD(1) [OF run_sessions [OF assms(1)] read_fails(3)]
  show ?thesis using read_fails c assms(4)
    by (intro logged_disconnect [OF assms(3) read_fails(3), of _ now]) (auto simp: disconnect_def)
next
  case (write_fails i s response now k)
  note c = sessions_invD(1) [OF run_sessions [OF assms(1)] write_fails(3)]
  show ?thesis using write_fails c assms(4)
    by (intro logged_disconnect [OF assms(3) write_fails(3), of _ now]) (auto simp: disconnect_def)
next
  case (work server)
  then show ?thesis using assms(3) by (simp add: logged_def log_of_def)
next
  case (arrive i s bytes)
  then show ?thesis
    by (intro logged_same [OF assms(3) arrive(3), of _ "bytes_arrived bytes s"]) (simp_all add: bytes_arrived_def)
next
  case (body i s k response server)
  then show ?thesis 
    by (intro logged_same [OF assms(3) body(3), of _ "body_read k response s"]) (simp_all, simp add: body_read_def)
next
  case (written i s response)
  then show ?thesis 
    by (intro logged_same [OF assms(3) written(3), of _ "response_written response s"]) (simp_all, simp add: response_written_def)
qed

lemma step_sessions: "net_step handler work n ev n' \<Longrightarrow> length (net_sessions n) \<le> length (net_sessions n')"
  by (erule net_step.cases) (auto simp: accepted_def split: prod.splits)

lemma run_logged: "net_run handler work s0 tr n \<Longrightarrow> length (net_sessions n) \<le> 2 ^ 32 \<Longrightarrow> logged n"
proof (induction rule: net_run.induct)
  case nil
  show ?case by (simp add: logged_def start_net_def)
next
  case (snoc tr n ev n')
  have "length (net_sessions n) \<le> 2 ^ 32" using step_sessions [OF snoc.hyps(2)] snoc.prems by linarith
  then show ?case using logged_step [OF snoc.hyps snoc.IH snoc.prems] by blast
qed

subsection \<open>A session is a loop\<close>

text \<open>
  If only one client sends requests and nothing else works on the state, then its session, between two requests, has done what the loop
  \<open>serve\<close> does on the bytes that arrived.
\<close>

lemma answers_snoc:
  "answers ask cs s = (Inr rs, s') \<Longrightarrow> ask c s' = (Inr r, s'') \<Longrightarrow> answers ask (cs @ [c]) s = (Inr (rs @ [r]), s'')"
  by (induction cs arbitrary: s rs) (auto simp: bindS_def split: prod.splits sum.splits)

lemma served_answers:
  assumes "served handler (\<lambda>_ _. False) client s0 cs s" and "\<forall>c \<in> set cs. fst c = i"
  shows "answers (answer_request handler (client i)) (map (\<lambda>c. fst (snd c)) cs) s0 = (Inr (map (\<lambda>c. snd (snd c)) cs), s)"
  using assms by (induction rule: served.induct) (simp_all add: answers_snoc)

lemma session_is_serve:
  assumes run: "net_run handler (\<lambda>_ _. False) s0 tr n" and i: "i < length (net_sessions n)" and only: "\<forall>c \<in> set (handled tr). fst c = i"
    and waits: "se_phase (net_sessions n ! i) = ReadingSize" "read_body (se_in (net_sessions n ! i)) = None"
  shows "serve handler (client_name i) (arrivals i tr) (s0, []) = (Inr (), (net_server n, se_out (net_sessions n ! i)))"
proof -
  let ?xs = "exchanges i tr" and ?s = "net_sessions n ! i"
  have xs: "?xs = map snd (handled tr)" using only by (simp add: exchanges_def)
  note inv = sessions_invD [OF run_sessions [OF run]]
  have s: "arrivals i tr = requests ?xs @ se_in ?s" "se_out ?s = responses ?xs"
    using inv(2) [OF i] waits(1) by (simp_all add: session_inv.simps)
  have ok: "list_all (\<lambda>c. c \<noteq> [] \<and> length c \<le> kMaxRequestBodySize) (map fst ?xs)"
    using inv(4) [of i] by (simp add: list_all_iff acceptable_def)
  have ans: "answers (answer_request handler (client_name i)) (map fst ?xs) s0 = (Inr (map snd ?xs), net_server n)"
    using served_answers [OF run_served [OF run] only] by (simp add: xs comp_def)
  have f: "concat (map frame (map fst ?xs)) = requests ?xs" "concat (map frame (map snd ?xs)) = responses ?xs"
    by (simp_all add: requests_def responses_def comp_def case_prod_unfold)
  have "serve handler (client_name i) (arrivals i tr) (s0, []) = serve handler (client_name i) (se_in ?s) (net_server n, responses ?xs)"
    using serve_frames [OF ok ans, of "se_in ?s" "[]"] s(1) by (simp only: f append_Nil)
  then show ?thesis using waits(2) s(2) by (simp add: serve.simps)
qed

end
