(* ===== verification/Programs.thy ===== *)
theory Programs
  imports Server_Net Query_Restart
begin

section \<open>The two programs\<close>

text \<open>
  \<open>main\<close> of the server and of the client, from the command line to the exit code, with what they
  print. A machine says what the operating system makes of their requests: which directories can be created
  and what is in them, which files can be opened and what they contain, whether a port can be listened
  on. The program name \<open>argv[0]\<close> is an argument of its own.
\<close>

subsection \<open>Printing\<close>

record console =
  con_out :: string
  con_err :: string

definition out :: "string \<Rightarrow> console \<Rightarrow> console" where
  "out t c = c\<lparr>con_out := con_out c @ t\<rparr>"

definition err_line :: "string \<Rightarrow> console \<Rightarrow> console" where
  "err_line t c = c\<lparr>con_err := con_err c @ t @ [CHR 0x0A]\<rparr>"

definition out_line :: "string \<Rightarrow> console \<Rightarrow> console" where
  "out_line t = out (t @ [CHR 0x0A])"

definition what :: "exn \<Rightarrow> string" where
  \<comment> \<open>of a \<open>system_error\<close>, the only exception the programs print\<close>
  "what e = (case exn_text e of Some m \<Rightarrow> m | None \<Rightarrow> [])"

subsection \<open>\<open>main_server.cpp\<close>\<close>

record machine =
  m_creates :: "string \<Rightarrow> bool" \<comment> \<open>\<open>create_directories\<close>\<close>
  m_root :: "string \<Rightarrow> (string \<times> directory) list"
  m_appends :: "string \<Rightarrow> bool" \<comment> \<open>opening a file for appending\<close>
  m_listens :: "32 word \<Rightarrow> exn + unit"
  m_files :: "string \<Rightarrow> string option"
  m_input :: string

datatype outcome = Exited nat | Aborted | Serving "engine exec net"

definition path_join :: "string \<Rightarrow> string \<Rightarrow> string" where
  \<comment> \<open>\<open>operator/\<close> with a relative name\<close>
  "path_join p n = (if p = [] \<or> last p = CHR ''/'' then p @ n else p @ CHR ''/'' # n)"

definition open_connection_log :: "machine \<Rightarrow> exn + unit" where
  "open_connection_log m =
     (let path = ''db_log.txt'' in
      if m_appends m path then Inr () else Inl (RuntimeError (''Can't open log file: '' @ path)))"

definition open_access_log :: "machine \<Rightarrow> string \<Rightarrow> exn + unit" where
  "open_access_log m path = (if m_appends m path then Inr () else Inl (RuntimeError (''Can't open access log file: '' @ path)))"

definition server_help :: "string \<Rightarrow> string" where
  "server_help prog =
     ''Usage: '' @ prog @ '' <port> [data_dir]'' @ [CHR 0x0A] @ ''  data_dir defaults to ./data'' @ [CHR 0x0A]"

definition start_up :: "machine \<Rightarrow> string \<Rightarrow> exn + engine exec" where
  \<comment> \<open>what \<open>main\<close> does outside of its \<open>try\<close>: an exception ends the process\<close>
  "start_up m data =
     bindE (guardE (m_creates m data) (RuntimeError ''create_directories'')) (\<lambda>_.
     bindE (open_connection_log m) (\<lambda>_.
     bindE (start_server (m_root m data)) (\<lambda>service.
     bindE (open_access_log m (path_join data ''access.log'')) (\<lambda>_. Inr service))))"

definition server_main :: "machine \<Rightarrow> string \<Rightarrow> string list \<Rightarrow> console \<Rightarrow> outcome \<times> console" where
  "server_main m prog args c =
     (if length args < 1 \<or> length args > 2 then (Exited 0, out (server_help prog) c)
      else case parse_port (args ! 0) of
        Inl message \<Rightarrow> (Exited 1, err_line message c)
      | Inr port \<Rightarrow>
          let data = (if length args = 2 then args ! 1 else ''data'') in
          case start_up m data of
            Inl _ \<Rightarrow> (Aborted, c)
          | Inr service \<Rightarrow>
              (case m_listens m port of
                 Inl e \<Rightarrow> (Exited 1, err_line (''Server error: '' @ what e) c)
               | Inr _ \<Rightarrow>
                   (Serving (start_net service),
                    out_line (''Server started on port '' @ decimal (sint port) @ '' (data: '' @ data @ '')'') c)))"

subsection \<open>\<open>main_client.cpp\<close>\<close>

definition client_help :: "string \<Rightarrow> console \<Rightarrow> console" where
  "client_help prog c =
     out_line ''Server responses are JSON. Async DDL/DML are awaited automatically.''
       (out_line (''Script mode: '' @ prog @ '' <port_number> <script>.txt'')
         (out_line (''Interactive mode: '' @ prog @ '' <port_number>'') (out_line ''Usage:'' c)))"

definition client_send :: "(char list \<Rightarrow> ('s, char list) sx) \<Rightarrow> string \<Rightarrow> ('s, string) sx" where
  \<comment> \<open>\<open>Client::send\<close>: the connection takes the bytes that are written and gives what can be read then;
      the message of the exception is Boost's and only printed\<close>
  "client_send exchange query =
     bindS (exchange (frame query)) (\<lambda>bytes.
     case read_frame bytes of None \<Rightarrow> throwS (RuntimeError ''End of file'') | Some (response, _) \<Rightarrow> retS response)"

function run_script :: "(string \<Rightarrow> ('s, string) sx) \<Rightarrow> string \<Rightarrow> 's \<times> console \<Rightarrow> nat \<times> 's \<times> console" where
  \<comment> \<open>the loop over a script; \<open>ask\<close> is \<open>sendAndWait\<close> on the client\<close>
  "run_script ask inp (s, c) =
     (case readQuery inp of (q, rest) \<Rightarrow>
        let cmd = trimQuery q in
        if cmd = [] then (0, s, c)
        else if isIgnorableQuery cmd then run_script ask rest (s, c)
        else case ask cmd s of
            (Inl e, s') \<Rightarrow> (1, s', err_line (''Connection lost: '' @ what e) c)
          | (Inr answer, s') \<Rightarrow> run_script ask rest (s', out_line answer c))"
  by auto

termination
  by (relation "measure (\<lambda>(ask, inp, s). length inp)") (auto intro: script_rest_shorter)

declare run_script.simps [simp del]

function run_interactive :: "(string \<Rightarrow> ('s, string) sx) \<Rightarrow> string \<Rightarrow> 's \<times> console \<Rightarrow> nat \<times> 's \<times> console" where
  \<comment> \<open>the loop over the standard input, which is good as long as a query ended with its semicolon\<close>
  "run_interactive ask inp (s, c) =
     (case readQuery inp of (q, rest) \<Rightarrow>
        let cmd = trimQuery q; good = (q \<noteq> [] \<and> last q = CHR '';''); c = out ''> '' c in
        if cmd = [] \<or> isIgnorableQuery cmd then (if good then run_interactive ask rest (s, c) else (0, s, c))
        else case ask cmd s of
            (Inl e, s') \<Rightarrow> (1, s', err_line (''Connection lost: '' @ what e) c)
          | (Inr answer, s') \<Rightarrow>
              (if good then run_interactive ask rest (s', out_line answer c) else (0, s', out_line answer c)))"
  by auto

termination
  by (relation "measure (\<lambda>(ask, inp, s). length inp)") (auto intro: good_rest_shorter)

declare run_interactive.simps [simp del]

definition client_main ::
  "machine \<Rightarrow> (32 word \<Rightarrow> ('s, unit) sx) \<Rightarrow> (string \<Rightarrow> ('s, string) sx) \<Rightarrow> string \<Rightarrow> string list \<Rightarrow> 's \<times> console \<Rightarrow> nat \<times> 's \<times> console" where
  \<comment> \<open>\<open>dial\<close> is \<open>Client::connect\<close> to the local host\<close>
  "client_main m dial ask prog args = (\<lambda>(s, c).
     (if length args = 1 \<or> length args = 2 then
        case parse_port (args ! 0) of
          Inl message \<Rightarrow> (1, s, err_line message c)
        | Inr port \<Rightarrow>
            (case dial port s of
               (Inl e, s') \<Rightarrow>
                 (1, s', err_line (''Failed to connect to server at port '' @ decimal (sint port) @ '': '' @ what e) c)
             | (Inr _, s') \<Rightarrow>
                 if length args = 1 then run_interactive ask (m_input m) (s', c)
                 else case m_files m (args ! 1) of
                     None \<Rightarrow> (1, s', err_line (''Can't open file: '' @ args ! 1) c)
                   | Some script \<Rightarrow> run_script ask script (s', c))
      else (0, s, client_help prog c)))"

subsection \<open>What the loops print\<close>

lemma out_simps [simp]: "con_out (out t c) = con_out c @ t" "con_err (out t c) = con_err c" "out [] c = c"
  "out t (out u c) = out (u @ t) c"
  by (simp_all add: out_def)

lemma out_line_simps [simp]: "con_out (out_line t c) = con_out c @ t @ [CHR 0x0A]" "con_err (out_line t c) = con_err c"
  by (simp_all add: out_line_def)

definition lines :: "string list \<Rightarrow> string" where
  "lines ts = concat (map (\<lambda>t. t @ [CHR 0x0A]) ts)"

lemma lines_simps [simp]: "lines [] = []" "lines (t # ts) = t @ CHR 0x0A # lines ts"
  by (simp_all add: lines_def)

text \<open>What both loops do is to send one command after the other until the connection is lost.\<close>

fun talk :: "(string \<Rightarrow> ('s, string) sx) \<Rightarrow> string list \<Rightarrow> 's \<Rightarrow> string list \<times> exn option \<times> 's" where
  "talk ask [] s = ([], None, s)"
| "talk ask (c # cs) s =
     (case ask c s of
        (Inl e, s') \<Rightarrow> ([], Some e, s')
      | (Inr r, s') \<Rightarrow> (case talk ask cs s' of (rs, e) \<Rightarrow> (r # rs, e)))"

definition farewell :: "exn option \<Rightarrow> console \<Rightarrow> console" where
  "farewell e c = (case e of None \<Rightarrow> c | Some x \<Rightarrow> err_line (''Connection lost: '' @ what x) c)"

definition exit_code :: "exn option \<Rightarrow> nat" where
  "exit_code e = (case e of None \<Rightarrow> 0 | Some _ \<Rightarrow> 1)"

lemma farewell_simps [simp]: "farewell None c = c" "exit_code None = 0" "exit_code (Some x) = 1"
  "farewell (Some x) c = err_line (''Connection lost: '' @ what x) c"
  by (simp_all add: farewell_def exit_code_def)

lemma talk_answers: "answers ask cs s = (Inr rs, s') \<Longrightarrow> talk ask cs s = (rs, None, s')"
  by (induction cs arbitrary: s rs) (auto simp: bindS_eq_Inr)

lemma script_talks:
  assumes "talk ask (script_commands inp) s = (rs, e, s')"
  shows "run_script ask inp (s, c) = (exit_code e, s', farewell e (out (lines rs) c))"
  using assms
proof (induction inp arbitrary: s c rs rule: script_commands.induct)
  case (1 inp)
  obtain q rest where q: "readQuery inp = (q, rest)" by (cases "readQuery inp")
  note IH = "1.IH" [OF q [symmetric] refl]
  consider (stop) "trimQuery q = []" | (skip) "trimQuery q \<noteq> []" "isIgnorableQuery (trimQuery q)"
    | (send) "trimQuery q \<noteq> []" "\<not> isIgnorableQuery (trimQuery q)" by blast
  then show ?case
  proof cases
    case stop
    then show ?thesis using "1.prems" q by (auto simp: script_commands.simps [of inp] run_script.simps)
  next
    case skip
    then have "script_commands inp = script_commands rest" by (simp add: script_commands.simps [of inp] q Let_def)
    then show ?thesis using IH(1) [OF skip] "1.prems" skip q by (simp add: run_script.simps [of _ inp] Let_def)
  next
    case send
    then have cs: "script_commands inp = trimQuery q # script_commands rest" by (simp add: script_commands.simps [of inp] q Let_def)
    obtain r s1 where ask: "ask (trimQuery q) s = (r, s1)" by (cases "ask (trimQuery q) s")
    show ?thesis
    proof (cases r)
      case (Inl x)
      then show ?thesis using "1.prems" send q cs ask by (auto simp: run_script.simps [of _ inp] Let_def)
    next
      case (Inr a)
      then obtain rs' where "talk ask (script_commands rest) s1 = (rs', e, s')" "rs = a # rs'"
        using "1.prems" cs ask by (auto split: prod.splits)
      then show ?thesis using IH(2) [OF send, of s1 rs' "out_line a c"] Inr ask send q
        by (simp add: run_script.simps [of _ inp] Let_def out_line_def)
    qed
  qed
qed

text \<open>Typing the commands instead has the same effect, and the same answers between the prompts.\<close>

definition prompts :: "nat \<Rightarrow> string" where
  "prompts n = concat (replicate n ''> '')"

fun prompted :: "nat list \<Rightarrow> string list \<Rightarrow> string" where
  \<comment> \<open>every answer after so many prompts\<close>
  "prompted (n # ns) (r # rs) = prompts n @ r @ CHR 0x0A # prompted ns rs"
| "prompted _ _ = []"

lemma prompts_simps [simp]: "prompts 0 = []" "prompts (Suc n) = CHR ''>'' # CHR '' '' # prompts n"
  by (simp_all add: prompts_def)

lemma one_more_prompt:
  assumes "length ps = length rs"
  obtains ps' m' where "length ps' = length rs" "''> '' @ prompted ps rs @ prompts m = prompted ps' rs @ prompts m'"
proof (cases rs)
  case Nil
  then show thesis using assms by (intro that [of "[]" "Suc m"]) simp_all
next
  case (Cons r rs')
  then obtain n ns where "ps = n # ns" using assms by (cases ps) auto
  then show thesis using assms Cons by (intro that [of "Suc n # ns" m]) simp_all
qed

lemma interactive_skips:
  assumes "readQuery inp = (q, rest)" and "trimQuery q = [] \<or> isIgnorableQuery (trimQuery q)"
  shows "interactive_commands inp = (if q \<noteq> [] \<and> last q = CHR '';'' then interactive_commands rest else [])"
    and "run_interactive ask inp (s, c) =
      (if q \<noteq> [] \<and> last q = CHR '';'' then run_interactive ask rest (s, out ''> '' c) else (0, s, out ''> '' c))"
  using assms by (auto simp: interactive_commands.simps [of inp] run_interactive.simps [of _ inp] Let_def)

lemma interactive_sends:
  assumes "readQuery inp = (q, rest)" and "\<not> (trimQuery q = [] \<or> isIgnorableQuery (trimQuery q))"
  shows "interactive_commands inp = trimQuery q # (if q \<noteq> [] \<and> last q = CHR '';'' then interactive_commands rest else [])"
    and "ask (trimQuery q) s = (Inl x, s1)
      \<Longrightarrow> run_interactive ask inp (s, c) = (1, s1, err_line (''Connection lost: '' @ what x) (out ''> '' c))"
    and "ask (trimQuery q) s = (Inr a, s1) \<Longrightarrow> run_interactive ask inp (s, c) =
      (if q \<noteq> [] \<and> last q = CHR '';'' then run_interactive ask rest (s1, out_line a (out ''> '' c))
       else (0, s1, out_line a (out ''> '' c)))"
  using assms by (auto simp: interactive_commands.simps [of inp] run_interactive.simps [of _ inp] Let_def)

lemma interactive_talks:
  assumes "talk ask (interactive_commands inp) s = (rs, e, s')"
  shows "\<exists>ps m. length ps = length rs
    \<and> run_interactive ask inp (s, c) = (exit_code e, s', farewell e (out (prompted ps rs @ prompts m) c))"
  using assms
proof (induction inp arbitrary: s c rs rule: interactive_commands.induct)
  case (1 inp)
  obtain q rest where q: "readQuery inp = (q, rest)" by (cases "readQuery inp")
  let ?cmd = "trimQuery q" and ?good = "q \<noteq> [] \<and> last q = CHR '';''" and ?c = "out ''> '' c"
  have IH: "\<exists>ps m. length ps = length rs' \<and> run_interactive ask rest (u, d) = (exit_code e, s', farewell e (out (prompted ps rs' @ prompts m) d))"
    if "?good" "talk ask (interactive_commands rest) u = (rs', e, s')" for u d rs'
    using "1.IH" [OF q [symmetric] refl refl that(1)] that(2) by blast
  show ?case
  proof (cases "?cmd = [] \<or> isIgnorableQuery ?cmd")
    case skip: True
    note eqs = interactive_skips [OF q skip]
    show ?thesis
    proof (cases ?good)
      case True
      then obtain ps m where r: "length ps = length rs" "run_interactive ask rest (s, ?c) = (exit_code e, s', farewell e (out (prompted ps rs @ prompts m) ?c))"
        using IH [OF True, of s rs ?c] "1.prems" eqs(1) by auto
      obtain ps' m' where "length ps' = length rs" "''> '' @ prompted ps rs @ prompts m = prompted ps' rs @ prompts m'"
        using one_more_prompt [OF r(1), of m] by blast
      moreover have "run_interactive ask inp (s, c) = run_interactive ask rest (s, ?c)" using eqs(2) [of ask s c] True by simp
      ultimately show ?thesis using r(2) by (intro exI [of _ ps'] exI [of _ m']) simp
    next
      case False
      then show ?thesis using "1.prems" eqs by (intro exI [of _ "[]"] exI [of _ 1]) auto
    qed
  next
    case send: False
    note eqs = interactive_sends [OF q send]
    obtain r s1 where ask: "ask ?cmd s = (r, s1)" by (cases "ask ?cmd s")
    consider (lost) x where "r = Inl x" | (last) a where "r = Inr a" "\<not> ?good" | (more) a where "r = Inr a" ?good by (cases r) blast+
    then show ?thesis
    proof cases
      case (lost x)
      then show ?thesis using "1.prems" eqs(1,2) ask by (intro exI [of _ "[]"] exI [of _ 1]) auto
    next
      case (last a)
      then have "rs = [a]" "e = None" "s' = s1" using "1.prems" eqs(1) ask by auto
      then show ?thesis using last eqs(3) [of ask s a s1 c] ask by (intro exI [of _ "[1]"] exI [of _ 0]) (auto simp: out_line_def)
    next
      case (more a)
      then obtain rs' where rs: "talk ask (interactive_commands rest) s1 = (rs', e, s')" "rs = a # rs'"
        using "1.prems" eqs(1) ask by (auto split: prod.splits)
      obtain ps m where "length ps = length rs'" "run_interactive ask rest (s1, out_line a ?c)
          = (exit_code e, s', farewell e (out (prompted ps rs' @ prompts m) (out_line a ?c)))"
        using IH [OF more(2) rs(1)] by blast
      then show ?thesis using rs(2) eqs(3) [of ask s a s1 c] more ask by (intro exI [of _ "1 # ps"] exI [of _ m]) (simp add: out_line_def)
    qed
  qed
qed

subsection \<open>Starting the server again\<close>

definition machine_with :: "string \<Rightarrow> (string \<times> directory) list \<Rightarrow> machine \<Rightarrow> bool" where
  \<comment> \<open>everything can be opened, and the data directory has this content\<close>
  "machine_with data root m \<longleftrightarrow> m_creates m data \<and> m_root m data = root \<and> m_appends m ''db_log.txt''
     \<and> m_appends m (path_join data ''access.log'')"

lemma start_up_with:
  assumes "machine_with data root m"
  shows "start_up m data = start_server root"
  using assms by (cases "start_server root")
    (simp_all add: start_up_def machine_with_def open_connection_log_def open_access_log_def Let_def)

text \<open>
  On the files of a server without indexes a new one serves the same tables; on those of a server with an indexed table
  that has a row it does not come up: the process is ended before it listens, and nothing is printed.
\<close>

lemma server_restarts:
  assumes "dbms_ok s" and "all_saved s" and "no_indexes s"
    and "\<forall>(n, db) \<in> set (dbms_databases s). all_savable (dbms_pool s) db" and "pool_room 1 (dbms_pool s)"
    and "pool_room (table_files (dbms_root s) * length (by_id (dbms_pool s))) new_pool"
    and "machine_with data (close_all s) m" and "parse_port port = Inr p" and "m_listens m p = Inr ()"
  shows "\<exists>net e. server_main m prog [port, data] c
      = (Serving net, out_line (''Server started on port '' @ decimal (sint p) @ '' (data: '' @ data @ '')'') c)
    \<and> ex_engine (net_server net) = e
    \<and> (\<forall>ref. map_option (table_view (dbms_pool (eng_dbms e))) (find_table ref (eng_dbms e))
            = map_option (table_view (dbms_pool s)) (find_table ref s))"
proof -
  obtain e where e: "start_engine (close_all s) = Inr e"
    "\<forall>ref. map_option (table_view (dbms_pool (eng_dbms e))) (find_table ref (eng_dbms e))
         = map_option (table_view (dbms_pool s)) (find_table ref s)"
    using restart_ok [OF assms(1-6)] by blast
  have "start_up m data = Inr (start_service e)" using start_up_with [OF assms(7)] e(1) by (simp add: start_server_def)
  then have "server_main m prog [port, data] c = (Serving (start_net (start_service e)),
      out_line (''Server started on port '' @ decimal (sint p) @ '' (data: '' @ data @ '')'') c)"
    using assms(8,9) by (simp add: server_main_def del: parse_port.simps)
  then show ?thesis using e(2) by (intro exI [of _ "start_net (start_service e)"] exI [of _ e])
      (simp add: start_net_def start_service_def start_executor_def)
qed

lemma server_does_not_restart:
  assumes "dbms_ok s" and "all_saved s" and "dbms_databases s = [(d, [(n, t)])]"
    and "tb_indexes t = [(k, ix)]" and "\<forall>j < length (columns_of t). col_indexed (columns_of t ! j) \<longleftrightarrow> j = k"
    and "tb_order t \<noteq> []" and "savable (dbms_pool s) t"
    and "pool_room 1 (dbms_pool s)" and "pool_room (length (by_id (dbms_pool s))) new_pool"
    and "machine_with data (close_all s) m" and "parse_port port = Inr p"
  shows "server_main m prog [port, data] c = (Aborted, c)"
  using restart_fails [OF assms(1-9)] start_up_with [OF assms(10)] assms(11)
  by (simp add: server_main_def start_server_def del: parse_port.simps)

end
