(* ===== verification/Service_Props.thy ===== *)
theory Service_Props
  imports Executor_Service
begin

section \<open>Every statement once, in order\<close>

text \<open>
  What holds in every state the service can reach, whatever the interleaving of clients and worker:
  the requests accepted so far are, in their order, those that are done, the one the worker is busy
  with, and those that wait; the handler's state is that of a sequential run of all statements; and
  the snapshots say where each request is.
\<close>

subsection \<open>What a history says\<close>

definition submitted :: "event list \<Rightarrow> job list" where
  "submitted tr = concat (map (\<lambda>ev. case ev of Submitted j \<Rightarrow> [j] | _ \<Rightarrow> []) tr)"

definition turns :: "event list \<Rightarrow> nat" where
  "turns tr = length (filter (\<lambda>ev. case ev of Executed j \<Rightarrow> True | Turned \<Rightarrow> True | _ \<Rightarrow> False) tr)"

fun statement :: "event \<Rightarrow> string option" where
  "statement (Answered q) = Some q"
| "statement (Executed j) = Some (job_query j)"
| "statement _ = None"

definition replay1 :: "'e handler \<Rightarrow> event \<Rightarrow> 'e \<Rightarrow> 'e" where
  "replay1 h ev e = (case statement ev of None \<Rightarrow> e | Some q \<Rightarrow> snd (h q e))"

definition replay :: "'e handler \<Rightarrow> event list \<Rightarrow> 'e \<Rightarrow> 'e" where
  \<comment> \<open>the statements one after the other\<close>
  "replay h tr e = fold (replay1 h) tr e"

fun outcomes :: "'e handler \<Rightarrow> event list \<Rightarrow> 'e \<Rightarrow> (job \<times> (exn + string)) list" where
  \<comment> \<open>what the queued statements return in that sequential run\<close>
  "outcomes h [] e = []"
| "outcomes h (ev # tr) e =
     (case ev of Executed j \<Rightarrow> [(j, fst (h (job_query j) e))] | _ \<Rightarrow> []) @ outcomes h tr (replay1 h ev e)"

lemma outcomes_append: "outcomes h (tr @ tr') e = outcomes h tr e @ outcomes h tr' (replay h tr e)"
  by (induction tr arbitrary: e) (simp_all add: replay_def)

lemma history_snoc [simp]:
  "submitted (tr @ [ev]) = submitted tr @ (case ev of Submitted j \<Rightarrow> [j] | _ \<Rightarrow> [])"
  "turns (tr @ [ev]) = turns tr + (case ev of Executed j \<Rightarrow> 1 | Turned \<Rightarrow> 1 | _ \<Rightarrow> 0)"
  "replay h (tr @ [ev]) e = replay1 h ev (replay h tr e)"
  "outcomes h (tr @ [ev]) e = outcomes h tr e @ (case ev of Executed j \<Rightarrow> [(j, fst (h (job_query j) (replay h tr e)))] | _ \<Rightarrow> [])"
  by (simp_all add: submitted_def turns_def replay_def outcomes_append split: event.split)

lemma history_nil [simp]: "submitted [] = []" "turns [] = 0" "replay h [] e = e"
  by (simp_all add: submitted_def turns_def replay_def)

subsection \<open>Where the requests of a state are\<close>

definition waiting :: "'e exec \<Rightarrow> job list" where
  "waiting s = (case ex_worker s of Took j \<Rightarrow> [j] | _ \<Rightarrow> []) @ ex_queue s"

definition busy :: "'e exec \<Rightarrow> job list" where
  "busy s = (case ex_worker s of Began j \<Rightarrow> [j] | Ran j a b c d e f \<Rightarrow> [j] | Crashed j \<Rightarrow> [j] | _ \<Rightarrow> [])"

definition handler_ran :: "worker \<Rightarrow> bool" where
  "handler_ran w = (case w of Ran j a b c d e f \<Rightarrow> True | Crashed j \<Rightarrow> True | _ \<Rightarrow> False)"

definition settled :: "'e handler \<Rightarrow> event list \<Rightarrow> 'e \<Rightarrow> 'e exec \<Rightarrow> (job \<times> (exn + string)) list" where
  \<comment> \<open>what the snapshots tell already\<close>
  "settled h tr e s = (if handler_ran (ex_worker s) then butlast (outcomes h tr e) else outcomes h tr e)"

fun fields_tell :: "exn + string \<Rightarrow> string option \<Rightarrow> string option \<Rightarrow> bool" where
  "fields_tell (Inr x) result error \<longleftrightarrow> result = Some x \<and> error = None"
| "fields_tell (Inl x) result error \<longleftrightarrow> result = None \<and> error = exn_text x \<and> error \<noteq> None"

definition worker_tells :: "'e handler \<Rightarrow> event list \<Rightarrow> 'e \<Rightarrow> 'e exec \<Rightarrow> bool" where
  "worker_tells h tr e s =
     (case ex_worker s of
        Ran j t hid result error c m \<Rightarrow>
          \<exists>r. outcomes h tr e = settled h tr e s @ [(j, r)] \<and> fields_tell r result error
      | Crashed j \<Rightarrow> \<exists>x. outcomes h tr e = settled h tr e s @ [(j, Inl x)] \<and> exn_text x = None
      | _ \<Rightarrow> True)"

definition serial :: "'e handler \<Rightarrow> event list \<Rightarrow> 'e \<Rightarrow> 'e exec \<Rightarrow> bool" where
  "serial h tr e s \<longleftrightarrow> submitted tr = map fst (settled h tr e s) @ busy s @ waiting s
     \<and> ex_engine s = replay h tr e \<and> worker_tells h tr e s"

lemmas serial_defs = serial_def worker_tells_def waiting_def busy_def settled_def handler_ran_def

lemma worker_turn_cases:
  assumes "worker_turn h t t' s = Some s'"
  obtains (exit) "ex_worker s = Waiting" "ex_queue s = []" "ex_stop s" "s' = s\<lparr>ex_worker := Exited\<rparr>"
  | (take) j js where "ex_worker s = Waiting" "ex_queue s = j # js" "s' = s\<lparr>ex_queue := js, ex_worker := Took j\<rparr>"
  | (start) j where "ex_worker s = Took j" "s' = begin_job j t s"
  | (run) j where "ex_worker s = Began j" "s' = run_job h j t s"
  | (tell) j t0 hid r e c m where "ex_worker s = Ran j t0 hid r e c m" "s' = end_job j t0 hid r e c m t t' s"
  | (log) e where "ex_worker s = Told e" "s' = log_job e s"
  using assms by (auto simp: worker_turn_def take_job_def split: worker.splits list.splits if_splits)

lemma serial_turn:
  assumes "serial h tr e s" and "worker_turn h t t' s = Some s'"
  shows "serial h (tr @ [turn_event s]) e s'"
  using assms(2)
proof (cases rule: worker_turn_cases)
  case (run j)
  obtain r e1 where r: "h (job_query j) (ex_engine s) = (r, e1)" by (cases "h (job_query j) (ex_engine s)")
  have w: "ex_worker s' = (case r of
               Inr x \<Rightarrow> Ran j t (allocateHandlerId (ex_handlers s)) (Some x) None (code_of Ok) ''OK''
             | Inl x \<Rightarrow> (case exn_text x of
                    Some m \<Rightarrow> Ran j t (allocateHandlerId (ex_handlers s)) None (Some m) (code_of Error) m
                  | None \<Rightarrow> Crashed j))"
    and q: "ex_queue s' = ex_queue s" "ex_engine s' = e1"
    using r run(2) by (simp_all add: run_job_def Let_def)
  have ev: "turn_event s = Executed j" using run(1) by (simp add: turn_event_def)
  have se: "ex_engine s = replay h tr e" and sub: "submitted tr = map fst (outcomes h tr e) @ j # ex_queue s"
    using assms(1) run(1) by (simp_all add: serial_defs)
  have "outcomes h (tr @ [Executed j]) e = outcomes h tr e @ [(j, r)]" "replay h (tr @ [Executed j]) e = e1"
    using r se by (simp_all add: replay1_def)
  then show ?thesis using sub q ev w by (cases r) (auto simp: serial_defs split: option.split)
next
  case (tell j t0 hid res err c m)
  then obtain x where out: "outcomes h tr e = butlast (outcomes h tr e) @ [(j, x)]" using assms(1) by (auto simp: serial_defs)
  have "map fst (butlast (outcomes h tr e)) @ [j] = map fst (outcomes h tr e)"
    by (subst (2) out) simp
  then show ?thesis using assms(1) tell
    by (auto simp: serial_defs turn_event_def end_job_def replay1_def)
qed (use assms(1) in \<open>auto simp: serial_defs turn_event_def begin_job_def log_job_def add_entry_def replay1_def\<close>)

lemma serial_run:
  assumes "service_run h (start_executor e limit logging) tr s"
  shows "serial h tr e s"
  using assms
proof (induction rule: service_run.induct)
  case nil
  show ?case by (simp add: serial_defs start_executor_def)
next
  case (snoc tr s ev s')
  from snoc(2) show ?case
  proof (cases rule: service_step_elim)
    case (turn t t')
    then show ?thesis using serial_turn [OF snoc.IH] by blast
  qed (use snoc.IH in \<open>auto simp: serial_defs submit_job_def stop_executor_def replay1_def split: worker.splits\<close>)
qed

subsection \<open>What the snapshots say\<close>

fun reports :: "exn + string \<Rightarrow> snapshot \<Rightarrow> bool" where
  "reports (Inr x) sn \<longleftrightarrow> sn_status sn = Completed \<and> sn_result sn = Some x \<and> sn_error sn = None"
| "reports (Inl x) sn \<longleftrightarrow> sn_status sn = Failed \<and> sn_result sn = None \<and> sn_error sn = exn_text x \<and> sn_error sn \<noteq> None"

definition snapshots_tell :: "nat \<Rightarrow> (job \<times> (exn + string)) list \<Rightarrow> job list \<Rightarrow> job list \<Rightarrow> (string \<times> snapshot) list \<Rightarrow> bool" where
  "snapshots_tell limit done run wait sns \<longleftrightarrow>
     distinct (map fst sns) \<and> fst ` set sns \<subseteq> job_id ` set (map fst done @ run @ wait)
   \<and> (\<forall>i sn. map_of sns i = Some sn \<longrightarrow> sn_id sn = i)
   \<and> (\<forall>j \<in> set wait. \<exists>sn. map_of sns (job_id j) = Some sn \<and> sn_status sn = Pending)
   \<and> (\<forall>j \<in> set run. \<exists>sn. map_of sns (job_id j) = Some sn \<and> sn_status sn = Running)
   \<and> (\<forall>(j, r) \<in> set done. case map_of sns (job_id j) of
        None \<Rightarrow> limit < length (map fst done @ run @ wait) | Some sn \<Rightarrow> reports r sn)"

lemma reports_finished: "reports r sn \<Longrightarrow> finished (sn_status sn)"
  by (cases r) (auto simp: finished_def)

lemma snapshots_tellD:
  assumes "snapshots_tell limit done run wait sns"
  shows "distinct (map fst sns)" "fst ` set sns \<subseteq> job_id ` set (map fst done @ run @ wait)"
    "map_of sns i = Some sn \<Longrightarrow> sn_id sn = i"
    "j \<in> set wait \<Longrightarrow> \<exists>sn. map_of sns (job_id j) = Some sn \<and> sn_status sn = Pending"
    "j \<in> set run \<Longrightarrow> \<exists>sn. map_of sns (job_id j) = Some sn \<and> sn_status sn = Running"
    "(j, r) \<in> set done \<Longrightarrow> case map_of sns (job_id j) of
        None \<Rightarrow> limit < length (map fst done @ run @ wait) | Some sn \<Rightarrow> reports r sn"
  using assms unfolding snapshots_tell_def by blast+

lemma snapshots_size:
  assumes "snapshots_tell limit done run wait sns"
  shows "length sns \<le> length (map fst done @ run @ wait)"
proof -
  have "length sns = card (fst ` set sns)" using assms distinct_card [of "map fst sns"] by (simp add: snapshots_tell_def)
  also have "\<dots> \<le> card (job_id ` set (map fst done @ run @ wait))" using assms by (intro card_mono) (simp_all add: snapshots_tell_def)
  also have "\<dots> \<le> card (set (map fst done @ run @ wait))" by (rule card_image_le) simp
  also have "\<dots> \<le> length (map fst done @ run @ wait)" by (rule card_length)
  finally show ?thesis .
qed

lemma map_of_keys: "map_of sns i = Some sn \<Longrightarrow> i \<in> fst ` set sns"
  by (force dest: map_of_SomeD)

lemma tell_submit:
  assumes tell: "snapshots_tell limit done run wait sns" and fresh: "job_id j \<notin> job_id ` set (map fst done @ run @ wait)"
    and sn: "sn_id sn = job_id j" "sn_status sn = Pending"
  shows "snapshots_tell limit done run (wait @ [j]) (AList.update (job_id j) sn (pruneOldSnapshots limit sns))"
proof -
  let ?sns = "pruneOldSnapshots limit sns"
  note t = snapshots_tellD [OF tell]
  have keys: "fst ` set ?sns \<subseteq> fst ` set sns"
    by (auto simp: pruneOldSnapshots_def AList.delete_eq split: option.split)
  have d: "distinct (map fst ?sns)" using t(1) by (rule prune_distinct)
  have old: "map_of ?sns i = Some sn' \<Longrightarrow> map_of sns i = Some sn'" for i sn'
    using prune_map [OF t(1), of limit] by (auto split: if_splits)
  have kept: "map_of ?sns i = Some sn'" if "map_of sns i = Some sn'" "\<not> finished (sn_status sn')" for i sn'
    using prune_map [OF t(1), of limit] that by auto
  have lost: "limit \<le> length sns" if "map_of ?sns i = None" "map_of sns i \<noteq> None" for i
    using prune_map [OF t(1), of limit] that by (auto split: if_splits)
  have w: "\<exists>sn'. map_of ?sns (job_id k) = Some sn' \<and> sn_status sn' = Pending" if "k \<in> set wait" for k
    using t(4) [OF that] kept by (force simp: finished_def)
  have r: "\<exists>sn'. map_of ?sns (job_id k) = Some sn' \<and> sn_status sn' = Running" if "k \<in> set run" for k
    using t(5) [OF that] kept by (force simp: finished_def)
  have dn: "case map_of ?sns (job_id k) of None \<Rightarrow> limit < Suc (length (map fst done @ run @ wait)) | Some sn' \<Rightarrow> reports x sn'"
    if k: "(k, x) \<in> set done" for k x
  proof -
    have c: "case map_of sns (job_id k) of None \<Rightarrow> limit < length (map fst done @ run @ wait) | Some sn' \<Rightarrow> reports x sn'"
      using t(6) [OF k] .
    show ?thesis
    proof (cases "map_of ?sns (job_id k)")
      case None
      show ?thesis
      proof (cases "map_of sns (job_id k)")
        case (Some sn')
        then have "limit \<le> length sns" using lost None by simp
        then show ?thesis using None snapshots_size [OF tell] by simp
      qed (use c None in simp)
    qed (use c old in auto)
  qed
  have ne: "job_id k \<noteq> job_id j" if "k \<in> set (map fst done @ run @ wait)" for k using fresh that by (metis imageI)
  show ?thesis
    unfolding snapshots_tell_def
  proof (intro conjI)
    show "distinct (map fst (AList.update (job_id j) sn ?sns))" using d by (rule distinct_update)
    show "fst ` set (AList.update (job_id j) sn ?sns) \<subseteq> job_id ` set (map fst done @ run @ wait @ [j])"
      using keys t(2) by (auto simp: dom_update)
    show "\<forall>i sn'. map_of (AList.update (job_id j) sn ?sns) i = Some sn' \<longrightarrow> sn_id sn' = i"
      using sn(1) old t(3) by auto
    show "\<forall>k \<in> set (wait @ [j]). \<exists>sn'. map_of (AList.update (job_id j) sn ?sns) (job_id k) = Some sn' \<and> sn_status sn' = Pending"
      using w sn(2) ne by auto
    show "\<forall>k \<in> set run. \<exists>sn'. map_of (AList.update (job_id j) sn ?sns) (job_id k) = Some sn' \<and> sn_status sn' = Running"
      using r ne by auto
    show "\<forall>(k, x) \<in> set done. case map_of (AList.update (job_id j) sn ?sns) (job_id k) of
        None \<Rightarrow> limit < length (map fst done @ run @ wait @ [j]) | Some sn' \<Rightarrow> reports x sn'"
    proof clarify
      fix k x assume k: "(k, x) \<in> set done"
      then have "k \<in> set (map fst done @ run @ wait)" by force
      from ne [OF this] dn [OF k] show "case map_of (AList.update (job_id j) sn ?sns) (job_id k) of
        None \<Rightarrow> limit < length (map fst done @ run @ wait @ [j]) | Some sn' \<Rightarrow> reports x sn'" by (simp split: option.splits)
    qed
  qed
qed

lemma tell_move:
  assumes tell: "snapshots_tell limit done run wait sns" and d: "distinct (map job_id (map fst done @ run @ wait))"
    and parts: "map fst done' @ run' @ wait' = map fst done @ run @ wait" and j: "j \<in> set (map fst done @ run @ wait)"
    and rest: "set done' - {(j, x)} = set done" "set run' - {j} = set run - {j}" "set wait' - {j} = set wait - {j}"
    and sn: "sn_id sn = job_id j" "j \<in> set wait' \<longrightarrow> sn_status sn = Pending" "j \<in> set run' \<longrightarrow> sn_status sn = Running"
      "\<forall>y. (j, y) \<in> set done' \<longrightarrow> reports y sn"
  shows "snapshots_tell limit done' run' wait' (AList.update (job_id j) sn sns)"
proof -
  note t = snapshots_tellD [OF tell]
  have inj: "k = j" if "job_id k = job_id j" "k \<in> set (map fst done @ run @ wait)" for k
    using d j that by (metis distinct_map inj_on_def)
  have mem: "k \<in> set (map fst done @ run @ wait)" if "k \<in> set wait' \<or> k \<in> set run' \<or> k \<in> fst ` set done'" for k
    using that arg_cong [OF parts, of set] by auto
  show ?thesis
    unfolding snapshots_tell_def parts
  proof (intro conjI)
    show "distinct (map fst (AList.update (job_id j) sn sns))" using t(1) by (rule distinct_update)
    show "fst ` set (AList.update (job_id j) sn sns) \<subseteq> job_id ` set (map fst done @ run @ wait)"
      using j t(2) by (auto simp: dom_update)
    show "\<forall>i sn'. map_of (AList.update (job_id j) sn sns) i = Some sn' \<longrightarrow> sn_id sn' = i" using sn(1) t(3) by auto
    show "\<forall>k \<in> set wait'. \<exists>sn'. map_of (AList.update (job_id j) sn sns) (job_id k) = Some sn' \<and> sn_status sn' = Pending"
    proof
      fix k assume k: "k \<in> set wait'"
      have old: "k \<noteq> j \<Longrightarrow> \<exists>sn'. map_of sns (job_id k) = Some sn' \<and> sn_status sn' = Pending" using k t(4) rest(3) by blast
      show "\<exists>sn'. map_of (AList.update (job_id j) sn sns) (job_id k) = Some sn' \<and> sn_status sn' = Pending"
      proof (cases "k = j")
        case False
        then have "job_id k \<noteq> job_id j" using inj [of k] mem [of k] k by blast
        then show ?thesis using old [OF False] by simp
      qed (use k sn(2) in simp)
    qed
    show "\<forall>k \<in> set run'. \<exists>sn'. map_of (AList.update (job_id j) sn sns) (job_id k) = Some sn' \<and> sn_status sn' = Running"
    proof
      fix k assume k: "k \<in> set run'"
      have old: "k \<noteq> j \<Longrightarrow> \<exists>sn'. map_of sns (job_id k) = Some sn' \<and> sn_status sn' = Running" using k t(5) rest(2) by blast
      show "\<exists>sn'. map_of (AList.update (job_id j) sn sns) (job_id k) = Some sn' \<and> sn_status sn' = Running"
      proof (cases "k = j")
        case False
        then have "job_id k \<noteq> job_id j" using inj [of k] mem [of k] k by blast
        then show ?thesis using old [OF False] by simp
      qed (use k sn(3) in simp)
    qed
    show "\<forall>(k, y) \<in> set done'. case map_of (AList.update (job_id j) sn sns) (job_id k) of
        None \<Rightarrow> limit < length (map fst done @ run @ wait) | Some sn' \<Rightarrow> reports y sn'"
    proof clarify
      fix k y assume k: "(k, y) \<in> set done'"
      show "case map_of (AList.update (job_id j) sn sns) (job_id k) of
        None \<Rightarrow> limit < length (map fst done @ run @ wait) | Some sn' \<Rightarrow> reports y sn'"
      proof (cases "job_id k = job_id j")
        case True
        then have "k = j" using inj mem k by force
        then show ?thesis using sn(4) k by simp
      next
        case False
        then have "(k, y) \<in> set done" using k rest(1) by auto
        then show ?thesis using False t(6) [of k y] by simp
      qed
    qed
  qed
qed

lemma limit_run: "service_run h (start_executor e limit logging) tr s \<Longrightarrow> ex_limit s = limit"
proof (induction rule: service_run.induct)
  case (snoc tr s ev s')
  from snoc(2) show ?case
  proof (cases rule: service_step_elim)
    case (turn t t')
    from turn(2) snoc.IH show ?thesis
      by (cases rule: worker_turn_cases)
        (auto simp: begin_job_def run_job_def end_job_def log_job_def add_entry_def Let_def split: prod.splits)
  qed (use snoc.IH in \<open>auto simp: submit_job_def stop_executor_def\<close>)
qed (simp add: start_executor_def)

lemma tell_turn:
  assumes ser: "serial h tr e s" and d: "distinct (map job_id (submitted tr))"
    and tell: "snapshots_tell limit (settled h tr e s) (busy s) (waiting s) (ex_snapshots s)" and w: "worker_turn h t t' s = Some s'"
  shows "snapshots_tell limit (settled h (tr @ [turn_event s]) e s') (busy s') (waiting s') (ex_snapshots s')"
  using w
proof (cases rule: worker_turn_cases)
  case (start j)
  let ?out = "outcomes h tr e"
  have p: "settled h tr e s = ?out" "busy s = []" "waiting s = j # ex_queue s" using start(1) by (simp_all add: serial_defs)
  have p': "settled h (tr @ [turn_event s]) e s' = ?out" "busy s' = [j]" "waiting s' = ex_queue s"
    using start by (simp_all add: serial_defs begin_job_def turn_event_def)
  have dd: "distinct (map job_id (map fst ?out @ [] @ j # ex_queue s))" using d ser p by (simp add: serial_def)
  then have nj: "j \<notin> set (map fst ?out)" "j \<notin> set (ex_queue s)" by (auto simp: image_image)
  have sns: "ex_snapshots s' = updateSnapshot (job_id j) Running None None True False t (ex_snapshots s)"
    using start(2) by (simp add: begin_job_def)
  show ?thesis
    unfolding p' sns updateSnapshot_def Let_def
    by (rule tell_move [OF tell [unfolded p] dd, where x = "Inr []"]) (use nj in \<open>auto simp: image_iff\<close>)
next
  case (tell j t0 hid res err c m)
  let ?done = "settled h tr e s"
  obtain x where x: "outcomes h tr e = ?done @ [(j, x)]" "fields_tell x res err"
    using ser tell(1) by (auto simp: serial_def worker_tells_def)
  have p: "busy s = [j]" "waiting s = ex_queue s" using tell(1) by (simp_all add: serial_defs)
  have p': "settled h (tr @ [turn_event s]) e s' = ?done @ [(j, x)]" "busy s' = []" "waiting s' = ex_queue s"
    using tell x(1) by (simp_all add: waiting_def busy_def settled_def handler_ran_def end_job_def turn_event_def)
  have dd: "distinct (map job_id (map fst ?done @ [j] @ ex_queue s))" using d ser p by (simp add: serial_def)
  then have nj: "j \<notin> set (map fst ?done)" "j \<notin> set (ex_queue s)" by (auto simp: image_image)
  obtain st where st: "ex_snapshots s' = updateSnapshot (job_id j) st res err False True t' (ex_snapshots s)"
    "\<And>sn. sn_status sn = st \<Longrightarrow> sn_result sn = res \<Longrightarrow> sn_error sn = err \<Longrightarrow> reports x sn"
    using x(2) tell(2) by (cases x) (auto simp: end_job_def)
  note moved = tell_move [OF assms(3) [unfolded p] dd, where x = x and done' = "?done @ [(j, x)]" and run' = "[]" and wait' = "ex_queue s"]
  show ?thesis
    unfolding p' st(1) updateSnapshot_def Let_def
    by (rule moved) (use nj st(2) in \<open>auto simp: image_iff\<close>)
qed (use assms(3) in \<open>auto simp: serial_defs turn_event_def log_job_def add_entry_def run_job_def Let_def
      split: prod.splits sum.splits option.splits\<close>)

lemma snapshots_run:
  assumes "service_run h (start_executor e limit logging) tr s" and "distinct (map job_id (submitted tr))"
  shows "snapshots_tell limit (settled h tr e s) (busy s) (waiting s) (ex_snapshots s)"
  using assms
proof (induction rule: service_run.induct)
  case nil
  show ?case by (simp add: snapshots_tell_def serial_defs start_executor_def)
next
  case (snoc tr s ev s')
  note ser = serial_run [OF snoc(1)]
  have d: "distinct (map job_id (submitted tr))" using snoc.prems by simp
  note IH = snoc.IH [OF d]
  from snoc(2) show ?case
  proof (cases rule: service_step_elim)
    case (submit i now q client)
    let ?j = "\<lparr>job_id = i, job_client = client, job_query = q\<rparr>"
    have parts: "settled h (tr @ [ev]) e s' = settled h tr e s" "busy s' = busy s" "waiting s' = waiting s @ [?j]"
      using submit by (simp_all add: settled_def busy_def waiting_def submit_job_def)
    have "job_id ?j \<notin> job_id ` set (submitted tr)" using snoc.prems submit(1) by simp
    then have fresh: "job_id ?j \<notin> job_id ` set (map fst (settled h tr e s) @ busy s @ waiting s)"
      using ser by (simp add: serial_def)
    have sns: "ex_snapshots s' = AList.update (job_id ?j) (blank_snapshot\<lparr>sn_id := i, sn_status := Pending, sn_submitted := now\<rparr>)
        (pruneOldSnapshots limit (ex_snapshots s))"
      using submit(2) limit_run [OF snoc(1)] by (simp add: submit_job_def)
    show ?thesis unfolding parts sns by (rule tell_submit [OF IH fresh]) simp_all
  next
    case (turn t t')
    then show ?thesis using tell_turn [OF ser d IH] by simp
  qed (use IH in \<open>auto simp: settled_def busy_def waiting_def stop_executor_def\<close>)
qed

subsection \<open>The worker does not stand still\<close>

definition progress :: "(job \<times> (exn + string)) list \<Rightarrow> 'e exec \<Rightarrow> nat" where
  \<comment> \<open>five turns a request\<close>
  "progress done s =
     5 * length done
     + (case ex_worker s of Waiting \<Rightarrow> 0 | Took j \<Rightarrow> 1 | Began j \<Rightarrow> 2 | Ran j a b c d e f \<Rightarrow> 3 | _ \<Rightarrow> 0)
     - (case ex_worker s of Told e \<Rightarrow> 1 | _ \<Rightarrow> 0)"

definition alive :: "'e exec \<Rightarrow> bool" where
  "alive s \<longleftrightarrow> (case ex_worker s of Exited \<Rightarrow> False | Crashed j \<Rightarrow> False | _ \<Rightarrow> True)"

definition handler_safe :: "'e handler \<Rightarrow> bool" where
  \<comment> \<open>only exceptions that the worker catches\<close>
  "handler_safe h \<longleftrightarrow> (\<forall>q e x. fst (h q e) = Inl x \<longrightarrow> exn_text x \<noteq> None)"

lemma alive_run:
  assumes "service_run h (start_executor e limit logging) tr s" and "handler_safe h" and "Stopping \<notin> set tr"
  shows "alive s \<and> \<not> ex_stop s \<and> (case ex_worker s of Told a \<Rightarrow> settled h tr e s \<noteq> [] | _ \<Rightarrow> True)
    \<and> progress (settled h tr e s) s = turns tr"
  using assms
proof (induction rule: service_run.induct)
  case nil
  show ?case by (simp add: alive_def serial_defs progress_def start_executor_def)
next
  case (snoc tr s ev s')
  have IH: "alive s" "\<not> ex_stop s" "case ex_worker s of Told a \<Rightarrow> settled h tr e s \<noteq> [] | _ \<Rightarrow> True"
    "progress (settled h tr e s) s = turns tr" using snoc by auto
  note ser = serial_run [OF snoc(1)]
  have quiet: ?case if "ex_worker s' = ex_worker s" "ex_stop s' = ex_stop s" "outcomes h (tr @ [ev]) e = outcomes h tr e"
      "turns (tr @ [ev]) = turns tr"
  proof -
    have "settled h (tr @ [ev]) e s' = settled h tr e s" using that by (simp add: settled_def)
    then show ?thesis using IH that by (simp add: alive_def progress_def cong del: worker.case_cong_weak)
  qed
  from snoc(2) show ?case
  proof (cases rule: service_step_elim)
    case (turn t t')
    from turn(2) show ?thesis
    proof (cases rule: worker_turn_cases)
      case (run j)
      obtain r e1 where r: "h (job_query j) (ex_engine s) = (r, e1)" by (cases "h (job_query j) (ex_engine s)")
      have "exn_text x \<noteq> None" if "r = Inl x" for x
        using snoc.prems(1) r that unfolding handler_safe_def by (metis fst_conv)
      then show ?thesis using IH run r turn(1)
        by (cases r) (auto simp: alive_def progress_def settled_def handler_ran_def run_job_def turn_event_def Let_def)
    next
      case (tell j t0 hid res err c m)
      then obtain x where "outcomes h tr e = settled h tr e s @ [(j, x)]" using ser by (auto simp: serial_def worker_tells_def)
      then have "length (outcomes h tr e) = Suc (length (settled h tr e s))" by simp
      then show ?thesis using IH tell turn(1)
        by (auto simp: alive_def progress_def settled_def handler_ran_def end_job_def turn_event_def)
    next
      case (log a)
      then obtain n where "length (outcomes h tr e) = Suc n"
        using IH(3) by (cases "outcomes h tr e") (simp_all add: settled_def handler_ran_def)
      then show ?thesis using IH log turn(1)
        by (auto simp: alive_def progress_def settled_def handler_ran_def log_job_def add_entry_def turn_event_def)
    qed (use IH turn(1) in \<open>auto simp: alive_def progress_def settled_def handler_ran_def begin_job_def log_job_def
           add_entry_def turn_event_def\<close>)
  qed (use quiet snoc.prems in \<open>auto simp: submit_job_def\<close>)
qed

lemma can_turn:
  assumes "alive s" and "busy s @ waiting s \<noteq> []"
  shows "\<exists>s'. worker_turn h t t' s = Some s'"
  using assms by (auto simp: alive_def busy_def waiting_def worker_turn_def take_job_def split: worker.splits list.splits)

lemma settled_after: "progress done s \<le> 5 * length done + 3"
  by (auto simp: progress_def split: worker.split)

end
