(* ===== verification/Service_Contract.thy ===== *)
theory Service_Contract
  imports Service_Props
begin

section \<open>Properties of the executor service\<close>

text \<open>
  What a client may rely on when it submits statements and asks for their results, each with a
  witness: a handler that writes down the statements it runs, one statement of a client, and the
  worker's turns until the result is there.
\<close>

subsection \<open>A sample run\<close>

definition sample_handler :: "string list handler" where
  "sample_handler q e = (Inr ''OK'', e @ [q])"

definition sample_query :: string where
  "sample_query = ''CREATE DATABASE d;''"

definition sample_env :: environment where
  "sample_env = \<lparr>env_id = ''r'', env_start = 0, env_end = 0\<rparr>"

definition sample_job :: job where
  "sample_job = \<lparr>job_id = ''r'', job_client = ''c'', job_query = sample_query\<rparr>"

definition sample_start :: "string list exec" where
  "sample_start = start_executor [] 4096 True"

lemma sample_command:
  "handleClientCommand sample_handler (\<lambda>_. []) sample_env sample_query ''c'' sample_start
     = (Inr (buildAsyncAcceptedResponse ''r''), submit_job ''r'' 0 sample_query ''c'' sample_start)"
  "command_event sample_env sample_query ''c'' = Submitted sample_job"
proof -
  have p: "parseApiCommand sample_query = SubmitQuery sample_query" "classifyExecutionMode sample_query = Async" by code_simp+
  show "handleClientCommand sample_handler (\<lambda>_. []) sample_env sample_query ''c'' sample_start
     = (Inr (buildAsyncAcceptedResponse ''r''), submit_job ''r'' 0 sample_query ''c'' sample_start)"
    by (simp add: handleClientCommand_def service_submit_def p sample_env_def)
  show "command_event sample_env sample_query ''c'' = Submitted sample_job"
    by (simp add: command_event_def p sample_env_def sample_job_def)
qed

lemma sample_submitted: "service_run sample_handler sample_start [Submitted sample_job] (submit_job ''r'' 0 sample_query ''c'' sample_start)"
  using service_run.snoc [OF service_run.nil service_step.command [OF sample_command(1)]] by (simp add: sample_command(2))

lemma sample_turns:
  obtains s where "service_run sample_handler sample_start [Submitted sample_job, Turned, Turned, Executed sample_job, Turned] s"
proof -
  let ?s1 = "submit_job ''r'' 0 sample_query ''c'' sample_start"
  let ?h = sample_handler and ?j = sample_job
  define s2 where "s2 = ?s1\<lparr>ex_queue := [], ex_worker := Took ?j\<rparr>"
  define s4 where "s4 = run_job ?h ?j 0 (begin_job ?j 0 s2)"
  have q: "ex_queue ?s1 = [?j]" "ex_worker ?s1 = Waiting" by (simp_all add: submit_job_def sample_job_def sample_start_def start_executor_def)
  note 1 = sample_submitted
  have "worker_turn ?h 0 0 ?s1 = Some s2" "turn_event ?s1 = Turned" using q by (simp_all add: worker_turn_def take_job_def turn_event_def s2_def)
  from service_run.snoc [OF 1 service_step.turn [OF this(1)]] this(2)
  have 2: "service_run ?h sample_start [Submitted ?j, Turned] s2" by simp
  have "worker_turn ?h 0 0 s2 = Some (begin_job ?j 0 s2)" "turn_event s2 = Turned" by (simp_all add: worker_turn_def turn_event_def s2_def)
  from service_run.snoc [OF 2 service_step.turn [OF this(1)]] this(2)
  have 3: "service_run ?h sample_start [Submitted ?j, Turned, Turned] (begin_job ?j 0 s2)" by simp
  have "worker_turn ?h 0 0 (begin_job ?j 0 s2) = Some s4" "turn_event (begin_job ?j 0 s2) = Executed ?j"
    by (simp_all add: worker_turn_def turn_event_def begin_job_def s4_def)
  from service_run.snoc [OF 3 service_step.turn [OF this(1)]] this(2)
  have 4: "service_run ?h sample_start [Submitted ?j, Turned, Turned, Executed ?j] s4" by simp
  obtain s5 where "worker_turn ?h 0 0 s4 = Some s5" "turn_event s4 = Turned"
    by (simp add: s4_def run_job_def sample_handler_def worker_turn_def turn_event_def Let_def)
  from service_run.snoc [OF 4 service_step.turn [OF this(1)]] this(2)
  show thesis by (intro that) simp
qed

lemma sample_history:
  "submitted [Submitted sample_job, Turned, Turned, Executed sample_job, Turned] = [sample_job]"
  "turns [Submitted sample_job, Turned, Turned, Executed sample_job, Turned] = 4"
  "outcomes sample_handler [Submitted sample_job, Turned, Turned, Executed sample_job, Turned] [] = [(sample_job, Inr ''OK'')]"
  "replay sample_handler [Submitted sample_job, Turned, Turned, Executed sample_job, Turned] [] = [sample_query]"
  by (simp_all add: submitted_def turns_def replay_def replay1_def sample_handler_def sample_job_def)

subsection \<open>Order\<close>

lemma ran_last:
  "worker_tells h tr e s \<Longrightarrow> handler_ran (ex_worker s) \<Longrightarrow> map fst (outcomes h tr e) = map fst (settled h tr e s) @ busy s"
  by (auto simp: worker_tells_def handler_ran_def busy_def split: worker.splits)

definition underway :: "'e exec \<Rightarrow> job list" where
  "underway s = (case ex_worker s of Took j \<Rightarrow> [j] | Began j \<Rightarrow> [j] | _ \<Rightarrow> [])"

text \<open>
  C33: Whatever clients and worker do and however their steps interleave, the queued statements are
  executed in the order in which they were accepted, each exactly once, and the state the handler
  works on is that of a sequential run of all statements, those answered at once included.
\<close>

theorem statements_run_once_in_order:
  assumes "service_run h (start_executor e limit logging) tr s"
  shows "submitted tr = map fst (outcomes h tr e) @ underway s @ ex_queue s \<and> ex_engine s = replay h tr e"
proof -
  have ser: "serial h tr e s" by (rule serial_run [OF assms])
  then have "submitted tr = map fst (settled h tr e s) @ busy s @ waiting s" and eng: "ex_engine s = replay h tr e"
    by (simp_all add: serial_def)
  moreover have "map fst (settled h tr e s) @ busy s @ waiting s = map fst (outcomes h tr e) @ underway s @ ex_queue s"
  proof (cases "handler_ran (ex_worker s)")
    case True
    then have "waiting s = ex_queue s" "underway s = []" by (auto simp: handler_ran_def waiting_def underway_def split: worker.splits)
    moreover have "worker_tells h tr e s" using ser by (simp add: serial_def)
    from ran_last [OF this True] have "map fst (settled h tr e s) @ busy s = map fst (outcomes h tr e)" ..
    ultimately show ?thesis by (metis append.assoc append_Nil)
  next
    case False
    then have "busy s @ waiting s = underway s @ ex_queue s"
      by (auto simp: handler_ran_def waiting_def underway_def busy_def split: worker.splits)
    then show ?thesis using False by (simp add: settled_def)
  qed
  ultimately show ?thesis by simp
qed

theorem statements_run_once_in_order_witness:
  "\<exists>s. service_run sample_handler sample_start [Submitted sample_job, Turned, Turned, Executed sample_job, Turned] s
    \<and> underway s @ ex_queue s = [] \<and> ex_engine s = [sample_query]"
proof -
  obtain s where s: "service_run sample_handler sample_start [Submitted sample_job, Turned, Turned, Executed sample_job, Turned] s"
    by (rule sample_turns)
  from statements_run_once_in_order [OF this [unfolded sample_start_def]] s show ?thesis
    by (auto simp: sample_history)
qed

subsection \<open>What a client is told\<close>

fun told_result :: "string \<Rightarrow> exn + string \<Rightarrow> result_info" where
  "told_result i (Inr x) = \<lparr>ri_ready = True, ri_id = i, ri_status = Completed, ri_result = Some x, ri_error = None\<rparr>"
| "told_result i (Inl x) = \<lparr>ri_ready = True, ri_id = i, ri_status = Failed, ri_result = None, ri_error = exn_text x\<rparr>"


lemma reports_told: "reports r sn \<Longrightarrow> sn_id sn = i \<Longrightarrow> toResultInfo sn = told_result i r"
  by (cases r) (auto simp: toResultInfo_def Let_def)

lemma position_in_queue:
  "distinct (map job_id js) \<Longrightarrow> k < length js \<Longrightarrow> getQueuePosition (job_id (js ! k)) js = Some k"
proof (induction js arbitrary: k)
  case (Cons j js)
  show ?case
  proof (cases k)
    case (Suc k')
    then have "job_id j \<noteq> job_id (js ! k')" using Cons.prems by (metis distinct.simps(2) length_Cons list.simps(9) nth_map nth_mem length_map Suc_less_eq)
    then show ?thesis using Cons Suc by simp
  qed simp
qed simp

text \<open>
  C34: At every moment \<open>GET STATUS\<close> tells the truth about every request, if the ids are distinct: a
  request in the queue is pending, at the position it has there; the one whose handler runs is
  running; one that is done is completed or failed, and \<open>GET RESULT\<close> gives what its statement returned
  in the sequential run, unless more requests than \<open>maxStoredRequests\<close> were made and its snapshot was
  dropped; an id that was never handed out is unknown.
\<close>

theorem status_tells_where_requests_are:
  assumes "service_run h (start_executor e limit logging) tr s" and "distinct (map job_id (submitted tr))"
  shows "(\<forall>k < length (ex_queue s). \<exists>info. getStatus (job_id (ex_queue s ! k)) s = Some info
            \<and> si_status info = Pending \<and> si_position info = Some k)
    \<and> (\<forall>j \<in> set (busy s). \<exists>info. getStatus (job_id j) s = Some info \<and> si_status info = Running \<and> si_position info = None)
    \<and> (\<forall>(j, r) \<in> set (settled h tr e s). getResult (job_id j) s = Some (told_result (job_id j) r)
            \<or> getResult (job_id j) s = None \<and> limit < length (submitted tr))
    \<and> (\<forall>i. i \<notin> job_id ` set (submitted tr) \<longrightarrow> getStatus i s = None \<and> getResult i s = None)"
proof -
  have sub: "submitted tr = map fst (settled h tr e s) @ busy s @ waiting s"
    using serial_run [OF assms(1)] by (simp add: serial_def)
  note t = snapshots_tellD [OF snapshots_run [OF assms]]
  have d: "distinct (map job_id (ex_queue s))" using assms(2) unfolding sub by (simp add: waiting_def)
  have queued: "\<exists>info. getStatus (job_id (ex_queue s ! k)) s = Some info \<and> si_status info = Pending \<and> si_position info = Some k"
    if "k < length (ex_queue s)" for k
  proof -
    have "ex_queue s ! k \<in> set (waiting s)" using that by (simp add: waiting_def)
    from t(4) [OF this] show ?thesis
      by (auto simp: getStatus_def getSnapshot_def toStatusInfo_def Let_def position_in_queue [OF d that])
  qed
  have running: "\<exists>info. getStatus (job_id j) s = Some info \<and> si_status info = Running \<and> si_position info = None"
    if "j \<in> set (busy s)" for j
    using t(5) [OF that] by (auto simp: getStatus_def getSnapshot_def toStatusInfo_def Let_def)
  have told: "getResult (job_id j) s = Some (told_result (job_id j) r) \<or> getResult (job_id j) s = None \<and> limit < length (submitted tr)"
    if "(j, r) \<in> set (settled h tr e s)" for j r
    using t(6) [OF that] t(3) reports_told
    by (cases "map_of (ex_snapshots s) (job_id j)") (auto simp: getResult_def getSnapshot_def sub)
  have unknown: "getStatus i s = None \<and> getResult i s = None" if "i \<notin> job_id ` set (submitted tr)" for i
  proof -
    have "i \<notin> fst ` set (ex_snapshots s)" using t(2) that unfolding sub by blast
    then have "map_of (ex_snapshots s) i = None" by (simp add: map_of_eq_None_iff)
    then show ?thesis by (simp add: getStatus_def getResult_def getSnapshot_def)
  qed
  show ?thesis using queued running told unknown by blast
qed

theorem status_tells_where_requests_are_witness:
  "\<exists>s info. service_run sample_handler sample_start [Submitted sample_job] s
    \<and> getStatus ''r'' s = Some info \<and> si_status info = Pending \<and> si_position info = Some 0"
proof -
  let ?s = "submit_job ''r'' 0 sample_query ''c'' sample_start"
  have "distinct (map job_id (submitted [Submitted sample_job]))" by (simp add: submitted_def)
  note told = status_tells_where_requests_are [OF sample_submitted [unfolded sample_start_def] this]
  have "ex_queue ?s = [sample_job]" "job_id sample_job = ''r''"
    by (simp_all add: submit_job_def sample_job_def sample_start_def start_executor_def)
  then show ?thesis using conjunct1 [OF told] sample_submitted unfolding sample_start_def by fastforce
qed

subsection \<open>Results arrive\<close>



end
