(* ===== verification/Client_Contract.thy ===== *)
theory Client_Contract
  imports Programs Service_Contract
begin

section \<open>Properties of the protocol\<close>

text \<open>
  What client and server agree on: the form of request ids, the frames, and the exchange of
  messages by which a client gets the result of a statement that was queued. Then what becomes of
  this for many clients at a time, and for a whole script.
\<close>

subsection \<open>Request ids\<close>

text \<open>
  C36: An id that the server makes, whatever the random numbers, is one that it accepts later, and
  goes through the client unchanged: the client finds it in the answer that announces it, and the
  command that the client builds from it is read as a request for its result.
\<close>

theorem request_ids_travel:
  "isValidRequestId (generateRequestId r1 r2 r3 r4 r5 r6)
    \<and> isAsyncAccepted (buildAsyncAcceptedResponse (generateRequestId r1 r2 r3 r4 r5 r6))
    \<and> extractRequestId (buildAsyncAcceptedResponse (generateRequestId r1 r2 r3 r4 r5 r6)) = Some (generateRequestId r1 r2 r3 r4 r5 r6)
    \<and> parseApiCommand (result_command (generateRequestId r1 r2 r3 r4 r5 r6)) = GetResult (generateRequestId r1 r2 r3 r4 r5 r6)"
  using generated_id_valid accepted_is_recognised result_command_parses by blast

subsection \<open>Frames\<close>

lemma answers_length: "answers ask cs s = (Inr rs, s') \<Longrightarrow> length rs = length cs"
  by (induction cs arbitrary: s rs) (auto simp: bindS_eq_Inr)

text \<open>
  C37: A session answers the commands of its client one after the other, in order, and the client
  reads back exactly the answers, if no command is empty or longer than 4 MiB and no answer is
  longer than a length of 32 bits can say. A command that is empty or too long ends the session without an
  answer, and what follows it is not read.
\<close>

theorem session_answers_in_order:
  assumes "list_all (\<lambda>c. c \<noteq> [] \<and> length c \<le> kMaxRequestBodySize) cs"
    and "answers (answer_request handler client) cs s = (Inr rs, s')" and "list_all (\<lambda>r. length r < 2 ^ 32) rs"
    and "bad = [] \<or> kMaxRequestBodySize < length bad" and "length bad < 2 ^ 32"
  shows "\<exists>out. serve handler client (concat (map frame cs)) (s, []) = (Inr (), (s', out))
    \<and> serve handler client (concat (map frame cs) @ frame bad @ later) (s, []) = (Inr (), (s', out))
    \<and> read_frames (length cs) out = Some rs"
proof -
  have "serve handler client (concat (map frame cs) @ []) (s, []) = serve handler client [] (s', [] @ concat (map frame rs))"
    by (rule serve_frames [OF assms(1,2)])
  moreover have "serve handler client [] (s', concat (map frame rs)) = (Inr (), (s', concat (map frame rs)))"
    by (simp add: serve.simps read_body_def)
  moreover have "serve handler client (concat (map frame cs) @ frame bad @ later) (s, [])
      = serve handler client (frame bad @ later) (s', [] @ concat (map frame rs))"
    by (rule serve_frames [OF assms(1,2)])
  ultimately show ?thesis
    using serve_refuses [OF assms(4,5)] answers_length [OF assms(2)] read_frames_frames [OF assms(3)] by simp
qed

theorem session_answers_in_order_witness:
  "\<exists>out. serve (\<lambda>c client n. (if c = ''b'' then Inl (RuntimeError ''no'') else Inr (client @ c), Suc n)) ''x''
      (concat (map frame [''a'', ''b''])) (0, []) = (Inr (), (2, out))
    \<and> read_frames 2 out = Some [''xa'', buildErrorResponse ''no'' 1]"
proof -
  let ?h = "\<lambda>c client n. (if c = ''b'' then Inl (RuntimeError ''no'') else Inr (client @ c), Suc n)"
  have ok: "list_all (\<lambda>c. c \<noteq> [] \<and> length c \<le> kMaxRequestBodySize) [''a'', ''b'']" by (simp add: kMaxRequestBodySize_def)
  have ans: "answers (answer_request ?h ''x'') [''a'', ''b''] 0 = (Inr [''xa'', buildErrorResponse ''no'' 1], 2)"
    by (simp add: answer_request_def bindS_def)
  have "length (buildErrorResponse ''no'' 1) = 23" by code_simp
  then have short: "list_all (\<lambda>r. length r < 2 ^ 32) [''xa'', buildErrorResponse ''no'' 1]" by simp
  from session_answers_in_order [OF ok ans short, of "[]" "[]"] show ?thesis by (auto simp: numeral_2_eq_2)
qed

subsection \<open>Many clients\<close>

text \<open>
  C38: However the event loop interleaves its callbacks, with any number of clients and with reads and writes
  failing at any time, and whatever else works on the state of the handler between them: the handler has run
  the requests of all clients one after the other and each answer is the one it gave; what has been written to a client are the answers to its own requests in
  their order, complete between two requests and cut off only if the connection is over; its requests are the first frames
  it has sent, none empty or above the limit; and the log has its connection once and the end of its connection
  once if it is over. Up to \<open>2 ^ 32\<close> connections, when the names of clients repeat.
\<close>

theorem connections_are_separate:
  assumes "net_run handler work s0 tr n" and "length (net_sessions n) \<le> 2 ^ 32"
  shows "served handler work client_name s0 (handled tr) (net_server n)
    \<and> (\<forall>i < length (net_sessions n).
        let s = net_sessions n ! i; xs = map snd (filter (\<lambda>call. fst call = i) (handled tr)) in
          (\<exists>unread. arrivals i tr = concat (map (\<lambda>(q, r). frame q) xs) @ unread)
          \<and> list_all (\<lambda>(q, r). q \<noteq> [] \<and> length q \<le> kMaxRequestBodySize) xs
          \<and> (case se_phase s of
               Over \<Rightarrow> \<exists>unsent. se_out s @ unsent = concat (map (\<lambda>(q, r). frame r) xs)
             | Writing response \<Rightarrow> se_out s @ frame response = concat (map (\<lambda>(q, r). frame r) xs)
             | _ \<Rightarrow> se_out s = concat (map (\<lambda>(q, r). frame r) xs))
          \<and> log_of i n = (if se_phase s = Over then [True, False] else [True]))"
proof -
  note inv = sessions_invD [OF run_sessions [OF assms(1)]]
  have "\<exists>unread. arrivals i tr = requests (exchanges i tr) @ unread" if "i < length (net_sessions n)" for i
    using inv(2) [OF that] by (auto simp: session_inv.simps split: phase.splits)
  moreover have "case se_phase (net_sessions n ! i) of
      Over \<Rightarrow> \<exists>unsent. se_out (net_sessions n ! i) @ unsent = responses (exchanges i tr)
    | Writing response \<Rightarrow> se_out (net_sessions n ! i) @ frame response = responses (exchanges i tr)
    | _ \<Rightarrow> se_out (net_sessions n ! i) = responses (exchanges i tr)" if "i < length (net_sessions n)" for i
    using inv(2) [OF that] by (auto simp: session_inv.simps split: phase.splits)
  moreover have "list_all (\<lambda>(q, r). q \<noteq> [] \<and> length q \<le> kMaxRequestBodySize) (exchanges i tr)" for i
    using inv(4) [of i] by (auto simp: list_all_iff acceptable_def)
  moreover have "log_of i n = (if se_phase (net_sessions n ! i) = Over then [True, False] else [True])"
    if "i < length (net_sessions n)" for i
    using run_logged [OF assms] that by (simp add: logged_def)
  ultimately show ?thesis
    unfolding Let_def exchanges_def [symmetric] requests_def [symmetric] responses_def [symmetric]
    using run_served [OF assms(1)] by blast
qed

text \<open>A client that has got an answer, and then a second one whose request is refused.\<close>

definition one_request :: "string \<Rightarrow> string \<Rightarrow> net_event list" where
  "one_request q r = [Joined, Arrived 0 (frame q), Silent, Handled 0 q r, Silent]"

definition after_one :: "string \<Rightarrow> 's \<Rightarrow> 's net" where
  "after_one r s = \<lparr>net_server = s, net_next = 2,
     net_sessions = [\<lparr>se_client = ''client_1'', se_phase = ReadingSize, se_in = [], se_out = frame r\<rparr>], net_log = [Connect 0 ''client_1'']\<rparr>"

lemmas net_eval = set_session_def set_logged_def bytes_arrived_def size_read_def body_read_def response_written_def disconnect_def
  new_session_def accepted_def Let_def

lemma client_names: "accept_client 1 = (''client_1'', 2)" "accept_client 2 = (''client_2'', 3)"
  by code_simp+

lemma one_request_run:
  assumes "handler q ''client_1'' s = (Inr r, s')" and "q \<noteq> []" and "length q \<le> kMaxRequestBodySize"
  shows "net_run handler work s (one_request q r) (after_one r s')"
proof -
  let ?s = "\<lambda>p i. \<lparr>se_client = ''client_1'', se_phase = p, se_in = i, se_out = []\<rparr>"
  let ?n = "\<lambda>x p i. \<lparr>net_server = x, net_next = 2, net_sessions = [?s p i], net_log = [Connect 0 ''client_1'']\<rparr>"
  have len: "length q mod 2 ^ 32 = length q" using assms(3) by (simp add: kMaxRequestBodySize_def)
  have "net_run handler work s ([] @ [Joined]) (?n s ReadingSize [])"
    using net_run.snoc [OF net_run.nil net_step.join [where now = 0]] by (simp add: start_net_def net_eval client_names)
  moreover have "net_step handler work (?n s ReadingSize []) (Arrived 0 (frame q)) (?n s ReadingSize (frame q))"
    using net_step.arrive [of 0 "?n s ReadingSize []" "?s ReadingSize []" handler work "frame q"] by (simp add: net_eval)
  moreover have "net_step handler work (?n s ReadingSize (frame q)) Silent (?n s (ReadingBody (length q)) q)"
    using net_step.size [of 0 "?n s ReadingSize (frame q)" "?s ReadingSize (frame q)" handler work 0] assms(2,3) len
    by (simp add: net_eval frame_def)
  moreover have "net_step handler work (?n s (ReadingBody (length q)) q) (Handled 0 q r) (?n s' (Writing r) [])"
    using net_step.body [of 0 "?n s (ReadingBody (length q)) q" "?s (ReadingBody (length q)) q" "length q" handler r s' work] assms(1)
    by (simp add: net_eval answer_request_def)
  moreover have "net_step handler work (?n s' (Writing r) []) Silent (after_one r s')"
    using net_step.written [of 0 "?n s' (Writing r) []" "?s (Writing r) []" r handler work] by (simp add: net_eval after_one_def)
  ultimately have "net_run handler work s ((((([] @ [Joined]) @ [Arrived 0 (frame q)]) @ [Silent]) @ [Handled 0 q r]) @ [Silent]) (after_one r s')"
    by (blast intro: net_run.snoc)
  then show ?thesis by (simp add: one_request_def)
qed

definition echo :: "string \<Rightarrow> string \<Rightarrow> (nat, string) sx" where
  "echo query client = (\<lambda>n. (Inr (client @ query), Suc n))"

definition sample_trace :: "net_event list" where
  "sample_trace = ((one_request ''q'' ''client_1q'' @ [Joined]) @ [Arrived 1 (frame [])]) @ [Silent]"

definition sample_net :: "nat net" where
  "sample_net = \<lparr>net_server = 1, net_next = 3,
     net_sessions = [\<lparr>se_client = ''client_1'', se_phase = ReadingSize, se_in = [], se_out = frame ''client_1q''\<rparr>,
       \<lparr>se_client = ''client_2'', se_phase = Over, se_in = [], se_out = []\<rparr>],
     net_log = [Connect 0 ''client_1'', Connect 0 ''client_2'', Disconnect 0 ''client_2'']\<rparr>"

lemma sample_run: "net_run echo work 0 sample_trace sample_net"
proof -
  let ?n = "\<lambda>i. \<lparr>net_server = 1 :: nat, net_next = 3, net_sessions =
      [\<lparr>se_client = ''client_1'', se_phase = ReadingSize, se_in = [], se_out = frame ''client_1q''\<rparr>,
       \<lparr>se_client = ''client_2'', se_phase = ReadingSize, se_in = i, se_out = []\<rparr>],
      net_log = [Connect 0 ''client_1'', Connect 0 ''client_2'']\<rparr>"
  have "net_run echo work 0 (one_request ''q'' ''client_1q'') (after_one ''client_1q'' 1)"
    by (rule one_request_run) (simp_all add: echo_def kMaxRequestBodySize_def)
  moreover have "net_step echo work (after_one ''client_1q'' 1) Joined (?n [])"
    using net_step.join [of echo work "after_one ''client_1q'' 1" 0] by (simp add: net_eval after_one_def client_names)
  moreover have "net_step echo work (?n []) (Arrived 1 (frame [])) (?n (frame []))"
    using net_step.arrive [of 1 "?n []" "net_sessions (?n []) ! 1" echo work "frame []"] by (simp add: net_eval)
  moreover have "net_step echo work (?n (frame [])) Silent sample_net"
    using net_step.size [of 1 "?n (frame [])" "net_sessions (?n (frame [])) ! 1" echo work 0] by (simp add: net_eval sample_net_def frame_def)
  ultimately show ?thesis unfolding sample_trace_def by (blast intro: net_run.snoc)
qed

theorem connections_are_separate_witness:
  "net_run echo (\<lambda>_ _. False) 0 sample_trace sample_net \<and> served echo (\<lambda>_ _. False) client_name 0 (handled sample_trace) 1
    \<and> log_of 0 sample_net = [True] \<and> log_of 1 sample_net = [True, False]"
proof -
  have n: "length (net_sessions sample_net) = 2" "se_phase (net_sessions sample_net ! 0) = ReadingSize"
    "se_phase (net_sessions sample_net ! 1) = Over" "net_server sample_net = 1" by (simp_all add: sample_net_def)
  then have "length (net_sessions sample_net) \<le> 2 ^ 32" by simp
  note w = connections_are_separate [OF sample_run [of "\<lambda>_ _. False"] this]
  have "log_of 0 sample_net = [True]" using w [THEN conjunct2, rule_format, of 0] n by (simp add: Let_def)
  moreover have "log_of 1 sample_net = [True, False]" using w [THEN conjunct2, rule_format, of 1] n by (simp add: Let_def)
  ultimately show ?thesis using sample_run w [THEN conjunct1] n(4) by simp
qed

subsection \<open>A client and the service\<close>


definition idle :: "'e exec \<Rightarrow> bool" where
  "idle s \<longleftrightarrow> ex_worker s = Waiting \<and> ex_queue s = [] \<and> \<not> ex_stop s"





subsection \<open>One statement over the socket\<close>

text \<open>
  From here on the client talks to the service through its session. Each command that the service gets
  takes a new id and new readings of the clock, so the number of commands so far is part of the state.
\<close>

definition supplied :: "'e handler \<Rightarrow> (time \<Rightarrow> string) \<Rightarrow> (nat \<Rightarrow> environment) \<Rightarrow> string \<Rightarrow> string \<Rightarrow> ('e exec \<times> nat, string) sx" where
  "supplied h ts envs query client = (\<lambda>(s, n).
     case handleClientCommand h ts (envs n) query client s of (r, s') \<Rightarrow> (r, s', Suc n))"











subsection \<open>The whole server\<close>

text \<open>
  The event loop with the service behind it, and the worker making its turns at any time between two
  callbacks.
\<close>

definition worker_moves :: "'e handler \<Rightarrow> 'e exec \<times> nat \<Rightarrow> 'e exec \<times> nat \<Rightarrow> bool" where
  "worker_moves h x y \<longleftrightarrow> (\<exists>t t'. worker_turn h t t' (fst x) = Some (fst y)) \<and> snd y = snd x"

fun is_command :: "event \<Rightarrow> bool" where
  "is_command (Submitted j) = True"
| "is_command (Answered q) = True"
| "is_command Asked = True"
| "is_command _ = False"

fun commands :: "(nat \<Rightarrow> environment) \<Rightarrow> nat \<Rightarrow> (nat \<times> string \<times> string) list \<Rightarrow> event list" where
  \<comment> \<open>what the calls of the handler are to the service\<close>
  "commands envs n [] = []"
| "commands envs n ((i, q, r) # cs) = command_event (envs n) q (client_name i) # commands envs (Suc n) cs"

lemma commands_snoc: "commands envs n (cs @ [(i, q, r)]) = commands envs n cs @ [command_event (envs (n + length cs)) q (client_name i)]"
  by (induction envs n cs rule: commands.induct) simp_all

lemma command_event_is: "is_command (command_event io q client)"
  by (simp add: command_event_def split: api_command.split)

lemma turn_event_is: "\<not> is_command (turn_event s)"
  by (simp add: turn_event_def split: worker.split)

lemma answered_by_service:
  assumes "answer_request (supplied h ts envs) client q u = (Inr r, u')"
  shows "handleClientCommand h ts (envs (snd u)) q client (fst u) = (Inr r, fst u')" and "snd u' = Suc (snd u)"
proof -
  obtain x s' where x: "handleClientCommand h ts (envs (snd u)) q client (fst u) = (x, s')"
    by (cases "handleClientCommand h ts (envs (snd u)) q client (fst u)")
  have "exn_text e = None" if "x = Inl e" for e
    using x that by (auto simp: handleClientCommand_def service_submit_def executeSync_def Let_def
        split: api_command.splits if_splits prod.splits sum.splits option.splits)
  then show "handleClientCommand h ts (envs (snd u)) q client (fst u) = (Inr r, fst u')" "snd u' = Suc (snd u)"
    using assms x by (auto simp: answer_request_def supplied_def split: sum.splits prod.splits)
qed

lemma served_is_service_run:
  assumes "served (supplied h ts envs) (worker_moves h) client_name (s0, 0) cs u"
  shows "\<exists>tr. service_run h s0 tr (fst u) \<and> filter is_command tr = commands envs 0 cs \<and> snd u = length cs"
  using assms
proof (induction rule: served.induct)
  case idle
  show ?case using service_run.nil by fastforce
next
  case (call cs u i q r u')
  then obtain tr where tr: "service_run h s0 tr (fst u)" "filter is_command tr = commands envs 0 cs" "snd u = length cs" by blast
  note a = answered_by_service [OF call.hyps(2)]
  have "service_step h (fst u) (command_event (envs (length cs)) q (client_name i)) (fst u')"
    using service_step.command [OF a(1)] tr(3) by simp
  from service_run.snoc [OF tr(1) this] show ?case
    using a(2) tr(2,3) command_event_is
    by (intro exI [of _ "tr @ [command_event (envs (length cs)) q (client_name i)]"]) (simp add: commands_snoc)
next
  case (work cs u u')
  then obtain tr where tr: "service_run h s0 tr (fst u)" "filter is_command tr = commands envs 0 cs" "snd u = length cs" by blast
  have "service_step h (fst u) (turn_event (fst u)) (fst u')" "snd u' = snd u"
    using work.hyps(2) by (auto simp: worker_moves_def intro: service_step.turn)
  from service_run.snoc [OF tr(1) this(1)] this(2) show ?case
    using tr(2,3) turn_event_is by (intro exI [of _ "tr @ [turn_event (fst u)]"]) simp
qed

text \<open>
  C39: The server with all its connections refines the service: whatever the event loop and the worker do, and
  in whatever order, is a run of the service in which the requests that the sessions have handed over are, in the
  order of their callbacks, the commands of the run, each with the id and the clock of its turn. So
  what holds for every run of the service, such as the order of the statements, holds for the server.
\<close>

theorem server_refines_service:
  assumes "net_run (supplied h ts envs) (worker_moves h) (s0, 0) tr n"
  shows "\<exists>tr'. service_run h s0 tr' (fst (net_server n)) \<and> filter is_command tr' = commands envs 0 (handled tr)
    \<and> snd (net_server n) = length (handled tr)"
  using served_is_service_run [OF run_served [OF assms]] .

definition sample_id :: string where
  "sample_id = generateRequestId 1 2 3 4 5 6"

theorem server_refines_service_witness:
  "\<exists>s n tr'. start_server [] = Inr s
    \<and> net_run (supplied (execute (\<lambda>_ _. Inr True)) (\<lambda>_. []) (\<lambda>_. \<lparr>env_id = sample_id, env_start = 0, env_end = 0\<rparr>))
        (worker_moves (execute (\<lambda>_ _. Inr True))) (s, 0)
        (one_request ''CREATE DATABASE d;'' (buildAsyncAcceptedResponse sample_id) @ [Silent]) n
    \<and> (\<exists>j. ex_worker (fst (net_server n)) = Took j)
    \<and> service_run (execute (\<lambda>_ _. Inr True)) s tr' (fst (net_server n))
    \<and> filter is_command tr' = [Submitted \<lparr>job_id = sample_id, job_client = ''client_1'', job_query = ''CREATE DATABASE d;''\<rparr>]"
proof -
  let ?h = "execute (\<lambda>_ _. Inr True)" and ?q = "''CREATE DATABASE d;''" and ?envs = "\<lambda>_ :: nat. \<lparr>env_id = sample_id, env_start = 0, env_end = 0\<rparr>"
  let ?e = "\<lparr>eng_dbms = \<lparr>dbms_pool = new_pool, dbms_databases = [], dbms_active = [], dbms_root = []\<rparr>, eng_used_index = False\<rparr>"
  let ?s = "start_service ?e" and ?r = "buildAsyncAcceptedResponse sample_id" and ?j = "\<lparr>job_id = sample_id, job_client = ''client_1'', job_query = ?q\<rparr>"
  let ?s1 = "submit_job sample_id 0 ?q ''client_1'' ?s"
  have p: "parseApiCommand ?q = SubmitQuery ?q" "classifyExecutionMode ?q = Async" by code_simp+
  have name: "client_name 0 = ''client_1''" by (simp add: client_name_def client_names)
  have "supplied ?h (\<lambda>_. []) ?envs ?q ''client_1'' (?s, 0) = (Inr ?r, ?s1, 1)"
    by (simp add: supplied_def handleClientCommand_def p service_submit_def)
  from one_request_run [where handler = "supplied ?h (\<lambda>_. []) ?envs" and work = "worker_moves ?h", OF this]
  have 1: "net_run (supplied ?h (\<lambda>_. []) ?envs) (worker_moves ?h) (?s, 0) (one_request ?q ?r) (after_one ?r (?s1, 1))"
    by (simp add: kMaxRequestBodySize_def)
  have "\<exists>s2. worker_turn ?h 0 0 ?s1 = Some s2 \<and> ex_worker s2 = Took ?j"
    by (simp add: worker_turn_def take_job_def submit_job_def start_service_def start_executor_def)
  then obtain s2 where s2: "worker_turn ?h 0 0 ?s1 = Some s2" "ex_worker s2 = Took ?j" by blast
  then have "worker_moves ?h (net_server (after_one ?r (?s1, 1 :: nat))) (s2, 1)" by (auto simp: worker_moves_def after_one_def)
  note run = net_run.snoc [OF 1 net_step.work [where work = "worker_moves ?h", OF this]]
  obtain tr' where tr': "service_run ?h ?s tr' s2" "filter is_command tr' = commands ?envs 0 (handled (one_request ?q ?r @ [Silent]))"
    using server_refines_service [OF run] by auto
  have "handled (one_request ?q ?r @ [Silent]) = [(0, ?q, ?r)]" by (simp add: one_request_def)
  then have "filter is_command tr' = [Submitted ?j]" using tr'(2) by (simp add: command_event_def p name)
  then show ?thesis using run tr'(1) s2(2) empty_server by (intro exI [of _ ?s] exI [of _ "after_one ?r (?s1, 1)\<lparr>net_server := (s2, 1)\<rparr>"] exI [of _ tr']) auto
qed

subsection \<open>Scripts\<close>








end
