(* ===== verification/Index_Demo.thy ===== *)
theory Index_Demo
  imports Programs BStar_Contract
begin

section \<open>The demonstration of the index\<close>

text \<open>
  \<open>btree_debug\<close> (\<open>index/main.cpp\<close>): a program that uses the index alone, on the file \<open>tt.txt\<close> in its working
  directory. It is run here to its end, which needs the contracts of four operations, and then once
  more on the file it has left.
\<close>

definition print_found :: "64 word option \<Rightarrow> console \<Rightarrow> console" where
  \<comment> \<open>\<open>print\<close>\<close>
  "print_found r = (case r of Some rec \<Rightarrow> out_line (decimal (uint rec)) | None \<Rightarrow> out_line ''No such'')"

definition on_index :: "(bindex, 'a) sx \<Rightarrow> (bindex \<times> console, 'a) sx" where
  "on_index f = (\<lambda>(ix, c). case f ix of (r, ix') \<Rightarrow> (r, ix', c))"

definition on_console :: "(console \<Rightarrow> console) \<Rightarrow> (bindex \<times> console, unit) sx" where
  "on_console f = modS (\<lambda>(ix, c). (ix, f c))"

definition insert_all :: "(index_key \<times> 64 word) list \<Rightarrow> (bindex, unit) sx" where
  "insert_all kvs = foldr (\<lambda>(k, v) rest. bindS (insert_key k v) (\<lambda>_. rest)) kvs (retS ())"

fun print_all :: "index_key list \<Rightarrow> (bindex \<times> console, unit) sx" where
  "print_all [] = retS ()"
| "print_all (k # ks) =
     bindS (on_index (askE (find_key k))) (\<lambda>r. bindS (on_console (print_found r)) (\<lambda>_. print_all ks))"

definition demo_body :: "(bindex \<times> console, unit) sx" where
  "demo_body =
     bindS (on_index (insert_all [(KInt 123, 100), (KInt 190, 101), (KInt 9999, 116)])) (\<lambda>_.
     bindS (print_all [KInt 10, KInt 11, KInt 12, KInt 15]) (\<lambda>_.
     bindS (on_console (out_line [])) (\<lambda>_.
     bindS (on_index (askE (range_search (KInt 150) (KInt 10000000)))) (\<lambda>rs.
     bindS (on_console (out (lines (map (\<lambda>r. decimal (uint r)) rs)))) (\<lambda>_.
     on_console (out_line ''Success!''))))))"

definition demo_error :: "exn \<Rightarrow> console \<Rightarrow> console" where
  "demo_error e = (case exn_text e of Some m \<Rightarrow> err_line (''Error: '' @ m) | None \<Rightarrow> err_line ''Unknown error'')"

definition demo_main :: "char list option \<Rightarrow> console \<Rightarrow> console \<times> bindex option" where
  \<comment> \<open>on the content of the file, if there is one; what is printed, and the index as it is closed\<close>
  "demo_main content c =
     (case open_index content KindInt64 of
        Inl e \<Rightarrow> (demo_error e c, None)
      | Inr ix \<Rightarrow>
          (case demo_body (ix, c) of
             (Inl e, ix', c') \<Rightarrow> (demo_error e c', Some ix')
           | (Inr _, ix', c') \<Rightarrow> (c', Some ix')))"

lemma insert_all_rep:
  assumes "index_rep ix kvs" and "list_all (\<lambda>(k, v). key_ok (kind_of ix) k) new" and "distinct (map fst new)"
    and "\<forall>k \<in> fst ` set new. map_of kvs k = None" and "room_for (length new) ix"
  shows "\<exists>ix'. insert_all new ix = (Inr (), ix') \<and> index_rep ix' (fold (\<lambda>(k, v). ins k v) new kvs) \<and> kind_of ix' = kind_of ix"
  using assms
proof (induction new arbitrary: ix kvs)
  case (Cons kv new)
  obtain k v where kv: "kv = (k, v)" by (cases kv)
  have "index_room ix" using Cons.prems(5) by (simp add: room_for_def index_room_def)
  then obtain ix1 where i: "insert_key k v ix = (Inr (), ix1)" "index_rep ix1 (ins k v kvs)" "kind_of ix1 = kind_of ix"
    "pcount ix1 \<le> pcount ix + 53"
    using insert_key_rep [of ix kvs k v] Cons.prems kv by auto
  have "ksorted kvs" using Cons.prems(1) by (simp add: index_rep_def)
  then have "\<forall>k' \<in> fst ` set new. map_of (ins k v kvs) k' = None"
    using Cons.prems(3,4) kv by (auto simp: map_of_ins)
  moreover have "room_for (length new) ix1" using Cons.prems(5) i(4) by (simp add: room_for_def)
  ultimately obtain ix' where "insert_all new ix1 = (Inr (), ix')" "index_rep ix' (fold (\<lambda>(k, v). ins k v) new (ins k v kvs))"
    "kind_of ix' = kind_of ix1"
    using Cons.IH [OF i(2)] Cons.prems(2,3) i(3) kv by auto
  then show ?case using i(1,3) kv by (simp add: insert_all_def bindS_def)
qed (simp add: insert_all_def)

lemma demo_first_run:
  "\<exists>ix. demo_main None c = (out (lines [''No such'', ''No such'', ''No such'', ''No such'', [], ''101'', ''116'', ''Success!'']) c, Some ix)
    \<and> index_rep ix [(KInt 123, 100), (KInt 190, 101), (KInt 9999, 116)] \<and> kind_of ix = KindInt64"
proof -
  let ?new = "[(KInt 123, 100), (KInt 190, 101), (KInt 9999, 116)]"
  obtain ix where ix: "open_index None KindInt64 = Inr ix" "index_rep ix []" "kind_of ix = KindInt64" "pcount ix = 0"
    by (rule new_int_index)
  then obtain ix' where ix': "insert_all ?new ix = (Inr (), ix')" "index_rep ix' (fold (\<lambda>(k, v). ins k v) ?new [])" "kind_of ix' = KindInt64"
    using insert_all_rep [OF ix(2), of ?new] by (auto simp: room_for_def PAGE_LIMIT_def)
  have s: "fold (\<lambda>(k, v). ins k v) ?new [] = ?new" by (simp add: ins_def)
  have "find_key (KInt k) ix' = Inr (map_of ?new (KInt k))" for k using find_key_rep [OF ix'(2)] ix'(3) s by simp
  moreover have "range_search (KInt 150) (KInt 10000000) ix' = Inr [101, 116]"
    using range_search_rep [OF ix'(2)] ix'(3) s by (simp add: in_range_def)
  moreover have "decimal 101 = ''101''" "decimal 116 = ''116''" by code_simp+
  ultimately show ?thesis using ix ix' s
    by (simp add: demo_main_def demo_body_def bindS_def on_index_def on_console_def print_found_def out_line_def)
qed

text \<open>The file it leaves makes the next run stop at its first insertion.\<close>

lemma demo_second_run:
  assumes "index_rep ix [(KInt 123, 100), (KInt 190, 101), (KInt 9999, 116)]" and "kind_of ix = KindInt64"
  shows "demo_main (Some (disk_file (bx_disk ix))) c = (err_line ''Error: Duplicate index key'' c, Some ix)"
  using insert_key_rep_duplicate [OF assms(1), of "KInt 123" 100] assms(2)
  by (simp add: demo_main_def reopen_index [OF assms(1)] demo_body_def insert_all_def bindS_def on_index_def demo_error_def)

end
