(* ===== verification/Spec2Isabelle.thy ===== *)
theory Spec2Isabelle
  imports BStar_Contract Table_Contract Parser_Contract Create_Contract Client_Contract Index_Demo
begin

text \<open>
  A model of the DBMS of this repository: a server that takes statements over a socket, parses them,
  runs them on tables kept in memory with persistent B*+-tree indexes, and saves every table to a
  file after each change.

  \<^bold>\<open>How the program is put together.\<close> \<open>client\<close> sends the text of a statement in a frame.
  \<open>server/server_socket\<close> hands the body to \<open>executor/executor_service\<close>, which answers \<open>GET STATUS\<close>
  and \<open>GET RESULT\<close> itself, runs \<open>SELECT\<close> and \<open>USE\<close> at once and queues everything else for one
  worker thread (\<open>executor/async_executor\<close>). Both ways end in \<open>executor/query_engine\<close>, which uses
  \<open>server/parser\<close> for the text, \<open>storage\<close> for databases, tables, values and files, and
  \<open>storage/index\<close> with \<open>index\<close> for the indexes.

  \<^bold>\<open>Theories, from the bottom up.\<close>
  \<^item> \<open>Prelude\<close>: exceptions (\<open>exn\<close>), fallible code (\<open>bindE\<close>), fallible code that changes a state
    (\<open>bindS\<close>; the state is kept in the error case), byte images of integers. \<open>C_Runtime\<close>: what
    is used of the C++ library (\<open>cctype\<close>, \<open>istream::read\<close>, \<open>stoi\<close>, \<open>stoll\<close>).
  \<^item> \<open>Index_Key\<close>, \<open>Node_Codec\<close>, \<open>Disk_Manager\<close>: keys and their order, nodes and their pages,
    the page file (\<open>index/src/DiskManager.cpp\<close> and the codec half of
    \<open>index/src/bstarplus_tree_index.cpp\<close>). The locales \<open>page_store\<close> and \<open>index_file\<close> are what the
    tree relies on, interpreted on the page file.
  \<^item> \<open>BStar_Tree\<close> (reading) and \<open>BStar_Modify\<close> (writing): \<open>class BStarPlusIndex\<close>, one definition
    per method. \<open>BStar_Repr\<close> says which tree the pages spell out; \<open>BStar_State\<close>, \<open>BStar_Steps\<close>,
    \<open>BStar_Search\<close>, \<open>BStar_Pairs\<close>, \<open>BStar_Insert\<close> and \<open>BStar_Erase\<close> prove every operation
    against it; \<open>BStar_Index\<close> states the result as the locale \<open>unique_index\<close> over finite maps and
    interprets it; \<open>Index_Range\<close> extends it to ranges. \<open>BStar_Overlong\<close> is about keys that the
    index accepts but cannot store. \<open>BStar_Contract\<close> has the properties.
  \<^item> \<open>String_Pool\<close>, \<open>Values\<close>, \<open>Table_Model\<close>, \<open>Table_Store\<close>: the interned strings, values, schemas,
    tables with their indexes, and the table file (\<open>storage/src\<close>). \<open>Table_Index\<close> interprets
    \<open>unique_index\<close> for the adapter; \<open>Table_Inv\<close> has the invariant \<open>table_ok\<close>, \<open>Table_Ops\<close> proves the
    operations, \<open>Table_Contract\<close> has the properties.
  \<^item> \<open>Lexer\<close>, \<open>Parser\<close> (\<open>server/parser/src\<close>): text to tokens to commands. \<open>Lexer_Props\<close> and
    \<open>Parser_Total\<close> bound their errors and prove that they return; \<open>Parser_Conditions\<close> gives \<open>WHERE\<close>
    clauses a meaning; \<open>Parser_Roundtrip\<close> and \<open>Parser_Print\<close> print commands and read them back;
    \<open>Parser_Contract\<close> has the properties.
  \<^item> \<open>Query_Model\<close> (statements on one table), \<open>Dbms_Model\<close> (databases and the data directory),
    \<open>Query_Engine\<close> (\<open>class DbmsQueryEngine\<close>). \<open>Query_Props\<close> gives conditions their meaning on data
    and proves that index and scan agree; \<open>Query_Select\<close> does \<open>SELECT\<close> and \<open>DELETE\<close>;
    \<open>Dbms_Props\<close> has the invariant \<open>dbms_ok\<close> and saving; \<open>Query_Change\<close> and \<open>Query_Update\<close> specify
    \<open>INSERT\<close> and \<open>UPDATE\<close> over plain data and prove that the engine refines this; \<open>Query_Restart\<close>
    follows the files into a new process; \<open>Query_Create\<close> does \<open>CREATE\<close> and \<open>DROP\<close>. \<open>Query_Contract\<close>,
    \<open>Restart_Contract\<close> and \<open>Create_Contract\<close> have the properties.
  \<^item> \<open>Executor_Text\<close> (\<open>string_utils.h\<close>, \<open>query_classifier.cpp\<close>, \<open>request_api.cpp\<close>,
    \<open>request_types\<close>, \<open>json_response.cpp\<close>, the lines of \<open>access_logger.cpp\<close>), \<open>Async_Executor\<close> (the
    queue, the worker and the snapshots; the handler is a parameter, in the server
    \<open>DbmsQueryEngine::execute\<close>), \<open>Executor_Service\<close> (the commands, and the step relation in which the
    thread of the sockets and the worker interleave at the executor's critical sections).
    \<open>Service_Props\<close> has the invariants of all runs: order, what the snapshots tell, progress.
    \<open>Service_Contract\<close> has the properties.
  \<^item> \<open>Session\<close> (\<open>server_socket.cpp\<close>: frames and the loop of a session) and \<open>Client\<close>
    (\<open>client_protocol.h\<close>, \<open>main_client.cpp\<close>); \<open>Server_Main\<close> (\<open>main_server.cpp\<close>, the lines of
    \<open>logger.cpp\<close>) makes the query engine the handler of the service.
  \<^item> \<open>Server_Net\<close>: the callbacks of \<open>server_socket.cpp\<close> as a step relation over all connections
    (\<open>Session::readRequest\<close>, \<open>readBody\<close>, \<open>sendResponse\<close>, \<open>Server::accept\<close>), with the network deciding when bytes
    arrive and what fails, and the connection log; its invariant, and that one session is the loop of
    \<open>Session\<close>. \<open>Programs\<close>: both \<open>main\<close> functions from the command line to the exit code, with what they
    print; a script and a terminal send the same commands; what a restart of the server program meets.
    \<open>Client_Contract\<close> composes client, socket, session, service and engine, up to a whole script, and
    shows that the server with all its connections refines the service, so that the properties of
    \<open>Service_Contract\<close> hold for it.
    \<open>Index_Demo\<close>: the program \<open>index/main.cpp\<close> (\<open>btree_debug\<close>), run twice.

  \<^bold>\<open>Bounds and fuel.\<close> Walks along page links are bounded by the number of pages plus one, which no
  walk over a well-formed index exceeds; the parser's loops by the number of tokens plus one, and
  theorem \<open>parse_text_returns\<close> shows that this is always enough. Hypotheses such as \<open>room_for\<close>, \<open>indexes_room\<close> and
  \<open>pool_room\<close> say that page numbers and string ids do not leave their 64 and 32 bits; they hold for
  every index below \<open>2 ^ 40\<close> pages and every pool below \<open>2 ^ 32\<close> strings.

  The k-th request is done after \<open>5 k + 4\<close> turns of the worker, which makes five for each.

  \<^bold>\<open>What is left open.\<close> Two requests with the same random id are possible in the code and excluded by
  a hypothesis where it matters. The access log is the list of its entries; two lines written at the
  same moment by the two threads have the order of the steps. A statement is one step, because the engine
  holds its mutex while it runs.

  \<^bold>\<open>Not modelled.\<close> The inside of Boost.Asio (what arrives on a connection, and when an operation on it
  fails, is free in \<open>Server_Net\<close>), \<open>std::regex\<close> for \<open>LIKE\<close> (a parameter of the query engine), the random
  engine and the clock (inputs), the printing of time points (a parameter), failures of the file system
  while the server runs, the end of the server program by a signal, and the tests. What remains of
  the sources without a definition of its own are declarations in headers, accessors that are a record's
  selector here, locks, and constructors that only copy their arguments.
\<close>

end
